(* ===== verification/Prelude.thy ===== *)
theory Prelude
  imports Main "HOL-Library.List_Lexorder" "HOL-Library.Char_ord" "HOL-Library.Sublist"
begin

text \<open>
  What the components share: JSON-shaped values with the reading rules of a Python dict,
  exceptions as values and the bind of the result type, sorting of sets of strings, and the
  generic lemmas on lists the component proofs rest on.

  A Python \<open>str\<close> is the \<open>string\<close> of its UTF-8 bytes: comparison, equality, concatenation and
  substring search agree with the code points. Functions that count or classify characters
  (white space, case, lengths, JSON escapes) are exact on ASCII text, and say so.
\<close>

named_theorems res_simps "computation rules of the result type"

section \<open>JSON values and payload dictionaries\<close>

text \<open>
  A float keeps its Python \<open>repr\<close>: no code modelled here computes with a stored float.
  A dict is an association list without duplicate keys.
\<close>

datatype json =
    JNull
  | JBool bool
  | JInt int
  | JFloat string
  | JStr string
  | JList "json list"
  | JObj "(string \<times> json) list"

type_synonym payload = "(string \<times> json) list"

text \<open>\<open>d.get(k)\<close>: Python's \<open>None\<close> for a missing key; \<open>k in d\<close>.\<close>

definition jget :: "payload \<Rightarrow> string \<Rightarrow> json" where
  "jget p k = (case map_of p k of None \<Rightarrow> JNull | Some v \<Rightarrow> v)"

definition jhas :: "payload \<Rightarrow> string \<Rightarrow> bool" where
  "jhas p k \<longleftrightarrow> k \<in> set (map fst p)"

text \<open>Truthiness of a value, as \<open>not v\<close> and \<open>v or w\<close> use it.\<close>

fun truthy :: "json \<Rightarrow> bool" where
  "truthy JNull = False"
| "truthy (JBool b) = b"
| "truthy (JInt i) = (i \<noteq> 0)"
| "truthy (JFloat r) = (r \<noteq> ''0.0'' \<and> r \<noteq> ''-0.0'')"
| "truthy (JStr s) = (s \<noteq> [])"
| "truthy (JList xs) = (xs \<noteq> [])"
| "truthy (JObj kvs) = (kvs \<noteq> [])"

fun is_str :: "json \<Rightarrow> bool" where
  "is_str (JStr _) = True"
| "is_str _ = False"

text \<open>\<open>isinstance(v, str) and v != ""\<close>, and the string itself where the code has checked it.\<close>

fun is_text :: "json \<Rightarrow> bool" where
  "is_text (JStr s) = (s \<noteq> [])"
| "is_text _ = False"

fun str_of :: "json \<Rightarrow> string" where
  "str_of (JStr s) = s"
| "str_of _ = []"

text \<open>An optional string as the value the SDK stores: \<open>None\<close> becomes null.\<close>

fun jopt :: "string option \<Rightarrow> json" where
  "jopt None = JNull"
| "jopt (Some s) = JStr s"

fun jopt_int :: "int option \<Rightarrow> json" where
  "jopt_int None = JNull"
| "jopt_int (Some i) = JInt i"

lemma jget_simps [simp]:
  "jget [] k = JNull"
  "jget ((k', v) # p) k = (if k' = k then v else jget p k)"
  by (auto simp: jget_def)

lemma jhas_simps [simp]:
  "jhas [] k = False"
  "jhas ((k', v) # p) k = (k' = k \<or> jhas p k)"
  by (auto simp: jhas_def)

lemma jget_missing: "\<not> jhas p k \<Longrightarrow> jget p k = JNull"
  by (induction p) auto

lemma is_text_iff: "is_text v \<longleftrightarrow> (\<exists>s. v = JStr s \<and> s \<noteq> [])"
  by (cases v) auto

lemma jopt_inj [simp]: "jopt a = jopt b \<longleftrightarrow> a = b"
  by (cases a; cases b) auto

section \<open>Exceptions and results\<close>

text \<open>
  An exception is its class, a tag for the fixed text of its message and the values the
  message interpolates. \<open>StoreErr\<close> stands for whatever the Qdrant client raises (transport
  errors and refusals), \<open>StoreStatus\<close> for an HTTP status it reports. \<open>Unfinished\<close> is not an
  exception of the program: it marks a paginated scan that used up the page budget of the
  model, and the theorems show that a lawful store never produces it.
\<close>

datatype exn_class =
    RuntimeErr
  | ValueErr
  | TypeErr
  | KeyErr
  | StoreErr
  | StoreStatus int
  | DimMismatchErr
  | PolicyMismatchErr
  | PolicyClaimErr
  | UnsupportedLegacyErr
  | UnboundGenerationErr
  | SourceCatalogErr
  | CatalogRefusedErr
  | BoundErr
  | EvidenceErr
  | AccessUnavailableErr
  | UnauthenticatedErr
  | TruncatedStreamErr
  | PromptBudgetErr
  | TimeoutErr
  | HttpErr
  | OsErr
  | AttributeErr
  | StopErr
  | Unfinished

datatype exn = Exn (exn_cls: exn_class) (exn_tag: string) (exn_args: "json list")

type_synonym 'a res = "exn + 'a"

text \<open>A line of a report the code builds as a string: its fixed text by a tag, and its values.\<close>

datatype remark = Remark (remark_tag: string) (remark_args: "json list")

abbreviation raise_exn :: "exn_class \<Rightarrow> string \<Rightarrow> json list \<Rightarrow> 'a res" where
  "raise_exn c t vs \<equiv> Inl (Exn c t vs)"

text \<open>Evaluation order: the first exception ends the computation.\<close>

definition rbind :: "'a res \<Rightarrow> ('a \<Rightarrow> 'b res) \<Rightarrow> 'b res" where
  "rbind m f = (case m of Inl e \<Rightarrow> Inl e | Inr x \<Rightarrow> f x)"

text \<open>\<open>if cond: raise ...\<close> as a step, and a loop of checks.\<close>

definition ensure :: "bool \<Rightarrow> exn \<Rightarrow> unit res" where
  "ensure ok e = (if ok then Inr () else Inl e)"

fun res_map :: "('a \<Rightarrow> 'b res) \<Rightarrow> 'a list \<Rightarrow> 'b list res" where
  "res_map f [] = Inr []"
| "res_map f (x # xs) = rbind (f x) (\<lambda>y. rbind (res_map f xs) (\<lambda>ys. Inr (y # ys)))"

lemma rbind_simps [simp]:
  "rbind (Inl e) f = Inl e"
  "rbind (Inr x) f = f x"
  by (simp_all add: rbind_def)

lemma rbind_Inr_iff [res_simps]: "rbind m f = Inr y \<longleftrightarrow> (\<exists>x. m = Inr x \<and> f x = Inr y)"
  by (cases m) auto

lemma rbind_Inl_iff: "rbind m f = Inl e \<longleftrightarrow> m = Inl e \<or> (\<exists>x. m = Inr x \<and> f x = Inl e)"
  by (cases m) auto

lemma ensure_Inr_iff [res_simps, simp]: "ensure ok e = Inr u \<longleftrightarrow> ok"
  by (simp add: ensure_def)

lemma ensure_simps [simp]:
  "ensure True e = Inr ()"
  "ensure False e = Inl e"
  by (simp_all add: ensure_def)

lemma res_map_Inr_iff:
  "res_map f xs = Inr ys \<longleftrightarrow> list_all2 (\<lambda>x y. f x = Inr y) xs ys"
  by (induction xs arbitrary: ys) (auto simp: rbind_Inr_iff list_all2_Cons1)

lemma res_map_total: "(\<And>x. x \<in> set xs \<Longrightarrow> f x = Inr (g x)) \<Longrightarrow> res_map f xs = Inr (map g xs)"
  by (induction xs) auto

section \<open>Sorted lists of sets\<close>

text \<open>\<open>sorted(set(xs))\<close>: Python compares strings by code point, first difference first.\<close>

definition sorted_set :: "('a::linorder) list \<Rightarrow> 'a list" where
  "sorted_set xs = sort (remdups xs)"

lemma set_sorted_set [simp]: "set (sorted_set xs) = set xs"
  by (simp add: sorted_set_def)

lemma sorted_sorted_set [simp]: "sorted (sorted_set xs)"
  by (simp add: sorted_set_def)

lemma distinct_sorted_set [simp]: "distinct (sorted_set xs)"
  by (simp add: sorted_set_def)

lemma sorted_set_empty_iff [simp]: "sorted_set xs = [] \<longleftrightarrow> xs = []"
  by (metis set_empty set_sorted_set)

lemma sort_empty_iff [simp]: "sort xs = [] \<longleftrightarrow> xs = []"
  by (metis length_0_conv length_sort)

lemma sorted_set_cong: "set xs = set ys \<Longrightarrow> sorted_set xs = sorted_set ys"
  by (metis distinct_sorted_set set_sorted_set sorted_distinct_set_unique sorted_sorted_set)

section \<open>Python string operations\<close>

text \<open>ASCII white space, as \<open>str.strip\<close> and \<open>str.split\<close> see it in the one-byte range.\<close>

definition is_space :: "char \<Rightarrow> bool" where
  "is_space c \<longleftrightarrow> of_char c \<in> {9, 10, 11, 12, 13, 28, 29, 30, 31, 32, 133, 160 :: nat}"

definition lstrip :: "string \<Rightarrow> string" where
  "lstrip s = dropWhile is_space s"

definition rstrip :: "string \<Rightarrow> string" where
  "rstrip s = rev (dropWhile is_space (rev s))"

definition strip :: "string \<Rightarrow> string" where
  "strip s = rstrip (lstrip s)"

text \<open>\<open>s.partition(c)\<close> for a one-character separator: head, whether it was found, tail.\<close>

fun partition_at :: "char \<Rightarrow> string \<Rightarrow> string \<times> bool \<times> string" where
  "partition_at c [] = ([], False, [])"
| "partition_at c (x # xs) =
     (if x = c then ([], True, xs)
      else case partition_at c xs of (h, found, t) \<Rightarrow> (x # h, found, t))"

lemma partition_at_append:
  "partition_at c s = (h, found, t) \<Longrightarrow> c \<notin> set h \<and> s = h @ (if found then c # t else []) \<and> (\<not> found \<longrightarrow> t = [])"
  by (induction c s arbitrary: h found t rule: partition_at.induct)
     (force split: if_splits prod.splits)+

section \<open>Decimal text of integers\<close>

fun string_of_nat :: "nat \<Rightarrow> string" where
  "string_of_nat n =
     (if n < 10 then [char_of (48 + n)] else string_of_nat (n div 10) @ [char_of (48 + n mod 10)])"

declare string_of_nat.simps [simp del]

definition string_of_int :: "int \<Rightarrow> string" where
  "string_of_int i = (if i < 0 then CHR ''-'' # string_of_nat (nat (- i)) else string_of_nat (nat i))"

lemma string_of_nat_last: "last (string_of_nat n) = char_of (48 + n mod 10)"
  by (subst string_of_nat.simps) simp

lemma string_of_nat_nonempty [simp]: "string_of_nat n \<noteq> []"
  by (subst string_of_nat.simps) simp

lemma digit_char_inject: "a < 10 \<Longrightarrow> b < 10 \<Longrightarrow> (char_of (48 + a) :: char) = char_of (48 + b) \<longleftrightarrow> a = (b::nat)"
proof -
  assume a: "a < 10" "b < 10"
  have "(of_char (char_of (48 + a) :: char) :: nat) = 48 + a" "(of_char (char_of (48 + b) :: char) :: nat) = 48 + b"
    using a by (simp_all add: of_char_of)
  then show ?thesis by (metis add_left_cancel)
qed

lemma string_of_nat_inject [simp]: "string_of_nat m = string_of_nat n \<longleftrightarrow> m = n"
proof (induction m arbitrary: n rule: string_of_nat.induct)
  case (1 m)
  show ?case
  proof
    assume eq: "string_of_nat m = string_of_nat n"
    then have "(char_of (48 + m mod 10) :: char) = char_of (48 + n mod 10)"
      by (metis string_of_nat_last)
    then have md: "m mod 10 = n mod 10" using digit_char_inject [of "m mod 10" "n mod 10"] by simp
    show "m = n"
    proof (cases "m < 10")
      case True
      then have "length (string_of_nat n) = 1"
        by (subst eq [symmetric], subst string_of_nat.simps) simp
      then have "n < 10" by (subst (asm) string_of_nat.simps) (auto split: if_splits)
      with True md show ?thesis by simp
    next
      case False
      have "\<not> n < 10"
      proof
        assume "n < 10"
        then have "length (string_of_nat m) = 1"
          by (subst eq, subst string_of_nat.simps) simp
        with False show False by (subst (asm) string_of_nat.simps) (auto split: if_splits)
      qed
      then have "string_of_nat (m div 10) = string_of_nat (n div 10)"
        using eq False string_of_nat.simps [of m] string_of_nat.simps [of n] by simp
      with 1 False have "m div 10 = n div 10" by blast
      with md show ?thesis by (metis div_mult_mod_eq)
    qed
  qed simp
qed

lemma string_of_nat_digits: "c \<in> set (string_of_nat n) \<Longrightarrow> 48 \<le> (of_char c :: nat) \<and> (of_char c :: nat) < 58"
proof (induction n rule: string_of_nat.induct)
  case (1 n)
  have d: "48 \<le> (of_char (char_of (48 + n mod 10) :: char) :: nat)
      \<and> (of_char (char_of (48 + n mod 10) :: char) :: nat) < 58"
    by (simp add: of_char_of)
  from 1 d show ?case
    by (subst (asm) (2) string_of_nat.simps) (auto split: if_splits simp: of_char_of)
qed

lemma string_of_int_inject [simp]: "string_of_int i = string_of_int j \<longleftrightarrow> i = j"
proof -
  have "CHR ''-'' \<notin> set (string_of_nat n)" for n
    using string_of_nat_digits [of "CHR ''-''" n] by auto
  then have "string_of_nat n \<noteq> CHR ''-'' # xs" for n xs
    by (metis list.set_intros(1))
  then show ?thesis
    by (auto simp: string_of_int_def split: if_splits) metis+
qed

end
