(* ===== verification/Config.thy ===== *)
theory Config
  imports Prelude
begin

text \<open>
  The part of \<open>Settings\<close> (\<open>mainframe_rag/config.py\<close>) the ingest and publication code reads,
  with the field bounds that pydantic enforces when a \<open>Settings\<close> value is built, and the
  three helpers derived from it.
\<close>

record settings =
  qdrant_collection :: string
  qdrant_shard_number :: "int option"
  qdrant_replication_factor :: "int option"
  qdrant_write_consistency_factor :: "int option"
  qdrant_peer_urls :: "string option"
  embed_mode :: string
  embed_model :: "string option"
  dense_dim :: "int option"
  embed_model_revision :: string
  dense_query_prefix :: string
  batch_size :: nat
  ingest_scan_page_size :: nat
  bm25_model :: string
  bm25_weights_revision :: string
  contextual_embed_enabled :: bool
  context_llm_model :: "string option"
  context_max_chars :: int

text \<open>The \<open>ge\<close>/\<open>le\<close> bounds of the numeric fields.\<close>

definition at_least_one :: "int option \<Rightarrow> bool" where
  "at_least_one v = (case v of None \<Rightarrow> True | Some n \<Rightarrow> 1 \<le> n)"

definition settings_valid :: "settings \<Rightarrow> bool" where
  "settings_valid s \<longleftrightarrow>
     at_least_one (qdrant_shard_number s) \<and> at_least_one (qdrant_replication_factor s)
     \<and> at_least_one (qdrant_write_consistency_factor s)
     \<and> 16 \<le> batch_size s \<and> batch_size s \<le> 256
     \<and> 100 \<le> ingest_scan_page_size s \<and> ingest_scan_page_size s \<le> 10000
     \<and> 50 \<le> context_max_chars s \<and> context_max_chars s \<le> 2000"

definition hash_embed_dim :: int where
  "hash_embed_dim = 256"

definition require_dense_dim :: "settings \<Rightarrow> int res" where
  "require_dense_dim s =
     (if embed_mode s = ''hash'' then Inr hash_embed_dim
      else case dense_dim s of
        None \<Rightarrow> raise_exn RuntimeErr ''dense_dim_unset'' []
      | Some d \<Rightarrow> if d \<le> 0 then raise_exn RuntimeErr ''dense_dim_unset'' [] else Inr d)"

text \<open>
  \<open>collection_distribution_kwargs\<close>: only the selected keys, in the order the code adds them.
\<close>

definition collection_distribution_kwargs :: "settings \<Rightarrow> (string \<times> int) list" where
  "collection_distribution_kwargs s =
     (case qdrant_shard_number s of None \<Rightarrow> [] | Some n \<Rightarrow> [(''shard_number'', n)])
     @ (case qdrant_replication_factor s of None \<Rightarrow> [] | Some n \<Rightarrow> [(''replication_factor'', n)])
     @ (case qdrant_write_consistency_factor s of
          None \<Rightarrow> [] | Some n \<Rightarrow> [(''write_consistency_factor'', n)])"

text \<open>\<open>s.split(",")\<close>: always at least one part.\<close>

fun split_on :: "char \<Rightarrow> string \<Rightarrow> string list" where
  "split_on c [] = [[]]"
| "split_on c (x # xs) =
     (if x = c then [] # split_on c xs
      else case split_on c xs of [] \<Rightarrow> [[x]] | p # ps \<Rightarrow> (x # p) # ps)"

definition qdrant_peer_endpoints :: "settings \<Rightarrow> string list" where
  "qdrant_peer_endpoints s =
     (case qdrant_peer_urls s of
        None \<Rightarrow> []
      | Some u \<Rightarrow> if u = [] then []
                  else filter (\<lambda>p. p \<noteq> []) (map strip (split_on (CHR '','') u)))"

lemma split_on_nonempty [simp]: "split_on c s \<noteq> []"
  by (induction c s rule: split_on.induct) (auto split: list.splits)

lemma require_dense_dim_pos: "require_dense_dim s = Inr d \<Longrightarrow> 0 < d"
  by (auto simp: require_dense_dim_def hash_embed_dim_def split: if_splits option.splits)

lemma distribution_kwargs_lookup:
  "map_of (collection_distribution_kwargs s) ''shard_number'' = qdrant_shard_number s"
  "map_of (collection_distribution_kwargs s) ''replication_factor'' = qdrant_replication_factor s"
  "map_of (collection_distribution_kwargs s) ''write_consistency_factor''
     = qdrant_write_consistency_factor s"
  by (auto simp: collection_distribution_kwargs_def split: option.splits)

lemma peer_endpoints_nonblank: "e \<in> set (qdrant_peer_endpoints s) \<Longrightarrow> e \<noteq> []"
  by (auto simp: qdrant_peer_endpoints_def split: option.splits if_splits)

end
