(* ===== verification/Placement.thy ===== *)
theory Placement
  imports Config "HOL-Library.AList"
begin

text \<open>
  Replica placement (\<open>mainframe_rag/ingest/placement.py\<close>): the policy tuple and how an operator
  selects it, the verdict on one collection from the peers' own shard reports, the verdict on
  the cluster membership, and the report that combines them. The code is a pure evaluation
  over observations and so is the model; a problem text is a \<open>remark\<close> with a tag for the fixed
  words and the interpolated values.
\<close>

section \<open>Policy\<close>

record placement_policy =
  shard_number :: int
  replication_factor :: int
  write_consistency_factor :: int

definition policy_tuple :: "placement_policy \<Rightarrow> int \<times> int \<times> int" where
  "policy_tuple p = (shard_number p, replication_factor p, write_consistency_factor p)"

definition production_policy :: "int \<times> int \<times> int" where
  "production_policy = (6, 3, 2)"

definition single_node_policy :: "int \<times> int \<times> int" where
  "single_node_policy = (1, 1, 1)"

definition policy_problems :: "placement_policy \<Rightarrow> remark list" where
  "policy_problems p =
     (if shard_number p < 1 then [Remark ''shard_number_min'' [JInt (shard_number p)]] else [])
     @ (if replication_factor p < 1
        then [Remark ''replication_factor_min'' [JInt (replication_factor p)]] else [])
     @ (if write_consistency_factor p < 1
        then [Remark ''write_consistency_min'' [JInt (write_consistency_factor p)]] else [])
     @ (if write_consistency_factor p > replication_factor p
        then [Remark ''write_consistency_exceeds_replication''
                [JInt (write_consistency_factor p), JInt (replication_factor p)]] else [])"

definition policy_keys :: "string list" where
  "policy_keys = [''QDRANT_SHARD_NUMBER'', ''QDRANT_REPLICATION_FACTOR'',
                  ''QDRANT_WRITE_CONSISTENCY_FACTOR'']"

definition parse_policy :: "int option \<times> int option \<times> int option \<Rightarrow> placement_policy res" where
  "parse_policy values =
     (let missing = map fst (filter (\<lambda>(k, v). v = None)
            (zip policy_keys [fst values, fst (snd values), snd (snd values)]))
      in if missing \<noteq> []
         then raise_exn PolicyClaimErr ''policy_incomplete'' (map JStr missing)
         else let p = \<lparr>shard_number = the (fst values),
                       replication_factor = the (fst (snd values)),
                       write_consistency_factor = the (snd (snd values))\<rparr>
              in if policy_problems p \<noteq> []
                 then raise_exn PolicyClaimErr ''policy_problems''
                        (map (JStr \<circ> remark_tag) (policy_problems p))
                 else Inr p)"

definition policy_of_tuple :: "int \<times> int \<times> int \<Rightarrow> placement_policy" where
  "policy_of_tuple t = \<lparr>shard_number = fst t, replication_factor = fst (snd t),
                        write_consistency_factor = snd (snd t)\<rparr>"

definition policy_args :: "placement_policy \<Rightarrow> json list" where
  "policy_args p = [JInt (shard_number p), JInt (replication_factor p),
                    JInt (write_consistency_factor p)]"

definition selected_policy :: "settings \<Rightarrow> bool \<Rightarrow> bool \<Rightarrow> placement_policy option res" where
  "selected_policy s production single_node =
     (let values = (qdrant_shard_number s, qdrant_replication_factor s,
                    qdrant_write_consistency_factor s);
          all_none = (values = (None, None, None))
      in if production \<and> single_node then raise_exn PolicyClaimErr ''contradictory_claims'' []
         else if production then
           rbind (parse_policy values) (\<lambda>p.
             if policy_tuple p \<noteq> production_policy
             then raise_exn PolicyClaimErr ''not_production_policy'' (policy_args p)
             else Inr (Some p))
         else if single_node then
           (if all_none then Inr (Some (policy_of_tuple single_node_policy))
            else rbind (parse_policy values) (\<lambda>p.
              if policy_tuple p \<noteq> single_node_policy
              then raise_exn PolicyClaimErr ''not_single_node_policy'' (policy_args p)
              else Inr (Some p)))
         else if all_none then Inr None
         else rbind (parse_policy values) (\<lambda>p. Inr (Some p)))"

text \<open>
  The live configuration of a collection: each attribute is \<open>None\<close> when the server did not
  report it.
\<close>

record collection_params =
  live_shard_number :: "int option"
  live_replication_factor :: "int option"
  live_write_consistency_factor :: "int option"

definition live_attrs :: "collection_params \<Rightarrow> (string \<times> int option) list" where
  "live_attrs c = [(''shard_number'', live_shard_number c),
                   (''replication_factor'', live_replication_factor c),
                   (''write_consistency_factor'', live_write_consistency_factor c)]"

definition configured_policy_problems ::
    "string \<Rightarrow> collection_params \<Rightarrow> placement_policy \<Rightarrow> remark list" where
  "configured_policy_problems coll params expected =
     concat (map (\<lambda>((attr, live), want).
        case live of
          None \<Rightarrow> [Remark ''configured_unknown'' [JStr coll, JStr attr]]
        | Some n \<Rightarrow> if n \<noteq> want
                    then [Remark ''configured_mismatch'' [JStr coll, JStr attr, JInt n, JInt want]]
                    else [])
       (zip (live_attrs params)
            [shard_number expected, replication_factor expected,
             write_consistency_factor expected]))"

section \<open>Verdict states\<close>

text \<open>\<open>_STATE_RANK\<close>: worst last; aggregation is the maximum of the ranks.\<close>

datatype pstate = Healthy | Degraded | Recovering | Unservable | Unverifiable

fun state_rank :: "pstate \<Rightarrow> nat" where
  "state_rank Healthy = 0"
| "state_rank Degraded = 1"
| "state_rank Recovering = 2"
| "state_rank Unservable = 3"
| "state_rank Unverifiable = 4"

definition state_from_rank :: "nat \<Rightarrow> pstate" where
  "state_from_rank r =
     (case find (\<lambda>s. state_rank s = r) [Healthy, Degraded, Recovering, Unservable, Unverifiable] of
        Some s \<Rightarrow> s | None \<Rightarrow> Unverifiable)"

text \<open>Worse states are larger, so the library's order facts apply to verdicts.\<close>

instantiation pstate :: linorder
begin
definition less_eq_pstate :: "pstate \<Rightarrow> pstate \<Rightarrow> bool" where
  "less_eq_pstate a b = (state_rank a \<le> state_rank b)"
definition less_pstate :: "pstate \<Rightarrow> pstate \<Rightarrow> bool" where
  "less_pstate a b = (state_rank a < state_rank b)"
instance
proof
  fix a b c :: pstate
  show "(a < b) = (a \<le> b \<and> \<not> b \<le> a)"
    by (auto simp: less_eq_pstate_def less_pstate_def)
  show "a \<le> a" by (simp add: less_eq_pstate_def)
  show "a \<le> b \<Longrightarrow> b \<le> c \<Longrightarrow> a \<le> c" by (simp add: less_eq_pstate_def)
  show "a \<le> b \<Longrightarrow> b \<le> a \<Longrightarrow> a = b"
    by (cases a; cases b) (simp_all add: less_eq_pstate_def)
  show "a \<le> b \<or> b \<le> a" by (auto simp: less_eq_pstate_def)
qed
end

text \<open>\<open>max(ranks)\<close>; the list of ranks always starts with the healthy rank 0.\<close>

definition max_rank :: "nat list \<Rightarrow> nat" where
  "max_rank rs = fold max rs 0"

definition non_serving_detail :: "(string \<times> string) list" where
  "non_serving_detail =
    [(''INITIALIZING'', ''initializing''), (''RECOVERY'', ''recovering''),
     (''PARTIAL'', ''partial''), (''PARTIALSNAPSHOT'', ''partial snapshot''),
     (''RESHARDING'', ''resharding''), (''RESHARDINGSCALEDOWN'', ''resharding scale-down''),
     (''MANUALRECOVERY'', ''manual recovery''), (''ACTIVEREAD'', ''active-read (read-only)''),
     (''DEAD'', ''dead''), (''LISTENER'', ''listener (not serving reads)'')]"

section \<open>Observations and verdicts\<close>

record observation =
  obs_collection :: string
  obs_endpoint :: string
  obs_reachable :: bool
  obs_peer :: "int option"
  obs_shard_count :: "int option"
  obs_local :: "(int \<times> string) list"
  obs_remote :: "(int \<times> int \<times> string) list"
  obs_transfers :: "(int \<times> int \<times> int) list"
  obs_missing :: bool
  obs_error :: "string option"

record shard_verdict =
  sv_shard :: int
  sv_state :: pstate
  sv_active :: "int list"
  sv_observed :: "int list"
  sv_detail :: remark

record collection_verdict =
  cv_collection :: string
  cv_state :: pstate
  cv_problems :: "remark list"
  cv_shards :: "shard_verdict list"

definition refuse_collection :: "string \<Rightarrow> pstate \<Rightarrow> remark \<Rightarrow> collection_verdict" where
  "refuse_collection coll st r =
     \<lparr>cv_collection = coll, cv_state = st, cv_problems = [r], cv_shards = []\<rparr>"

text \<open>\<open>view.error or 'unreachable'\<close>: an empty error text is replaced too.\<close>

definition error_or :: "string option \<Rightarrow> string \<Rightarrow> string" where
  "error_or e d = (case e of None \<Rightarrow> d | Some t \<Rightarrow> if t = [] then d else t)"

definition endpoints_json :: "observation list \<Rightarrow> json" where
  "endpoints_json vs = JList (map (JStr \<circ> obs_endpoint) vs)"

definition ints_json :: "int list \<Rightarrow> json" where
  "ints_json xs = JList (map JInt xs)"

text \<open>
  The early returns of \<open>evaluate_collection_placement\<close>: either a refusal, or the reachable
  views of the collection and the unreachable ones.
\<close>

definition guard_observations ::
    "string \<Rightarrow> observation list \<Rightarrow> int list
       \<Rightarrow> collection_verdict + (observation list \<times> observation list)" where
  "guard_observations coll observations accepted_peers =
     (if accepted_peers = []
      then Inl (refuse_collection coll Unverifiable (Remark ''membership_not_established'' [JStr coll]))
      else
      let views = filter (\<lambda>v. obs_collection v = coll) observations;
          reachable = filter obs_reachable views;
          unreachable = filter (\<lambda>v. \<not> obs_reachable v) views
      in if reachable = []
         then Inl (refuse_collection coll Unverifiable (Remark ''no_peer_reachable''
                (JStr coll # map (\<lambda>v. JStr (obs_endpoint v @ '': '' @ error_or (obs_error v) ''unreachable''))
                               unreachable)))
         else
         let absent = filter obs_missing reachable;
             present = filter (\<lambda>v. \<not> obs_missing v) reachable
         in if absent \<noteq> [] \<and> present = []
            then Inl (refuse_collection coll Unservable (Remark ''absent_everywhere'' [JStr coll]))
            else if absent \<noteq> []
            then Inl (refuse_collection coll Unverifiable
                   (Remark ''peers_disagree_on_collection'' [JStr coll, endpoints_json present, endpoints_json absent]))
            else
            let anonymous = filter (\<lambda>v. obs_peer v = None) present
            in if anonymous \<noteq> []
               then Inl (refuse_collection coll Unverifiable
                      (Remark ''peer_id_unreadable'' [JStr coll, endpoints_json anonymous]))
               else
               let foreign = filter (\<lambda>v. the (obs_peer v) \<notin> set accepted_peers) present
               in if foreign \<noteq> []
                  then Inl (refuse_collection coll Unverifiable
                         (Remark ''foreign_endpoint''
                            [JStr coll, endpoints_json foreign,
                             ints_json (sort (map (the \<circ> obs_peer) foreign)),
                             ints_json (sorted_set accepted_peers)]))
                  else Inr (present, unreachable))"

text \<open>
  \<open>local\<close>: per shard, each peer's own report; a later report of the same copy replaces the
  earlier one, as the dict assignment does.
\<close>

type_synonym local_reports = "(int \<times> (int \<times> string) list) list"

definition copies_of :: "local_reports \<Rightarrow> int \<Rightarrow> (int \<times> string) list" where
  "copies_of l sid = (case map_of l sid of None \<Rightarrow> [] | Some c \<Rightarrow> c)"

definition put_local :: "int \<times> int \<times> string \<Rightarrow> local_reports \<Rightarrow> local_reports" where
  "put_local r l =
     (case r of (sid, peer, st) \<Rightarrow> AList.update sid (AList.update peer st (copies_of l sid)) l)"

type_synonym collected =
  "local_reports \<times> int list \<times> remark list \<times> (int \<times> int \<times> int) list"

definition collect_view :: "observation \<Rightarrow> collected \<Rightarrow> collected" where
  "collect_view v acc =
     (case acc of (l, votes, problems, transfers) \<Rightarrow>
        case obs_shard_count v of
          None \<Rightarrow> (l, votes, problems @ [Remark ''shard_count_unknown'' [JStr (obs_endpoint v)]], transfers)
        | Some n \<Rightarrow>
            (fold (\<lambda>(sid, st). put_local (sid, the (obs_peer v), st)) (obs_local v) l,
             votes @ [n], problems, transfers @ obs_transfers v))"

definition collect_reports :: "observation list \<Rightarrow> collected" where
  "collect_reports present = fold collect_view present ([], [], [], [])"

text \<open>A remote report is only compared with that peer's own report, never counted.\<close>

definition cross_check_one ::
    "local_reports \<Rightarrow> int list \<Rightarrow> int list \<Rightarrow> observation \<Rightarrow> int \<times> int \<times> string \<Rightarrow> remark list" where
  "cross_check_one l accepted reached v r =
     (case r of (sid, peer, st) \<Rightarrow>
        if peer \<notin> set accepted
        then [Remark ''foreign_remote_peer''
                [JInt sid, JStr (obs_endpoint v), JInt peer, ints_json (sorted_set accepted)]]
        else if peer \<notin> set reached then []
        else case map_of (copies_of l sid) peer of
            None \<Rightarrow> [Remark ''copy_omitted_by_owner'' [JInt sid, JStr (obs_endpoint v), JInt peer]]
          | Some own \<Rightarrow> if own \<noteq> st
              then [Remark ''copy_state_disagrees'' [JInt sid, JInt peer, JStr own, JStr (obs_endpoint v), JStr st]]
              else [])"

definition cross_check :: "local_reports \<Rightarrow> int list \<Rightarrow> observation list \<Rightarrow> remark list" where
  "cross_check l accepted present =
     (let reached = map (the \<circ> obs_peer) present
      in concat (map (\<lambda>v. concat (map (cross_check_one l accepted reached v) (obs_remote v))) present))"

definition unexpected_shards :: "observation list \<Rightarrow> int \<Rightarrow> int list" where
  "unexpected_shards present shard_count =
     (let outside = (\<lambda>sid. \<not> (0 \<le> sid \<and> sid < shard_count))
      in sorted_set
           (filter outside (concat (map (map fst \<circ> obs_local) present))
            @ filter outside (concat (map (map fst \<circ> obs_remote) present))))"

section \<open>The verdict on one collection\<close>

text \<open>\<open>_NON_SERVING_DETAIL[state]\<close> for each idle state: a missing key raises.\<close>

definition idle_details :: "string list \<Rightarrow> json list res" where
  "idle_details idle =
     res_map (\<lambda>st. case map_of non_serving_detail st of
                None \<Rightarrow> raise_exn KeyErr ''non_serving_detail'' [JStr st]
              | Some d \<Rightarrow> Inr (JStr d)) idle"

type_synonym shard_result = "shard_verdict \<times> remark list \<times> nat list"

definition shard_refusal :: "int \<Rightarrow> pstate \<Rightarrow> int list \<Rightarrow> int list \<Rightarrow> remark \<Rightarrow> shard_result" where
  "shard_refusal sid st active observed detail =
     (\<lparr>sv_shard = sid, sv_state = st, sv_active = active, sv_observed = observed, sv_detail = detail\<rparr>,
      [Remark ''shard'' (JInt sid # JStr (remark_tag detail) # remark_args detail)], [state_rank st])"

text \<open>
  One iteration of the shard loop. The order of the tests is the code's: no copy, an
  unrecognised state, no ACTIVE copy, too few ACTIVE copies, stale copies, healthy.
\<close>

definition judge_shard ::
    "local_reports \<Rightarrow> nat \<Rightarrow> bool \<Rightarrow> int \<Rightarrow> int \<Rightarrow> shard_result res" where
  "judge_shard l unreachable transferring rf sid =
     (let copies = copies_of l sid;
          observed = sort (map fst copies);
          active = sort (map fst (filter (\<lambda>(p, st). st = ''ACTIVE'') copies));
          idle = sorted_set (filter (\<lambda>st. st \<noteq> ''ACTIVE'') (map snd copies));
          n_active = int (length active);
          unknown = sort (filter (\<lambda>st. st \<noteq> ''ACTIVE'' \<and> st \<notin> fst ` set non_serving_detail) (map snd copies))
      in if observed = [] then
           Inr (shard_refusal sid (if unreachable > 0 then Unverifiable else Unservable) [] []
                 (if unreachable > 0 then Remark ''no_copy_reachable'' [JInt (int unreachable)]
                  else Remark ''no_copy'' []))
         else if unknown \<noteq> [] then
           Inr (shard_refusal sid Unverifiable active observed
                  (Remark ''unrecognized_states'' (map JStr unknown)))
         else if active = [] then
           rbind (idle_details idle) (\<lambda>ds.
             Inr (shard_refusal sid
                   (if idle \<noteq> [] then Recovering else if unreachable > 0 then Unverifiable else Unservable)
                   active observed (Remark ''no_active_copy'' ds)))
         else if n_active < rf then
           rbind (idle_details idle) (\<lambda>ds.
             Inr (shard_refusal sid (if idle \<noteq> [] \<or> transferring then Recovering else Degraded)
                   active observed
                   (Remark ''too_few_active'' ([JInt n_active, JInt rf, JInt (int unreachable)] @ ds))))
         else if idle \<noteq> [] then
           rbind (idle_details idle) (\<lambda>ds.
             Inr (shard_refusal sid Recovering active observed (Remark ''stale_copies'' ds)))
         else
           Inr (\<lparr>sv_shard = sid, sv_state = Healthy, sv_active = active, sv_observed = observed,
                 sv_detail = Remark ''active_copies'' [JInt n_active, JInt rf]\<rparr>, [], []))"

text \<open>The loop and the aggregation at the end of \<open>evaluate_collection_placement\<close>.\<close>

definition aggregate_shards ::
    "string \<Rightarrow> nat \<Rightarrow> (int \<times> int \<times> int) list \<Rightarrow> shard_result list \<Rightarrow> collection_verdict" where
  "aggregate_shards coll unreachable transfers rs =
     (let ranks0 = state_rank Healthy # concat (map (snd \<circ> snd) rs);
          problems0 = concat (map (fst \<circ> snd) rs);
          problems = (if transfers \<noteq> []
                      then problems0 @ [Remark ''transfers_in_progress''
                             (map (\<lambda>(sid, src, dst). JList [JInt sid, JInt src, JInt dst]) transfers)]
                      else problems0);
          ranks1 = (if transfers \<noteq> [] then ranks0 @ [state_rank Recovering] else ranks0);
          ranks = (if unreachable > 0 \<and> \<not> list_ex (\<lambda>r. state_rank Unverifiable \<le> r) ranks1
                   then ranks1 @ [state_rank Degraded] else ranks1)
      in \<lparr>cv_collection = coll, cv_state = state_from_rank (max_rank ranks),
          cv_problems = problems, cv_shards = map fst rs\<rparr>)"

definition judge_present ::
    "string \<Rightarrow> placement_policy \<Rightarrow> int list \<Rightarrow> observation list \<Rightarrow> nat \<Rightarrow> collection_verdict res" where
  "judge_present coll expected accepted present unreachable =
     (case collect_reports present of (l, votes, problems0, transfers) \<Rightarrow>
        let problems = problems0 @ cross_check l accepted present
        in if problems \<noteq> []
           then Inr \<lparr>cv_collection = coll, cv_state = Unverifiable, cv_problems = problems, cv_shards = []\<rparr>
           else case votes of
             [] \<Rightarrow> Inr (refuse_collection coll Unverifiable (Remark ''shard_count_unknown'' [JStr coll]))
           | shard_count # _ \<Rightarrow>
             if \<not> list_all (\<lambda>n. n = shard_count) votes
             then Inr (refuse_collection coll Unverifiable
                    (Remark ''shard_count_disagrees'' [JStr coll, ints_json (sorted_set votes)]))
             else if shard_count \<noteq> shard_number expected
             then Inr (refuse_collection coll
                    (if shard_count > shard_number expected then Unverifiable else Unservable)
                    (Remark ''shard_count_unexpected'' [JStr coll, JInt shard_count, JInt (shard_number expected)]))
             else if unexpected_shards present shard_count \<noteq> []
             then Inr (refuse_collection coll Unverifiable
                    (Remark ''unexpected_shards''
                       [JStr coll, ints_json (unexpected_shards present shard_count), JInt (shard_count - 1)]))
             else rbind (res_map (judge_shard l unreachable (transfers \<noteq> []) (replication_factor expected))
                           (map int [0..<nat shard_count]))
                    (\<lambda>rs. Inr (aggregate_shards coll unreachable transfers rs)))"

definition evaluate_collection_placement ::
    "string \<Rightarrow> observation list \<Rightarrow> placement_policy \<Rightarrow> int list \<Rightarrow> collection_verdict res" where
  "evaluate_collection_placement coll observations expected accepted_peers =
     (if shard_number expected < 1
      then raise_exn ValueErr ''shard_number_min'' [JInt (shard_number expected)]
      else case guard_observations coll observations accepted_peers of
          Inl verdict \<Rightarrow> Inr verdict
        | Inr (present, unreachable) \<Rightarrow>
            judge_present coll expected accepted_peers present (length unreachable))"

section \<open>The verdict on the cluster\<close>

record peer_view =
  pv_endpoint :: string
  pv_reachable :: bool
  pv_peer :: "int option"
  pv_members :: "int list"
  pv_consensus :: string
  pv_error :: "string option"

record cluster_verdict =
  cl_state :: pstate
  cl_expected :: int
  cl_members :: int
  cl_reachable :: int
  cl_consensus :: string
  cl_problems :: "remark list"
  cl_member_ids :: "int list"
  cl_observed :: "int list"

definition view_ids :: "peer_view list \<Rightarrow> int list" where
  "view_ids vs = map (the \<circ> pv_peer) (filter (\<lambda>v. pv_reachable v \<and> pv_peer v \<noteq> None) vs)"

definition cluster_refusal :: "int \<Rightarrow> peer_view list \<Rightarrow> remark \<Rightarrow> int list \<Rightarrow> cluster_verdict" where
  "cluster_refusal expected vs problem members =
     (let cons = remdups (map pv_consensus (filter pv_reachable vs))
      in \<lparr>cl_state = Unverifiable, cl_expected = expected,
          cl_members = int (length (sorted_set members)),
          cl_reachable = int (length (filter pv_reachable vs)),
          cl_consensus = (case cons of [c] \<Rightarrow> c | _ \<Rightarrow> ''unknown''),
          cl_problems = [problem], cl_member_ids = sorted_set members,
          cl_observed = sorted_set (view_ids vs)\<rparr>)"

text \<open>The single-peer branch: a standalone server, or a cluster of itself.\<close>

definition evaluate_single_peer :: "peer_view list \<Rightarrow> peer_view \<Rightarrow> cluster_verdict" where
  "evaluate_single_peer vs v =
     (let peer = the (pv_peer v); members = sorted_set (pv_members v)
      in if members \<noteq> [] \<and> members \<noteq> [peer]
         then cluster_refusal 1 vs (Remark ''single_peer_membership'' [ints_json members, JInt peer]) []
         else if pv_consensus v \<noteq> ''disabled'' \<and> pv_consensus v \<noteq> ''working''
         then cluster_refusal 1 vs (Remark ''single_peer_consensus'' [JInt peer, JStr (pv_consensus v)]) [peer]
         else if members = [] \<and> pv_consensus v \<noteq> ''disabled''
         then cluster_refusal 1 vs (Remark ''single_peer_no_membership'' [JInt peer, JStr (pv_consensus v)]) []
         else \<lparr>cl_state = Healthy, cl_expected = 1, cl_members = 1, cl_reachable = 1,
               cl_consensus = pv_consensus v, cl_problems = [], cl_member_ids = [peer],
               cl_observed = [peer]\<rparr>)"

text \<open>The branch for several peers, after the endpoint checks.\<close>

definition evaluate_members :: "int \<Rightarrow> peer_view list \<Rightarrow> cluster_verdict" where
  "evaluate_members expected vs =
     (let reachable = filter pv_reachable vs;
          unreachable = filter (\<lambda>v. \<not> pv_reachable v) vs;
          observed = view_ids vs;
          members = sorted_set (pv_members (hd reachable))
      in if \<not> list_all (\<lambda>v. sorted_set (pv_members v) = members) reachable
         then cluster_refusal expected vs (Remark ''membership_disagrees''
                (map (\<lambda>v. JList [JStr (pv_endpoint v), ints_json (sort (pv_members v))]) reachable)) []
         else if members = []
         then cluster_refusal expected vs (Remark ''no_membership_reported'' [JInt expected]) []
         else if int (length members) \<noteq> expected
         then cluster_refusal expected vs
                (Remark ''member_count'' [JInt (int (length members)), ints_json members, JInt expected]) members
         else if sorted_set (filter (\<lambda>p. p \<notin> set members) observed) \<noteq> []
         then cluster_refusal expected vs
                (Remark ''foreign_peer_ids''
                   [ints_json (sorted_set (filter (\<lambda>p. p \<notin> set members) observed)), ints_json members]) members
         else if \<not> list_all (\<lambda>v. pv_consensus v = pv_consensus (hd reachable)) reachable
         then cluster_refusal expected vs (Remark ''consensus_disagrees''
                (map (\<lambda>v. JList [JStr (pv_endpoint v), JStr (pv_consensus v)]) reachable)) members
         else if pv_consensus (hd reachable) \<noteq> ''working''
         then cluster_refusal expected vs
                (Remark ''consensus_not_working'' [JStr (pv_consensus (hd reachable)), JInt expected]) members
         else
         let missing = sorted_set (filter (\<lambda>p. p \<notin> set observed) members);
             verdict = (\<lambda>st problems.
               \<lparr>cl_state = st, cl_expected = expected, cl_members = int (length members),
                cl_reachable = int (length reachable), cl_consensus = ''working'',
                cl_problems = problems, cl_member_ids = members, cl_observed = sort observed\<rparr>)
         in if missing = [] then verdict Healthy []
            else if length missing = 1 \<and> length unreachable = 1
            then verdict Degraded [Remark ''member_unreachable''
                   [JInt (hd missing), JStr (pv_endpoint (hd unreachable)),
                    JStr (error_or (pv_error (hd unreachable)) ''no response'')]]
            else cluster_refusal expected vs
                   (Remark ''members_not_observed'' [ints_json missing, ints_json (sort observed)]) members)"

definition evaluate_cluster :: "int \<Rightarrow> peer_view list \<Rightarrow> cluster_verdict res" where
  "evaluate_cluster expected vs =
     (if expected < 1 then raise_exn ValueErr ''expected_peers_min'' [JInt expected]
      else if int (length vs) \<noteq> expected
      then Inr (cluster_refusal expected vs
             (Remark ''endpoint_count'' [JInt (int (length vs)), JInt expected]) [])
      else
      let reachable = filter pv_reachable vs;
          nameless = filter (\<lambda>v. pv_peer v = None) reachable;
          observed = view_ids vs
      in if reachable = []
         then Inr (cluster_refusal expected vs (Remark ''no_endpoint_reachable'' []) [])
         else if nameless \<noteq> []
         then Inr (cluster_refusal expected vs
                (Remark ''peer_id_missing'' (map (JStr \<circ> pv_endpoint) nameless)) [])
         else if length (remdups observed) \<noteq> length observed
         then Inr (cluster_refusal expected vs (Remark ''duplicate_peer_ids''
                [JInt (int (length (remdups observed))), JInt (int (length reachable))]) [])
         else if expected = 1 then Inr (evaluate_single_peer vs (hd reachable))
         else Inr (evaluate_members expected vs))"

section \<open>The report\<close>

record alias_binding =
  ab_alias :: string
  ab_target :: "string option"
  ab_inventory :: "string list"

record verification_report =
  vr_policy :: placement_policy
  vr_single_node :: bool
  vr_cluster :: cluster_verdict
  vr_collections :: "collection_verdict list"
  vr_configured_problems :: "remark list"
  vr_alias_conflicts :: "remark list"
  vr_alias :: "alias_binding option"
  vr_notes :: "remark list"

datatype report_state = Refused | NonHa | Judged pstate

definition report_ranks :: "verification_report \<Rightarrow> nat list" where
  "report_ranks r = map (state_rank \<circ> cv_state) (vr_collections r) @ [state_rank (cl_state (vr_cluster r))]"

definition report_state :: "verification_report \<Rightarrow> report_state" where
  "report_state r =
     (if vr_single_node r then
        (if vr_configured_problems r \<noteq> [] \<or> vr_alias_conflicts r \<noteq> [] then Refused
         else if max_rank (report_ranks r) \<noteq> state_rank Healthy then Refused
         else NonHa)
      else if vr_configured_problems r \<noteq> [] \<or> vr_alias_conflicts r \<noteq> [] then Judged Unverifiable
      else Judged (state_from_rank (max_rank (0 # report_ranks r))))"

fun state_name :: "pstate \<Rightarrow> string" where
  "state_name Healthy = ''healthy''"
| "state_name Degraded = ''degraded''"
| "state_name Recovering = ''recovering''"
| "state_name Unservable = ''unservable''"
| "state_name Unverifiable = ''unverifiable''"

fun report_state_name :: "report_state \<Rightarrow> string" where
  "report_state_name Refused = ''refused''"
| "report_state_name NonHa = ''non-ha''"
| "report_state_name (Judged st) = state_name st"

text \<open>The lines of \<open>evidence_lines\<close>, each a remark; the last is the machine verdict.\<close>

definition alias_lines :: "verification_report \<Rightarrow> remark list" where
  "alias_lines r =
     (case vr_alias r of None \<Rightarrow> []
      | Some b \<Rightarrow> case ab_target b of
            None \<Rightarrow> [Remark ''alias_unmapped'' (JStr (ab_alias b) # map JStr (take 1 (ab_inventory b)))]
          | Some t \<Rightarrow> [Remark ''alias_bound'' [JStr (ab_alias b), JStr t]])"

definition collection_lines :: "collection_verdict \<Rightarrow> remark list" where
  "collection_lines v =
     Remark ''collection'' [JStr (cv_collection v), JStr (state_name (cv_state v))]
     # map (\<lambda>s. Remark ''shard'' [JInt (sv_shard s), JStr (state_name (sv_state s)),
                                   ints_json (sv_active s), JStr (remark_tag (sv_detail s))]) (cv_shards v)
     @ cv_problems v"

definition verdict_line :: "verification_report \<Rightarrow> bool \<Rightarrow> remark" where
  "verdict_line r allow_degraded =
     (if report_state r = NonHa then Remark ''VERDICT: non-ha'' []
      else if report_state r = Judged Healthy
      then Remark ''VERDICT: healthy'' [JInt (replication_factor (vr_policy r))]
      else if report_state r = Judged Degraded \<and> allow_degraded then Remark ''VERDICT: degraded'' []
      else Remark ''VERDICT: refused'' [JStr (report_state_name (report_state r))])"

definition evidence_lines :: "verification_report \<Rightarrow> bool \<Rightarrow> remark list" where
  "evidence_lines r allow_degraded =
     vr_configured_problems r @ alias_lines r @ vr_alias_conflicts r
     @ [Remark ''cluster'' [JStr (state_name (cl_state (vr_cluster r))), JInt (cl_members (vr_cluster r)),
          JInt (cl_expected (vr_cluster r)), JInt (cl_reachable (vr_cluster r)),
          ints_json (cl_observed (vr_cluster r)), JStr (cl_consensus (vr_cluster r))]]
     @ cl_problems (vr_cluster r)
     @ concat (map collection_lines (vr_collections r))
     @ vr_notes r @ [verdict_line r allow_degraded]"

section \<open>Lemmas\<close>

subsection \<open>Ranks\<close>

lemma state_rank_inject [simp]: "state_rank a = state_rank b \<longleftrightarrow> a = b"
  by (cases a; cases b) simp_all

lemma state_rank_zero [simp]: "state_rank s = 0 \<longleftrightarrow> s = Healthy"
  by (cases s) simp_all

lemma state_from_rank_rank [simp]: "state_from_rank (state_rank s) = s"
  by (cases s) (simp_all add: state_from_rank_def)

lemma state_from_rank_Healthy [simp]: "state_from_rank r = Healthy \<longleftrightarrow> r = 0"
  by (auto simp: state_from_rank_def split: if_splits)

lemma max_rank_Max: "max_rank rs = Max (set (0 # rs))"
  unfolding max_rank_def by (rule Max.set_eq_fold [symmetric])

lemma max_rank_zero_iff [simp]: "max_rank rs = 0 \<longleftrightarrow> (\<forall>r \<in> set rs. r = 0)"
proof -
  have "Max (insert 0 (set rs)) \<le> 0 \<longleftrightarrow> (\<forall>r \<in> insert 0 (set rs). r \<le> 0)"
    by (rule Max_le_iff) simp_all
  then show ?thesis by (simp add: max_rank_Max)
qed

lemma max_rank_ge: "r \<in> set rs \<Longrightarrow> r \<le> max_rank rs"
  by (simp add: max_rank_Max)

lemma max_rank_in: "max_rank rs \<in> insert 0 (set rs)"
  using Max_in [of "insert 0 (set rs)"] by (simp add: max_rank_Max)

lemma state_rank_le: "state_rank s \<le> 4"
  by (cases s) simp_all

lemma rank_state_from_rank: "r \<le> 4 \<Longrightarrow> state_rank (state_from_rank r) = r"
proof -
  assume "r \<le> 4"
  then consider "r = 0" | "r = 1" | "r = 2" | "r = 3" | "r = 4" by linarith
  then show ?thesis by cases (simp_all add: state_from_rank_def)
qed

subsection \<open>The copies of a shard\<close>

lemma idle_details_total:
  assumes "set idle \<subseteq> fst ` set non_serving_detail"
  shows "\<exists>ds. idle_details idle = Inr ds"
proof -
  have "idle_details idle
      = Inr (map (\<lambda>st. JStr (the (map_of non_serving_detail st))) idle)"
    unfolding idle_details_def
  proof (rule res_map_total)
    fix st assume "st \<in> set idle"
    with assms have "map_of non_serving_detail st \<noteq> None"
      by (auto simp: map_of_eq_None_iff)
    then show "(case map_of non_serving_detail st of
          None \<Rightarrow> raise_exn KeyErr ''non_serving_detail'' [JStr st] | Some d \<Rightarrow> Inr (JStr d))
        = Inr (JStr (the (map_of non_serving_detail st)))"
      by (cases "map_of non_serving_detail st") simp_all
  qed
  then show ?thesis by blast
qed

text \<open>Every shard is judged: the table lookup of the idle states cannot miss.\<close>

lemma judge_shard_not_isl: "\<not> isl (judge_shard l u t rf sid)"
proof -
  define idle where "idle = sorted_set (filter (\<lambda>st. st \<noteq> ''ACTIVE'') (map snd (copies_of l sid)))"
  show ?thesis
  proof (cases "filter (\<lambda>st. st \<noteq> ''ACTIVE'' \<and> st \<notin> fst ` set non_serving_detail)
                        (map snd (copies_of l sid)) = []")
    case True
    then have "set idle \<subseteq> fst ` set non_serving_detail"
      unfolding idle_def by (auto simp: filter_empty_conv)
    then obtain ds where "idle_details idle = Inr ds"
      using idle_details_total by blast
    then show ?thesis
      unfolding judge_shard_def Let_def idle_def by simp
  next
    case False
    then show ?thesis
      unfolding judge_shard_def Let_def by simp
  qed
qed

lemma judge_shard_total: "\<exists>r. judge_shard l u t rf sid = Inr r"
  using judge_shard_not_isl [of l u t rf sid] by (cases "judge_shard l u t rf sid") (auto simp del: split_paired_Ex)

lemma shard_refusal_simps [simp]:
  "fst (shard_refusal sid st a ob d)
     = \<lparr>sv_shard = sid, sv_state = st, sv_active = a, sv_observed = ob, sv_detail = d\<rparr>"
  "snd (snd (shard_refusal sid st a ob d)) = [state_rank st]"
  by (simp_all add: shard_refusal_def)

lemma judge_shard_shape:
  assumes "judge_shard l u t rf sid = Inr r"
  shows "sv_shard (fst r) = sid"
    and "sv_active (fst r) = sort (map fst (filter (\<lambda>(p, st). st = ''ACTIVE'') (copies_of l sid)))"
    and "sv_observed (fst r) = sort (map fst (copies_of l sid))"
    and "snd (snd r) = (if sv_state (fst r) = Healthy then [] else [state_rank (sv_state (fst r))])"
  using assms
  by (auto simp: judge_shard_def Let_def rbind_Inr_iff split: if_splits)

lemma judge_shard_Healthy:
  assumes "judge_shard l u t rf sid = Inr r"
  shows "sv_state (fst r) = Healthy \<longleftrightarrow>
     copies_of l sid \<noteq> [] \<and> (\<forall>(p, st) \<in> set (copies_of l sid). st = ''ACTIVE'')
     \<and> rf \<le> int (length (copies_of l sid))"
proof -
  let ?c = "copies_of l sid"
  have all: "filter (\<lambda>st. st \<noteq> ''ACTIVE'') (map snd ?c) = [] \<longleftrightarrow> (\<forall>(p, st) \<in> set ?c. st = ''ACTIVE'')"
    by (auto simp: filter_empty_conv)
  have act: "filter (\<lambda>(p, st). st = ''ACTIVE'') ?c = ?c" if "\<forall>(p, st) \<in> set ?c. st = ''ACTIVE''"
    using that by (auto simp: filter_id_conv)
  have unk: "filter (\<lambda>st. st \<noteq> ''ACTIVE'' \<and> st \<notin> fst ` set non_serving_detail) (map snd ?c) = []"
    if "\<forall>(p, st) \<in> set ?c. st = ''ACTIVE''"
    using that by (auto simp: filter_empty_conv)
  show ?thesis
  proof (cases "\<forall>(p, st) \<in> set ?c. st = ''ACTIVE''")
    case True
    with assms all act [OF True] unk [OF True] show ?thesis
      by (auto simp: judge_shard_def Let_def rbind_Inr_iff split: if_splits)
  next
    case False
    with all have "sorted_set (filter (\<lambda>st. st \<noteq> ''ACTIVE'') (map snd ?c)) \<noteq> []" by simp
    with assms False show ?thesis
      by (auto simp: judge_shard_def Let_def rbind_Inr_iff split: if_splits)
  qed
qed

subsection \<open>The last report of a copy wins\<close>

definition reports_of :: "observation list \<Rightarrow> ((int \<times> int) \<times> string) list" where
  "reports_of vs = concat (map (\<lambda>v. map (\<lambda>(sid, st). ((sid, the (obs_peer v)), st)) (obs_local v)) vs)"

definition put_report :: "(int \<times> int) \<times> string \<Rightarrow> local_reports \<Rightarrow> local_reports" where
  "put_report r = put_local (fst (fst r), snd (fst r), snd r)"

lemma copies_of_put: "copies_of (put_local (sid, p, st) l) sid'
    = (if sid' = sid then AList.update p st (copies_of l sid) else copies_of l sid')"
  by (simp add: copies_of_def put_local_def update_conv')

lemma put_report_lookup:
  "map_of (copies_of (put_report r l) sid) p
     = (if fst r = (sid, p) then Some (snd r) else map_of (copies_of l sid) p)"
  by (cases r; cases "fst r") (auto simp: put_report_def copies_of_put update_conv')

lemma fold_put_lookup:
  "map_of (copies_of (fold put_report rs l) sid) p
     = (case map_of (rev rs) (sid, p) of Some st \<Rightarrow> Some st | None \<Rightarrow> map_of (copies_of l sid) p)"
proof (induction rs arbitrary: l)
  case Nil
  then show ?case by simp
next
  case (Cons r rs)
  then show ?case
    by (cases r) (auto simp: put_report_lookup map_add_def split: option.splits)
qed

lemma fold_put_distinct:
  "(\<And>sid. distinct (map fst (copies_of l sid)))
     \<Longrightarrow> distinct (map fst (copies_of (fold put_report rs l) sid))"
proof (induction rs arbitrary: l)
  case Nil
  then show ?case by simp
next
  case (Cons r rs)
  show ?case
    unfolding fold.simps o_apply
    by (rule Cons.IH) (auto simp: put_report_def copies_of_put distinct_update Cons.prems)
qed

lemma collect_fold:
  assumes "\<forall>v \<in> set vs. obs_shard_count v \<noteq> None"
  shows "fold collect_view vs (l, votes, probs, trs)
    = (fold put_report (reports_of vs) l, votes @ map (the \<circ> obs_shard_count) vs, probs,
       trs @ concat (map obs_transfers vs))"
  using assms
proof (induction vs arbitrary: l votes trs)
  case Nil
  then show ?case by (simp add: reports_of_def)
next
  case (Cons v vs)
  have "fold (\<lambda>(sid, st). put_local (sid, the (obs_peer v), st)) xs l
      = fold put_report (map (\<lambda>(sid, st). ((sid, the (obs_peer v)), st)) xs) l" for xs
    by (induction xs arbitrary: l) (auto simp: put_report_def)
  with Cons show ?case
    by (auto simp: collect_view_def reports_of_def)
qed

lemma collect_problems:
  "fst (snd (snd (fold collect_view vs (l, votes, probs, trs)))) = []
     \<longleftrightarrow> probs = [] \<and> (\<forall>v \<in> set vs. obs_shard_count v \<noteq> None)"
proof (induction vs arbitrary: l votes probs trs)
  case Nil
  then show ?case by simp
next
  case (Cons v vs)
  then show ?case
    by (cases "obs_shard_count v") (auto simp: collect_view_def)
qed


subsection \<open>The verdict is healthy exactly when the placement is\<close>

definition placement_healthy :: "string \<Rightarrow> observation list \<Rightarrow> placement_policy \<Rightarrow> int list \<Rightarrow> bool" where
  "placement_healthy coll observations pol accepted \<longleftrightarrow>
     (let views = filter (\<lambda>v. obs_collection v = coll) observations;
          S = shard_number pol;
          own = map_of (rev (reports_of views));
          peers = (the \<circ> obs_peer) ` set views
      in accepted \<noteq> [] \<and> views \<noteq> []
         \<and> (\<forall>v \<in> set views. obs_reachable v \<and> \<not> obs_missing v \<and> (\<exists>p \<in> set accepted. obs_peer v = Some p))
         \<and> (\<forall>v \<in> set views. obs_shard_count v = Some S) \<and> (\<forall>v \<in> set views. obs_transfers v = [])
         \<and> (\<forall>v \<in> set views. (\<forall>(sid, st) \<in> set (obs_local v). 0 \<le> sid \<and> sid < S)
                           \<and> (\<forall>(sid, p, st) \<in> set (obs_remote v). 0 \<le> sid \<and> sid < S))
         \<and> (\<forall>v \<in> set views. \<forall>(sid, p, st) \<in> set (obs_remote v).
              p \<in> set accepted \<and> (p \<in> peers \<longrightarrow> own (sid, p) = Some st))
         \<and> (\<forall>sid \<in> {0..<S}.
              {p. own (sid, p) \<noteq> None} \<noteq> {}
              \<and> replication_factor pol \<le> int (card {p. own (sid, p) \<noteq> None})
              \<and> (\<forall>p st. own (sid, p) = Some st \<longrightarrow> st = ''ACTIVE'')))"

lemma guard_not_healthy: "guard_observations coll obs acc = Inl v \<Longrightarrow> cv_state v \<noteq> Healthy"
  by (auto simp: guard_observations_def Let_def refuse_collection_def split: if_splits)

lemma guard_Inr:
  "guard_observations coll obs acc = Inr (present, un) \<longleftrightarrow>
     acc \<noteq> []
     \<and> present = filter (\<lambda>v. obs_collection v = coll \<and> obs_reachable v) obs
     \<and> un = filter (\<lambda>v. obs_collection v = coll \<and> \<not> obs_reachable v) obs
     \<and> present \<noteq> []
     \<and> (\<forall>v \<in> set present. \<not> obs_missing v \<and> (\<exists>p \<in> set acc. obs_peer v = Some p))"
  (is "?l \<longleftrightarrow> ?r")
proof -
  let ?R = "filter (\<lambda>v. obs_collection v = coll \<and> obs_reachable v) obs"
  let ?U = "filter (\<lambda>v. obs_collection v = coll \<and> \<not> obs_reachable v) obs"
  have peer: "(filter (\<lambda>v. obs_peer v = None) xs = []
       \<and> filter (\<lambda>v. the (obs_peer v) \<notin> set acc) xs = [])
     \<longleftrightarrow> (\<forall>v \<in> set xs. \<exists>p \<in> set acc. obs_peer v = Some p)" for xs
    by (force simp: filter_empty_conv)
  have pres: "filter (\<lambda>v. \<not> obs_missing v) ?R = ?R" if "filter obs_missing ?R = []"
    using that by (metis (mono_tags, lifting) filter_True filter_empty_conv)
  have miss: "filter obs_missing ?R = [] \<longleftrightarrow> (\<forall>v \<in> set ?R. \<not> obs_missing v)"
    by (auto simp: filter_empty_conv)
  have conj: "filter obs_reachable (filter (\<lambda>v. obs_collection v = coll) obs) = ?R"
    "filter (\<lambda>v. \<not> obs_reachable v) (filter (\<lambda>v. obs_collection v = coll) obs) = ?U"
    by (simp_all add: conj_commute)
  show ?thesis
    unfolding guard_observations_def Let_def conj
    using peer [of ?R] pres miss by (auto split: if_splits)
qed

lemma card_keys_copies:
  assumes "distinct (map fst (c :: (int \<times> string) list))"
  shows "card {p. map_of c p \<noteq> None} = length c"
proof -
  have "{p. map_of c p \<noteq> None} = set (map fst c)"
    by (auto simp: map_of_eq_None_iff)
  then show ?thesis
    using assms by (metis distinct_card length_map)
qed

lemma all_values_map_of:
  assumes "distinct (map fst c)"
  shows "(\<forall>(p, st) \<in> set c. P st) \<longleftrightarrow> (\<forall>p st. map_of c p = Some st \<longrightarrow> P st)"
  using assms by (auto simp: map_of_eq_Some_iff dest: map_of_SomeD)

lemma judge_shard_Healthy_own:
  assumes j: "judge_shard l u t rf sid = Inr r"
    and d: "distinct (map fst (copies_of l sid))"
    and own: "\<And>p. map_of (copies_of l sid) p = own (sid, p)"
  shows "sv_state (fst r) = Healthy \<longleftrightarrow>
     {p. own (sid, p) \<noteq> None} \<noteq> {} \<and> (\<forall>p st. own (sid, p) = Some st \<longrightarrow> st = ''ACTIVE'')
     \<and> rf \<le> int (card {p. own (sid, p) \<noteq> None})"
proof -
  have "copies_of l sid \<noteq> [] \<longleftrightarrow> {p. own (sid, p) \<noteq> None} \<noteq> {}"
    unfolding own [symmetric] by (cases "copies_of l sid") auto
  then show ?thesis
    using judge_shard_Healthy [OF j] card_keys_copies [OF d] all_values_map_of [OF d, of "\<lambda>st. st = ''ACTIVE''"]
    by (simp add: own)
qed

lemma unexpected_shards_empty:
  "unexpected_shards vs S = [] \<longleftrightarrow>
     (\<forall>v \<in> set vs. (\<forall>(sid, st) \<in> set (obs_local v). 0 \<le> sid \<and> sid < S)
                \<and> (\<forall>(sid, p, st) \<in> set (obs_remote v). 0 \<le> sid \<and> sid < S))"
  unfolding unexpected_shards_def Let_def sorted_set_empty_iff append_is_Nil_conv filter_empty_conv
  by fastforce

lemma cross_check_empty:
  "cross_check l acc vs = [] \<longleftrightarrow>
     (\<forall>v \<in> set vs. \<forall>(sid, p, st) \<in> set (obs_remote v).
        p \<in> set acc \<and> (p \<in> (the \<circ> obs_peer) ` set vs \<longrightarrow> map_of (copies_of l sid) p = Some st))"
  unfolding cross_check_def Let_def
  by (fastforce simp: cross_check_one_def split: if_splits option.splits)

lemma res_map_Inr_Healthy:
  assumes "res_map f xs = Inr rs"
  shows "(\<forall>r \<in> set rs. P r) \<longleftrightarrow> (\<forall>x \<in> set xs. \<forall>r. f x = Inr r \<longrightarrow> P r)"
  using assms by (induction xs arbitrary: rs) (auto simp: rbind_Inr_iff)

lemma aggregate_Healthy:
  assumes "\<And>r. r \<in> set rs \<Longrightarrow> snd (snd r) = (if sv_state (fst r) = Healthy then [] else [state_rank (sv_state (fst r))])"
  shows "cv_state (aggregate_shards coll u trs rs) = Healthy
    \<longleftrightarrow> trs = [] \<and> u = 0 \<and> (\<forall>r \<in> set rs. sv_state (fst r) = Healthy)"
proof -
  let ?ranks = "concat (map (snd \<circ> snd) rs)"
  have zero: "(\<forall>x \<in> set ?ranks. x = 0) \<longleftrightarrow> (\<forall>r \<in> set rs. sv_state (fst r) = Healthy)"
    using assms by (auto split: if_splits) (metis list.set_intros(1) snd_conv state_rank_zero)
  have "cv_state (aggregate_shards coll u trs rs) = Healthy
      \<longleftrightarrow> trs = [] \<and> u = 0 \<and> (\<forall>x \<in> set ?ranks. x = 0)"
    unfolding aggregate_shards_def Let_def
    by (auto simp: list_ex_iff) force?
  then show ?thesis unfolding zero .
qed

lemma res_map_judge_total: "\<exists>rs. res_map (judge_shard l u t rf) sids = Inr rs"
proof (induction sids)
  case (Cons s sids)
  obtain r where "judge_shard l u t rf s = Inr r" using judge_shard_total by blast
  with Cons show ?case by (auto simp del: split_paired_Ex)
qed simp

lemma judge_present_total: "\<exists>v. judge_present coll pol acc present u = Inr v"
proof -
  obtain l votes probs trs where c: "collect_reports present = (l, votes, probs, trs)"
    by (cases "collect_reports present") auto
  obtain rs where "res_map (judge_shard l u (trs \<noteq> []) (replication_factor pol))
      (map int [0..<nat (shard_number pol)]) = Inr rs" using res_map_judge_total by blast
  then show ?thesis
    unfolding judge_present_def c by (cases votes) (auto simp: Let_def)
qed

text \<open>Every input with a positive shard count gets a verdict: no branch raises.\<close>

lemma evaluate_total:
  "1 \<le> shard_number pol \<Longrightarrow> \<exists>v. evaluate_collection_placement coll obs pol acc = Inr v"
  using judge_present_total
  by (fastforce simp: evaluate_collection_placement_def split: sum.splits prod.splits)

text \<open>The checks before the shard loop, as one condition.\<close>

definition reports_agree :: "int \<Rightarrow> int list \<Rightarrow> observation list \<Rightarrow> bool" where
  "reports_agree S acc present \<longleftrightarrow>
     (\<forall>v \<in> set present. obs_shard_count v = Some S)
     \<and> (\<forall>v \<in> set present. (\<forall>(sid, st) \<in> set (obs_local v). 0 \<le> sid \<and> sid < S)
                        \<and> (\<forall>(sid, p, st) \<in> set (obs_remote v). 0 \<le> sid \<and> sid < S))
     \<and> (\<forall>v \<in> set present. \<forall>(sid, p, st) \<in> set (obs_remote v). p \<in> set acc
          \<and> (p \<in> (the \<circ> obs_peer) ` set present
             \<longrightarrow> map_of (rev (reports_of present)) (sid, p) = Some st))"

lemma own_lookup:
  "map_of (copies_of (fold put_report (reports_of present) []) sid) p
     = map_of (rev (reports_of present)) (sid, p)"
  unfolding fold_put_lookup by (simp add: copies_of_def split: option.splits)

lemma own_distinct: "distinct (map fst (copies_of (fold put_report (reports_of present) []) sid))"
  by (rule fold_put_distinct) (simp add: copies_of_def)

lemma judge_present_cases:
  assumes v: "judge_present coll pol acc present u = Inr v" and ne: "present \<noteq> []"
  shows "(\<not> reports_agree (shard_number pol) acc present \<and> cv_state v \<noteq> Healthy)
     \<or> (reports_agree (shard_number pol) acc present
        \<and> (\<exists>rs. res_map (judge_shard (fold put_report (reports_of present) []) u
                 (concat (map obs_transfers present) \<noteq> []) (replication_factor pol))
                 (map int [0..<nat (shard_number pol)]) = Inr rs
               \<and> v = aggregate_shards coll u (concat (map obs_transfers present)) rs))"
proof (cases "\<forall>v \<in> set present. obs_shard_count v \<noteq> None")
  case False
  obtain l votes probs trs where c: "collect_reports present = (l, votes, probs, trs)"
    by (cases "collect_reports present") auto
  have "probs \<noteq> []"
    using collect_problems [of present "[]" "[]" "[]" "[]"] False c
    by (simp add: collect_reports_def)
  with v c have "cv_state v = Unverifiable" by (auto simp: judge_present_def)
  moreover have "\<not> reports_agree (shard_number pol) acc present"
    using False by (force simp: reports_agree_def)
  ultimately show ?thesis by simp
next
  case True
  let ?l = "fold put_report (reports_of present) []"
  let ?S = "shard_number pol"
  define votes where "votes = map (the \<circ> obs_shard_count) present"
  define trs where "trs = concat (map obs_transfers present)"
  have c: "collect_reports present = (?l, votes, [], trs)"
    using collect_fold [OF True, of "[]" "[]" "[]" "[]"]
    by (simp add: collect_reports_def votes_def trs_def)
  obtain n ns where votes_eq: "votes = n # ns" using ne by (cases votes) (auto simp: votes_def)
  have "list_all (\<lambda>m. m = n) votes \<and> n = ?S \<longleftrightarrow> (\<forall>m \<in> set votes. m = ?S)"
    using votes_eq by (auto simp: list_all_iff)
  also have "\<dots> \<longleftrightarrow> (\<forall>v \<in> set present. obs_shard_count v = Some ?S)"
    using True by (force simp: votes_def)
  finally have A: "(\<forall>v \<in> set present. obs_shard_count v = Some ?S) \<longleftrightarrow> list_all (\<lambda>m. m = n) votes \<and> n = ?S"
    by simp
  have "reports_agree ?S acc present \<longleftrightarrow> (list_all (\<lambda>m. m = n) votes \<and> n = ?S)
      \<and> unexpected_shards present ?S = [] \<and> cross_check ?l acc present = []"
    unfolding reports_agree_def A unexpected_shards_empty cross_check_empty own_lookup by (rule refl)
  then have agree: "reports_agree ?S acc present \<longleftrightarrow> cross_check ?l acc present = []
      \<and> list_all (\<lambda>m. m = n) votes \<and> n = ?S \<and> unexpected_shards present n = []"
    by auto
  show ?thesis
  proof (cases "cross_check ?l acc present = [] \<and> list_all (\<lambda>m. m = n) votes \<and> n = ?S
      \<and> unexpected_shards present n = []")
    case True
    then have "n = ?S" "list_all (\<lambda>m. m = ?S) ns" "unexpected_shards present ?S = []"
        "cross_check ?l acc present = []"
      by (auto simp: votes_eq)
    then have "judge_present coll pol acc present u
      = rbind (res_map (judge_shard ?l u (trs \<noteq> []) (replication_factor pol)) (map int [0..<nat ?S]))
          (\<lambda>rs. Inr (aggregate_shards coll u trs rs))"
      by (simp add: judge_present_def c Let_def votes_eq)
    then have "\<exists>rs. res_map (judge_shard ?l u (trs \<noteq> []) (replication_factor pol))
          (map int [0..<nat ?S]) = Inr rs \<and> v = aggregate_shards coll u trs rs"
      using v by (cases "res_map (judge_shard ?l u (trs \<noteq> []) (replication_factor pol)) (map int [0..<nat ?S])") simp_all
    then show ?thesis unfolding agree trs_def [symmetric] using True by blast
  next
    case False
    have "\<exists>w. judge_present coll pol acc present u = Inr w \<and> cv_state w \<noteq> Healthy"
    proof (cases "cross_check ?l acc present = []")
      case cc: True
      show ?thesis
      proof (cases "list_all (\<lambda>m. m = n) (n # ns)")
        case la: True
        show ?thesis
        proof (cases "n = ?S")
          case True
          with cc la False have "unexpected_shards present n \<noteq> []" by (simp add: votes_eq)
          with True cc la show ?thesis
            by (simp add: judge_present_def c Let_def votes_eq refuse_collection_def)
        next
          case False
          with cc la show ?thesis
            by (simp add: judge_present_def c Let_def votes_eq refuse_collection_def)
        qed
      next
        case False
        with cc show ?thesis
          by (simp add: judge_present_def c Let_def votes_eq refuse_collection_def)
      qed
    next
      case False
      then show ?thesis by (simp add: judge_present_def c Let_def)
    qed
    then show ?thesis unfolding agree using False v by auto
  qed
qed

text \<open>The verdict of the code against the declarative condition.\<close>

lemma evaluate_Healthy_iff:
  assumes v: "evaluate_collection_placement coll obs pol acc = Inr v"
  shows "cv_state v = Healthy \<longleftrightarrow> placement_healthy coll obs pol acc"
proof (cases "guard_observations coll obs acc")
  case (Inl w)
  have "\<not> placement_healthy coll obs pol acc"
  proof
    assume h: "placement_healthy coll obs pol acc"
    define vs where "vs = filter (\<lambda>v. obs_collection v = coll) obs"
    have h': "acc \<noteq> []" "vs \<noteq> []" "\<forall>v \<in> set vs. obs_reachable v"
      "\<forall>v \<in> set vs. \<not> obs_missing v \<and> (\<exists>p \<in> set acc. obs_peer v = Some p)"
      using h unfolding vs_def placement_healthy_def Let_def by blast+
    have "filter (\<lambda>v. obs_collection v = coll \<and> obs_reachable v) obs = vs"
      using h'(3) unfolding vs_def by (intro filter_cong) auto
    then have "guard_observations coll obs acc
        = Inr (vs, filter (\<lambda>v. obs_collection v = coll \<and> \<not> obs_reachable v) obs)"
      unfolding guard_Inr using h' by simp
    with Inl show False by simp
  qed
  moreover from v Inl have "w = v" by (simp add: evaluate_collection_placement_def split: if_split_asm)
  ultimately show ?thesis using guard_not_healthy [OF Inl] by simp
next
  case (Inr pu)
  obtain present un where pu: "pu = (present, un)" by (cases pu)
  let ?l = "fold put_report (reports_of present) []"
  let ?S = "shard_number pol"
  let ?t = "concat (map obs_transfers present)"
  let ?own = "map_of (rev (reports_of present))"
  have S: "1 \<le> ?S" using v by (auto simp: evaluate_collection_placement_def split: if_splits)
  from Inr [unfolded pu guard_Inr] have g: "acc \<noteq> []"
      "present = filter (\<lambda>v. obs_collection v = coll \<and> obs_reachable v) obs"
      "un = filter (\<lambda>v. obs_collection v = coll \<and> \<not> obs_reachable v) obs"
      "present \<noteq> []" "\<forall>v \<in> set present. \<not> obs_missing v \<and> (\<exists>p \<in> set acc. obs_peer v = Some p)"
    by blast+
  from v Inr pu have jp: "judge_present coll pol acc present (length un) = Inr v"
    by (auto simp: evaluate_collection_placement_def split: if_splits)
  define shards_ok where "shards_ok \<longleftrightarrow> (\<forall>sid \<in> {0..<?S}. {p. ?own (sid, p) \<noteq> None} \<noteq> {}
              \<and> replication_factor pol \<le> int (card {p. ?own (sid, p) \<noteq> None})
              \<and> (\<forall>p st. ?own (sid, p) = Some st \<longrightarrow> st = ''ACTIVE''))"
  have spec: "placement_healthy coll obs pol acc
      \<longleftrightarrow> un = [] \<and> ?t = [] \<and> reports_agree ?S acc present \<and> shards_ok"
  proof (cases "un = []")
    case True
    then have views: "filter (\<lambda>v. obs_collection v = coll) obs = present"
      unfolding g(2,3) filter_empty_conv by (intro filter_cong [OF refl]) blast
    have reach: "\<forall>v \<in> set present. obs_reachable v" by (auto simp: g(2))
    have t: "?t = [] \<longleftrightarrow> (\<forall>v \<in> set present. obs_transfers v = [])" by simp
    have P: "\<forall>v \<in> set present. obs_reachable v \<and> \<not> obs_missing v \<and> (\<exists>p \<in> set acc. obs_peer v = Some p)"
      using reach g(5) by blast
    show ?thesis
      unfolding placement_healthy_def Let_def views reports_agree_def shards_ok_def t
      by (rule iffI; elim conjE; intro conjI; (assumption | rule True P g(1) g(4)))
  next
    case False
    then obtain w where "w \<in> set un" by (cases un) auto
    then have "\<not> placement_healthy coll obs pol acc"
      unfolding g(3) placement_healthy_def Let_def by auto
    with False show ?thesis by simp
  qed
  show ?thesis
    using judge_present_cases [OF jp g(4)]
  proof (elim disjE conjE exE)
    assume "\<not> reports_agree ?S acc present" "cv_state v \<noteq> Healthy"
    then show ?thesis by (simp add: spec)
  next
    fix rs assume ag: "reports_agree ?S acc present"
      and rs: "res_map (judge_shard ?l (length un) (?t \<noteq> []) (replication_factor pol))
                 (map int [0..<nat ?S]) = Inr rs"
      and veq: "v = aggregate_shards coll (length un) ?t rs"
    have "(\<forall>r \<in> set rs. sv_state (fst r) = Healthy)
        \<longleftrightarrow> (\<forall>sid \<in> set (map int [0..<nat ?S]). \<forall>r. judge_shard ?l (length un) (?t \<noteq> [])
              (replication_factor pol) sid = Inr r \<longrightarrow> sv_state (fst r) = Healthy)"
      by (rule res_map_Inr_Healthy [OF rs])
    also have "\<dots> \<longleftrightarrow> (\<forall>sid \<in> set (map int [0..<nat ?S]). {p. ?own (sid, p) \<noteq> None} \<noteq> {}
              \<and> replication_factor pol \<le> int (card {p. ?own (sid, p) \<noteq> None})
              \<and> (\<forall>p st. ?own (sid, p) = Some st \<longrightarrow> st = ''ACTIVE''))"
    proof (rule ball_cong [OF refl])
      fix sid
      obtain r where r: "judge_shard ?l (length un) (?t \<noteq> []) (replication_factor pol) sid = Inr r"
        using judge_shard_total by blast
      show "(\<forall>r. judge_shard ?l (length un) (?t \<noteq> []) (replication_factor pol) sid = Inr r
            \<longrightarrow> sv_state (fst r) = Healthy) \<longleftrightarrow> {p. ?own (sid, p) \<noteq> None} \<noteq> {}
              \<and> replication_factor pol \<le> int (card {p. ?own (sid, p) \<noteq> None})
              \<and> (\<forall>p st. ?own (sid, p) = Some st \<longrightarrow> st = ''ACTIVE'')"
        unfolding r sum.inject using judge_shard_Healthy_own [OF r own_distinct own_lookup]
        by (simp only: conj_ac) simp
    qed
    also have "set (map int [0..<nat ?S]) = {0..<?S}"
      using S by (simp add: image_int_atLeastLessThan)
    finally have sh: "(\<forall>r \<in> set rs. sv_state (fst r) = Healthy) \<longleftrightarrow> shards_ok"
      unfolding shards_ok_def .
    have "\<And>r. r \<in> set rs \<Longrightarrow> snd (snd r) = (if sv_state (fst r) = Healthy then [] else [state_rank (sv_state (fst r))])"
      using rs judge_shard_shape(4) unfolding res_map_Inr_iff list_all2_conv_all_nth in_set_conv_nth by metis
    from aggregate_Healthy [OF this] show ?thesis
      unfolding veq spec using ag sh by auto
  qed
qed

subsection \<open>The other verdicts\<close>

lemma aggregate_bounds:
  assumes "r \<in> set rs"
    and "snd (snd r) = (if sv_state (fst r) = Healthy then [] else [state_rank (sv_state (fst r))])"
    and four: "\<And>r x. r \<in> set rs \<Longrightarrow> x \<in> set (snd (snd r)) \<Longrightarrow> x \<le> 4"
  shows "sv_state (fst r) \<le> cv_state (aggregate_shards coll u trs rs)"
proof -
  define ranks where "ranks = (let ranks0 = state_rank Healthy # concat (map (snd \<circ> snd) rs);
      ranks1 = (if trs \<noteq> [] then ranks0 @ [state_rank Recovering] else ranks0)
    in if u > 0 \<and> \<not> list_ex (\<lambda>r. state_rank Unverifiable \<le> r) ranks1
       then ranks1 @ [state_rank Degraded] else ranks1)"
  have st: "cv_state (aggregate_shards coll u trs rs) = state_from_rank (max_rank ranks)"
    by (simp add: aggregate_shards_def Let_def ranks_def)
  have le4: "x \<le> 4" if "x \<in> set ranks" for x
    using that four by (auto simp: ranks_def Let_def split: if_splits)
  have "state_rank (sv_state (fst r)) \<le> max_rank ranks"
  proof (cases "sv_state (fst r) = Healthy")
    case False
    then have "state_rank (sv_state (fst r)) \<in> set (snd (snd r))" using assms(2) by simp
    then have "state_rank (sv_state (fst r)) \<in> set (concat (map (snd \<circ> snd) rs))"
      using assms(1) by auto
    also have "\<dots> \<subseteq> set ranks" by (simp add: ranks_def Let_def) blast
    finally have "state_rank (sv_state (fst r)) \<in> set ranks" .
    then show ?thesis by (rule max_rank_ge)
  qed simp
  moreover have "max_rank ranks \<le> 4" using max_rank_in [of ranks] le4 by (metis insertE le0)
  ultimately show ?thesis by (simp add: st less_eq_pstate_def rank_state_from_rank)
qed

lemma judge_all_shards:
  assumes rs: "res_map (judge_shard l u t rf) sids = Inr rs"
  shows "map (sv_shard \<circ> fst) rs = sids"
    and "r \<in> set rs \<Longrightarrow> snd (snd r)
           = (if sv_state (fst r) = Healthy then [] else [state_rank (sv_state (fst r))])"
proof -
  show "map (sv_shard \<circ> fst) rs = sids"
    using rs
  proof (induction sids arbitrary: rs)
    case (Cons s sids)
    then show ?case by (auto simp: rbind_Inr_iff dest: judge_shard_shape(1))
  qed simp
  show "r \<in> set rs \<Longrightarrow> snd (snd r)
           = (if sv_state (fst r) = Healthy then [] else [state_rank (sv_state (fst r))])"
    using rs judge_shard_shape(4)
    unfolding res_map_Inr_iff list_all2_conv_all_nth in_set_conv_nth by metis
qed

lemma guard_no_shards: "guard_observations coll obs acc = Inl v \<Longrightarrow> cv_shards v = []"
  by (auto simp: guard_observations_def Let_def refuse_collection_def split: if_splits)

lemma judge_present_shards:
  assumes jp: "judge_present coll pol acc present u = Inr v"
  shows "cv_shards v = [] \<or>
    (\<exists>l t rs. res_map (judge_shard l u (t \<noteq> []) (replication_factor pol))
          (map int [0..<nat (shard_number pol)]) = Inr rs \<and> v = aggregate_shards coll u t rs)"
proof -
  obtain l votes probs trs where c: "collect_reports present = (l, votes, probs, trs)"
    by (cases "collect_reports present") auto
  show ?thesis
  proof (cases "probs @ cross_check l acc present = []")
    case True
    show ?thesis
    proof (cases votes)
      case Nil
      with True jp c show ?thesis by (auto simp: judge_present_def refuse_collection_def)
    next
      case (Cons n ns)
      show ?thesis
      proof (cases "list_all (\<lambda>m. m = n) votes \<and> n = shard_number pol \<and> unexpected_shards present n = []")
        case ok: True
        then have "list_all (\<lambda>m. m = shard_number pol) ns" "n = shard_number pol"
            "unexpected_shards present (shard_number pol) = []"
          by (auto simp: Cons)
        then have jp': "judge_present coll pol acc present u
          = rbind (res_map (judge_shard l u (trs \<noteq> []) (replication_factor pol)) (map int [0..<nat n]))
              (\<lambda>rs. Inr (aggregate_shards coll u trs rs))"
          using True by (simp add: judge_present_def c Let_def Cons)
        from ok have n: "n = shard_number pol" by blast
        show ?thesis
          using jp jp' unfolding n
          by (cases "res_map (judge_shard l u (trs \<noteq> []) (replication_factor pol))
                (map int [0..<nat (shard_number pol)])") (simp_all, blast)
      next
        case False
        then have "\<exists>w. judge_present coll pol acc present u = Inr w \<and> cv_shards w = []"
          using True Cons
          by (cases "list_all (\<lambda>m. m = n) votes"; cases "n = shard_number pol")
             (simp_all add: judge_present_def c Let_def refuse_collection_def)
        with jp show ?thesis by auto
      qed
    qed
  next
    case False
    with jp c show ?thesis by (auto simp: judge_present_def)
  qed
qed

lemma evaluate_shards:
  assumes v: "evaluate_collection_placement coll obs pol acc = Inr v"
  shows "cv_shards v = [] \<or>
    (\<exists>l u t rs. res_map (judge_shard l u (t \<noteq> []) (replication_factor pol))
          (map int [0..<nat (shard_number pol)]) = Inr rs \<and> v = aggregate_shards coll u t rs)"
proof (cases "guard_observations coll obs acc")
  case (Inl w)
  with v guard_no_shards [OF Inl] show ?thesis
    by (simp add: evaluate_collection_placement_def split: if_split_asm)
next
  case (Inr pu)
  obtain present un where pu: "pu = (present, un)" by (cases pu)
  from v Inr pu have "judge_present coll pol acc present (length un) = Inr v"
    by (simp add: evaluate_collection_placement_def split: if_split_asm)
  from judge_present_shards [OF this] show ?thesis by blast
qed

subsection \<open>Cluster verdicts\<close>

text \<open>What the members report, when \<open>evaluate_members\<close> does not refuse.\<close>

definition members_coherent :: "int \<Rightarrow> peer_view list \<Rightarrow> int set \<Rightarrow> bool" where
  "members_coherent expected vs M \<longleftrightarrow>
     int (length vs) = expected \<and> int (card M) = expected
     \<and> (\<exists>v \<in> set vs. pv_reachable v)
     \<and> (\<forall>v \<in> set vs. pv_reachable v \<longrightarrow>
          pv_peer v \<noteq> None \<and> the (pv_peer v) \<in> M \<and> set (pv_members v) = M \<and> pv_consensus v = ''working'')
     \<and> distinct (view_ids vs)"

lemma set_view_ids: "set (view_ids vs) = {p. \<exists>v \<in> set vs. pv_reachable v \<and> pv_peer v = Some p}"
  by (force simp: view_ids_def)

lemma sorted_set_eq_iff: "sorted_set xs = sorted_set ys \<longleftrightarrow> set xs = set ys"
  by (metis set_sorted_set sorted_set_cong)

lemma cluster_refusal_state [simp]: "cl_state (cluster_refusal e vs p m) = Unverifiable"
  by (simp add: cluster_refusal_def Let_def)

lemma length_sorted_set: "length (sorted_set xs) = card (set xs)"
  by (simp add: sorted_set_def length_remdups_card_conv)

lemma refusal_if:
  "st \<noteq> Unverifiable \<Longrightarrow> cl_state (if c then cluster_refusal e vs p m else X) = st \<longleftrightarrow> \<not> c \<and> cl_state X = st"
  by auto

lemma common_value:
  assumes "h \<in> A" "P h" "\<forall>v \<in> A. P v \<longrightarrow> Q v"
  shows "(\<forall>v \<in> A. P v \<longrightarrow> Q v \<and> K v \<and> f v = f h \<and> g v = w) \<longleftrightarrow>
    (\<forall>v \<in> {v \<in> A. P v}. f v = f h) \<and> (\<forall>v \<in> A. P v \<longrightarrow> K v) \<and> (\<forall>v \<in> {v \<in> A. P v}. g v = g h) \<and> g h = w"
  using assms by auto

text \<open>The number of members that no reachable endpoint is, and of endpoints that did not answer.\<close>

lemma missing_count:
  assumes "members_coherent e vs M"
  shows "card (M - set (view_ids vs)) = length (filter (\<lambda>v. \<not> pv_reachable v) vs)"
proof -
  have fin: "finite M"
    using assms by (metis List.finite_set members_coherent_def)
  have sub: "set (view_ids vs) \<subseteq> M"
    using assms by (auto simp: members_coherent_def set_view_ids)
  have "length (view_ids vs) = length (filter pv_reachable vs)"
    using assms unfolding view_ids_def length_map members_coherent_def
    by (intro arg_cong [of _ _ length] filter_cong [OF refl]) auto
  moreover have "card (set (view_ids vs)) = length (view_ids vs)"
    using assms distinct_card unfolding members_coherent_def by blast
  moreover have "card M = length vs"
    using assms unfolding members_coherent_def by linarith
  moreover have "length (filter pv_reachable vs) + length (filter (\<lambda>v. \<not> pv_reachable v) vs) = length vs"
    by (rule sum_length_filter_compl)
  ultimately show ?thesis
    using card_Diff_subset [OF finite_subset [OF sub fin] sub] by linarith
qed

lemma evaluate_members_state:
  assumes ne: "filter pv_reachable vs \<noteq> []" and e: "1 < e" and len: "int (length vs) = e"
    and nm: "\<forall>v \<in> set vs. pv_reachable v \<longrightarrow> pv_peer v \<noteq> None" and d: "distinct (view_ids vs)"
    and st: "st \<noteq> Unverifiable"
  shows "cl_state (evaluate_members e vs) = st \<longleftrightarrow>
     (\<exists>M. members_coherent e vs M
        \<and> st = (if M \<subseteq> set (view_ids vs) then Healthy else Degraded)
        \<and> length (filter (\<lambda>v. \<not> pv_reachable v) vs) \<le> 1)"
proof -
  let ?R = "filter pv_reachable vs"
  let ?h = "hd ?R"
  let ?M = "set (pv_members ?h)"
  have h: "?h \<in> set vs" "pv_reachable ?h" using ne hd_in_set [OF ne] by auto
  define tail where "tail = (let missing = sorted_set (filter (\<lambda>p. p \<notin> set (view_ids vs)) (sorted_set (pv_members ?h)))
     in if missing = [] then Healthy
        else if length missing = 1 \<and> length (filter (\<lambda>v. \<not> pv_reachable v) vs) = 1 then Degraded
        else Unverifiable)"
  have un: "pv_reachable v \<Longrightarrow> v \<in> set vs \<Longrightarrow> the (pv_peer v) \<in> set (view_ids vs)" for v
    using nm by (force simp: set_view_ids)
  have sub: "set (view_ids vs) \<subseteq> ?M \<longleftrightarrow> (\<forall>v \<in> set vs. pv_reachable v \<longrightarrow> the (pv_peer v) \<in> ?M)"
    using un by (auto simp: set_view_ids)
  have coh: "members_coherent e vs ?M \<longleftrightarrow>
      list_all (\<lambda>v. sorted_set (pv_members v) = sorted_set (pv_members ?h)) ?R
      \<and> sorted_set (pv_members ?h) \<noteq> []
      \<and> int (length (sorted_set (pv_members ?h))) = e
      \<and> sorted_set (filter (\<lambda>p. p \<notin> set (sorted_set (pv_members ?h))) (view_ids vs)) = []
      \<and> list_all (\<lambda>v. pv_consensus v = pv_consensus ?h) ?R
      \<and> pv_consensus ?h = ''working''" (is "_ \<longleftrightarrow> ?C")
  proof -
    have "pv_members ?h \<noteq> [] \<and> int (card ?M) = e \<longleftrightarrow> int (card ?M) = e" using e by auto
    moreover have "filter (\<lambda>p. p \<notin> ?M) (view_ids vs) = [] \<longleftrightarrow> set (view_ids vs) \<subseteq> ?M"
      by (auto simp: filter_empty_conv)
    ultimately show ?thesis
      unfolding members_coherent_def sorted_set_eq_iff length_sorted_set list_all_iff set_sorted_set
        sorted_set_empty_iff sub set_filter
        common_value [of ?h "set vs" pv_reachable "\<lambda>v. pv_peer v \<noteq> None" "\<lambda>v. the (pv_peer v) \<in> ?M"
          "\<lambda>v. set (pv_members v)" pv_consensus "''working''", OF h nm]
      using h len d by (simp only: simp_thms) blast
  qed
  have only: "M = ?M" if "members_coherent e vs M" for M
    using that h unfolding members_coherent_def by blast
  have ev: "cl_state (evaluate_members e vs) = st \<longleftrightarrow> ?C \<and> tail = st"
    unfolding evaluate_members_def Let_def refusal_if [OF st] tail_def not_not
    unfolding if_distrib [of cl_state] cluster_verdict.simps cluster_refusal_state
    by (rule iffI; elim conjE; intro conjI; assumption)
  have tl: "tail = (if ?M \<subseteq> set (view_ids vs) then Healthy
      else if length (filter (\<lambda>v. \<not> pv_reachable v) vs) = 1 then Degraded else Unverifiable)"
    if c: "members_coherent e vs ?M"
  proof -
    have "length (sorted_set (filter (\<lambda>p. p \<notin> set (view_ids vs)) (sorted_set (pv_members ?h))))
        = length (filter (\<lambda>v. \<not> pv_reachable v) vs)"
      unfolding length_sorted_set missing_count [OF c, symmetric]
      by (rule arg_cong [of _ _ card]) auto
    moreover have "filter (\<lambda>p. p \<notin> set (view_ids vs)) (sorted_set (pv_members ?h)) = []
        \<longleftrightarrow> ?M \<subseteq> set (view_ids vs)"
      by (auto simp: filter_empty_conv)
    ultimately show ?thesis unfolding tail_def Let_def by simp
  qed
  have zero: "?M \<subseteq> set (view_ids vs) \<Longrightarrow> length (filter (\<lambda>v. \<not> pv_reachable v) vs) \<le> 1"
    and some: "\<not> ?M \<subseteq> set (view_ids vs) \<Longrightarrow> length (filter (\<lambda>v. \<not> pv_reachable v) vs) \<noteq> 0"
    if c: "members_coherent e vs ?M"
  proof -
    have M: "card (?M - set (view_ids vs)) = length (filter (\<lambda>v. \<not> pv_reachable v) vs)"
      by (rule missing_count [OF c])
    show "?M \<subseteq> set (view_ids vs) \<Longrightarrow> length (filter (\<lambda>v. \<not> pv_reachable v) vs) \<le> 1"
      unfolding M [symmetric] by (simp add: Diff_eq_empty_iff [THEN iffD2])
    show "\<not> ?M \<subseteq> set (view_ids vs) \<Longrightarrow> length (filter (\<lambda>v. \<not> pv_reachable v) vs) \<noteq> 0"
      unfolding M [symmetric] by (simp add: card_eq_0_iff)
  qed
  show ?thesis
  proof
    assume "cl_state (evaluate_members e vs) = st"
    then have c: "members_coherent e vs ?M" and t: "tail = st" unfolding ev coh by blast+
    have "st = (if ?M \<subseteq> set (view_ids vs) then Healthy else Degraded)
        \<and> length (filter (\<lambda>v. \<not> pv_reachable v) vs) \<le> 1"
      using t st zero [OF c] unfolding tl [OF c] by (auto split: if_splits)
    with c show "\<exists>M. members_coherent e vs M
        \<and> st = (if M \<subseteq> set (view_ids vs) then Healthy else Degraded)
        \<and> length (filter (\<lambda>v. \<not> pv_reachable v) vs) \<le> 1" by blast
  next
    assume "\<exists>M. members_coherent e vs M
        \<and> st = (if M \<subseteq> set (view_ids vs) then Healthy else Degraded)
        \<and> length (filter (\<lambda>v. \<not> pv_reachable v) vs) \<le> 1"
    then have c: "members_coherent e vs ?M"
      and s: "st = (if ?M \<subseteq> set (view_ids vs) then Healthy else Degraded)"
      and l: "length (filter (\<lambda>v. \<not> pv_reachable v) vs) \<le> 1"
      using only by blast+
    have "tail = st"
      using s l some [OF c] unfolding tl [OF c] by (cases "?M \<subseteq> set (view_ids vs)") (auto simp: le_Suc_eq)
    with c show "cl_state (evaluate_members e vs) = st" unfolding ev coh by blast
  qed
qed

text \<open>The verdict on a cluster of several peers, as a condition on the endpoint views.\<close>

definition cluster_verdict_is :: "int \<Rightarrow> peer_view list \<Rightarrow> pstate \<Rightarrow> bool" where
  "cluster_verdict_is expected vs st \<longleftrightarrow>
     (\<exists>M. members_coherent expected vs M
        \<and> st = (if M \<subseteq> set (view_ids vs) then Healthy else Degraded)
        \<and> length (filter (\<lambda>v. \<not> pv_reachable v) vs) \<le> 1)"

lemma distinct_remdups_length: "length (remdups xs) = length xs \<longleftrightarrow> distinct xs"
  by (metis card_distinct distinct_card length_remdups_card_conv)

lemma evaluate_cluster_state:
  assumes e: "1 < expected"
  shows "\<exists>v. evaluate_cluster expected vs = Inr v
     \<and> (\<forall>st. st \<noteq> Unverifiable \<longrightarrow> (cl_state v = st \<longleftrightarrow> cluster_verdict_is expected vs st))"
proof (cases "int (length vs) = expected \<and> filter pv_reachable vs \<noteq> []
    \<and> filter (\<lambda>v. pv_peer v = None) (filter pv_reachable vs) = [] \<and> distinct (view_ids vs)")
  case True
  then have nm: "\<forall>v \<in> set vs. pv_reachable v \<longrightarrow> pv_peer v \<noteq> None"
    by (auto simp: filter_empty_conv)
  from True e have "evaluate_cluster expected vs = Inr (evaluate_members expected vs)"
    by (simp add: evaluate_cluster_def distinct_remdups_length)
  with True evaluate_members_state [OF _ e _ nm] show ?thesis
    unfolding cluster_verdict_is_def by simp
next
  case False
  then have no: "\<not> members_coherent expected vs M" for M
    unfolding members_coherent_def by (auto simp: filter_empty_conv)
  have "\<exists>v. evaluate_cluster expected vs = Inr v \<and> cl_state v = Unverifiable"
    using False e unfolding evaluate_cluster_def Let_def distinct_remdups_length by auto
  with no show ?thesis unfolding cluster_verdict_is_def by auto
qed

subsection \<open>The report and the policy selection\<close>

lemma report_state_Healthy:
  "report_state r = Judged Healthy \<longleftrightarrow>
     \<not> vr_single_node r \<and> vr_configured_problems r = [] \<and> vr_alias_conflicts r = []
     \<and> cl_state (vr_cluster r) = Healthy \<and> (\<forall>v \<in> set (vr_collections r). cv_state v = Healthy)"
  by (auto simp: report_state_def report_ranks_def)

lemma report_state_NonHa:
  "report_state r = NonHa \<longleftrightarrow>
     vr_single_node r \<and> vr_configured_problems r = [] \<and> vr_alias_conflicts r = []
     \<and> cl_state (vr_cluster r) = Healthy \<and> (\<forall>v \<in> set (vr_collections r). cv_state v = Healthy)"
  by (auto simp: report_state_def report_ranks_def)

lemma parse_policy_Inr:
  "parse_policy vals = Inr p \<longleftrightarrow> (\<exists>a b c. vals = (Some a, Some b, Some c)
     \<and> p = policy_of_tuple (a, b, c) \<and> policy_problems p = [])"
  by (cases vals)
     (auto simp: parse_policy_def policy_of_tuple_def Let_def policy_keys_def)

lemma policy_problems_empty:
  "policy_problems p = [] \<longleftrightarrow> 1 \<le> replication_factor p \<and> 1 \<le> shard_number p
     \<and> 1 \<le> write_consistency_factor p \<and> write_consistency_factor p \<le> replication_factor p"
  by (auto simp: policy_problems_def)

lemma policy_tuple_of_tuple [simp]: "policy_tuple (policy_of_tuple t) = t"
  by (simp add: policy_tuple_def policy_of_tuple_def)

section \<open>Properties\<close>

text \<open>
  C1: With a positive expected shard count the placement check of a collection always returns
  a verdict, and the verdict is healthy exactly when every peer answers, knows its own id and
  is an accepted member, all peers report the expected shard count and no shard outside it,
  no transfer runs, every remote report agrees with that peer's own, and each shard has at
  least the replication factor of distinct copies, all of them ACTIVE.
\<close>

theorem collection_healthy_iff:
  assumes "1 \<le> shard_number pol"
  shows "\<exists>v. evaluate_collection_placement coll obs pol acc = Inr v
    \<and> (cv_state v = Healthy \<longleftrightarrow> placement_healthy coll obs pol acc)"
  using evaluate_total [OF assms] evaluate_Healthy_iff by blast

theorem collection_healthy_iff_witness:
  "\<exists>v. evaluate_collection_placement ''c''
        [\<lparr>obs_collection = ''c'', obs_endpoint = ''a'', obs_reachable = True, obs_peer = Some 7,
          obs_shard_count = Some 1, obs_local = [(0, ''ACTIVE'')], obs_remote = [], obs_transfers = [],
          obs_missing = False, obs_error = None\<rparr>]
        \<lparr>shard_number = 1, replication_factor = 1, write_consistency_factor = 1\<rparr> [7] = Inr v
    \<and> cv_state v = Healthy"
proof -
  let ?p = "\<lparr>shard_number = 1, replication_factor = 1, write_consistency_factor = 1\<rparr>"
  let ?o = "[\<lparr>obs_collection = ''c'', obs_endpoint = ''a'', obs_reachable = True, obs_peer = Some 7,
          obs_shard_count = Some 1, obs_local = [(0, ''ACTIVE'')], obs_remote = [], obs_transfers = [],
          obs_missing = False, obs_error = None\<rparr>]"
  have "{p. p = (7::int)} = {7}" by auto
  then have "placement_healthy ''c'' ?o ?p [7]"
    by (auto simp: placement_healthy_def reports_of_def Let_def)
  with collection_healthy_iff [of ?p "''c''" ?o "[7]"] show ?thesis by auto
qed

text \<open>
  A collection verdict never hides a shard: it carries either no shard verdict (an earlier
  refusal) or exactly one per expected shard, in order, and its state is at least as bad as
  the state of every one of them.
\<close>

theorem collection_covers_shards:
  assumes "evaluate_collection_placement coll obs pol acc = Inr v" "cv_shards v \<noteq> []"
  shows "map sv_shard (cv_shards v) = map int [0..<nat (shard_number pol)]
    \<and> (\<forall>s \<in> set (cv_shards v). sv_state s \<le> cv_state v)"
proof -
  obtain l u t rs where rs: "res_map (judge_shard l u (t \<noteq> []) (replication_factor pol))
          (map int [0..<nat (shard_number pol)]) = Inr rs" and v: "v = aggregate_shards coll u t rs"
    using evaluate_shards [OF assms(1)] assms(2) by blast
  note j = judge_all_shards [OF rs]
  have "\<And>r x. r \<in> set rs \<Longrightarrow> x \<in> set (snd (snd r)) \<Longrightarrow> x \<le> 4"
    using j(2) state_rank_le by (auto split: if_splits)
  then have le: "sv_state (fst r) \<le> cv_state v" if "r \<in> set rs" for r
    unfolding v using aggregate_bounds [OF that j(2) [OF that]] by blast
  have "cv_shards v = map fst rs" by (simp add: v aggregate_shards_def Let_def)
  with le j(1) show ?thesis by auto
qed

theorem collection_covers_shards_witness:
  "\<exists>v. evaluate_collection_placement ''c''
        [\<lparr>obs_collection = ''c'', obs_endpoint = ''a'', obs_reachable = True, obs_peer = Some 7,
          obs_shard_count = Some 1, obs_local = [(0, ''DEAD'')], obs_remote = [], obs_transfers = [],
          obs_missing = False, obs_error = None\<rparr>]
        \<lparr>shard_number = 1, replication_factor = 1, write_consistency_factor = 1\<rparr> [7] = Inr v
    \<and> map sv_shard (cv_shards v) = [0] \<and> (\<forall>s \<in> set (cv_shards v). sv_state s \<le> cv_state v)"
proof -
  let ?p = "\<lparr>shard_number = 1, replication_factor = 1, write_consistency_factor = 1\<rparr>"
  let ?o = "[\<lparr>obs_collection = ''c'', obs_endpoint = ''a'', obs_reachable = True, obs_peer = Some 7,
          obs_shard_count = Some 1, obs_local = [(0, ''DEAD'')], obs_remote = [], obs_transfers = [],
          obs_missing = False, obs_error = None\<rparr>]"
  obtain v where v: "evaluate_collection_placement ''c'' ?o ?p [7] = Inr v" "cv_shards v \<noteq> []"
    by (simp add: evaluate_collection_placement_def guard_observations_def judge_present_def
        collect_reports_def collect_view_def put_local_def copies_of_def cross_check_def
        unexpected_shards_def sorted_set_def judge_shard_def idle_details_def non_serving_detail_def
        aggregate_shards_def shard_refusal_def)
  from collection_covers_shards [OF v] v show ?thesis by auto
qed



text \<open>
  The operator's verdict line reads healthy only for a report with no configured-policy
  problem and no alias conflict whose cluster and collections are all healthy, and outside
  the single-node profile; it reads degraded only if degraded operation was allowed.
\<close>

theorem verdict_line_sound:
  "(remark_tag (last (evidence_lines r ad)) = ''VERDICT: healthy'' \<longleftrightarrow>
      \<not> vr_single_node r \<and> vr_configured_problems r = [] \<and> vr_alias_conflicts r = []
      \<and> cl_state (vr_cluster r) = Healthy \<and> (\<forall>v \<in> set (vr_collections r). cv_state v = Healthy))
   \<and> (remark_tag (last (evidence_lines r ad)) = ''VERDICT: degraded''
        \<longleftrightarrow> ad \<and> report_state r = Judged Degraded)
   \<and> (remark_tag (last (evidence_lines r ad)) = ''VERDICT: non-ha'' \<longleftrightarrow> report_state r = NonHa)"
  unfolding report_state_Healthy [symmetric]
  by (auto simp: evidence_lines_def verdict_line_def)

theorem verdict_line_sound_witness:
  "remark_tag (last (evidence_lines \<lparr>vr_policy = policy_of_tuple (6, 3, 2), vr_single_node = False,
      vr_cluster = \<lparr>cl_state = Healthy, cl_expected = 1, cl_members = 1, cl_reachable = 1, cl_consensus = ''working'',
        cl_problems = [], cl_member_ids = [7], cl_observed = [7]\<rparr>,
      vr_collections = [\<lparr>cv_collection = ''c'', cv_state = Degraded, cv_problems = [], cv_shards = []\<rparr>],
      vr_configured_problems = [], vr_alias_conflicts = [], vr_alias = None, vr_notes = []\<rparr> False)) \<noteq> ''VERDICT: healthy''"
  by (simp add: verdict_line_sound)

text \<open>
  A production claim selects the policy 6/3/2 and nothing else, a single-node claim 1/1/1,
  both claims together are refused, and any policy that is selected has positive factors with
  the write consistency factor at most the replication factor.
\<close>

theorem selected_policy_sound:
  assumes "selected_policy s production single_node = Inr (Some p)"
  shows "\<not> (production \<and> single_node) \<and> (production \<longrightarrow> policy_tuple p = (6, 3, 2))
    \<and> (single_node \<longrightarrow> policy_tuple p = (1, 1, 1)) \<and> policy_problems p = []"
proof -
  have ones: "policy_problems (policy_of_tuple (1, 1, 1)) = []"
    by (simp add: policy_problems_empty policy_of_tuple_def)
  show ?thesis
    using assms ones unfolding selected_policy_def Let_def
    by (auto simp: rbind_Inr_iff production_policy_def single_node_policy_def parse_policy_Inr
        split: if_splits)
qed

theorem selected_policy_sound_witness:
  "policy_tuple \<lparr>shard_number = 6, replication_factor = 3, write_consistency_factor = 2\<rparr> = (6, 3, 2)
   \<and> selected_policy \<lparr>qdrant_collection = ''c'', qdrant_shard_number = Some 6,
       qdrant_replication_factor = Some 3, qdrant_write_consistency_factor = Some 2,
       qdrant_peer_urls = None, embed_mode = ''hash'', embed_model = None, dense_dim = None,
       embed_model_revision = [], dense_query_prefix = [], batch_size = 16,
       ingest_scan_page_size = 100, bm25_model = ''b'', bm25_weights_revision = [],
       contextual_embed_enabled = False, context_llm_model = None, context_max_chars = 50\<rparr> True False
      = Inr (Some \<lparr>shard_number = 6, replication_factor = 3, write_consistency_factor = 2\<rparr>)"
    (is "_ \<and> ?sel = Inr (Some ?p)")
proof -
  have "?sel = Inr (Some ?p)"
    by (simp add: selected_policy_def parse_policy_def policy_keys_def policy_problems_def
        production_policy_def policy_tuple_def)
  with selected_policy_sound [OF this] show ?thesis by simp
qed

end
