(* ===== verification/Identity.thy ===== *)
theory Identity
  imports Config "HOL-Library.AList" "HOL-Library.Product_Lexorder"
begin

text \<open>
  Source identity (\<open>mainframe_rag/ingest/identity.py\<close>): label normalisation and the
  source-revision key, corpus-relative paths, the election of one winner among byte-identical
  files, and the detection of distinct files that claim one document id. A Python path is the
  list of its parts, with the root as the part \<open>/\<close>.
\<close>

section \<open>The source-revision key\<close>

text \<open>\<open>value.split()\<close>: the maximal runs without white space.\<close>

fun split_ws_acc :: "string \<Rightarrow> string \<Rightarrow> string list" where
  "split_ws_acc w [] = (if w = [] then [] else [rev w])"
| "split_ws_acc w (c # cs) =
     (if is_space c then (if w = [] then split_ws_acc [] cs else rev w # split_ws_acc [] cs)
      else split_ws_acc (c # w) cs)"

definition split_ws :: "string \<Rightarrow> string list" where
  "split_ws s = split_ws_acc [] s"

fun join_with :: "string \<Rightarrow> string list \<Rightarrow> string" where
  "join_with sep [] = []"
| "join_with sep [p] = p"
| "join_with sep (p # ps) = p @ sep @ join_with sep ps"

definition lower_char :: "char \<Rightarrow> char" where
  "lower_char c = (if 65 \<le> (of_char c :: nat) \<and> (of_char c :: nat) \<le> 90
                   then char_of ((of_char c :: nat) + 32) else c)"

definition casefold :: "string \<Rightarrow> string" where
  "casefold s = map lower_char s"

definition normalize_label :: "string option \<Rightarrow> string" where
  "normalize_label value =
     (case value of None \<Rightarrow> [] | Some v \<Rightarrow> casefold (join_with '' '' (split_ws v)))"

text \<open>\<open>s.replace(c, r)\<close> for a one-character pattern.\<close>

definition replace_char :: "char \<Rightarrow> string \<Rightarrow> string \<Rightarrow> string" where
  "replace_char c r s = concat (map (\<lambda>x. if x = c then r else [x]) s)"

abbreviation backslash :: char where "backslash \<equiv> CHR 0x5C"

definition escape_label :: "string \<Rightarrow> string" where
  "escape_label label =
     replace_char (CHR ''|'') [backslash, CHR ''|''] (replace_char backslash [backslash, backslash] label)"

definition source_rev_key :: "string option \<Rightarrow> string option \<Rightarrow> string option \<Rightarrow> string \<Rightarrow> string" where
  "source_rev_key vendor product version sha256 =
     join_with ''|'' (map (escape_label \<circ> normalize_label) [vendor, product, version] @ [sha256])"

section \<open>Corpus-relative paths\<close>

definition path_parts :: "string \<Rightarrow> string list" where
  "path_parts s = (if take 1 s = ''/'' then [''/''] else [])
     @ filter (\<lambda>p. p \<noteq> [] \<and> p \<noteq> ''.'') (split_on (CHR ''/'') s)"

definition path_name :: "string list \<Rightarrow> string" where
  "path_name ps = (if ps = [] \<or> last ps = ''/'' then [] else last ps)"

definition path_str :: "string list \<Rightarrow> string" where
  "path_str ps =
     (case ps of [] \<Rightarrow> ''.''
      | p # qs \<Rightarrow> if p = ''/'' then ''/'' @ join_with ''/'' qs else join_with ''/'' ps)"

text \<open>\<open>Path.relative_to\<close> raises unless the corpus root is the path or one of its parents.\<close>

definition corpus_relpath :: "string \<Rightarrow> string list \<Rightarrow> string" where
  "corpus_relpath path src =
     (let parts = path_parts path
      in if prefix src parts \<and> (src = [] \<longrightarrow> take 1 parts \<noteq> [''/''])
         then path_str (drop (length src) parts) else path_name parts)"

section \<open>Duplicates\<close>

record duplicate =
  loser_rel :: string
  winner_rel :: string

text \<open>
  \<open>min(group, key=...)\<close>: the first entry with the smallest key. The group of an entry is the
  list of walked entries with its digest, in walk order.
\<close>

fun min_by :: "('a \<Rightarrow> 'k::linorder) \<Rightarrow> 'a \<Rightarrow> 'a list \<Rightarrow> 'a" where
  "min_by f x [] = x"
| "min_by f x (y # ys) = min_by f (if f y < f x then y else x) ys"

definition sha_group :: "(string \<times> string) list \<Rightarrow> string \<Rightarrow> (string \<times> string) list" where
  "sha_group walk sha = filter (\<lambda>e. snd e = sha) walk"

definition sha_winner :: "string list \<Rightarrow> (string \<times> string) list \<Rightarrow> (string \<times> string) \<Rightarrow> string \<times> string" where
  "sha_winner src walk entry =
     (case sha_group walk (snd entry) of [] \<Rightarrow> entry
      | x # xs \<Rightarrow> min_by (\<lambda>e. corpus_relpath (fst e) src) x xs)"

definition plan_duplicates ::
    "(string \<times> string) list \<Rightarrow> string list \<Rightarrow> (string \<times> string) list \<times> duplicate list" where
  "plan_duplicates walk src =
     fold (\<lambda>entry (kept, dups).
         if length (sha_group walk (snd entry)) = 1 then (kept @ [entry], dups)
         else if entry = sha_winner src walk entry then (kept @ [entry], dups)
         else (kept, dups @ [\<lparr>loser_rel = corpus_relpath (fst entry) src,
                              winner_rel = corpus_relpath (fst (sha_winner src walk entry)) src\<rparr>]))
       walk ([], [])"

section \<open>Collisions\<close>

record collision =
  co_doc_id :: string
  co_members :: "(string \<times> string) list"

type_synonym doc_groups = "(string \<times> (string \<times> string) list) list"

definition group_doc :: "string list \<Rightarrow> string \<times> string \<times> string option \<Rightarrow> doc_groups \<Rightarrow> doc_groups" where
  "group_doc src r by_doc =
     (case r of (path, sha, doc) \<Rightarrow>
        case doc of None \<Rightarrow> by_doc
        | Some d \<Rightarrow>
            AList.update d
              (AList.update (corpus_relpath path src) sha
                 (case map_of by_doc d of None \<Rightarrow> [] | Some g \<Rightarrow> g)) by_doc)"

definition find_collisions ::
    "(string \<times> string \<times> string option) list \<Rightarrow> string list \<Rightarrow> collision list" where
  "find_collisions resolved src =
     (let by_doc = fold (group_doc src) resolved []
      in concat (map (\<lambda>d.
           let rel_to_sha = (case map_of by_doc d of None \<Rightarrow> [] | Some g \<Rightarrow> g)
           in if length (remdups (map snd rel_to_sha)) < 2 then []
              else [\<lparr>co_doc_id = d, co_members = sort (map (\<lambda>(rel, sha). (rel, take 16 sha)) rel_to_sha)\<rparr>])
         (sorted_set (map fst by_doc))))"

section \<open>Lemmas\<close>

subsection \<open>Escaping\<close>

definition esc_char :: "char \<Rightarrow> string" where
  "esc_char x = (if x = backslash then [backslash, backslash]
                 else if x = CHR ''|'' then [backslash, CHR ''|''] else [x])"

lemma escape_label_conv: "escape_label s = concat (map esc_char s)"
  by (induction s) (auto simp: escape_label_def replace_char_def esc_char_def)

text \<open>An escaped label followed by the delimiter can be read back in one way only.\<close>

lemma escape_delim_inject:
  "escape_label a @ CHR ''|'' # r = escape_label b @ CHR ''|'' # t \<Longrightarrow> a = b \<and> r = t"
proof (induction a arbitrary: b)
  case Nil
  then show ?case
    by (cases b) (auto simp: escape_label_conv esc_char_def split: if_splits)
next
  case (Cons x a)
  show ?case
  proof (cases b)
    case Nil
    with Cons.prems show ?thesis
      by (auto simp: escape_label_conv esc_char_def split: if_splits)
  next
    case (Cons y b')
    have "x = y \<and> escape_label a @ CHR ''|'' # r = escape_label b' @ CHR ''|'' # t"
      using Cons.prems unfolding Cons escape_label_conv
      by (auto simp: esc_char_def split: if_splits)
    with Cons.IH [of b'] Cons show ?thesis by simp
  qed
qed

lemma source_rev_key_conv:
  "source_rev_key a b c sha = escape_label (normalize_label a) @ ''|'' @ escape_label (normalize_label b)
     @ ''|'' @ escape_label (normalize_label c) @ ''|'' @ sha"
  by (simp add: source_rev_key_def)

subsection \<open>The winner of a group\<close>

lemma min_by_in: "min_by f x xs \<in> set (x # xs)"
  by (induction f x xs rule: min_by.induct) auto

lemma min_by_le: "y \<in> set (x # xs) \<Longrightarrow> f (min_by f x xs) \<le> f y"
proof (induction f x xs arbitrary: y rule: min_by.induct)
  case (2 f x z zs)
  from 2(1) [of "if f z < f x then z else x"] have "f (min_by f x (z # zs)) \<le> f (if f z < f x then z else x)"
    by simp
  with 2 show ?case
    by (cases "f z < f x") (auto simp: not_less intro: order_trans [OF _ less_imp_le] order_trans)
qed simp

lemma sha_winner_props:
  assumes "e \<in> set walk"
  shows "sha_winner src walk e \<in> set walk" "snd (sha_winner src walk e) = snd e"
    and "e' \<in> set walk \<Longrightarrow> snd e' = snd e
         \<Longrightarrow> corpus_relpath (fst (sha_winner src walk e)) src \<le> corpus_relpath (fst e') src"
proof -
  have e: "e \<in> set (sha_group walk (snd e))" using assms by (simp add: sha_group_def)
  then obtain x xs where g: "sha_group walk (snd e) = x # xs" by (cases "sha_group walk (snd e)") auto
  let ?w = "sha_winner src walk e"
  have w: "?w = min_by (\<lambda>e. corpus_relpath (fst e) src) x xs"
    by (simp add: sha_winner_def g)
  then have "?w \<in> set (sha_group walk (snd e))"
    using min_by_in [of "\<lambda>e. corpus_relpath (fst e) src" x xs] by (simp add: g)
  then show "?w \<in> set walk" "snd ?w = snd e" by (auto simp: sha_group_def)
  assume "e' \<in> set walk" "snd e' = snd e"
  then have "e' \<in> set (x # xs)" unfolding g [symmetric] by (simp add: sha_group_def)
  then show "corpus_relpath (fst ?w) src \<le> corpus_relpath (fst e') src"
    unfolding w by (rule min_by_le)
qed

lemma sha_winner_cong: "snd e = snd e' \<Longrightarrow> e \<in> set walk \<Longrightarrow> sha_winner src walk e = sha_winner src walk e'"
  by (auto simp: sha_winner_def sha_group_def filter_empty_conv split: list.splits)

lemma single_group_winner:
  assumes "e \<in> set walk" "length (sha_group walk (snd e)) = 1"
  shows "e = sha_winner src walk e"
proof -
  from assms(2) obtain x where x: "sha_group walk (snd e) = [x]"
    by (auto simp: length_Suc_conv)
  have "e \<in> set (sha_group walk (snd e))" using assms(1) by (simp add: sha_group_def)
  with x show ?thesis by (simp add: sha_winner_def)
qed

text \<open>The walk splits into the winners, in walk order, and the reported copies.\<close>

lemma plan_duplicates_conv:
  "plan_duplicates walk src =
     (filter (\<lambda>e. e = sha_winner src walk e) walk,
      map (\<lambda>e. \<lparr>loser_rel = corpus_relpath (fst e) src,
                winner_rel = corpus_relpath (fst (sha_winner src walk e)) src\<rparr>)
        (filter (\<lambda>e. e \<noteq> sha_winner src walk e) walk))"
proof -
  have "fold (\<lambda>entry (kept, dups).
         if length (sha_group walk (snd entry)) = 1 then (kept @ [entry], dups)
         else if entry = sha_winner src walk entry then (kept @ [entry], dups)
         else (kept, dups @ [\<lparr>loser_rel = corpus_relpath (fst entry) src,
                              winner_rel = corpus_relpath (fst (sha_winner src walk entry)) src\<rparr>])) xs (k, d)
    = (k @ filter (\<lambda>e. e = sha_winner src walk e) xs,
       d @ map (\<lambda>e. \<lparr>loser_rel = corpus_relpath (fst e) src,
                winner_rel = corpus_relpath (fst (sha_winner src walk e)) src\<rparr>)
             (filter (\<lambda>e. e \<noteq> sha_winner src walk e) xs))"
    if "set xs \<subseteq> set walk" for xs k d
    using that by (induction xs arbitrary: k d) (auto dest: single_group_winner [of _ walk src])
  from this [of walk "[]" "[]"] show ?thesis by (simp add: plan_duplicates_def)
qed

subsection \<open>Grouping by document\<close>

lemma group_doc_lookup:
  "map_of (case map_of (group_doc src (p, sha, doc) g) d of None \<Rightarrow> [] | Some g \<Rightarrow> g) rel
   = (if doc = Some d \<and> corpus_relpath p src = rel then Some sha
      else map_of (case map_of g d of None \<Rightarrow> [] | Some g \<Rightarrow> g) rel)"
  by (cases doc) (auto simp: group_doc_def update_conv' split: option.splits)

text \<open>After grouping, the digest of a path is the one of its last entry for that document.\<close>

lemma fold_group_lookup:
  "map_of (case map_of (fold (group_doc src) rs g) d of None \<Rightarrow> [] | Some g \<Rightarrow> g) rel
   = (case find (\<lambda>(p, sha, doc). doc = Some d \<and> corpus_relpath p src = rel) (rev rs) of
        Some (p, sha, doc) \<Rightarrow> Some sha
      | None \<Rightarrow> map_of (case map_of g d of None \<Rightarrow> [] | Some g \<Rightarrow> g) rel)"
proof (induction rs arbitrary: g)
  case Nil
  then show ?case by simp
next
  case (Cons r rs)
  obtain p sha doc where r: "r = (p, sha, doc)" by (cases r) auto
  have app: "find P (xs @ ys) = (case find P xs of None \<Rightarrow> find P ys | Some x \<Rightarrow> Some x)"
    for P :: "string \<times> string \<times> string option \<Rightarrow> bool" and xs ys
    by (induction xs) auto
  show ?case
    using Cons.IH [of "group_doc src r g"] unfolding r
    by (auto simp: group_doc_lookup app simp del: find.simps split: option.splits)
       (auto split: if_splits)
qed

definition doc_group :: "doc_groups \<Rightarrow> string \<Rightarrow> (string \<times> string) list" where
  "doc_group g d = (case map_of g d of None \<Rightarrow> [] | Some x \<Rightarrow> x)"

lemma doc_group_distinct:
  assumes "\<forall>d. distinct (map fst (doc_group g d))"
  shows "\<forall>d. distinct (map fst (doc_group (fold (group_doc src) rs g) d))"
  using assms
proof (induction rs arbitrary: g)
  case (Cons r rs)
  have "\<forall>d. distinct (map fst (doc_group (group_doc src r g) d))"
    using Cons.prems
    by (cases r; cases "snd (snd r)")
       (auto simp: group_doc_def doc_group_def update_conv' distinct_update split: option.splits)
  then show ?case using Cons.IH by simp
qed simp

lemma find_Some_distinct:
  assumes "distinct (map k xs)" "x \<in> set xs" "P x" "\<And>y. P y \<Longrightarrow> k y = k x"
  shows "find P xs = Some x"
  using assms
proof (induction xs)
  case (Cons y ys)
  show ?case
  proof (cases "P y")
    case True
    then have "k y = k x" by (rule Cons.prems(4))
    with Cons.prems(1) have "x \<notin> set ys" by (auto simp: image_iff)
    with True Cons.prems(2) show ?thesis by simp
  next
    case False
    with Cons.prems have "x \<in> set ys" by auto
    have "distinct (map k ys)" using Cons.prems(1) by simp
    from Cons.IH [OF this \<open>x \<in> set ys\<close> Cons.prems(3,4)] False show ?thesis by simp
  qed
qed simp

text \<open>With distinct corpus paths a group holds exactly the digests of its document.\<close>

lemma doc_group_values:
  assumes d: "distinct (map (\<lambda>(p, sha, doc). corpus_relpath p src) rs)"
  shows "set (map snd (doc_group (fold (group_doc src) rs []) doc)) = {sha. \<exists>p. (p, sha, Some doc) \<in> set rs}"
proof -
  let ?g = "doc_group (fold (group_doc src) rs []) doc"
  have dg: "distinct (map fst ?g)"
    using doc_group_distinct [of "[]" src rs] by (simp add: doc_group_def)
  have lk: "map_of ?g rel = (case find (\<lambda>(p, sha, dd). dd = Some doc \<and> corpus_relpath p src = rel) (rev rs) of
        Some (p, sha, dd) \<Rightarrow> Some sha | None \<Rightarrow> None)" for rel
    using fold_group_lookup [of src rs "[]" doc rel] by (auto simp: doc_group_def split: option.splits)
  have "sha \<in> set (map snd ?g) \<longleftrightarrow> (\<exists>p. (p, sha, Some doc) \<in> set rs)" for sha
  proof
    assume "sha \<in> set (map snd ?g)"
    then obtain rel where "(rel, sha) \<in> set ?g" by auto
    then have "map_of ?g rel = Some sha" using dg by simp
    then obtain x where "find (\<lambda>(p, sha, dd). dd = Some doc \<and> corpus_relpath p src = rel) (rev rs) = Some x"
        and "fst (snd x) = sha"
      unfolding lk by (auto split: option.splits)
    then show "\<exists>p. (p, sha, Some doc) \<in> set rs"
      unfolding find_Some_iff by (cases x) (metis (mono_tags, lifting) case_prod_conv fst_conv nth_mem set_rev snd_conv)
  next
    assume "\<exists>p. (p, sha, Some doc) \<in> set rs"
    then obtain p where p: "(p, sha, Some doc) \<in> set rs" by blast
    have "find (\<lambda>(q, sha, dd). dd = Some doc \<and> corpus_relpath q src = corpus_relpath p src) (rev rs)
        = Some (p, sha, Some doc)"
      by (rule find_Some_distinct [where k = "\<lambda>(p, sha, doc). corpus_relpath p src"])
         (use d p in \<open>auto simp: rev_map [symmetric]\<close>)
    then have "map_of ?g (corpus_relpath p src) = Some sha" unfolding lk by simp
    then show "sha \<in> set (map snd ?g)" by (force dest: map_of_SomeD)
  qed
  then show ?thesis by blast
qed

lemma remdups_less_two: "length (remdups xs) < 2 \<longleftrightarrow> (\<forall>x \<in> set xs. \<forall>y \<in> set xs. x = y)"
proof -
  have "length (remdups xs) = card (set xs)" by (rule length_remdups_card_conv)
  moreover have "card (set xs) < 2 \<longleftrightarrow> (\<forall>x \<in> set xs. \<forall>y \<in> set xs. x = y)"
    using card_le_Suc0_iff_eq [of "set xs"] by (simp add: less_Suc_eq_le numeral_2_eq_2)
  ultimately show ?thesis by simp
qed

lemma find_collisions_empty:
  "find_collisions rs src = [] \<longleftrightarrow>
     (\<forall>d. \<forall>x \<in> set (map snd (doc_group (fold (group_doc src) rs []) d)).
          \<forall>y \<in> set (map snd (doc_group (fold (group_doc src) rs []) d)). x = y)"
proof -
  let ?b = "fold (group_doc src) rs []"
  have "find_collisions rs src = [] \<longleftrightarrow>
     (\<forall>d \<in> set (map fst ?b). length (remdups (map snd (doc_group ?b d))) < 2)"
    by (auto simp: find_collisions_def Let_def doc_group_def split: if_splits)
  also have "\<dots> \<longleftrightarrow> (\<forall>d. length (remdups (map snd (doc_group ?b d))) < 2)"
  proof -
    have "length (remdups (map snd (doc_group ?b d))) < 2" if "d \<notin> set (map fst ?b)" for d
    proof -
      have "map_of ?b d = None" using that by (simp add: map_of_eq_None_iff)
      then show ?thesis by (simp add: doc_group_def)
    qed
    then show ?thesis by blast
  qed
  finally show ?thesis unfolding remdups_less_two .
qed

section \<open>Properties\<close>

text \<open>
  C9: Two source-revision keys are equal exactly when the normalised labels and the content
  digests are: a delimiter or a backslash inside a label never shifts the fields after it.
\<close>

theorem source_rev_key_inject:
  "source_rev_key v p r s = source_rev_key v' p' r' s'
   \<longleftrightarrow> normalize_label v = normalize_label v' \<and> normalize_label p = normalize_label p'
     \<and> normalize_label r = normalize_label r' \<and> s = s'"
  by (auto simp: source_rev_key_conv dest!: escape_delim_inject)

text \<open>
  Election among byte-identical files: every digest of the walk keeps a file, the kept file
  is the walked file of that digest with the smallest corpus path, two kept files of one digest
  are the same entry, and each entry is either kept or reported as a copy of its winner.
\<close>

theorem plan_duplicates_sound:
  "snd ` set (fst (plan_duplicates walk src)) = snd ` set walk
   \<and> set (fst (plan_duplicates walk src)) \<subseteq> set walk
   \<and> (\<forall>e \<in> set (fst (plan_duplicates walk src)). \<forall>e' \<in> set walk. snd e' = snd e \<longrightarrow>
        corpus_relpath (fst e) src \<le> corpus_relpath (fst e') src
        \<and> (e' \<in> set (fst (plan_duplicates walk src)) \<longrightarrow> e' = e))
   \<and> length (fst (plan_duplicates walk src)) + length (snd (plan_duplicates walk src)) = length walk"
proof -
  have kept: "set (fst (plan_duplicates walk src)) = {e \<in> set walk. e = sha_winner src walk e}"
    by (simp add: plan_duplicates_conv)
  have win: "sha_winner src walk e \<in> {e \<in> set walk. e = sha_winner src walk e}" if "e \<in> set walk" for e
    using sha_winner_props(1,2) [OF that] sha_winner_cong [of "sha_winner src walk e" e walk src] by simp
  have "snd ` {e \<in> set walk. e = sha_winner src walk e} = snd ` set walk"
  proof (intro equalityI subsetI)
    fix x assume "x \<in> snd ` set walk"
    then obtain e where e: "e \<in> set walk" "x = snd e" by blast
    then have "x = snd (sha_winner src walk e)" using sha_winner_props(2) by simp
    with win [OF e(1)] show "x \<in> snd ` {e \<in> set walk. e = sha_winner src walk e}" by blast
  qed blast
  moreover have "corpus_relpath (fst e) src \<le> corpus_relpath (fst e') src"
    if "e \<in> set walk" "e = sha_winner src walk e" "e' \<in> set walk" "snd e' = snd e" for e e'
    using sha_winner_props(3) [OF that(1,3,4)] that(2) by metis
  moreover have "e' = e" if "e \<in> set walk" "e = sha_winner src walk e" "e' \<in> set walk" "snd e' = snd e"
      "e' = sha_winner src walk e'" for e e'
    using sha_winner_cong [of e e' walk src] that by metis
  ultimately show ?thesis
    unfolding kept by (auto simp: plan_duplicates_conv sum_length_filter_compl)
qed

theorem plan_duplicates_sound_witness:
  "snd ` set (fst (plan_duplicates [(''b.pdf'', ''1''), (''a.pdf'', ''1'')] [])) = {''1''}
   \<and> length (fst (plan_duplicates [(''b.pdf'', ''1''), (''a.pdf'', ''1'')] []))
     + length (snd (plan_duplicates [(''b.pdf'', ''1''), (''a.pdf'', ''1'')] [])) = 2"
proof -
  note p = plan_duplicates_sound [of "[(''b.pdf'', ''1''), (''a.pdf'', ''1'')]" "[]"]
  from p show ?thesis by simp
qed

text \<open>
  With distinct corpus paths the planning gate reports no collision exactly when no two
  resolvable files claim one document id with different bytes; files without an id play no part.
\<close>

theorem find_collisions_complete:
  assumes "distinct (map (\<lambda>(p, sha, doc). corpus_relpath p src) rs)"
  shows "find_collisions rs src = [] \<longleftrightarrow>
    (\<forall>p sha p' sha' d. (p, sha, Some d) \<in> set rs \<and> (p', sha', Some d) \<in> set rs \<longrightarrow> sha = sha')"
  unfolding find_collisions_empty doc_group_values [OF assms] by blast

theorem find_collisions_complete_witness:
  "find_collisions [(''a'', ''1'', Some ''D''), (''b'', ''2'', None)] [] = []"
proof -
  let ?rs = "[(''a'', ''1'', Some ''D''), (''b'', ''2'', None)]"
  have "distinct (map (\<lambda>(p, sha, doc). corpus_relpath p []) ?rs)"
    by (simp add: corpus_relpath_def path_parts_def path_str_def)
  from find_collisions_complete [OF this] show ?thesis by simp
qed

end
