(* ===== verification/Admission.thy ===== *)
theory Admission
  imports Prelude Complex_Main
begin

text \<open>
  Request admission (\<open>mainframe_rag/agent/admission.py\<close>): bounded active slots and a bounded
  FIFO queue of waiters. The controller runs on one event loop, so the code between two awaits
  is one atomic step: a step relation over the controller and, per request, where its
  \<open>acquire\<close> coroutine stands and what its future holds.
\<close>

section \<open>State\<close>

text \<open>The future a queued request awaits: not done, result set, or cancelled.\<close>

datatype fut = Pending | Granted | Cancelled

text \<open>
  Where a request stands. \<open>Waiting f i\<close>: suspended at \<open>await fut\<close>; \<open>i\<close> is the exception that
  will be thrown into it when it resumes (a time-out or a cancellation), if any. \<open>Holding\<close> and
  \<open>Unlimited\<close> own a ticket (a slot, or the no-op ticket), \<open>Released\<close> has called
  \<open>release\<close>.
\<close>

datatype cause = TimedOut | TaskCancelled

datatype reason = QueueFull | QueueTimeout

datatype phase =
    Fresh
  | Waiting fut "cause option"
  | Holding
  | Unlimited
  | Released
  | Rejected reason
  | Gone

record controller =
  max_active :: nat
  max_queue :: nat
  queue_wait :: rat
  active :: int
  waiters :: "nat list"

type_synonym adm = "controller \<times> (nat \<Rightarrow> phase)"

text \<open>\<open>AdmissionController.__init__\<close>: negative limits become 0.\<close>

definition new_controller :: "int \<Rightarrow> int \<Rightarrow> rat \<Rightarrow> controller" where
  "new_controller a q w = \<lparr>max_active = nat a, max_queue = nat q, queue_wait = max 0 w,
                           active = 0, waiters = []\<rparr>"

definition initial :: "int \<Rightarrow> int \<Rightarrow> rat \<Rightarrow> adm" where
  "initial a q w = (new_controller a q w, \<lambda>_. Fresh)"

section \<open>Operations\<close>

text \<open>\<open>fut.done()\<close>.\<close>

fun fut_done :: "phase \<Rightarrow> bool" where
  "fut_done (Waiting f i) = (f \<noteq> Pending)"
| "fut_done _ = True"

text \<open>
  \<open>_release\<close>: pop waiters until one is not done and give it the slot; if the queue runs out,
  the slot becomes free.
\<close>

fun release_loop :: "nat list \<Rightarrow> (nat \<Rightarrow> phase) \<Rightarrow> int \<Rightarrow> int \<times> nat list \<times> (nat \<Rightarrow> phase)" where
  "release_loop [] ph act = (act - 1, [], ph)"
| "release_loop (w # ws) ph act =
     (if \<not> fut_done (ph w)
      then (act, ws, ph(w := (case ph w of Waiting f i \<Rightarrow> Waiting Granted i | p \<Rightarrow> p)))
      else release_loop ws ph act)"

definition release_slot :: "adm \<Rightarrow> adm" where
  "release_slot s =
     (case release_loop (waiters (fst s)) (snd s) (active (fst s)) of
        (act, ws, ph) \<Rightarrow> ((fst s)\<lparr>active := act, waiters := ws\<rparr>, ph))"

text \<open>\<open>acquire\<close> up to its return, its refusal or its \<open>await\<close>.\<close>

definition acquire :: "nat \<Rightarrow> rat option \<Rightarrow> adm \<Rightarrow> adm" where
  "acquire r wait_s s =
     (let c = fst s;
          budget = (case wait_s of None \<Rightarrow> queue_wait c | Some w \<Rightarrow> min (queue_wait c) w)
      in if max_active c = 0 then (c, (snd s)(r := Unlimited))
         else if active c < int (max_active c) \<and> waiters c = []
         then (c\<lparr>active := active c + 1\<rparr>, (snd s)(r := Holding))
         else if length (waiters c) \<ge> max_queue c then (c, (snd s)(r := Rejected QueueFull))
         else if budget \<le> 0 then (c, (snd s)(r := Rejected QueueTimeout))
         else (c\<lparr>waiters := waiters c @ [r]\<rparr>, (snd s)(r := Waiting Pending None)))"

text \<open>\<open>AdmissionTicket.release\<close>: only the first call does anything.\<close>

definition ticket_release :: "nat \<Rightarrow> adm \<Rightarrow> adm" where
  "ticket_release r s =
     (case snd s r of
        Holding \<Rightarrow> release_slot (fst s, (snd s)(r := Released))
      | _ \<Rightarrow> s)"

text \<open>
  A time-out or a cancellation of the task reaches the future it awaits: a pending future is
  cancelled at once, a granted one keeps its result, and the exception is thrown later.
\<close>

definition interrupt :: "nat \<Rightarrow> cause \<Rightarrow> adm \<Rightarrow> adm" where
  "interrupt r why s =
     (case snd s r of
        Waiting f None \<Rightarrow>
          (fst s, (snd s)(r := Waiting (if f = Pending then Cancelled else f) (Some why)))
      | _ \<Rightarrow> s)"

text \<open>The \<open>except BaseException\<close> clause.\<close>

definition leave_queue :: "nat \<Rightarrow> adm \<Rightarrow> adm" where
  "leave_queue r s =
     (case snd s r of
        Waiting f (Some why) \<Rightarrow>
          let after = (case why of TimedOut \<Rightarrow> Rejected QueueTimeout | TaskCancelled \<Rightarrow> Gone)
          in if f = Granted then release_slot (fst s, (snd s)(r := after))
             else ((fst s)\<lparr>waiters := remove1 r (waiters (fst s))\<rparr>, (snd s)(r := after))
      | _ \<Rightarrow> s)"

text \<open>The normal return after the \<open>await\<close>.\<close>

definition resume :: "nat \<Rightarrow> adm \<Rightarrow> adm" where
  "resume r s =
     (case snd s r of
        Waiting Granted None \<Rightarrow> (fst s, (snd s)(r := Holding))
      | _ \<Rightarrow> s)"

section \<open>Steps\<close>

inductive step :: "adm \<Rightarrow> adm \<Rightarrow> bool" where
  Enter: "ph r = Fresh \<Longrightarrow> step (c, ph) (acquire r wait_s (c, ph))"
| Resume: "ph r = Waiting Granted None \<Longrightarrow> step (c, ph) (resume r (c, ph))"
| Interrupt: "ph r = Waiting f None \<Longrightarrow> step (c, ph) (interrupt r why (c, ph))"
| Leave: "ph r = Waiting f (Some why) \<Longrightarrow> step (c, ph) (leave_queue r (c, ph))"
| Release: "step (c, ph) (ticket_release r (c, ph))"

inductive reachable :: "adm \<Rightarrow> bool" where
  Init: "reachable (initial a q w)"
| Step: "reachable s \<Longrightarrow> step s s' \<Longrightarrow> reachable s'"

inductive_cases step_cases: "step (c, ph) s'"

section \<open>Lemmas\<close>

text \<open>The requests that own a slot: tickets in use, and slots handed to a waiter.\<close>

fun owns_slot :: "phase \<Rightarrow> bool" where
  "owns_slot Holding = True"
| "owns_slot (Waiting f i) = (f = Granted)"
| "owns_slot _ = False"

definition owners :: "(nat \<Rightarrow> phase) \<Rightarrow> nat set" where
  "owners ph = {r. owns_slot (ph r)}"

text \<open>The longest live waiter of a queue.\<close>

fun first_live :: "(nat \<Rightarrow> phase) \<Rightarrow> nat list \<Rightarrow> nat option" where
  "first_live ph [] = None"
| "first_live ph (w # ws) = (if fut_done (ph w) then first_live ph ws else Some w)"

lemma first_live_Some: "first_live ph ws = Some w \<Longrightarrow> w \<in> set ws \<and> (\<exists>i. ph w = Waiting Pending i)"
  by (induction ph ws rule: first_live.induct) (auto split: if_splits elim: fut_done.elims)

lemma first_live_None: "first_live ph ws = None \<longleftrightarrow> (\<forall>w \<in> set ws. fut_done (ph w))"
  by (induction ph ws rule: first_live.induct) auto

lemma first_live_split:
  "first_live ph ws = Some w \<Longrightarrow> \<exists>us vs. ws = us @ w # vs \<and> (\<forall>u \<in> set us. fut_done (ph u))"
proof (induction ph ws rule: first_live.induct)
  case (2 ph x xs)
  then show ?case by (cases "fut_done (ph x)") (force intro: exI [of _ "x # _"])+
qed simp

lemma release_loop_None:
  "first_live ph ws = None \<Longrightarrow> release_loop ws ph act = (act - 1, [], ph)"
  by (induction ws) (auto split: if_splits)

lemma release_loop_Some:
  "first_live ph ws = Some w \<Longrightarrow> \<exists>us vs i. ws = us @ w # vs \<and> (\<forall>u \<in> set us. fut_done (ph u))
     \<and> ph w = Waiting Pending i \<and> release_loop ws ph act = (act, vs, ph(w := Waiting Granted i))"
proof (induction ws)
  case (Cons x xs)
  show ?case
  proof (cases "fut_done (ph x)")
    case True
    then have "first_live ph xs = Some w" using Cons.prems by simp
    from Cons.IH [OF this] obtain us vs i where "xs = us @ w # vs" "\<forall>u \<in> set us. fut_done (ph u)"
        "ph w = Waiting Pending i" "release_loop xs ph act = (act, vs, ph(w := Waiting Granted i))"
      by (elim exE conjE)
    with True show ?thesis
      by - (rule exI [of _ "x # us"], rule exI [of _ vs], rule exI [of _ i], simp add: fun_upd_def)
  next
    case False
    with Cons.prems have "x = w" by simp
    with False show ?thesis by (cases "ph x") auto
  qed
qed simp

text \<open>The invariant of the reachable states.\<close>

definition wf_adm :: "adm \<Rightarrow> bool" where
  "wf_adm s \<longleftrightarrow>
     (case s of (c, ph) \<Rightarrow>
        finite (owners ph) \<and> active c = int (card (owners ph)) \<and> active c \<le> int (max_active c)
        \<and> length (waiters c) \<le> max_queue c \<and> distinct (waiters c)
        \<and> (\<forall>w \<in> set (waiters c). \<exists>f i. ph w = Waiting f i \<and> f \<noteq> Granted)
        \<and> (\<forall>w i. ph w = Waiting Pending i \<longrightarrow> w \<in> set (waiters c) \<and> i = None)
        \<and> (active c < int (max_active c) \<longrightarrow> waiters c = [])
        \<and> (max_active c = 0 \<longrightarrow> waiters c = []))"

lemma wf_initial: "wf_adm (initial a q w)"
  by (simp add: wf_adm_def initial_def new_controller_def owners_def)

lemma owners_upd:
  "owners (ph(r := p)) = (if owns_slot p then insert r (owners ph) else owners ph - {r})"
  by (auto simp: owners_def)

text \<open>Giving a slot back, after its owner has left the set of owners.\<close>

lemma wf_release_slot:
  assumes wf: "wf_adm (c, ph)" and r: "r \<in> owners ph" and p: "\<not> owns_slot p" "\<forall>f i. p \<noteq> Waiting f i"
  shows "wf_adm (release_slot (c, ph(r := p)))"
proof -
  let ?ph = "ph(r := p)"
  have rw: "r \<notin> set (waiters c)" using wf r by (auto simp: wf_adm_def owners_def)
  have fin: "finite (owners ph)" and act: "active c = int (card (owners ph))"
    using wf by (auto simp: wf_adm_def)
  have card: "card (owners ph) = Suc (card (owners ph - {r}))"
    using card.remove [OF fin r] .
  show ?thesis
  proof (cases "first_live ?ph (waiters c)")
    case None
    have no: "w = r" if "ph w = Waiting Pending i" for w i
    proof (rule ccontr)
      assume "w \<noteq> r"
      with that have "\<not> fut_done (?ph w)" by simp
      moreover from wf that have "w \<in> set (waiters c)" by (simp add: wf_adm_def)
      ultimately show False using None unfolding first_live_None by blast
    qed
    have "release_slot (c, ?ph) = (c\<lparr>active := active c - 1, waiters := []\<rparr>, ?ph)"
      by (simp add: release_slot_def release_loop_None [OF None])
    then show ?thesis
      using wf card no p by (auto simp: wf_adm_def owners_upd split: if_splits)
  next
    case (Some w)
    then obtain us vs i where s: "waiters c = us @ w # vs" "\<forall>u \<in> set us. fut_done (?ph u)"
        "?ph w = Waiting Pending i"
        "release_loop (waiters c) ?ph (active c) = (active c, vs, ?ph(w := Waiting Granted i))"
      using release_loop_Some [of ?ph "waiters c" w "active c"] by blast
    have eq: "release_slot (c, ?ph) = (c\<lparr>active := active c, waiters := vs\<rparr>, ?ph(w := Waiting Granted i))"
      by (simp add: release_slot_def s(4))
    have wr: "w \<noteq> r" using rw s(1) by auto
    have wn: "w \<notin> owners ph" using s(3) wr by (auto simp: owners_def)
    have "owners (?ph(w := Waiting Granted i)) = insert w (owners ph - {r})"
      using p by (simp add: owners_upd)
    then have "card (owners (?ph(w := Waiting Granted i))) = card (owners ph)"
      using wn fin card by simp
    moreover have "active c = int (max_active c)" using wf s(1) by (fastforce simp: wf_adm_def)
    moreover have "r \<notin> set us" "r \<notin> set vs" using rw s(1) by auto
    moreover have "\<forall>u \<in> set us. \<forall>i. ph u \<noteq> Waiting Pending i"
      using s(2) \<open>r \<notin> set us\<close> by (metis fun_upd_apply fut_done.simps(1))
    moreover from this wf s(1) have "\<And>v i. ph v = Waiting Pending i \<Longrightarrow> v \<noteq> w \<Longrightarrow> v \<in> set vs"
      by (fastforce simp: wf_adm_def)
    ultimately show ?thesis
      unfolding eq using wf s(1,3) wr p fin
      by (auto simp: wf_adm_def owners_upd)
  qed
qed

lemma wf_acquire:
  assumes wf: "wf_adm (c, ph)" and r: "ph r = Fresh"
  shows "wf_adm (acquire r wait_s (c, ph))"
proof -
  have ro: "r \<notin> owners ph" using r by (simp add: owners_def)
  have rw: "r \<notin> set (waiters c)" using wf r by (fastforce simp: wf_adm_def)
  show ?thesis
    using wf r ro rw unfolding acquire_def Let_def
    by (auto simp: wf_adm_def owners_upd)
qed

lemma wf_resume:
  assumes wf: "wf_adm (c, ph)" and r: "ph r = Waiting Granted None"
  shows "wf_adm (resume r (c, ph))"
proof -
  have "owners (ph(r := Holding)) = owners ph"
    using r by (auto simp: owners_upd) (simp_all add: owners_def)
  then show ?thesis
    using wf r by (auto simp: wf_adm_def resume_def)
qed

lemma wf_interrupt:
  assumes wf: "wf_adm (c, ph)" and r: "ph r = Waiting f None"
  shows "wf_adm (interrupt r why (c, ph))"
proof -
  let ?p = "Waiting (if f = Pending then Cancelled else f) (Some why)"
  have "owners (ph(r := ?p)) = owners ph"
    using r by (auto simp: owners_upd) (simp_all add: owners_def)
  then show ?thesis
    using wf r by (cases f) (fastforce simp: wf_adm_def interrupt_def)+
qed

lemma wf_leave:
  assumes wf: "wf_adm (c, ph)" and r: "ph r = Waiting f (Some why)"
  shows "wf_adm (leave_queue r (c, ph))"
proof (cases "f = Granted")
  case True
  then have "r \<in> owners ph" using r by (simp add: owners_def)
  from wf_release_slot [OF wf this] show ?thesis
    using r True by (simp add: leave_queue_def Let_def split: cause.split)
next
  case False
  define p where "p = (case why of TimedOut \<Rightarrow> Rejected QueueTimeout | TaskCancelled \<Rightarrow> Gone)"
  have np: "\<not> owns_slot p" "\<And>f i. p \<noteq> Waiting f i" unfolding p_def by (cases why; simp)+
  have "r \<notin> owners ph" using r False by (simp add: owners_def)
  then have own: "owners (ph(r := p)) = owners ph"
    using np by (simp add: owners_upd)
  have len: "length (remove1 r ws) \<le> n" if "length ws \<le> n" for ws :: "nat list" and n
    using that by (cases "r \<in> set ws") (auto simp: length_remove1)
  have eq: "leave_queue r (c, ph) = (c\<lparr>waiters := remove1 r (waiters c)\<rparr>, ph(r := p))"
    using r False by (simp add: leave_queue_def Let_def p_def)
  have d: "distinct (waiters c)" using wf by (simp add: wf_adm_def)
  have keep: "\<forall>w \<in> set (remove1 r (waiters c)). \<exists>f i. (ph(r := p)) w = Waiting f i \<and> f \<noteq> Granted"
    using wf d by (auto simp: wf_adm_def set_remove1_eq)
  have pend: "\<forall>w i. (ph(r := p)) w = Waiting Pending i \<longrightarrow> w \<in> set (remove1 r (waiters c)) \<and> i = None"
    using wf d np by (auto simp: wf_adm_def set_remove1_eq)
  show ?thesis
    unfolding eq wf_adm_def prod.case own
    using wf keep pend d len [of "waiters c" "max_queue c"]
    by (auto simp: wf_adm_def np)
qed

lemma wf_ticket_release: "wf_adm (c, ph) \<Longrightarrow> wf_adm (ticket_release r (c, ph))"
  using wf_release_slot [of c ph r Released]
  by (auto simp: ticket_release_def owners_def split: phase.split)

lemma wf_step: "step s s' \<Longrightarrow> wf_adm s \<Longrightarrow> wf_adm s'"
  by (induction rule: step.induct)
     (auto intro: wf_acquire wf_resume wf_interrupt wf_leave wf_ticket_release)

lemma wf_reachable: "reachable s \<Longrightarrow> wf_adm s"
  by (induction rule: reachable.induct) (auto intro: wf_initial wf_step)

text \<open>The limits never change.\<close>

lemma limits_release_slot [simp]:
  "max_active (fst (release_slot s)) = max_active (fst s)"
  "max_queue (fst (release_slot s)) = max_queue (fst s)"
  by (auto simp: release_slot_def split: prod.split)

lemma step_limits:
  "step s s' \<Longrightarrow> max_active (fst s') = max_active (fst s) \<and> max_queue (fst s') = max_queue (fst s)"
  by (induction rule: step.induct)
     (auto simp: acquire_def resume_def interrupt_def leave_queue_def ticket_release_def Let_def
        split: phase.split option.split fut.split)

text \<open>Who can become the owner of a slot in a step, and in which order.\<close>

lemma release_slot_grants:
  assumes "\<not> owns_slot (ph w)" "owns_slot (snd (release_slot (c, ph)) w)"
  shows "first_live ph (waiters c) = Some w"
proof (cases "first_live ph (waiters c)")
  case None
  with assms show ?thesis by (simp add: release_slot_def release_loop_None)
next
  case (Some v)
  with assms show ?thesis
    using release_loop_Some [OF Some, of "active c"]
    by (auto simp: release_slot_def split: if_splits)
qed

lemma first_live_upd: "r \<notin> set ws \<Longrightarrow> first_live (ph(r := p)) ws = first_live ph ws"
  by (induction ws) auto

lemma step_grants:
  assumes wf: "wf_adm (c, ph)" and st: "step (c, ph) (c', ph')"
    and new: "\<not> owns_slot (ph w)" "owns_slot (ph' w)"
  shows "(ph w = Fresh \<and> waiters c = []) \<or> first_live ph (waiters c) = Some w"
  using st
proof (cases rule: step.cases)
  case (Enter r wait_s)
  then have "ph' = snd (acquire r wait_s (c, ph))" by (metis prod.inject snd_conv)
  with new Enter show ?thesis
    by (auto simp: acquire_def Let_def split: if_splits)
next
  case (Resume r)
  then have "ph' = snd (resume r (c, ph))" by (metis prod.inject snd_conv)
  with new Resume show ?thesis by (auto simp: resume_def split: if_splits)
next
  case (Interrupt r f why)
  then have "ph' = snd (interrupt r why (c, ph))" by (metis prod.inject snd_conv)
  with new Interrupt show ?thesis by (auto simp: interrupt_def split: if_splits)
next
  case (Leave r f why)
  then have ph': "ph' = snd (leave_queue r (c, ph))" by (metis prod.inject snd_conv)
  show ?thesis
  proof (cases "f = Granted")
    case True
    have rw: "r \<notin> set (waiters c)" using wf Leave True by (fastforce simp: wf_adm_def)
    let ?p = "case why of TimedOut \<Rightarrow> Rejected QueueTimeout | TaskCancelled \<Rightarrow> Gone"
    have e: "ph' = snd (release_slot (c, ph(r := ?p)))"
      using ph' Leave True by (simp add: leave_queue_def Let_def)
    have "\<not> owns_slot ((ph(r := ?p)) w)" using new by (cases why) auto
    from release_slot_grants [where ph = "ph(r := ?p)", OF this] new e have "first_live (ph(r := ?p)) (waiters c) = Some w" by metis
    then show ?thesis using first_live_upd [OF rw] by simp
  next
    case False
    with new ph' Leave show ?thesis
      by (cases why) (auto simp: leave_queue_def Let_def split: if_splits)
  qed
next
  case (Release r)
  then have ph': "ph' = snd (ticket_release r (c, ph))" by (metis prod.inject snd_conv)
  show ?thesis
  proof (cases "ph r = Holding")
    case True
    have rw: "r \<notin> set (waiters c)" using wf True by (fastforce simp: wf_adm_def)
    have e: "ph' = snd (release_slot (c, ph(r := Released)))"
      using ph' True by (simp add: ticket_release_def)
    have "\<not> owns_slot ((ph(r := Released)) w)" using new by auto
    from release_slot_grants [where ph = "ph(r := Released)", OF this] new e have "first_live (ph(r := Released)) (waiters c) = Some w" by metis
    then show ?thesis using first_live_upd [OF rw] by simp
  next
    case False
    with ph' new show ?thesis by (auto simp: ticket_release_def split: phase.splits)
  qed
qed

section \<open>Properties\<close>

text \<open>
  C5: In every reachable state the active count is the number of slots in use (tickets held and
  slots handed to a waiter that has not resumed), it is at most \<open>max_active\<close>, the queue is at most
  \<open>max_queue\<close>, and no request waits while a slot is free.
\<close>

theorem admission_bounds:
  assumes "reachable (c, ph)"
  shows "active c = int (card (owners ph)) \<and> active c \<le> int (max_active c)
    \<and> length (waiters c) \<le> max_queue c
    \<and> (\<forall>r i. ph r = Waiting Pending i \<longrightarrow> r \<in> set (waiters c) \<and> active c = int (max_active c))"
  using wf_reachable [OF assms] by (auto simp: wf_adm_def)

theorem admission_bounds_witness:
  "active (fst (acquire 1 None (acquire 0 None (initial 1 1 2)))) = 1
   \<and> length (waiters (fst (acquire 1 None (acquire 0 None (initial 1 1 2))))) \<le> 1"
proof -
  define s0 s1 where "s0 = initial 1 1 2" and "s1 = acquire 0 None s0"
  define s where "s = acquire 1 None s1"
  have v: "s1 = (fst s1, snd s1)" "snd s0 0 = Fresh" "snd s1 1 = Fresh" "s0 = (fst s0, snd s0)"
    by (simp_all add: s1_def s0_def acquire_def initial_def new_controller_def)
  have "reachable s0" unfolding s0_def by (rule reachable.Init)
  moreover have "step s0 s1" using step.Enter [of "snd s0" 0 "fst s0" None] v s1_def by simp
  moreover have "step s1 s" using step.Enter [of "snd s1" 1 "fst s1" None] v s_def by simp
  ultimately have "reachable (fst s, snd s)" using reachable.Step by (metis prod.collapse)
  from admission_bounds [OF this]
  have b: "active (fst s) \<le> int (max_active (fst s))" "length (waiters (fst s)) \<le> max_queue (fst s)" by blast+
  have "fst s = \<lparr>max_active = 1, max_queue = 1, queue_wait = 2, active = 1, waiters = [1]\<rparr>"
    by (simp add: s_def s1_def s0_def acquire_def initial_def new_controller_def)
  with b show ?thesis by (simp add: s_def s1_def s0_def)
qed

text \<open>
  Releasing a ticket is idempotent: a second call changes nothing, and a request that holds
  no slot can never give one back, so completion, error and disconnect paths may all release.
\<close>

theorem release_idempotent:
  assumes "reachable s"
  shows "ticket_release r (ticket_release r s) = ticket_release r s
    \<and> (snd s r \<noteq> Holding \<longrightarrow> ticket_release r s = s)"
proof -
  obtain c ph where s: "s = (c, ph)" by (cases s)
  have "snd (ticket_release r s) r = Released" if h: "ph r = Holding"
  proof -
    have "r \<notin> set (waiters c)" using wf_reachable [OF assms] h by (fastforce simp: s wf_adm_def)
    moreover have "first_live (ph(r := Released)) (waiters c) = Some w \<Longrightarrow> w \<in> set (waiters c)" for w
      by (metis first_live_Some)
    ultimately show ?thesis
      using release_loop_Some [of "ph(r := Released)" "waiters c" _ "active c"]
        release_loop_None [of "ph(r := Released)" "waiters c" "active c"] h
      by (cases "first_live (ph(r := Released)) (waiters c)")
         (fastforce simp: s ticket_release_def release_slot_def)+
  qed
  then show ?thesis
    by (auto simp: s ticket_release_def split: phase.splits)
qed

theorem release_idempotent_witness:
  "ticket_release 0 (ticket_release 0 (initial 1 0 0)) = initial 1 0 0"
  using release_idempotent [OF reachable.Init [of 1 0 0], of 0]
  by (simp add: initial_def)



end
