(* ===== verification/Fusion.thy ===== *)
theory Fusion
  imports Identity Complex_Main "HOL-Library.Multiset"
begin

text \<open>
  Ranking in the query path (\<open>mainframe_rag/retrieve/query.py\<close>): the weighted reciprocal rank
  fusion of the dense and the sparse leg with its tie rule and entry-heading rule, the three
  merges of split retrieval paths, and the diversification that fills the final list.

  A Python float is a rational and every float operation is followed by the rounding function
  \<open>fl\<close> of the machine's double format, an argument of the definitions: nothing proved here
  needs more of it than the hypotheses a theorem names. Sorting with \<open>reverse=True\<close> is
  stable, so it is the stable sort by the negated key.
\<close>

section \<open>Stored points and hits\<close>

record scored_point =
  sp_id :: string
  sp_payload :: payload

text \<open>\<open>str(payload.get(k) or "")\<close> for a field that holds a string or nothing.\<close>

definition text_field :: "payload \<Rightarrow> string \<Rightarrow> string" where
  "text_field p k = str_of (jget p k)"

definition payload_page :: "json \<Rightarrow> int option" where
  "payload_page raw = (case raw of JInt n \<Rightarrow> if n < 0 then None else Some n | _ \<Rightarrow> None)"

text \<open>\<open>_parse_unit_spans\<close>: any malformed entry makes the whole field unusable.\<close>

definition parse_span :: "json \<Rightarrow> (int \<times> int \<times> string) option" where
  "parse_span e =
     (case e of
        JList [JInt a, JInt b, JStr kind] \<Rightarrow>
          if (kind = ''atomic'' \<or> kind = ''prose'') \<and> 0 \<le> a \<and> a \<le> b then Some (a, b, kind) else None
      | _ \<Rightarrow> None)"

definition parse_unit_spans :: "json \<Rightarrow> (int \<times> int \<times> string) list option" where
  "parse_unit_spans raw = (case raw of JList es \<Rightarrow> those (map parse_span es) | _ \<Rightarrow> None)"

subsection \<open>Display text\<close>

text \<open>
  \<open>clean_cite_field\<close> on the one-byte range: control characters read as a space. \<open>ellipsis\<close>
  stands for the one character the code appends to a cut field.
\<close>

definition ellipsis :: char where
  "ellipsis = CHR 0xB7"

definition is_control :: "char \<Rightarrow> bool" where
  "is_control c \<longleftrightarrow> (let n = (of_char c :: nat) in n < 32 \<or> (127 \<le> n \<and> n < 160))"

definition clean_cite_field :: "string \<Rightarrow> nat \<Rightarrow> string" where
  "clean_cite_field value limit =
     (let txt = join_with '' '' (split_ws (map (\<lambda>c. if is_control c then CHR '' '' else c)
                                            (take (limit * 8) value)))
      in if length txt > limit then rstrip (take (limit - 1) txt) @ [ellipsis] else txt)"

definition is_digit :: "char \<Rightarrow> bool" where
  "is_digit c \<longleftrightarrow> CHR ''0'' \<le> c \<and> c \<le> CHR ''9''"

definition is_upper :: "char \<Rightarrow> bool" where
  "is_upper c \<longleftrightarrow> CHR ''A'' \<le> c \<and> c \<le> CHR ''Z''"

definition is_alnum :: "char \<Rightarrow> bool" where
  "is_alnum c \<longleftrightarrow> is_digit c \<or> is_upper c \<or> (CHR ''a'' \<le> c \<and> c \<le> CHR ''z'')"

definition is_word :: "char \<Rightarrow> bool" where
  "is_word c \<longleftrightarrow> is_alnum c \<or> c = CHR ''_''"

text \<open>
  The positions of a string as (text before, text after), for the search of a regular
  expression with look-behind.
\<close>

definition cuts :: "string \<Rightarrow> (string \<times> string) list" where
  "cuts s = map (\<lambda>i. (take i s, drop i s)) [0..<Suc (length s)]"

definition at_word_start :: "string \<Rightarrow> bool" where
  "at_word_start before \<longleftrightarrow> before = [] \<or> \<not> is_word (last before)"

text \<open>\<open>_CITE_PAGE_MARK_RE.search\<close>: a page designation \<open>p.\<close> or \<open>pp.\<close> at a word start.\<close>

definition is_p :: "char \<Rightarrow> bool" where
  "is_p c \<longleftrightarrow> c = CHR ''p'' \<or> c = CHR ''P''"

definition starts_page_mark :: "string \<Rightarrow> bool" where
  "starts_page_mark s \<longleftrightarrow>
     (case s of
        a # b # rest \<Rightarrow> is_p a \<and> (b = CHR ''.'' \<or> (is_p b \<and> take 1 rest = ''.''))
      | _ \<Rightarrow> False)"

definition has_page_mark :: "string \<Rightarrow> bool" where
  "has_page_mark s \<longleftrightarrow> list_ex (\<lambda>(b, a). at_word_start b \<and> starts_page_mark a) (cuts s)"

text \<open>\<open>_CITE_DOCNO_RE.search\<close>: two to four capitals, two digits, a dash and four digits.\<close>

definition digits_at :: "nat \<Rightarrow> string \<Rightarrow> bool" where
  "digits_at n s \<longleftrightarrow> length (take n s) = n \<and> list_all is_digit (take n s)"

definition no_digit_next :: "string \<Rightarrow> bool" where
  "no_digit_next s \<longleftrightarrow> (case s of [] \<Rightarrow> True | c # _ \<Rightarrow> \<not> is_digit c)"

definition starts_docno :: "string \<Rightarrow> bool" where
  "starts_docno s \<longleftrightarrow>
     (let n = length (takeWhile is_upper s); t = drop n s; u = drop 3 t; v = drop 4 u
      in 2 \<le> n \<and> n \<le> 4 \<and> digits_at 2 t \<and> take 1 (drop 2 t) = ''-'' \<and> digits_at 4 u
         \<and> (no_digit_next v
            \<or> (take 1 v = ''-'' \<and> digits_at 2 (drop 1 v) \<and> no_digit_next (drop 3 v))))"

definition has_docno :: "string \<Rightarrow> bool" where
  "has_docno s \<longleftrightarrow>
     list_ex (\<lambda>(b, a). (b = [] \<or> \<not> is_alnum (last b)) \<and> starts_docno a) (cuts s)"

definition cite_label_max :: nat where "cite_label_max = 32"

definition plain_page_label :: "string \<Rightarrow> string" where
  "plain_page_label value =
     (let label = clean_cite_field value (cite_label_max + 1)
      in if length label > cite_label_max \<or> CHR '','' \<in> set label \<or> has_page_mark label \<or> has_docno label
         then [] else label)"

subsection \<open>Hits\<close>

text \<open>
  \<open>SearchHit\<close> with the fields the ranking reads; \<open>hit_payload\<close> is the point the display
  fields come from. The citation text is not modelled.
\<close>

record hit =
  chunk_id :: string
  score :: rat
  doc_id :: string
  page_label :: string
  page_start :: "int option"
  page_end :: "int option"
  units :: "(int \<times> int \<times> string) list option"
  rerank_score :: "rat option"
  hit_payload :: payload

definition to_hit :: "scored_point \<Rightarrow> rat \<Rightarrow> hit" where
  "to_hit point sc =
     (let p = sp_payload point;
          ps = payload_page (jget p ''page_start'');
          pe = payload_page (jget p ''page_end'')
      in \<lparr>chunk_id = sp_id point, score = sc, doc_id = text_field p ''doc_id'',
          page_label = plain_page_label (text_field p ''page_label''),
          page_start = ps,
          page_end = (case (ps, pe) of (Some a, Some b) \<Rightarrow> if b < a then ps else pe | _ \<Rightarrow> ps),
          units = parse_unit_spans (jget p ''units''), rerank_score = None, hit_payload = p\<rparr>)"

section \<open>Reciprocal rank fusion\<close>

text \<open>
  \<open>entry_headed\<close>: some line starts, after characters that are neither word characters nor a
  newline, with one of the ids in any case, not followed by a word character.
\<close>

definition starts_with_id :: "string \<Rightarrow> string \<Rightarrow> bool" where
  "starts_with_id s i \<longleftrightarrow> prefix (casefold i) (casefold s)
     \<and> (case drop (length i) s of [] \<Rightarrow> True | c # _ \<Rightarrow> \<not> is_word c)"

definition newline :: char where "newline = CHR 0x0A"

definition line_headed :: "string list \<Rightarrow> string \<Rightarrow> bool" where
  "line_headed ids s \<longleftrightarrow>
     list_ex (\<lambda>m. list_ex (starts_with_id (drop m s)) ids)
       [0..<Suc (length (takeWhile (\<lambda>c. \<not> is_word c \<and> c \<noteq> newline) s))]"

definition entry_headed :: "string \<Rightarrow> string list \<Rightarrow> bool" where
  "entry_headed txt ids \<longleftrightarrow> ids \<noteq> [] \<and> txt \<noteq> []
     \<and> list_ex (\<lambda>(b, a). (b = [] \<or> last b = newline) \<and> line_headed ids a) (cuts txt)"

definition leading_title_section :: "payload \<Rightarrow> bool" where
  "leading_title_section p \<longleftrightarrow>
     jget p ''page_start'' = JInt 0
     \<and> strip (text_field p ''title'') \<noteq> []
     \<and> strip (text_field p ''heading_path'') = strip (text_field p ''title'')"

type_synonym ranking = "(string \<times> rat) list"

text \<open>The maximal runs of one score, as the two nested \<open>while\<close> loops cut them.\<close>

function tie_groups :: "ranking \<Rightarrow> ranking list" where
  "tie_groups [] = []"
| "tie_groups (x # xs) =
     (x # takeWhile (\<lambda>y. snd y = snd x) xs) # tie_groups (dropWhile (\<lambda>y. snd y = snd x) xs)"
  by pat_completeness auto
termination by (relation "measure length") (auto simp: le_imp_less_Suc length_dropWhile_le)

definition point_payload :: "(string \<times> scored_point) list \<Rightarrow> string \<Rightarrow> payload" where
  "point_payload by_id key = (case map_of by_id key of None \<Rightarrow> [] | Some p \<Rightarrow> sp_payload p)"

definition demoted_in :: "(string \<times> scored_point) list \<Rightarrow> ranking \<Rightarrow> string \<Rightarrow> bool" where
  "demoted_in by_id grp key \<longleftrightarrow>
     leading_title_section (point_payload by_id key)
     \<and> list_ex (\<lambda>(other, _). \<not> leading_title_section (point_payload by_id other)
          \<and> text_field (point_payload by_id other) ''doc_id''
              \<noteq> text_field (point_payload by_id key) ''doc_id'') grp"

definition demote_group :: "(string \<times> scored_point) list \<Rightarrow> ranking \<Rightarrow> ranking" where
  "demote_group by_id grp =
     (if length grp > 1
      then filter (\<lambda>kv. \<not> demoted_in by_id grp (fst kv)) grp
           @ filter (\<lambda>kv. demoted_in by_id grp (fst kv)) grp
      else grp)"

definition prefer_section_on_ties :: "ranking \<Rightarrow> (string \<times> scored_point) list \<Rightarrow> ranking" where
  "prefer_section_on_ties ranked by_id = concat (map (demote_group by_id) (tie_groups ranked))"

text \<open>\<open>sorted(items, key=..., reverse=True)\<close>.\<close>

definition sort_desc :: "ranking \<Rightarrow> ranking" where
  "sort_desc kvs = sort_key (\<lambda>kv. - snd kv) kvs"

text \<open>\<open>scores[key] += contrib\<close> in a dict that keeps its insertion order.\<close>

definition add_score :: "(rat \<Rightarrow> rat) \<Rightarrow> string \<Rightarrow> rat \<Rightarrow> ranking \<Rightarrow> ranking" where
  "add_score fl key contrib scores =
     AList.update key (fl ((case map_of scores key of None \<Rightarrow> 0 | Some s \<Rightarrow> s) + contrib)) scores"

definition leg_contrib ::
    "(rat \<Rightarrow> rat) \<Rightarrow> nat \<Rightarrow> (string \<times> rat) list \<Rightarrow> bool \<Rightarrow> rat \<Rightarrow> nat \<Rightarrow> scored_point \<Rightarrow> rat" where
  "leg_contrib fl k boosts sparse_leg weight rank point =
     (let contrib = fl (weight / of_nat (k + rank + 1))
      in if sparse_leg \<and> boosts \<noteq> []
         then (case jget (sp_payload point) ''chunk_type'' of
                 JStr t \<Rightarrow> fl (contrib * (case map_of boosts t of None \<Rightarrow> 1 | Some b \<Rightarrow> b))
               | _ \<Rightarrow> contrib)
         else contrib)"

type_synonym fusion_state = "(string \<times> scored_point) list \<times> ranking"

definition fuse_leg ::
    "(rat \<Rightarrow> rat) \<Rightarrow> nat \<Rightarrow> (string \<times> rat) list \<Rightarrow> bool \<Rightarrow> rat \<Rightarrow> scored_point list \<Rightarrow> fusion_state \<Rightarrow> fusion_state" where
  "fuse_leg fl k boosts sparse_leg weight points st =
     fold (\<lambda>(rank, point) (by_id, scores).
         (AList.update (sp_id point) point by_id,
          add_score fl (sp_id point) (leg_contrib fl k boosts sparse_leg weight rank point) scores))
       (enumerate 0 points) st"

definition fuse_legs ::
    "(rat \<Rightarrow> rat) \<Rightarrow> nat \<Rightarrow> (string \<times> rat) list \<Rightarrow> rat \<times> rat \<Rightarrow> scored_point list \<Rightarrow> scored_point list \<Rightarrow> fusion_state" where
  "fuse_legs fl k boosts weights dense sparse =
     fuse_leg fl k boosts True (snd weights) sparse
       (fuse_leg fl k boosts False (fst weights) dense ([], []))"

text \<open>The order of all candidates, before the cut at \<open>limit\<close>.\<close>

definition rrf_order ::
    "fusion_state \<Rightarrow> string list \<Rightarrow> ranking" where
  "rrf_order st entry_ids =
     (case st of (by_id, scores) \<Rightarrow>
        let ranked = prefer_section_on_ties (sort_desc scores) by_id;
            headed = (\<lambda>kv. entry_headed (text_field (point_payload by_id (fst kv)) ''text'') entry_ids)
        in if entry_ids \<noteq> []
           then filter headed ranked @ filter (\<lambda>kv. \<not> headed kv) ranked
           else ranked)"

definition rrf_fuse ::
    "(rat \<Rightarrow> rat) \<Rightarrow> scored_point list \<Rightarrow> scored_point list \<Rightarrow> rat \<times> rat \<Rightarrow> nat \<Rightarrow> nat
       \<Rightarrow> (string \<times> rat) list \<Rightarrow> string list \<Rightarrow> hit list" where
  "rrf_fuse fl dense sparse weights k limit boosts entry_ids =
     (let st = fuse_legs fl k boosts weights dense sparse
      in map (\<lambda>(key, sc). to_hit (the (map_of (fst st) key)) sc) (take limit (rrf_order st entry_ids)))"

section \<open>Merging split retrieval paths\<close>

type_synonym merge_state = "(string \<times> hit) list \<times> ranking"

text \<open>\<open>if key not in by_id: by_id[key] = hit\<close>: the first hit seen wins the object.\<close>

definition keep_first :: "hit \<Rightarrow> (string \<times> hit) list \<Rightarrow> (string \<times> hit) list" where
  "keep_first h by_id = (if map_of by_id (chunk_id h) = None then by_id @ [(chunk_id h, h)] else by_id)"

definition rescored :: "(string \<times> hit) list \<Rightarrow> ranking \<Rightarrow> hit list" where
  "rescored by_id ranked = map (\<lambda>(key, sc). (the (map_of by_id key))\<lparr>score := sc\<rparr>) ranked"

definition merge_leg :: "(rat \<Rightarrow> rat) \<Rightarrow> nat \<Rightarrow> rat \<Rightarrow> hit list \<Rightarrow> merge_state \<Rightarrow> merge_state" where
  "merge_leg fl k weight hits st =
     fold (\<lambda>(rank, h) (by_id, scores).
         (keep_first h by_id, add_score fl (chunk_id h) (fl (weight / of_nat (k + rank + 1))) scores))
       (enumerate 0 hits) st"

text \<open>\<open>zip(weights, sides, strict=True)\<close> raises unless there are two sides.\<close>

definition merge_split_hits ::
    "(rat \<Rightarrow> rat) \<Rightarrow> hit list list \<Rightarrow> rat \<times> rat \<Rightarrow> nat \<Rightarrow> nat \<Rightarrow> hit list res" where
  "merge_split_hits fl sides weights k limit =
     (case sides of
        [a, b] \<Rightarrow>
          (case merge_leg fl k (snd weights) b (merge_leg fl k (fst weights) a ([], [])) of
             (by_id, scores) \<Rightarrow> Inr (rescored by_id (take limit (sort_desc scores))))
      | _ \<Rightarrow> raise_exn ValueErr ''zip_strict'' [])"

definition max_leg :: "(rat \<Rightarrow> rat) \<Rightarrow> nat \<Rightarrow> hit list \<Rightarrow> merge_state \<Rightarrow> merge_state" where
  "max_leg fl k hits st =
     fold (\<lambda>(rank, h) (by_id, scores).
         let sc = fl (1 / of_nat (k + rank + 1))
         in (keep_first h by_id,
             if sc > (case map_of scores (chunk_id h) of None \<Rightarrow> 0 | Some s \<Rightarrow> s)
             then AList.update (chunk_id h) sc scores else scores))
       (enumerate 0 hits) st"

definition max_split_hits :: "(rat \<Rightarrow> rat) \<Rightarrow> hit list list \<Rightarrow> nat \<Rightarrow> nat \<Rightarrow> hit list" where
  "max_split_hits fl sides k limit =
     (case fold (max_leg fl k) sides ([], []) of
        (by_id, scores) \<Rightarrow> rescored by_id (take limit (sort_desc scores)))"

text \<open>The best chunk of each document of one side, in rank order.\<close>

fun best_per_doc :: "string list \<Rightarrow> hit list \<Rightarrow> hit list" where
  "best_per_doc docs [] = []"
| "best_per_doc docs (h # hs) =
     (if doc_id h \<in> set docs then best_per_doc docs hs
      else h # best_per_doc (doc_id h # docs) hs)"

text \<open>
  One pass of the \<open>for side\<close> loop: the rest of each side after its cursor, the documents shown
  and the hits placed.
\<close>

fun take_turns :: "string list \<Rightarrow> hit list list \<Rightarrow> hit list list \<times> string list \<times> hit list" where
  "take_turns shown [] = ([], shown, [])"
| "take_turns shown (side # sides) =
     (case dropWhile (\<lambda>h. doc_id h \<in> set shown) side of
        [] \<Rightarrow> (case take_turns shown sides of (rest, sh, placed) \<Rightarrow> ([] # rest, sh, placed))
      | h # hs \<Rightarrow> (case take_turns (doc_id h # shown) sides of
                     (rest, sh, placed) \<Rightarrow> (hs # rest, sh, h # placed)))"

definition rest_size :: "hit list list \<Rightarrow> nat" where
  "rest_size sides = sum_list (map length sides)"

lemma take_turns_size:
  "take_turns shown sides = (rest, sh, placed) \<Longrightarrow> rest_size rest + length placed \<le> rest_size sides"
proof (induction shown sides arbitrary: rest sh placed rule: take_turns.induct)
  case (2 shown side sides)
  have len: "length (dropWhile (\<lambda>h. doc_id h \<in> set shown) side) \<le> length side"
    by (rule length_dropWhile_le)
  show ?case
  proof (cases "dropWhile (\<lambda>h. doc_id h \<in> set shown) side")
    case Nil
    obtain r s p where t: "take_turns shown sides = (r, s, p)" by (cases "take_turns shown sides") auto
    with 2(1) [OF Nil t] 2(3) Nil len show ?thesis by (auto simp: rest_size_def)
  next
    case (Cons h hs)
    obtain r s p where t: "take_turns (doc_id h # shown) sides = (r, s, p)"
      by (cases "take_turns (doc_id h # shown) sides") auto
    with 2(2) [OF Cons t] 2(3) Cons len show ?thesis by (auto simp: rest_size_def)
  qed
qed (simp add: rest_size_def)

text \<open>The \<open>while placed\<close> loop.\<close>

function interleave_loop :: "string list \<Rightarrow> hit list list \<Rightarrow> hit list" where
  "interleave_loop shown sides =
     (case take_turns shown sides of (rest, sh, placed) \<Rightarrow>
        if placed = [] then [] else placed @ interleave_loop sh rest)"
  by pat_completeness auto
termination
  by (relation "measure (\<lambda>(shown, sides). rest_size sides)")
     (auto dest!: take_turns_size [OF sym] simp: neq_Nil_conv)

definition interleave_split_hits :: "(rat \<Rightarrow> rat) \<Rightarrow> hit list list \<Rightarrow> nat \<Rightarrow> nat \<Rightarrow> hit list" where
  "interleave_split_hits fl sides k limit =
     (let head = interleave_loop [] (map (best_per_doc []) sides);
          tail = filter (\<lambda>h. chunk_id h \<notin> chunk_id ` set head)
                   (max_split_hits fl sides k (sum_list (map length sides)))
      in map (\<lambda>(position, h). h\<lparr>score := fl (1 / of_nat (k + position + 1))\<rparr>)
           (enumerate 0 (take limit (head @ tail))))"

section \<open>Diversification\<close>

text \<open>\<open>_page_key\<close>: the physical first page, or the printed label of a hit without one.\<close>

definition page_key :: "hit \<Rightarrow> string \<times> string" where
  "page_key h = (doc_id h, case page_start h of
       Some n \<Rightarrow> ''pdf:'' @ string_of_int n | None \<Rightarrow> page_label h)"

definition on_page :: "string \<times> string \<Rightarrow> hit list \<Rightarrow> nat" where
  "on_page pk hs = length (filter (\<lambda>h. page_key h = pk) hs)"

definition in_doc :: "string \<Rightarrow> hit list \<Rightarrow> nat" where
  "in_doc d hs = length (filter (\<lambda>h. doc_id h = d) hs)"

text \<open>
  The dicts \<open>seen_pages\<close> and \<open>seen_docs\<close> count the selected hits in phase 1; phases 2 and 3
  update only the page counts, which stay the counts of the selected hits.
\<close>

fun phase_one :: "nat \<Rightarrow> nat \<Rightarrow> nat \<Rightarrow> hit list \<Rightarrow> hit list \<Rightarrow> hit list \<Rightarrow> hit list + (hit list \<times> hit list)" where
  "phase_one limit per_page per_doc selected remaining [] = Inr (selected, remaining)"
| "phase_one limit per_page per_doc selected remaining (h # hs) =
     (let fits = on_page (page_key h) selected < per_page \<and> in_doc (doc_id h) selected < per_doc;
          selected' = (if fits then selected @ [h] else selected);
          remaining' = (if fits then remaining else remaining @ [h])
      in if length selected' \<ge> limit then Inl selected'
         else phase_one limit per_page per_doc selected' remaining' hs)"

fun phase_two :: "nat \<Rightarrow> nat \<Rightarrow> hit list \<Rightarrow> hit list \<Rightarrow> hit list \<Rightarrow> hit list + (hit list \<times> hit list)" where
  "phase_two limit per_page selected still [] = Inr (selected, still)"
| "phase_two limit per_page selected still (h # hs) =
     (if on_page (page_key h) selected < per_page
      then (if length (selected @ [h]) \<ge> limit then Inl (selected @ [h])
            else phase_two limit per_page (selected @ [h]) still hs)
      else phase_two limit per_page selected (still @ [h]) hs)"

definition backfill_key :: "hit list \<Rightarrow> hit \<Rightarrow> nat \<times> rat" where
  "backfill_key selected h =
     (on_page (page_key h) selected, - (case rerank_score h of Some r \<Rightarrow> r | None \<Rightarrow> score h))"

fun phase_three :: "nat \<Rightarrow> hit list \<Rightarrow> hit list \<Rightarrow> hit list" where
  "phase_three limit selected [] = selected"
| "phase_three limit selected (h # hs) =
     (if length (selected @ [h]) \<ge> limit then selected @ [h]
      else phase_three limit (selected @ [h]) hs)"

definition diversify_hits :: "hit list \<Rightarrow> nat \<Rightarrow> nat \<Rightarrow> nat \<Rightarrow> hit list" where
  "diversify_hits hits limit per_page per_doc =
     (case phase_one limit per_page per_doc [] [] hits of
        Inl selected \<Rightarrow> selected
      | Inr (selected, remaining) \<Rightarrow>
          case phase_two limit per_page selected [] remaining of
            Inl selected' \<Rightarrow> selected'
          | Inr (selected', still) \<Rightarrow> phase_three limit selected' (sort_key (backfill_key selected') still))"

text \<open>\<open>_needs_filter_fallback\<close>; a filter is an opaque value compared for equality.\<close>

definition needs_filter_fallback ::
    "scored_point list \<Rightarrow> scored_point list \<Rightarrow> 'f option \<Rightarrow> 'f option \<Rightarrow> bool" where
  "needs_filter_fallback dense_points sparse_points flt fallback_flt =
     (if flt \<noteq> None \<and> dense_points = [] \<and> sparse_points = []
      then \<not> (fallback_flt \<noteq> None \<and> flt = fallback_flt) else False)"

section \<open>Lemmas on the fusion\<close>

subsection \<open>Runs of equal scores\<close>

lemma keys_update: "fst ` set (AList.update q v xs) = insert q (fst ` set xs)"
proof -
  have "dom (map_of (AList.update q v xs)) = insert q (dom (map_of xs))"
    by (auto simp: update_conv')
  then show ?thesis by (simp add: dom_map_of_conv_image_fst)
qed

lemma concat_tie_groups [simp]: "concat (tie_groups xs) = xs"
  by (induction xs rule: tie_groups.induct) simp_all

lemma tie_group_same:
  "g \<in> set (tie_groups xs) \<Longrightarrow> a \<in> set g \<Longrightarrow> b \<in> set g \<Longrightarrow> snd a = snd b"
  by (induction xs rule: tie_groups.induct) (auto dest!: set_takeWhileD)

lemma mset_demote_group [simp]: "mset (demote_group by_id g) = mset g"
  by (auto simp: demote_group_def)

lemma set_demote_group [simp]: "set (demote_group by_id g) = set g"
  by (metis mset_demote_group set_mset_mset)

lemma length_demote_group [simp]: "length (demote_group by_id g) = length g"
  by (metis mset_demote_group size_mset)

lemma scores_demote_group:
  assumes "\<And>a b. a \<in> set g \<Longrightarrow> b \<in> set g \<Longrightarrow> snd a = snd b"
  shows "map snd (demote_group by_id g) = map snd g"
proof (cases g)
  case (Cons x xs)
  have "map snd ys = replicate (length ys) (snd x)" if "set ys \<subseteq> set g" for ys
  proof (rule replicate_eqI)
    fix y assume "y \<in> set (map snd ys)"
    then obtain z where "z \<in> set ys" "y = snd z" by auto
    with that have "z \<in> set g" "y = snd z" by auto
    with assms [of z x] Cons show "y = snd x" by simp
  qed simp
  from this [of "demote_group by_id g"] this [of g] show ?thesis by simp
qed (simp add: demote_group_def)

lemma mset_prefer [simp]: "mset (prefer_section_on_ties xs by_id) = mset xs"
proof -
  have "mset (concat (map (demote_group by_id) gs)) = mset (concat gs)" for gs
    by (induction gs) simp_all
  from this [of "tie_groups xs"] show ?thesis by (simp add: prefer_section_on_ties_def)
qed

lemma set_prefer [simp]: "set (prefer_section_on_ties xs by_id) = set xs"
  by (metis mset_prefer set_mset_mset)

text \<open>The tie rule never changes which score stands at which position.\<close>

lemma scores_prefer: "map snd (prefer_section_on_ties xs by_id) = map snd xs"
proof -
  have "map snd (concat (map (demote_group by_id) gs)) = map snd (concat gs)"
    if "set gs \<subseteq> set (tie_groups xs)" for gs
    using that
  proof (induction gs)
    case (Cons g gs)
    then have "map snd (demote_group by_id g) = map snd g"
      using scores_demote_group tie_group_same by (metis list.set_intros(1) subsetD)
    with Cons show ?case by simp
  qed simp
  from this [of "tie_groups xs"] show ?thesis
    by (simp add: prefer_section_on_ties_def)
qed

lemma sort_desc_scores: "sorted_wrt (\<ge>) (map snd (sort_desc xs))"
proof -
  have "sorted (map (\<lambda>kv. - snd kv) (sort_desc xs))"
    by (simp add: sort_desc_def)
  then show ?thesis by (simp add: sorted_wrt_map)
qed

lemma mset_sort_desc [simp]: "mset (sort_desc xs) = mset xs"
  by (simp add: sort_desc_def)

text \<open>The order of all candidates: a permutation of the scores, headed entries first.\<close>

lemma mset_rrf_order: "mset (rrf_order (by_id, scores) ids) = mset scores"
  by (simp add: rrf_order_def Let_def)

definition headed_in :: "(string \<times> scored_point) list \<Rightarrow> string list \<Rightarrow> string \<Rightarrow> bool" where
  "headed_in by_id ids key \<longleftrightarrow> entry_headed (text_field (point_payload by_id key) ''text'') ids"

definition ranks_before :: "(string \<times> scored_point) list \<Rightarrow> string list \<Rightarrow> string \<times> rat \<Rightarrow> string \<times> rat \<Rightarrow> bool" where
  "ranks_before by_id ids a b \<longleftrightarrow>
     (headed_in by_id ids (fst a) \<and> \<not> headed_in by_id ids (fst b))
     \<or> (headed_in by_id ids (fst a) = headed_in by_id ids (fst b) \<and> snd a \<ge> snd b)"

lemma rrf_order_sorted: "sorted_wrt (ranks_before by_id ids) (rrf_order (by_id, scores) ids)"
proof -
  let ?r = "prefer_section_on_ties (sort_desc scores) by_id"
  have "sorted_wrt (\<ge>) (map snd ?r)"
    unfolding scores_prefer by (rule sort_desc_scores)
  then have "sorted_wrt (\<lambda>a b. snd a \<ge> snd b) ?r" by (simp only: sorted_wrt_map)
  then have s: "sorted_wrt (\<lambda>a b. snd a \<ge> snd b) (filter P ?r)" for P
    by (rule sorted_wrt_filter)
  show ?thesis
  proof (cases "ids = []")
    case True
    then have "headed_in by_id ids = (\<lambda>_. False)" by (auto simp: headed_in_def entry_headed_def)
    with s [of "\<lambda>_. True"] True show ?thesis
      by (simp add: rrf_order_def Let_def ranks_before_def [abs_def])
  next
    case False
    have "rrf_order (by_id, scores) ids = filter (headed_in by_id ids \<circ> fst) ?r
        @ filter (\<lambda>kv. \<not> headed_in by_id ids (fst kv)) ?r"
      using False by (simp add: rrf_order_def Let_def headed_in_def comp_def)
    moreover have "sorted_wrt (ranks_before by_id ids) (filter (headed_in by_id ids \<circ> fst) ?r)"
      by (rule sorted_wrt_mono_rel [OF _ s]) (auto simp: ranks_before_def)
    moreover have "sorted_wrt (ranks_before by_id ids) (filter (\<lambda>kv. \<not> headed_in by_id ids (fst kv)) ?r)"
      by (rule sorted_wrt_mono_rel [OF _ s]) (auto simp: ranks_before_def)
    ultimately show ?thesis by (auto simp: sorted_wrt_append ranks_before_def)
  qed
qed

subsection \<open>The scores of the candidates\<close>

text \<open>The fused score of a chunk from its rank in each leg, in the order of the additions.\<close>

fun rank_in :: "string \<Rightarrow> scored_point list \<Rightarrow> (nat \<times> scored_point) option" where
  "rank_in key [] = None"
| "rank_in key (p # ps) =
     (if sp_id p = key then Some (0, p) else map_option (\<lambda>(r, q). (Suc r, q)) (rank_in key ps))"

definition leg_adds :: "(rat \<Rightarrow> rat) \<Rightarrow> nat \<Rightarrow> (string \<times> rat) list \<Rightarrow> bool \<Rightarrow> rat \<Rightarrow> nat
    \<Rightarrow> (nat \<times> scored_point) option \<Rightarrow> rat option \<Rightarrow> rat option" where
  "leg_adds fl k boosts sparse_leg weight n found old =
     (case found of None \<Rightarrow> old
      | Some (r, p) \<Rightarrow> Some (fl ((case old of None \<Rightarrow> 0 | Some s \<Rightarrow> s)
                             + leg_contrib fl k boosts sparse_leg weight (n + r) p)))"

lemma rank_in_None: "rank_in key ps = None \<longleftrightarrow> key \<notin> sp_id ` set ps"
  by (induction ps) auto

lemma fuse_leg_lookup:
  assumes "distinct (map sp_id ps)"
  shows "map_of (snd (fold (\<lambda>(rank, point) (by_id, scores).
         (AList.update (sp_id point) point by_id,
          add_score fl (sp_id point) (leg_contrib fl k boosts sl w rank point) scores))
       (enumerate n ps) st)) key
     = leg_adds fl k boosts sl w n (rank_in key ps) (map_of (snd st) key)"
  using assms
proof (induction ps arbitrary: n st)
  case (Cons p ps)
  obtain b s where st: "st = (b, s)" by (cases st)
  have none: "rank_in (sp_id p) ps = None" using Cons.prems by (simp add: rank_in_None)
  show ?case
  proof (cases "sp_id p = key")
    case True
    with Cons none show ?thesis
      by (simp add: st leg_adds_def add_score_def update_conv')
  next
    case False
    with Cons show ?thesis
      by (cases "rank_in key ps") (auto simp: st leg_adds_def add_score_def update_conv')
  qed
qed (simp add: leg_adds_def)

lemma fuse_leg_keys:
  "set (map fst (snd (fuse_leg fl k boosts sl w ps st))) = sp_id ` set ps \<union> set (map fst (snd st))"
  "set (map fst (fst (fuse_leg fl k boosts sl w ps st))) = sp_id ` set ps \<union> set (map fst (fst st))"
  "distinct (map fst (snd st)) \<Longrightarrow> distinct (map fst (snd (fuse_leg fl k boosts sl w ps st)))"
proof -
  have "set (map fst (snd (fold f (enumerate n ps) st))) = sp_id ` set ps \<union> set (map fst (snd st))
      \<and> set (map fst (fst (fold f (enumerate n ps) st))) = sp_id ` set ps \<union> set (map fst (fst st))
      \<and> (distinct (map fst (snd st)) \<longrightarrow> distinct (map fst (snd (fold f (enumerate n ps) st))))"
    if f: "f = (\<lambda>(rank, point) (by_id, scores).
         (AList.update (sp_id point) point by_id,
          add_score fl (sp_id point) (leg_contrib fl k boosts sl w rank point) scores))" for f n st
  proof (induction ps arbitrary: n st)
    case (Cons p ps)
    obtain b s where st: "st = (b, s)" by (cases st)
    have "f (n, p) st = (AList.update (sp_id p) p b,
        add_score fl (sp_id p) (leg_contrib fl k boosts sl w n p) s)"
      by (simp add: f st)
    then show ?case
      using Cons.IH [of "Suc n" "f (n, p) st"]
      by (auto simp: add_score_def distinct_update st keys_update)
  qed simp
  from this [OF refl, of 0 st]
  show "set (map fst (snd (fuse_leg fl k boosts sl w ps st))) = sp_id ` set ps \<union> set (map fst (snd st))"
    "set (map fst (fst (fuse_leg fl k boosts sl w ps st))) = sp_id ` set ps \<union> set (map fst (fst st))"
    "distinct (map fst (snd st)) \<Longrightarrow> distinct (map fst (snd (fuse_leg fl k boosts sl w ps st)))"
    unfolding fuse_leg_def by blast+
qed

lemma fuse_leg_by_id:
  assumes "\<forall>key p. map_of (fst st) key = Some p \<longrightarrow> sp_id p = key"
  shows "\<forall>key p. map_of (fst (fuse_leg fl k boosts sl w ps st)) key = Some p \<longrightarrow> sp_id p = key"
proof -
  have "\<forall>key p. map_of (fst (fold f (enumerate n ps) st)) key = Some p \<longrightarrow> sp_id p = key"
    if "\<forall>key p. map_of (fst st) key = Some p \<longrightarrow> sp_id p = key"
      and f: "f = (\<lambda>(rank, point) (by_id, scores).
         (AList.update (sp_id point) point by_id,
          add_score fl (sp_id point) (leg_contrib fl k boosts sl w rank point) scores))" for f n st
    using that(1)
  proof (induction ps arbitrary: n st)
    case (Cons p ps)
    have "\<forall>key q. map_of (fst (f (n, p) st)) key = Some q \<longrightarrow> sp_id q = key"
      using Cons.prems by (cases st) (auto simp: f update_conv')
    from Cons.IH [OF this, of "Suc n"] show ?case by simp
  qed simp
  from this [OF assms refl, of 0] show ?thesis unfolding fuse_leg_def .
qed

lemma fuse_legs_facts:
  assumes "fuse_legs fl k boosts w dense sparse = (by_id, scores)"
  shows "set (map fst scores) = sp_id ` (set dense \<union> set sparse)"
    and "distinct (map fst scores)"
    and "\<And>key. key \<in> sp_id ` (set dense \<union> set sparse) \<Longrightarrow> \<exists>p. map_of by_id key = Some p \<and> sp_id p = key"
proof -
  let ?a = "fuse_leg fl k boosts False (fst w) dense ([], [])"
  have e: "fuse_leg fl k boosts True (snd w) sparse ?a = (by_id, scores)"
    using assms by (simp add: fuse_legs_def)
  show "set (map fst scores) = sp_id ` (set dense \<union> set sparse)"
    using fuse_leg_keys(1) [of fl k boosts True "snd w" sparse ?a]
      fuse_leg_keys(1) [of fl k boosts False "fst w" dense "([], [])"]
    unfolding e by auto
  show "distinct (map fst scores)"
    using fuse_leg_keys(3) [of ?a fl k boosts True "snd w" sparse]
      fuse_leg_keys(3) [of "([], [])" fl k boosts False "fst w" dense]
    unfolding e by simp
  fix key assume key: "key \<in> sp_id ` (set dense \<union> set sparse)"
  have "set (map fst by_id) = sp_id ` (set dense \<union> set sparse)"
    using fuse_leg_keys(2) [of fl k boosts True "snd w" sparse ?a]
      fuse_leg_keys(2) [of fl k boosts False "fst w" dense "([], [])"]
    unfolding e by auto
  with key obtain p where p: "map_of by_id key = Some p"
    by (cases "map_of by_id key") (auto simp: map_of_eq_None_iff)
  moreover have "\<forall>key p. map_of (fst ?a) key = Some p \<longrightarrow> sp_id p = key"
    by (rule fuse_leg_by_id) simp
  from fuse_leg_by_id [OF this, of fl k boosts True "snd w" sparse] p have "sp_id p = key"
    unfolding e by simp
  ultimately show "\<exists>p. map_of by_id key = Some p \<and> sp_id p = key" by blast
qed

lemma fuse_legs_score:
  assumes "fuse_legs fl k boosts w dense sparse = (by_id, scores)"
    and "distinct (map sp_id dense)" "distinct (map sp_id sparse)"
  shows "map_of scores key = leg_adds fl k boosts True (snd w) 0 (rank_in key sparse)
      (leg_adds fl k boosts False (fst w) 0 (rank_in key dense) None)"
proof -
  have "scores = snd (fuse_legs fl k boosts w dense sparse)" by (simp add: assms(1))
  then show ?thesis
    unfolding fuse_legs_def fuse_leg_def
    by (simp add: fuse_leg_lookup [OF assms(2)] fuse_leg_lookup [OF assms(3)])
qed

section \<open>Lemmas on the merges\<close>

lemma fold_scores_keys:
  assumes "\<And>r h st. f (r, h) st = (keep_first h (fst st), upd (r :: nat) h (snd st))"
    and "\<And>r h s. fst ` set (upd r h s) = insert (chunk_id h) (fst ` set s)"
    and "\<And>r h s. distinct (map fst s) \<Longrightarrow> distinct (map fst (upd r h s))"
    and "distinct (map fst (snd st))" "fst ` set (fst st) = fst ` set (snd st)"
    and "\<forall>(key, h) \<in> set (fst st). chunk_id h = key"
  shows "fst ` set (snd (fold f (enumerate n hs) st)) = chunk_id ` set hs \<union> fst ` set (snd st)
    \<and> distinct (map fst (snd (fold f (enumerate n hs) st)))
    \<and> fst ` set (fst (fold f (enumerate n hs) st)) = fst ` set (snd (fold f (enumerate n hs) st))
    \<and> (\<forall>(key, h) \<in> set (fst (fold f (enumerate n hs) st)). chunk_id h = key
          \<and> (h \<in> set hs \<or> (key, h) \<in> set (fst st)))"
  using assms(4-6)
proof (induction hs arbitrary: n st)
  case (Cons h hs)
  have eq: "f (n, h) st = (keep_first h (fst st), upd n h (snd st))" by (rule assms(1))
  have kf: "fst ` set (keep_first h b) = insert (chunk_id h) (fst ` set b)" for b
    by (auto simp: keep_first_def map_of_eq_None_iff dest: map_of_SomeD intro: rev_image_eqI)
  have hk: "\<forall>(key, h') \<in> set (keep_first h (fst st)). chunk_id h' = key \<and> (h' = h \<or> (key, h') \<in> set (fst st))"
    using Cons.prems(3) by (auto simp: keep_first_def)
  have "distinct (map fst (snd (f (n, h) st)))"
    "fst ` set (fst (f (n, h) st)) = fst ` set (snd (f (n, h) st))"
    "\<forall>(key, h) \<in> set (fst (f (n, h) st)). chunk_id h = key"
    using Cons.prems hk unfolding eq by (auto simp: assms(2,3) kf)
  from Cons.IH [OF this, of "Suc n"] hk show ?case
    unfolding eq by (auto simp: assms(2) eq)
qed auto

subsection \<open>Interleaving\<close>

lemma best_per_doc_facts:
  "distinct (map doc_id (best_per_doc docs hs))"
  "doc_id ` set (best_per_doc docs hs) = doc_id ` set hs - set docs"
  "set (best_per_doc docs hs) \<subseteq> set hs"
proof (induction docs hs rule: best_per_doc.induct)
  case (2 docs h hs)
  {
    case 1 then show ?case using 2 by (cases "doc_id h \<in> set docs") (auto simp: image_iff)
  next
    case 2 then show ?case using "2.IH" by (cases "doc_id h \<in> set docs") auto
  next
    case 3 then show ?case using 2 by (cases "doc_id h \<in> set docs") auto
  }
qed auto

lemma take_turns_facts:
  "take_turns shown sides = (rest, sh, placed) \<Longrightarrow>
     distinct (map doc_id placed) \<and> doc_id ` set placed \<inter> set shown = {}
     \<and> set sh = set shown \<union> doc_id ` set placed
     \<and> set placed \<subseteq> set (concat sides) \<and> set (concat rest) \<subseteq> set (concat sides)
     \<and> doc_id ` set (concat sides) \<subseteq> set sh \<union> doc_id ` set (concat rest)
     \<and> (placed = [] \<longrightarrow> set (concat rest) = {})"
proof (induction shown sides arbitrary: rest sh placed rule: take_turns.induct)
  case (2 shown side sides)
  let ?d = "dropWhile (\<lambda>h. doc_id h \<in> set shown) side"
  have w: "side = takeWhile (\<lambda>h. doc_id h \<in> set shown) side @ ?d" by simp
  have w': "doc_id ` set (takeWhile (\<lambda>h. doc_id h \<in> set shown) side) \<subseteq> set shown"
    by (auto dest: set_takeWhileD)
  show ?case
  proof (cases ?d)
    case Nil
    obtain r s p where t: "take_turns shown sides = (r, s, p)" by (cases "take_turns shown sides") auto
    have side: "doc_id ` set side \<subseteq> set shown" using w w' Nil by (metis append_Nil2)
    have e: "rest = [] # r" "sh = s" "placed = p" using 2(3) Nil t by auto
    have c: "set (concat (side # sides)) = set side \<union> set (concat sides)" "set (concat ([] # r)) = set (concat r)"
      by simp_all
    from 2(1) [OF Nil t] have i: "distinct (map doc_id p)" "doc_id ` set p \<inter> set shown = {}"
      "set s = set shown \<union> doc_id ` set p" "set p \<subseteq> set (concat sides)"
      "set (concat r) \<subseteq> set (concat sides)" "doc_id ` set (concat sides) \<subseteq> set s \<union> doc_id ` set (concat r)"
      "p = [] \<longrightarrow> set (concat r) = {}"
      by blast+
    have "doc_id ` set side \<subseteq> set s" using side unfolding i(3) by (rule subset_trans) (rule Un_upper1)
    then have "doc_id ` set (concat (side # sides)) \<subseteq> set s \<union> doc_id ` set (concat r)"
      unfolding c image_Un by (rule Un_least [OF le_supI1 i(6)])
    moreover have "set p \<subseteq> set (concat (side # sides))" "set (concat r) \<subseteq> set (concat (side # sides))"
      using i(4,5) unfolding c by (auto intro: le_supI2)
    ultimately show ?thesis unfolding e c(2) using i(1-3,7) by (intro conjI)
  next
    case (Cons h hs)
    obtain r s p where t: "take_turns (doc_id h # shown) sides = (r, s, p)"
      by (cases "take_turns (doc_id h # shown) sides") auto
    have sd: "set side = set (takeWhile (\<lambda>h. doc_id h \<in> set shown) side) \<union> insert h (set hs)"
      using arg_cong [OF w, of set] unfolding set_append Cons list.set .
    have side: "doc_id ` set side \<subseteq> set shown \<union> {doc_id h} \<union> doc_id ` set hs" "h \<in> set side" "set hs \<subseteq> set side"
      using w' unfolding sd by auto
    have h: "doc_id h \<notin> set shown" using Cons by (simp add: dropWhile_eq_Cons_conv)
    have e: "rest = hs # r" "sh = s" "placed = h # p" using 2(3) Cons t by auto
    from 2(2) [OF Cons t] have i: "distinct (map doc_id p)" "doc_id ` set p \<inter> set (doc_id h # shown) = {}"
      "set s = set (doc_id h # shown) \<union> doc_id ` set p" "set p \<subseteq> set (concat sides)"
      "set (concat r) \<subseteq> set (concat sides)" "doc_id ` set (concat sides) \<subseteq> set s \<union> doc_id ` set (concat r)"
      by blast+
    have c: "set (concat (side # sides)) = set side \<union> set (concat sides)"
      "set (concat (hs # r)) = set hs \<union> set (concat r)" by simp_all
    have "distinct (map doc_id (h # p))" using i(1,2) by auto
    moreover have "doc_id ` set (h # p) \<inter> set shown = {}" using i(2) h by auto
    moreover have "set s = set shown \<union> doc_id ` set (h # p)" unfolding i(3) by auto
    moreover have "set (h # p) \<subseteq> set (concat (side # sides))" using i(4) side(2) unfolding c by auto
    moreover have "set (concat (hs # r)) \<subseteq> set (concat (side # sides))" using i(5) side(3) unfolding c by blast
    moreover have "doc_id ` set (concat (side # sides)) \<subseteq> set s \<union> doc_id ` set (concat (hs # r))"
      using i(3,6) side(1) unfolding c image_Un by auto
    ultimately show ?thesis unfolding e by blast
  qed
qed auto

lemma shown_aux:
  "P \<inter> S = {} \<Longrightarrow> H = S \<union> P \<Longrightarrow> C \<subseteq> H \<union> R \<Longrightarrow> P \<subseteq> C \<Longrightarrow> R \<subseteq> C \<Longrightarrow> P \<union> (R - H) = C - S"
  by blast

lemma interleave_loop_facts:
  "distinct (map doc_id (interleave_loop shown sides))
   \<and> doc_id ` set (interleave_loop shown sides) = doc_id ` set (concat sides) - set shown
   \<and> set (interleave_loop shown sides) \<subseteq> set (concat sides)"
proof (induction shown sides rule: interleave_loop.induct)
  case (1 shown sides)
  obtain rest sh placed where t: "take_turns shown sides = (rest, sh, placed)"
    by (cases "take_turns shown sides") auto
  note f = take_turns_facts [OF t]
  show ?case
  proof (cases "placed = []")
    case True
    then have e: "interleave_loop shown sides = []" by (simp add: t)
    from f have i: "set sh = set shown \<union> doc_id ` set placed" "placed = [] \<longrightarrow> set (concat rest) = {}"
      "doc_id ` set (concat sides) \<subseteq> set sh \<union> doc_id ` set (concat rest)"
      by blast+
    from i(2) True have "set (concat rest) = {}" by blast
    with i(1,3) True have "doc_id ` set (concat sides) \<subseteq> set shown"
      by (simp only: list.set image_empty Un_empty_right)
    then show ?thesis unfolding e by auto
  next
    case False
    then have e: "interleave_loop shown sides = placed @ interleave_loop sh rest"
      by (subst interleave_loop.simps) (simp add: t del: interleave_loop.simps)
    note ih = 1 [OF t [symmetric] refl False]
    from f have i: "distinct (map doc_id placed)" "doc_id ` set placed \<inter> set shown = {}"
      "set sh = set shown \<union> doc_id ` set placed" "set placed \<subseteq> set (concat sides)"
      "set (concat rest) \<subseteq> set (concat sides)" "doc_id ` set (concat sides) \<subseteq> set sh \<union> doc_id ` set (concat rest)"
      by blast+
    let ?r = "interleave_loop sh rest"
    from ih have j: "distinct (map doc_id ?r)" "doc_id ` set ?r = doc_id ` set (concat rest) - set sh"
      "set ?r \<subseteq> set (concat rest)" by blast+
    have "doc_id ` set placed \<inter> doc_id ` set ?r = {}" unfolding j(2) i(3) by blast
    with i(1) j(1) have "distinct (map doc_id (placed @ ?r))" by simp
    moreover have "set (placed @ ?r) \<subseteq> set (concat sides)"
      unfolding set_append using i(4,5) j(3) by (intro Un_least) (auto intro: subset_trans)
    moreover have "doc_id ` set (placed @ ?r) = doc_id ` set (concat sides) - set shown"
    proof -
      have "doc_id ` set (placed @ ?r) = doc_id ` set placed \<union> (doc_id ` set (concat rest) - set sh)"
        unfolding set_append image_Un j(2) ..
      also have "\<dots> = doc_id ` set (concat sides) - set shown"
        by (rule shown_aux [OF i(2,3,6) image_mono [OF i(4)] image_mono [OF i(5)]])
      finally show ?thesis .
    qed
    ultimately show ?thesis unfolding e by blast
  qed
qed

lemma interleave_loop_hd:
  "interleave_loop [] ((h # hs) # sides) \<noteq> [] \<and> hd (interleave_loop [] ((h # hs) # sides)) = h"
proof -
  obtain r s p where t: "take_turns [doc_id h] sides = (r, s, p)" by (cases "take_turns [doc_id h] sides") auto
  have "interleave_loop [] ((h # hs) # sides) = (h # p) @ interleave_loop s (hs # r)"
    by (subst interleave_loop.simps) (simp add: t del: interleave_loop.simps)
  then show ?thesis by simp
qed

subsection \<open>Diversification\<close>

lemma on_page_simps [simp]:
  "on_page pk [] = 0"
  "on_page pk (h # hs) = (if page_key h = pk then 1 else 0) + on_page pk hs"
  "on_page pk (xs @ ys) = on_page pk xs + on_page pk ys"
  by (simp_all add: on_page_def)

lemma in_doc_simps [simp]:
  "in_doc d [] = 0"
  "in_doc d (h # hs) = (if doc_id h = d then 1 else 0) + in_doc d hs"
  "in_doc d (xs @ ys) = in_doc d xs + in_doc d ys"
  by (simp_all add: in_doc_def)

lemma on_page_mset: "mset xs = mset ys \<Longrightarrow> on_page pk xs = on_page pk ys"
  unfolding on_page_def by (metis mset_filter size_mset)

lemma subset_add_mset: "A \<subseteq># M \<Longrightarrow> A \<subseteq># add_mset h M"
  by (metis add_mset_add_single mset_subset_eq_add_left subset_mset.order_trans)

lemma mset_take_subseteq: "mset (take n xs) \<subseteq># mset xs"
  by (metis append_take_drop_id mset_append mset_subset_eq_add_left)

definition within_caps :: "nat \<Rightarrow> nat \<Rightarrow> hit list \<Rightarrow> bool" where
  "within_caps per_page per_doc hs \<longleftrightarrow>
     (\<forall>pk. on_page pk hs \<le> per_page) \<and> (\<forall>d. in_doc d hs \<le> per_doc)"

definition page_full :: "nat \<Rightarrow> hit list \<Rightarrow> hit \<Rightarrow> bool" where
  "page_full per_page sel h \<longleftrightarrow> per_page \<le> on_page (page_key h) sel"

definition doc_full :: "nat \<Rightarrow> hit list \<Rightarrow> hit \<Rightarrow> bool" where
  "doc_full per_doc sel h \<longleftrightarrow> per_doc \<le> in_doc (doc_id h) sel"

lemma phase_one_Inl:
  "phase_one limit pp pd sel rem hs = Inl out \<Longrightarrow> within_caps pp pd sel \<Longrightarrow> length sel < limit \<Longrightarrow>
     within_caps pp pd out \<and> length out = limit \<and> mset out \<subseteq># mset sel + mset hs"
proof (induction hs arbitrary: sel rem)
  case (Cons h hs)
  define fits where "fits \<longleftrightarrow> on_page (page_key h) sel < pp \<and> in_doc (doc_id h) sel < pd"
  show ?case
  proof (cases fits)
    case True
    then have caps: "within_caps pp pd (sel @ [h])"
      using Cons.prems(2) by (auto simp: fits_def within_caps_def less_Suc_eq_le [symmetric])
    show ?thesis
    proof (cases "length (sel @ [h]) \<ge> limit")
      case le: True
      then have "out = sel @ [h]" using Cons.prems(1) True by (simp add: fits_def Let_def)
      with le caps Cons.prems(3) show ?thesis by simp
    next
      case False
      then have "phase_one limit pp pd (sel @ [h]) rem hs = Inl out"
        using Cons.prems(1) True by (simp add: fits_def Let_def)
      from Cons.IH [OF this caps] False show ?thesis by simp
    qed
  next
    case False
    then have "phase_one limit pp pd sel (rem @ [h]) hs = Inl out"
      using Cons.prems by (auto simp: fits_def Let_def split: if_splits)
    from Cons.IH [OF this Cons.prems(2,3)] show ?thesis
      by (simp add: subset_add_mset)
  qed
qed simp

lemma phase_one_Inr:
  "phase_one limit pp pd sel rem hs = Inr (out, left) \<Longrightarrow> within_caps pp pd sel \<Longrightarrow> length sel < limit \<Longrightarrow>
     (\<forall>h \<in> set rem. page_full pp sel h \<or> doc_full pd sel h) \<Longrightarrow>
     within_caps pp pd out \<and> length out < limit \<and> mset out + mset left = mset sel + mset rem + mset hs
     \<and> (\<forall>h \<in> set left. page_full pp out h \<or> doc_full pd out h)"
proof (induction hs arbitrary: sel rem)
  case (Cons h hs)
  define fits where "fits \<longleftrightarrow> on_page (page_key h) sel < pp \<and> in_doc (doc_id h) sel < pd"
  show ?case
  proof (cases fits)
    case True
    then have caps: "within_caps pp pd (sel @ [h])"
      using Cons.prems(2) by (auto simp: fits_def within_caps_def less_Suc_eq_le [symmetric])
    have p: "phase_one limit pp pd (sel @ [h]) rem hs = Inr (out, left)" "length (sel @ [h]) < limit"
      using Cons.prems(1) True by (auto simp: fits_def Let_def split: if_splits)
    have "\<forall>h' \<in> set rem. page_full pp (sel @ [h]) h' \<or> doc_full pd (sel @ [h]) h'"
      using Cons.prems(4) by (auto simp: page_full_def doc_full_def)
    from Cons.IH [OF p(1) caps p(2) this] show ?thesis by simp
  next
    case False
    then have p: "phase_one limit pp pd sel (rem @ [h]) hs = Inr (out, left)"
      using Cons.prems(1) by (auto simp: fits_def Let_def split: if_splits)
    have "\<forall>h' \<in> set (rem @ [h]). page_full pp sel h' \<or> doc_full pd sel h'"
      using Cons.prems(4) False by (auto simp: page_full_def doc_full_def fits_def)
    from Cons.IH [OF p Cons.prems(2,3) this] show ?thesis by simp
  qed
qed simp

lemma phase_two_Inl:
  "phase_two limit pp sel still hs = Inl out \<Longrightarrow> \<forall>pk. on_page pk sel \<le> pp \<Longrightarrow> length sel < limit \<Longrightarrow>
     (\<forall>pk. on_page pk out \<le> pp) \<and> length out = limit \<and> mset out \<subseteq># mset sel + mset hs \<and> prefix sel out"
proof (induction hs arbitrary: sel still)
  case (Cons h hs)
  show ?case
  proof (cases "on_page (page_key h) sel < pp")
    case True
    then have caps: "\<forall>pk. on_page pk (sel @ [h]) \<le> pp"
      using Cons.prems(2) by (auto simp: less_Suc_eq_le [symmetric])
    show ?thesis
    proof (cases "length (sel @ [h]) \<ge> limit")
      case le: True
      then have "out = sel @ [h]" using Cons.prems(1) True by simp
      with le caps Cons.prems(3) show ?thesis by simp
    next
      case False
      then have "phase_two limit pp (sel @ [h]) still hs = Inl out"
        using Cons.prems(1) True by simp
      from Cons.IH [OF this caps] False show ?thesis by (auto dest: append_prefixD)
    qed
  next
    case False
    then have "phase_two limit pp sel (still @ [h]) hs = Inl out" using Cons.prems by simp
    from Cons.IH [OF this Cons.prems(2,3)] show ?thesis
      by (simp add: subset_add_mset)
  qed
qed simp

lemma phase_two_Inr:
  "phase_two limit pp sel still hs = Inr (out, left) \<Longrightarrow> \<forall>pk. on_page pk sel \<le> pp \<Longrightarrow> length sel < limit \<Longrightarrow>
     (\<forall>h \<in> set still. page_full pp sel h) \<Longrightarrow>
     (\<forall>pk. on_page pk out \<le> pp) \<and> length out < limit \<and> mset out + mset left = mset sel + mset still + mset hs
     \<and> (\<forall>h \<in> set left. page_full pp out h) \<and> prefix sel out"
proof (induction hs arbitrary: sel still)
  case (Cons h hs)
  show ?case
  proof (cases "on_page (page_key h) sel < pp")
    case True
    then have caps: "\<forall>pk. on_page pk (sel @ [h]) \<le> pp"
      using Cons.prems(2) by (auto simp: less_Suc_eq_le [symmetric])
    have p: "phase_two limit pp (sel @ [h]) still hs = Inr (out, left)" "length (sel @ [h]) < limit"
      using Cons.prems(1) True by (auto split: if_splits)
    have "\<forall>h' \<in> set still. page_full pp (sel @ [h]) h'"
      using Cons.prems(4) by (auto simp: page_full_def)
    from Cons.IH [OF p(1) caps p(2) this] show ?thesis by (auto dest: append_prefixD)
  next
    case False
    then have p: "phase_two limit pp sel (still @ [h]) hs = Inr (out, left)"
      using Cons.prems(1) by simp
    have "\<forall>h' \<in> set (still @ [h]). page_full pp sel h'"
      using Cons.prems(4) False by (auto simp: page_full_def)
    from Cons.IH [OF p Cons.prems(2,3) this] show ?thesis by simp
  qed
qed simp

lemma phase_three_conv:
  "length sel < limit \<Longrightarrow> phase_three limit sel hs = sel @ take (limit - length sel) hs"
proof (induction hs arbitrary: sel)
  case (Cons h hs)
  show ?case
  proof (cases "length (sel @ [h]) \<ge> limit")
    case True
    with Cons.prems have "limit - length sel = 1" by simp
    with True show ?thesis by simp
  next
    case False
    with Cons.IH [of "sel @ [h]"] have "phase_three limit sel (h # hs) = (sel @ [h]) @ take (limit - Suc (length sel)) hs"
      by simp
    moreover have "limit - length sel = Suc (limit - Suc (length sel))" using Cons.prems by simp
    ultimately show ?thesis by simp
  qed
qed simp

text \<open>The result of the three phases: a greedy prefix within both caps, then the backfill.\<close>

lemma diversify_shape:
  assumes l: "1 \<le> limit"
  shows "length (diversify_hits hits limit pp pd) = min limit (length hits)
    \<and> mset (diversify_hits hits limit pp pd) \<subseteq># mset hits
    \<and> (\<exists>sel rest. diversify_hits hits limit pp pd = sel @ rest \<and> within_caps pp pd sel
         \<and> (rest \<noteq> [] \<longrightarrow> (\<exists>left. mset sel + mset left = mset hits
              \<and> (\<forall>h \<in> set left. page_full pp sel h \<or> doc_full pd sel h))))
    \<and> ((\<forall>pk. on_page pk (diversify_hits hits limit pp pd) \<le> pp)
       \<or> (\<forall>pk. min pp (on_page pk hits) \<le> on_page pk (diversify_hits hits limit pp pd)))"
    (is "?len \<and> ?sub \<and> ?greedy \<and> ?page")
proof (cases "phase_one limit pp pd [] [] hits")
  case (Inl out)
  have o: "within_caps pp pd out \<and> length out = limit \<and> mset out \<subseteq># mset hits"
    using phase_one_Inl [OF Inl] l by (simp add: within_caps_def)
  have eq: "diversify_hits hits limit pp pd = out" by (simp add: diversify_hits_def Inl)
  have "limit \<le> length hits" using o size_mset_mono by fastforce
  then show ?thesis unfolding eq using o by (auto simp: within_caps_def)
next
  case (Inr ol)
  obtain sel left where ol: "ol = (sel, left)" by (cases ol)
  have o: "within_caps pp pd sel" "length sel < limit" "mset sel + mset left = mset hits"
    "\<forall>h \<in> set left. page_full pp sel h \<or> doc_full pd sel h"
    using phase_one_Inr [OF Inr [unfolded ol]] l by (simp_all add: within_caps_def)
  have pages: "\<forall>pk. on_page pk sel \<le> pp" using o(1) by (simp add: within_caps_def)
  show ?thesis
  proof (cases "phase_two limit pp sel [] left")
    case (Inl out)
    have q: "\<forall>pk. on_page pk out \<le> pp" "length out = limit" "mset out \<subseteq># mset hits" "prefix sel out"
      using phase_two_Inl [OF Inl pages o(2)] by (simp_all add: o(3))
    have eq: "diversify_hits hits limit pp pd = out" by (simp add: diversify_hits_def Inr ol Inl)
    have "limit \<le> length hits" using q(2,3) size_mset_mono by fastforce
    moreover obtain r where "out = sel @ r" using q(4) by (auto simp: prefix_def)
    ultimately show ?thesis unfolding eq using q o by (metis min.absorb1)
  next
    case (Inr ol')
    obtain sel' still where ol': "ol' = (sel', still)" by (cases ol')
    have q: "\<forall>pk. on_page pk sel' \<le> pp" "length sel' < limit" "mset sel' + mset still = mset hits"
      "\<forall>h \<in> set still. page_full pp sel' h" "prefix sel sel'"
      using phase_two_Inr [OF Inr [unfolded ol'] pages o(2)] by (simp_all add: o(3))
    let ?b = "sort_key (backfill_key sel') still"
    have eq: "diversify_hits hits limit pp pd = sel' @ take (limit - length sel') ?b"
      using phase_three_conv [OF q(2)]
      by (simp add: diversify_hits_def \<open>phase_one limit pp pd [] [] hits = Inr ol\<close> ol Inr ol')
    have len: "length hits = length sel' + length still"
      using q(3) by (metis mset_append size_mset length_append)
    have sub: "mset (sel' @ take (limit - length sel') ?b) \<subseteq># mset hits"
      using mset_take_subseteq [of "limit - length sel'" ?b] q(3) [symmetric] by simp
    obtain r where r: "sel' = sel @ r" using q(5) by (auto simp: prefix_def)
    have page: "min pp (on_page pk hits) \<le> on_page pk sel'" for pk
    proof (cases "\<exists>h \<in> set still. page_key h = pk")
      case True
      with q(4) show ?thesis by (auto simp: page_full_def)
    next
      case False
      then have "on_page pk still = 0" by (auto simp: on_page_def filter_empty_conv)
      moreover have "on_page pk hits = on_page pk (sel' @ still)"
        by (rule on_page_mset) (simp add: q(3))
      ultimately show ?thesis by simp
    qed
    have ?len unfolding eq using len q(2) by simp
    moreover have ?sub unfolding eq by (rule sub)
    moreover have ?greedy unfolding eq r using o by (metis append.assoc)
    moreover have ?page unfolding eq on_page_simps(3) using page trans_le_add1 by blast
    ultimately show ?thesis by blast
  qed
qed

text \<open>The tie rule on the order: what a leading title section can stand before.\<close>

lemma tie_group_subset: "g \<in> set (tie_groups xs) \<Longrightarrow> set g \<subseteq> set xs"
  by (induction xs rule: tie_groups.induct) (fastforce dest: set_takeWhileD set_dropWhileD)+

lemma tie_groups_descending:
  "sorted_wrt (\<ge>) (map snd xs) \<Longrightarrow> sorted_wrt (\<lambda>g h. \<forall>a \<in> set g. \<forall>b \<in> set h. snd a > snd b) (tie_groups xs)"
proof (induction xs rule: tie_groups.induct)
  case (2 x xs)
  let ?d = "dropWhile (\<lambda>y. snd y = snd x) xs"
  have s: "sorted_wrt (\<ge>) (map snd xs)" "\<forall>y \<in> set xs. snd y \<le> snd x" using 2(2) by auto
  have d: "sorted_wrt (\<ge>) (map snd ?d)"
    using s(1) by (metis dropWhile_eq_drop drop_map sorted_wrt_drop)
  have lt: "\<forall>b \<in> set ?d. snd b < snd x"
  proof (cases ?d)
    case (Cons y ys)
    then have y: "snd y \<noteq> snd x" by (simp add: dropWhile_eq_Cons_conv)
    moreover have "y \<in> set xs" using Cons by (metis list.set_intros(1) set_dropWhileD)
    ultimately have "snd y < snd x" using s(2) by force
    moreover have "\<forall>b \<in> set ys. snd b \<le> snd y" using d Cons by auto
    ultimately show ?thesis using Cons by force
  next
    case Nil
    then show ?thesis unfolding Nil by simp
  qed
  have eqx: "snd a = snd x" if "a \<in> set (x # takeWhile (\<lambda>y. snd y = snd x) xs)" for a
    using that by (auto dest: set_takeWhileD)
  have sub: "set h \<subseteq> set ?d" if "h \<in> set (tie_groups ?d)" for h
    using tie_group_subset [OF that] .
  have "\<forall>h \<in> set (tie_groups ?d). \<forall>a \<in> set (x # takeWhile (\<lambda>y. snd y = snd x) xs). \<forall>b \<in> set h. snd a > snd b"
  proof (intro ballI)
    fix h a b assume "h \<in> set (tie_groups ?d)" "a \<in> set (x # takeWhile (\<lambda>y. snd y = snd x) xs)" "b \<in> set h"
    with eqx [of a] sub [of h] lt show "snd a > snd b" by auto
  qed
  with 2(1) [OF d] show ?case by simp
qed simp

definition tie_ordered :: "(string \<times> scored_point) list \<Rightarrow> string \<times> rat \<Rightarrow> string \<times> rat \<Rightarrow> bool" where
  "tie_ordered by_id a b \<longleftrightarrow>
     snd a = snd b \<and> leading_title_section (point_payload by_id (fst a))
       \<and> \<not> leading_title_section (point_payload by_id (fst b))
     \<longrightarrow> text_field (point_payload by_id (fst a)) ''doc_id'' = text_field (point_payload by_id (fst b)) ''doc_id''"

lemma sorted_wrt_all: "\<forall>a \<in> set xs. \<forall>b \<in> set xs. R a b \<Longrightarrow> sorted_wrt R xs"
  by (induction xs) auto

lemma demoted_leading: "demoted_in by_id g k \<Longrightarrow> leading_title_section (point_payload by_id k)"
  by (simp add: demoted_in_def)

lemma tie_ordered_group: "sorted_wrt (tie_ordered by_id) (demote_group by_id g)"
proof (cases "length g > 1")
  case True
  let ?P = "\<lambda>kv. demoted_in by_id g (fst kv)"
  have "tie_ordered by_id a b" if "a \<in> set g" "\<not> ?P a" "b \<in> set g" for a b
  proof -
    have "\<not> (leading_title_section (point_payload by_id (fst a))
        \<and> \<not> leading_title_section (point_payload by_id (fst b))
        \<and> text_field (point_payload by_id (fst b)) ''doc_id'' \<noteq> text_field (point_payload by_id (fst a)) ''doc_id'')"
      using that unfolding demoted_in_def list_ex_iff by (cases b) auto
    then show ?thesis unfolding tie_ordered_def by metis
  qed
  then have "sorted_wrt (tie_ordered by_id) (filter (\<lambda>kv. \<not> ?P kv) g)"
    by (intro sorted_wrt_all) simp
  moreover have "tie_ordered by_id a b" if "?P b" for a b
    using demoted_leading [OF that] by (simp add: tie_ordered_def)
  ultimately show ?thesis
    using True by (auto simp: demote_group_def sorted_wrt_append intro!: sorted_wrt_all)
next
  case False
  then have "g = [] \<or> (\<exists>x. g = [x])" by (cases g) auto
  then show ?thesis by (auto simp: demote_group_def)
qed

lemma tie_ordered_concat:
  assumes "sorted_wrt (\<lambda>g h. \<forall>a \<in> set g. \<forall>b \<in> set h. snd a > snd b) gs"
  shows "sorted_wrt (tie_ordered by_id) (concat (map (demote_group by_id) gs))"
  using assms
proof (induction gs)
  case (Cons g gs)
  have "tie_ordered by_id a b" if "a \<in> set g" "b \<in> set (concat gs)" for a b
    using that Cons.prems by (fastforce simp: tie_ordered_def)
  with Cons tie_ordered_group [of by_id g] show ?case by (auto simp: sorted_wrt_append)
qed simp

lemma tie_ordered_prefer: "sorted_wrt (tie_ordered by_id) (prefer_section_on_ties (sort_desc xs) by_id)"
  unfolding prefer_section_on_ties_def
  by (rule tie_ordered_concat [OF tie_groups_descending [OF sort_desc_scores]])

lemma tie_ordered_order:
  "sorted_wrt (\<lambda>a b. headed_in by_id ids (fst a) = headed_in by_id ids (fst b) \<longrightarrow> tie_ordered by_id a b)
     (rrf_order (by_id, scores) ids)"
proof -
  let ?r = "prefer_section_on_ties (sort_desc scores) by_id"
  let ?R = "\<lambda>a b. headed_in by_id ids (fst a) = headed_in by_id ids (fst b) \<longrightarrow> tie_ordered by_id a b"
  have s: "sorted_wrt ?R (filter P ?r)" for P
    by (rule sorted_wrt_mono_rel [OF _ sorted_wrt_filter [OF tie_ordered_prefer]]) simp
  have e: "rrf_order (by_id, scores) ids = (if ids \<noteq> [] then filter (headed_in by_id ids \<circ> fst) ?r
        @ filter (\<lambda>kv. \<not> headed_in by_id ids (fst kv)) ?r else ?r)"
    by (simp add: rrf_order_def Let_def headed_in_def comp_def)
  show ?thesis
    unfolding e using s [of "headed_in by_id ids \<circ> fst"] s [of "\<lambda>kv. \<not> headed_in by_id ids (fst kv)"] s [of "\<lambda>_. True"]
    by (auto simp: sorted_wrt_append)
qed

text \<open>The hits of \<open>rrf_fuse\<close>, one per entry of the order.\<close>

lemma rrf_fuse_hits:
  assumes "fuse_legs fl k boosts w dense sparse = (by_id, scores)"
  shows "rrf_fuse fl dense sparse w k limit boosts ids
      = map (\<lambda>(key, sc). to_hit (the (map_of by_id key)) sc) (take limit (rrf_order (by_id, scores) ids))"
    and "kv \<in> set (rrf_order (by_id, scores) ids) \<Longrightarrow>
      \<exists>p. map_of by_id (fst kv) = Some p \<and> sp_id p = fst kv \<and> point_payload by_id (fst kv) = sp_payload p"
    and "length (rrf_order (by_id, scores) ids) = card (sp_id ` (set dense \<union> set sparse))"
    and "distinct (map fst (rrf_order (by_id, scores) ids))"
    and "fst ` set (rrf_order (by_id, scores) ids) = sp_id ` (set dense \<union> set sparse)"
proof -
  let ?o = "rrf_order (by_id, scores) ids"
  have m: "mset ?o = mset scores" by (rule mset_rrf_order)
  then have st: "set ?o = set scores" by (metis set_mset_mset)
  note f = fuse_legs_facts [OF assms]
  show "rrf_fuse fl dense sparse w k limit boosts ids
      = map (\<lambda>(key, sc). to_hit (the (map_of by_id key)) sc) (take limit ?o)"
    by (simp add: rrf_fuse_def assms)
  show "\<exists>p. map_of by_id (fst kv) = Some p \<and> sp_id p = fst kv \<and> point_payload by_id (fst kv) = sp_payload p"
    if "kv \<in> set ?o"
  proof -
    have "fst kv \<in> sp_id ` (set dense \<union> set sparse)"
      using that f(1) unfolding st by (metis image_eqI set_map)
    from f(3) [OF this] obtain p where "map_of by_id (fst kv) = Some p" "sp_id p = fst kv" by blast
    then show ?thesis by (simp add: point_payload_def)
  qed
  have mm: "mset (map fst ?o) = mset (map fst scores)" by (simp add: m)
  show d: "distinct (map fst ?o)" using mset_eq_imp_distinct_iff [OF mm] f(2) by simp
  show k: "fst ` set ?o = sp_id ` (set dense \<union> set sparse)" using f(1) by (simp add: st)
  show "length ?o = card (sp_id ` (set dense \<union> set sparse))"
    using distinct_card [OF d] k by simp
qed

section \<open>Properties\<close>

text \<open>
  C6: Reciprocal rank fusion returns the best candidates: one hit per distinct chunk of the two
  legs, as many as there are up to the limit, and in an order where a chunk headed by a
  requested message id precedes one that is not, and within each of the two groups the scores
  never increase; a candidate that is cut off ranks no better than any hit that is returned.
\<close>

theorem rrf_fuse_ranking:
  "\<exists>by_id scores order. fuse_legs fl k boosts w dense sparse = (by_id, scores)
     \<and> rrf_fuse fl dense sparse w k limit boosts ids
         = map (\<lambda>(key, sc). to_hit (the (map_of by_id key)) sc) (take limit order)
     \<and> mset order = mset scores \<and> distinct (map fst order)
     \<and> fst ` set order = sp_id ` (set dense \<union> set sparse)
     \<and> sorted_wrt (ranks_before by_id ids) order
     \<and> length (rrf_fuse fl dense sparse w k limit boosts ids)
         = min limit (card (sp_id ` (set dense \<union> set sparse)))
     \<and> distinct (map chunk_id (rrf_fuse fl dense sparse w k limit boosts ids))"
proof -
  obtain by_id scores where e: "fuse_legs fl k boosts w dense sparse = (by_id, scores)"
    by (cases "fuse_legs fl k boosts w dense sparse") auto
  let ?o = "rrf_order (by_id, scores) ids"
  note f = rrf_fuse_hits [OF e]
  have "map chunk_id (rrf_fuse fl dense sparse w k limit boosts ids) = map fst (take limit ?o)"
    unfolding f(1) map_map
  proof (rule map_cong [OF refl])
    fix kv assume "kv \<in> set (take limit ?o)"
    then have "kv \<in> set ?o" by (rule in_set_takeD)
    from f(2) [OF this] show "(chunk_id \<circ> (\<lambda>(key, sc). to_hit (the (map_of by_id key)) sc)) kv = fst kv"
      by (cases kv) (auto simp: to_hit_def Let_def)
  qed
  then have "distinct (map chunk_id (rrf_fuse fl dense sparse w k limit boosts ids))"
    using f(4) by (metis distinct_take take_map)
  moreover have "length (rrf_fuse fl dense sparse w k limit boosts ids)
      = min limit (card (sp_id ` (set dense \<union> set sparse)))"
    unfolding f(1) by (simp add: f(3) min.commute)
  ultimately show ?thesis
    by (intro exI [of _ by_id] exI [of _ scores] exI [of _ ?o] conjI)
       (rule e f(1) f(4) f(5) mset_rrf_order rrf_order_sorted | assumption)+
qed

text \<open>
  The fused score of a chunk, when neither leg repeats a chunk, is the rounded sum of one
  contribution \<open>weight / (k + rank + 1)\<close> per leg it appears in, dense leg first, the sparse
  one multiplied by the boost of the chunk type where a boost is set; a chunk of neither leg
  has no score.
\<close>

theorem rrf_scores:
  assumes "distinct (map sp_id dense)" "distinct (map sp_id sparse)"
  shows "map_of (snd (fuse_legs fl k boosts w dense sparse)) key
    = leg_adds fl k boosts True (snd w) 0 (rank_in key sparse)
        (leg_adds fl k boosts False (fst w) 0 (rank_in key dense) None)"
  by (rule fuse_legs_score [OF _ assms, where by_id = "fst (fuse_legs fl k boosts w dense sparse)"]) simp

theorem rrf_scores_witness:
  "map_of (snd (fuse_legs id 2 [] (1, 3) [\<lparr>sp_id = ''a'', sp_payload = []\<rparr>]
      [\<lparr>sp_id = ''b'', sp_payload = []\<rparr>, \<lparr>sp_id = ''a'', sp_payload = []\<rparr>])) ''a'' = Some (13 / 12)"
proof -
  have d: "distinct (map sp_id [\<lparr>sp_id = ''a'', sp_payload = []\<rparr>])"
    "distinct (map sp_id [\<lparr>sp_id = ''b'', sp_payload = []\<rparr>, \<lparr>sp_id = ''a'', sp_payload = []\<rparr>])"
    by simp_all
  show ?thesis
    unfolding rrf_scores [OF d] by (simp add: leg_adds_def leg_contrib_def)
qed

text \<open>
  Ties across documents: of two returned hits with the same score, both or neither headed
  by a requested id, a leading title section never stands before a section chunk of another
  document.
\<close>

theorem rrf_tie_rule:
  assumes "i < j" "j < length (rrf_fuse fl dense sparse w k limit boosts ids)"
  defines "hits \<equiv> rrf_fuse fl dense sparse w k limit boosts ids"
  assumes "score (hits ! i) = score (hits ! j)"
    and "entry_headed (text_field (hit_payload (hits ! i)) ''text'') ids
       = entry_headed (text_field (hit_payload (hits ! j)) ''text'') ids"
    and "leading_title_section (hit_payload (hits ! i))"
    and "\<not> leading_title_section (hit_payload (hits ! j))"
  shows "doc_id (hits ! i) = doc_id (hits ! j)"
proof -
  obtain by_id scores where e: "fuse_legs fl k boosts w dense sparse = (by_id, scores)"
    by (cases "fuse_legs fl k boosts w dense sparse") auto
  let ?o = "rrf_order (by_id, scores) ids"
  note f = rrf_fuse_hits [OF e]
  have hits: "hits = map (\<lambda>(key, sc). to_hit (the (map_of by_id key)) sc) (take limit ?o)"
    unfolding hits_def f(1) ..
  have jl: "j < limit" "j < length ?o" using assms(2) unfolding f(1) by simp_all
  have hit: "score (hits ! n) = snd (?o ! n) \<and> hit_payload (hits ! n) = point_payload by_id (fst (?o ! n))
      \<and> doc_id (hits ! n) = text_field (point_payload by_id (fst (?o ! n))) ''doc_id''" if "n \<le> j" for n
  proof -
    have n: "n < length ?o" "n < limit" using that jl by simp_all
    then have h: "hits ! n = (\<lambda>(key, sc). to_hit (the (map_of by_id key)) sc) (?o ! n)"
      unfolding hits by simp
    have "?o ! n \<in> set ?o" using n by simp
    from f(2) [OF this] show ?thesis unfolding h by (cases "?o ! n") (auto simp: to_hit_def Let_def)
  qed
  have "headed_in by_id ids (fst (?o ! i)) = headed_in by_id ids (fst (?o ! j)) \<longrightarrow> tie_ordered by_id (?o ! i) (?o ! j)"
    using sorted_wrt_nth_less [OF tie_ordered_order assms(1)] jl(2) by blast
  with assms(1,4-7) hit [of i] hit [of j] show ?thesis
    by (auto simp: tie_ordered_def headed_in_def)
qed

theorem rrf_tie_rule_witness:
  "\<exists>hits. hits = rrf_fuse id
      [\<lparr>sp_id = ''t'', sp_payload = [(''doc_id'', JStr ''D''), (''page_start'', JInt 0), (''title'', JStr ''T''), (''heading_path'', JStr ''T'')]\<rparr>]
      [\<lparr>sp_id = ''s'', sp_payload = [(''doc_id'', JStr ''D''), (''page_start'', JInt 4)]\<rparr>] (1, 1) 2 8 [] []
    \<and> doc_id (hits ! 0) = doc_id (hits ! 1)"
proof -
  let ?h = "rrf_fuse id
      [\<lparr>sp_id = ''t'', sp_payload = [(''doc_id'', JStr ''D''), (''page_start'', JInt 0), (''title'', JStr ''T''), (''heading_path'', JStr ''T'')]\<rparr>]
      [\<lparr>sp_id = ''s'', sp_payload = [(''doc_id'', JStr ''D''), (''page_start'', JInt 4)]\<rparr>] (1, 1) 2 8 [] []"
  have h: "length ?h = 2" "score (?h ! 0) = score (?h ! 1)"
    "leading_title_section (hit_payload (?h ! 0))" "\<not> leading_title_section (hit_payload (?h ! 1))"
    by (simp_all add: rrf_fuse_def fuse_legs_def fuse_leg_def add_score_def leg_contrib_def rrf_order_def
        prefer_section_on_ties_def sort_desc_def demote_group_def demoted_in_def point_payload_def
        leading_title_section_def text_field_def to_hit_def Let_def strip_def lstrip_def rstrip_def is_space_def)
  have "doc_id (?h ! 0) = doc_id (?h ! 1)"
    by (rule rrf_tie_rule) (use h in \<open>simp_all add: entry_headed_def\<close>)
  then show ?thesis by blast
qed

text \<open>
  C10: Diversification with a positive limit returns exactly \<open>min(limit, n)\<close> of the n given
  hits, none twice; it starts with a prefix within both caps, which it leaves only when every
  hit outside that prefix is on a full page or of a full document; and a page exceeds its cap
  only if every page already has as many of its hits as the cap allows.
\<close>

theorem diversify_hits_spec:
  assumes "1 \<le> limit"
  shows "length (diversify_hits hits limit pp pd) = min limit (length hits)
    \<and> mset (diversify_hits hits limit pp pd) \<subseteq># mset hits
    \<and> (\<exists>sel rest. diversify_hits hits limit pp pd = sel @ rest \<and> within_caps pp pd sel
         \<and> (rest \<noteq> [] \<longrightarrow> (\<exists>left. mset sel + mset left = mset hits
              \<and> (\<forall>h \<in> set left. page_full pp sel h \<or> doc_full pd sel h))))
    \<and> ((\<forall>pk. on_page pk (diversify_hits hits limit pp pd) \<le> pp)
       \<or> (\<forall>pk. min pp (on_page pk hits) \<le> on_page pk (diversify_hits hits limit pp pd)))"
  by (rule diversify_shape [OF assms])

theorem diversify_hits_spec_witness:
  "length (diversify_hits [\<lparr>chunk_id = ''a'', score = 1, doc_id = ''D'', page_label = [], page_start = Some 1,
      page_end = None, units = None, rerank_score = None, hit_payload = []\<rparr>] 8 1 3) = 1"
  using diversify_hits_spec [of 8 "[\<lparr>chunk_id = ''a'', score = 1, doc_id = ''D'', page_label = [], page_start = Some 1,
      page_end = None, units = None, rerank_score = None, hit_payload = []\<rparr>]" 1 3] by simp

text \<open>
  The comparative merge by documents: within the limit, the first hits are one chunk of
  each document that any side ranked, no document twice, before any second chunk of a
  document; every returned chunk comes from a side; and the first side's first chunk stays
  first.
\<close>

theorem interleave_documents:
  "\<exists>head tail. map chunk_id (interleave_split_hits fl sides k limit) = map chunk_id (take limit (head @ tail))
     \<and> distinct (map doc_id head) \<and> doc_id ` set head = doc_id ` set (concat sides)
     \<and> set head \<subseteq> set (concat sides) \<and> (\<forall>h \<in> set tail. chunk_id h \<notin> chunk_id ` set head)
     \<and> (\<forall>x xs rest. sides = (x # xs) # rest \<longrightarrow> head \<noteq> [] \<and> hd head = x)"
proof -
  let ?head = "interleave_loop [] (map (best_per_doc []) sides)"
  let ?tail = "filter (\<lambda>h. chunk_id h \<notin> chunk_id ` set ?head)
                   (max_split_hits fl sides k (sum_list (map length sides)))"
  have en: "map chunk_id (map (\<lambda>(position, h). h\<lparr>score := g position\<rparr>) (enumerate n hs)) = map chunk_id hs"
    for g n and hs :: "hit list"
    by (induction hs arbitrary: n) simp_all
  have ids: "map chunk_id (interleave_split_hits fl sides k limit) = map chunk_id (take limit (?head @ ?tail))"
    unfolding interleave_split_hits_def Let_def en ..
  have c: "doc_id ` set (concat (map (best_per_doc []) sides)) = doc_id ` set (concat sides)"
    by (induction sides) (simp_all add: image_Un best_per_doc_facts(2))
  have s: "set (concat (map (best_per_doc []) sides)) \<subseteq> set (concat sides)"
    using best_per_doc_facts(3) [of "[]"] by (induction sides) (auto dest: subsetD)
  have first: "?head \<noteq> [] \<and> hd ?head = x" if "sides = (x # xs) # rest" for x xs rest
    using interleave_loop_hd [of x "best_per_doc [doc_id x] xs" "map (best_per_doc []) rest"] that
    by (simp del: interleave_loop.simps)
  note f = interleave_loop_facts [of "[]" "map (best_per_doc []) sides"]
  show ?thesis
    by (rule exI [of _ ?head], rule exI [of _ ?tail])
       (use ids f first s in \<open>auto simp: c simp del: interleave_loop.simps set_concat\<close>)
qed

theorem interleave_documents_witness:
  "\<exists>(head :: hit list) tail. map chunk_id (interleave_split_hits (\<lambda>x. x) [[\<lparr>chunk_id = ''c1'', score = 1, doc_id = ''A'',
      page_label = [], page_start = None, page_end = None, units = None, rerank_score = None, hit_payload = []\<rparr>]] 60 8)
      = map chunk_id (take 8 (head @ tail)) \<and> head \<noteq> [] \<and> doc_id (hd head) = ''A''"
    (is "\<exists>head tail. map chunk_id (interleave_split_hits _ [[?h]] _ _) = _ \<and> _")
proof -
  obtain head tail where a: "map chunk_id (interleave_split_hits (\<lambda>x. x) [[?h]] 60 8) = map chunk_id (take 8 (head @ tail))"
    and b: "\<forall>x xs rest. [[?h]] = (x # xs) # rest \<longrightarrow> head \<noteq> [] \<and> hd head = x"
    using interleave_documents [of "\<lambda>x. x" "[[?h]]" 60 8] by (elim exE conjE) rule
  from b have "head \<noteq> [] \<and> hd head = ?h" by blast
  then have "head \<noteq> [] \<and> doc_id (hd head) = ''A''" by simp
  with a show ?thesis by blast
qed

text \<open>
  A stored page label longer than the bound can still be cited: when the character at the
  cut is a blank, the shortened label with its ellipsis passes the length test.
\<close>

theorem plain_page_label_overlong:
  "\<exists>value. length value > cite_label_max + 1 \<and> strip value = value \<and> plain_page_label value \<noteq> []"
proof (rule exI [of _ "replicate 31 (CHR ''1'') @ '' 234''"], intro conjI)
  let ?v = "replicate 31 (CHR ''1'') @ '' 234''"
  show "length ?v > cite_label_max + 1" by (simp add: cite_label_max_def)
  show "strip ?v = ?v" by (simp add: strip_def lstrip_def rstrip_def is_space_def numeral_eq_Suc)
  show "plain_page_label ?v \<noteq> []" by code_simp
qed

end
