(* ===== verification/Effects.thy ===== *)
theory Effects
  imports Prelude
begin

text \<open>
  Code that calls a service: a computation takes the state of the outside world and returns a
  result or an exception together with the state it leaves. The weakest precondition \<open>wp m Q E s\<close>
  says that \<open>m\<close>, started in \<open>s\<close>, ends in \<open>Q\<close> with its value or in \<open>E\<close> with its exception.
\<close>

type_synonym ('s, 'a) eff = "'s \<Rightarrow> 'a res \<times> 's"

definition sret :: "'a \<Rightarrow> ('s, 'a) eff" where
  "sret x s = (Inr x, s)"

definition sraise :: "exn \<Rightarrow> ('s, 'a) eff" where
  "sraise e s = (Inl e, s)"

definition slift :: "'a res \<Rightarrow> ('s, 'a) eff" where
  "slift r s = (r, s)"

definition sbind :: "('s, 'a) eff \<Rightarrow> ('a \<Rightarrow> ('s, 'b) eff) \<Rightarrow> ('s, 'b) eff" where
  "sbind m f s = (case m s of (Inl e, s') \<Rightarrow> (Inl e, s') | (Inr x, s') \<Rightarrow> f x s')"

text \<open>Statement sequencing, and \<open>if not ok: raise e\<close>.\<close>

definition sseq :: "('s, 'a) eff \<Rightarrow> ('s, 'b) eff \<Rightarrow> ('s, 'b) eff" where
  "sseq m n = sbind m (\<lambda>_. n)"

definition sensure :: "bool \<Rightarrow> exn \<Rightarrow> ('s, unit) eff" where
  "sensure ok e = (if ok then sret () else sraise e)"

text \<open>\<open>try: m / except Exception as e: h(e)\<close>.\<close>

definition scatch :: "('s, 'a) eff \<Rightarrow> (exn \<Rightarrow> ('s, 'a) eff) \<Rightarrow> ('s, 'a) eff" where
  "scatch m h s = (case m s of (Inl e, s') \<Rightarrow> h e s' | (Inr x, s') \<Rightarrow> (Inr x, s'))"

text \<open>\<open>for x in xs\<close> loops: for effect, collecting values, and with an accumulator.\<close>

fun seach :: "('a \<Rightarrow> ('s, unit) eff) \<Rightarrow> 'a list \<Rightarrow> ('s, unit) eff" where
  "seach f [] = sret ()"
| "seach f (x # xs) = sseq (f x) (seach f xs)"

fun sfold :: "('a \<Rightarrow> 'b \<Rightarrow> ('s, 'b) eff) \<Rightarrow> 'a list \<Rightarrow> 'b \<Rightarrow> ('s, 'b) eff" where
  "sfold f [] acc = sret acc"
| "sfold f (x # xs) acc = sbind (f x acc) (\<lambda>acc'. sfold f xs acc')"

text \<open>A loop that returns at the first hit: \<open>for x in xs: if p(x): return True\<close>.\<close>

fun sany :: "('a \<Rightarrow> ('s, bool) eff) \<Rightarrow> 'a list \<Rightarrow> ('s, bool) eff" where
  "sany f [] = sret False"
| "sany f (x # xs) = sbind (f x) (\<lambda>b. if b then sret True else sany f xs)"

lemma sbind_slift [simp]:
  "sbind (slift (Inr x)) f = f x"
  "sbind (slift (Inl e)) f = sraise e"
  by (auto simp: sbind_def slift_def sraise_def fun_eq_iff)

section \<open>Weakest preconditions\<close>

definition wp :: "('s, 'a) eff \<Rightarrow> ('a \<Rightarrow> 's \<Rightarrow> bool) \<Rightarrow> (exn \<Rightarrow> 's \<Rightarrow> bool) \<Rightarrow> 's \<Rightarrow> bool" where
  "wp m Q E s \<longleftrightarrow> (case m s of (Inl e, s') \<Rightarrow> E e s' | (Inr x, s') \<Rightarrow> Q x s')"

named_theorems wp_rules "calls of a client, as introduction rules for weakest preconditions"

lemma wp_ret [simp]: "wp (sret x) Q E = Q x"
  by (rule ext) (simp add: wp_def sret_def)

lemma wp_raise [simp]: "wp (sraise e) Q E = E e"
  by (rule ext) (simp add: wp_def sraise_def)

lemma wp_lift [simp]: "wp (slift r) Q E s = (case r of Inl e \<Rightarrow> E e s | Inr x \<Rightarrow> Q x s)"
  by (simp add: wp_def slift_def split: sum.split)

lemma wp_bind [simp]: "wp (sbind m f) Q E = wp m (\<lambda>x. wp (f x) Q E) E"
  by (rule ext) (simp add: wp_def sbind_def split: prod.split sum.split)

lemma wp_seq [simp]: "wp (sseq m n) Q E = wp m (\<lambda>_. wp n Q E) E"
  by (simp add: sseq_def)

lemma wp_ensure [simp]: "wp (sensure ok e) Q E s = (if ok then Q () s else E e s)"
  by (simp add: sensure_def)

lemma wp_catch [simp]: "wp (scatch m h) Q E = wp m Q (\<lambda>e. wp (h e) Q E)"
  by (rule ext) (simp add: wp_def scatch_def split: prod.split sum.split)

lemma wp_if: "wp (if b then m else n) Q E s = (if b then wp m Q E s else wp n Q E s)"
  by simp

text \<open>\<open>if not b: return x\<close>, and the rest of the function.\<close>

lemma wp_unless:
  assumes "b \<Longrightarrow> wp m Q E s" "\<not> b \<Longrightarrow> Q x s"
  shows "wp (if \<not> b then sret x else m) Q E s"
  using assms by (cases b) simp_all

lemma wp_conseq:
  assumes "wp m Q' E' s" "\<And>x s'. Q' x s' \<Longrightarrow> Q x s'" "\<And>e s'. E' e s' \<Longrightarrow> E e s'"
  shows "wp m Q E s"
  using assms by (auto simp: wp_def split: prod.splits sum.splits)

lemma wp_conj: "wp m Q E s \<Longrightarrow> wp m Q' E' s \<Longrightarrow> wp m (\<lambda>x s'. Q x s' \<and> Q' x s') (\<lambda>e s'. E e s' \<and> E' e s') s"
  by (auto simp: wp_def split: prod.splits sum.splits)

text \<open>Reading a run off its weakest precondition.\<close>

lemma wp_InrD: "wp m Q E s \<Longrightarrow> m s = (Inr x, s') \<Longrightarrow> Q x s'"
  by (simp add: wp_def)

lemma wp_InlD: "wp m Q E s \<Longrightarrow> m s = (Inl e, s') \<Longrightarrow> E e s'"
  by (simp add: wp_def)

lemma wpI: "(\<And>x s'. m s = (Inr x, s') \<Longrightarrow> Q x s') \<Longrightarrow> (\<And>e s'. m s = (Inl e, s') \<Longrightarrow> E e s') \<Longrightarrow> wp m Q E s"
  by (auto simp: wp_def split: prod.splits sum.splits)

lemma wp_seach:
  assumes "I s" "\<And>x s. x \<in> set xs \<Longrightarrow> I s \<Longrightarrow> wp (f x) (\<lambda>_. I) E s"
  shows "wp (seach f xs) (\<lambda>_. I) E s"
  using assms
proof (induction xs arbitrary: s)
  case (Cons x xs)
  have "wp (f x) (\<lambda>_. I) E s" using Cons.prems by simp
  then show ?case
    by (simp, elim wp_conseq) (use Cons in auto)
qed simp

lemma wp_sany:
  assumes "I s" "\<And>x s. x \<in> set xs \<Longrightarrow> I s \<Longrightarrow> wp (f x) (\<lambda>b s'. I s' \<and> (b \<longrightarrow> P x)) E s"
  shows "wp (sany f xs) (\<lambda>b s'. I s' \<and> (b \<longrightarrow> (\<exists>x \<in> set xs. P x))) E s"
  using assms
proof (induction xs arbitrary: s)
  case (Cons x xs)
  have "wp (f x) (\<lambda>b s'. I s' \<and> (b \<longrightarrow> P x)) E s" using Cons.prems by simp
  moreover have "wp (sany f xs) (\<lambda>b s'. I s' \<and> (b \<longrightarrow> (\<exists>x \<in> set (x # xs). P x))) E s'" if "I s'" for s'
    by (rule wp_conseq [OF Cons.IH [OF that]]) (use Cons.prems(2) in auto)
  ultimately show ?case
    by (simp, elim wp_conseq) auto
qed simp

text \<open>A search whose test decides \<open>P\<close>, and a fold whose step computes \<open>g\<close>, over an unchanged world.\<close>

lemma wp_sany_iff:
  assumes "I s" "\<And>x s. x \<in> set xs \<Longrightarrow> I s \<Longrightarrow> wp (f x) (\<lambda>b s'. I s' \<and> (b \<longleftrightarrow> P x)) E s"
  shows "wp (sany f xs) (\<lambda>b s'. I s' \<and> (b \<longleftrightarrow> (\<exists>x \<in> set xs. P x))) E s"
  using assms
proof (induction xs arbitrary: s)
  case (Cons x xs)
  have first: "wp (f x) (\<lambda>b s'. I s' \<and> (b \<longleftrightarrow> P x)) E s" using Cons.prems by simp
  have rest: "wp (sany f xs) (\<lambda>b s'. I s' \<and> (b \<longleftrightarrow> (\<exists>x \<in> set xs. P x))) E s'" if "I s'" for s'
    by (rule Cons.IH [OF that]) (use Cons.prems(2) in auto)
  show ?case
    unfolding sany.simps wp_bind
  proof (rule wp_conseq [OF first])
    fix b s' assume b: "I s' \<and> (b \<longleftrightarrow> P x)"
    show "wp (if b then sret True else sany f xs) (\<lambda>b s'. I s' \<and> (b \<longleftrightarrow> (\<exists>x \<in> set (x # xs). P x))) E s'"
    proof (cases b)
      case True
      with b show ?thesis by simp
    next
      case False
      have "wp (sany f xs) (\<lambda>b s'. I s' \<and> (b \<longleftrightarrow> (\<exists>x \<in> set (x # xs). P x))) E s'"
        by (rule wp_conseq [OF rest]) (use b False in auto)
      then show ?thesis using False by simp
    qed
  qed
qed simp

lemma wp_sfold:
  assumes "I s" "\<And>x acc s. x \<in> set xs \<Longrightarrow> I s \<Longrightarrow> wp (f x acc) (\<lambda>r s'. I s' \<and> r = g x acc) E s"
  shows "wp (sfold f xs acc) (\<lambda>r s'. I s' \<and> r = fold g xs acc) E s"
  using assms
proof (induction xs arbitrary: s acc)
  case (Cons x xs)
  show ?case
    unfolding sfold.simps wp_bind
  proof (rule wp_conseq [OF Cons.prems(2)])
    fix r s' assume r: "I s' \<and> r = g x acc"
    then have "wp (sfold f xs r) (\<lambda>r' s'. I s' \<and> r' = fold g xs r) E s'"
      using Cons.prems(2) by (intro Cons.IH) auto
    then show "wp (sfold f xs r) (\<lambda>r s'. I s' \<and> r = fold g (x # xs) acc) E s'"
      using r by simp
  qed (use Cons.prems in auto)
qed simp

end
