(* ===== verification/Store.thy ===== *)
theory Store
  imports Effects Config "HOL-Library.AList"
begin

text \<open>
  The Qdrant client as the ingest code uses it (\<open>mainframe_rag/ports.py\<close>, \<open>QdrantReader\<close>
  and \<open>QdrantPoints\<close>). The server is not part of the repository: a client is a record of
  calls over an unknown server state, and two locales state the documented behaviour the code
  relies on, against an abstract view of that state. Every call may raise; a write that raises
  may have been applied in part. \<open>mem_client\<close> is the in-memory client of the test suite
  (\<open>tests/helpers_ingest_local.py\<close>, \<open>PointStore\<close>), and it satisfies the laws.
\<close>

section \<open>Points, filters and collections\<close>

text \<open>The vectors of a point are opaque; \<open>JNull\<close> when a read did not ask for them.\<close>

record point =
  pt_id :: string
  pt_payload :: payload
  pt_vectors :: json

text \<open>A filter is the conjunction of its keyword conditions; none for no filter.\<close>

type_synonym cond = "(string \<times> string) list"

text \<open>A keyword condition holds for the value itself and for a list that contains it.\<close>

definition field_matches :: "string \<Rightarrow> json \<Rightarrow> bool" where
  "field_matches v j = (case j of JStr s \<Rightarrow> s = v | JList xs \<Rightarrow> JStr v \<in> set xs | _ \<Rightarrow> False)"

text \<open>A field name with a dot is a path into a nested object; the code uses one level.\<close>

definition payload_at :: "payload \<Rightarrow> string \<Rightarrow> json" where
  "payload_at p key =
     (case partition_at (CHR ''.'') key of (h, found, t) \<Rightarrow>
        if \<not> found then jget p key else (case jget p h of JObj q \<Rightarrow> jget q t | _ \<Rightarrow> JNull))"

definition matches :: "cond \<Rightarrow> point \<Rightarrow> bool" where
  "matches f p \<longleftrightarrow> list_all (\<lambda>(k, v). field_matches v (payload_at (pt_payload p) k)) f"

lemma payload_at_plain [simp]: "CHR ''.'' \<notin> set k \<Longrightarrow> payload_at p k = jget p k"
  using partition_at_append [of "CHR ''.''" k]
  by (cases "partition_at (CHR ''.'') k") (auto simp: payload_at_def split: if_splits)

datatype projection = WithAll | WithNone | WithFields "string list"

definition project_payload :: "projection \<Rightarrow> payload \<Rightarrow> payload" where
  "project_payload pr p =
     (case pr of WithAll \<Rightarrow> p | WithNone \<Rightarrow> [] | WithFields fs \<Rightarrow> filter (\<lambda>(k, v). k \<in> set fs) p)"

definition project :: "projection \<Rightarrow> bool \<Rightarrow> point \<Rightarrow> point" where
  "project pr vec p = \<lparr>pt_id = pt_id p, pt_payload = project_payload pr (pt_payload p),
                       pt_vectors = (if vec then pt_vectors p else JNull)\<rparr>"

text \<open>The vector configuration: named vectors with their sizes, or one unnamed vector.\<close>

datatype vector_config = NamedVectors "(string \<times> int) list" | SingleVector "int option"

record coll_info =
  ci_vectors :: vector_config
  ci_params :: "(string \<times> int) list"

datatype alias_op = CreateAlias string string | DeleteAlias string

text \<open>What the client can observe of the server.\<close>

record view =
  v_points :: "string \<Rightarrow> point list option"
  v_alias :: "(string \<times> string) list"
  v_info :: "string \<Rightarrow> coll_info"
  v_schema :: "string \<Rightarrow> (string \<times> string) list"

definition phys :: "view \<Rightarrow> string \<Rightarrow> string" where
  "phys v n = (case map_of (v_alias v) n of Some t \<Rightarrow> t | None \<Rightarrow> n)"

definition points_of :: "view \<Rightarrow> string \<Rightarrow> point list" where
  "points_of v n = (case v_points v (phys v n) of Some ps \<Rightarrow> ps | None \<Rightarrow> [])"

definition by_id :: "point list \<Rightarrow> string \<Rightarrow> point option" where
  "by_id ps = map_of (map (\<lambda>p. (pt_id p, p)) ps)"

text \<open>The points a scroll with this filter walks, in the server's order, from an offset on.\<close>

definition matching :: "view \<Rightarrow> string \<Rightarrow> cond \<Rightarrow> point list" where
  "matching v n f = filter (matches f) (points_of v n)"

definition from_offset :: "string option \<Rightarrow> point list \<Rightarrow> point list" where
  "from_offset off ps = (case off of None \<Rightarrow> ps | Some o' \<Rightarrow> dropWhile (\<lambda>p. pt_id p \<noteq> o') ps)"

definition next_offset :: "nat \<Rightarrow> point list \<Rightarrow> string option" where
  "next_offset lim ps = (case drop lim ps of [] \<Rightarrow> None | p # _ \<Rightarrow> Some (pt_id p))"

definition apply_alias_op :: "alias_op \<Rightarrow> (string \<times> string) list \<Rightarrow> (string \<times> string) list" where
  "apply_alias_op op as =
     (case op of
        CreateAlias c a \<Rightarrow> (a, c) # filter (\<lambda>(a', c'). a' \<noteq> a) as
      | DeleteAlias a \<Rightarrow> filter (\<lambda>(a', c'). a' \<noteq> a) as)"

section \<open>The client\<close>

record 's client =
  cl_exists :: "string \<Rightarrow> ('s, bool) eff"
  cl_info :: "string \<Rightarrow> ('s, coll_info) eff"
  cl_schema :: "string \<Rightarrow> ('s, (string \<times> string) list) eff"
  cl_aliases :: "('s, (string \<times> string) list) eff"
  cl_scroll :: "string \<Rightarrow> cond \<Rightarrow> nat \<Rightarrow> projection \<Rightarrow> bool \<Rightarrow> string option
                  \<Rightarrow> ('s, point list \<times> string option) eff"
  cl_retrieve :: "string \<Rightarrow> string list \<Rightarrow> projection \<Rightarrow> bool \<Rightarrow> ('s, point list) eff"
  cl_create :: "string \<Rightarrow> vector_config \<Rightarrow> (string \<times> int) list \<Rightarrow> ('s, unit) eff"
  cl_drop :: "string \<Rightarrow> ('s, unit) eff"
  cl_index :: "string \<Rightarrow> string \<Rightarrow> string \<Rightarrow> ('s, unit) eff"
  cl_threshold :: "string \<Rightarrow> int \<Rightarrow> ('s, unit) eff"
  cl_upsert :: "string \<Rightarrow> point list \<Rightarrow> ('s, unit) eff"
  cl_delete_ids :: "string \<Rightarrow> string list \<Rightarrow> ('s, unit) eff"
  cl_delete_match :: "string \<Rightarrow> cond \<Rightarrow> ('s, unit) eff"
  cl_update_aliases :: "alias_op list \<Rightarrow> ('s, bool) eff"
  cl_snapshot :: "string \<Rightarrow> ('s, string option) eff"
  cl_budget :: "'s \<Rightarrow> nat"

text \<open>
  \<open>cl_budget\<close> is not a call: it bounds the pages a scan may read, so that scans are total
  functions. A server holds finitely many points, and the laws give a budget above their
  number; then no scan ends for lack of it.
\<close>

section \<open>Laws\<close>

text \<open>Only the points of one collection differ, and they differ by the given map update.\<close>

definition updated :: "string \<Rightarrow> ((string \<Rightarrow> point option) \<Rightarrow> string \<Rightarrow> point option) \<Rightarrow> view \<Rightarrow> view \<Rightarrow> bool" where
  "updated n f v v' \<longleftrightarrow>
     v_alias v' = v_alias v \<and> v_info v' = v_info v \<and> v_schema v' = v_schema v
     \<and> (\<forall>m. m \<noteq> phys v n \<longrightarrow> v_points v' m = v_points v m)
     \<and> (v_points v' (phys v n) = None \<longleftrightarrow> v_points v (phys v n) = None)
     \<and> by_id (points_of v' n) = f (by_id (points_of v n))"

definition put_points :: "point list \<Rightarrow> (string \<Rightarrow> point option) \<Rightarrow> string \<Rightarrow> point option" where
  "put_points ps m = m ++ by_id (rev ps)"

definition drop_points :: "string set \<Rightarrow> (string \<Rightarrow> point option) \<Rightarrow> string \<Rightarrow> point option" where
  "drop_points ids m = m |` (- ids)"

locale qdrant_reader =
  fixes C :: "'s client" and V :: "'s \<Rightarrow> view"
  assumes wf: "distinct (map pt_id (points_of (V s) n))"
    and budget: "length (points_of (V s) n) < cl_budget C s"
    and exists_law: "wp (cl_exists C n)
          (\<lambda>b s'. V s' = V s \<and> (map_of (v_alias (V s)) n = None \<longrightarrow> b = (v_points (V s) n \<noteq> None)))
          (\<lambda>e s'. V s' = V s) s"
    and info_law: "wp (cl_info C n) (\<lambda>i s'. V s' = V s \<and> v_points (V s) (phys (V s) n) \<noteq> None
          \<and> i = v_info (V s) (phys (V s) n)) (\<lambda>e s'. V s' = V s) s"
    and schema_law: "wp (cl_schema C n) (\<lambda>i s'. V s' = V s) (\<lambda>e s'. V s' = V s) s"
    and aliases_law: "wp (cl_aliases C) (\<lambda>as s'. V s' = V s \<and> map_of as = map_of (v_alias (V s)))
          (\<lambda>e s'. V s' = V s) s"
    and scroll_law: "1 \<le> lim \<Longrightarrow> wp (cl_scroll C n f lim pr vec off)
          (\<lambda>r s'. V s' = V s
             \<and> fst r = map (project pr vec) (take lim (from_offset off (matching (V s) n f)))
             \<and> snd r = next_offset lim (from_offset off (matching (V s) n f)))
          (\<lambda>e s'. V s' = V s \<and> exn_cls e \<noteq> Unfinished) s"
    and retrieve_law: "wp (cl_retrieve C n ids pr vec)
          (\<lambda>ps s'. V s' = V s \<and> distinct (map pt_id ps)
             \<and> set ps = project pr vec ` {p \<in> set (points_of (V s) n). pt_id p \<in> set ids})
          (\<lambda>e s'. V s' = V s) s"

text \<open>
  A write that returns has been applied; one that raises has been applied to some of its
  points, or, for an administrative call, not at all or fully.
\<close>

locale qdrant_store = qdrant_reader C V for C :: "'s client" and V :: "'s \<Rightarrow> view" +
  assumes upsert_law: "wp (cl_upsert C n ps) (\<lambda>_ s'. updated n (put_points ps) (V s) (V s'))
          (\<lambda>e s'. \<exists>qs. set qs \<subseteq> set ps \<and> updated n (put_points qs) (V s) (V s')) s"
    and delete_ids_law: "wp (cl_delete_ids C n ids) (\<lambda>_ s'. updated n (drop_points (set ids)) (V s) (V s'))
          (\<lambda>e s'. \<exists>gone \<subseteq> set ids. updated n (drop_points gone) (V s) (V s')) s"
    and delete_match_law: "wp (cl_delete_match C n f)
          (\<lambda>_ s'. updated n (drop_points (pt_id ` set (matching (V s) n f))) (V s) (V s'))
          (\<lambda>e s'. \<exists>gone \<subseteq> pt_id ` set (matching (V s) n f). updated n (drop_points gone) (V s) (V s')) s"
    and create_law: "wp (cl_create C n vc kw)
          (\<lambda>_ s'. V s' = (V s)\<lparr>v_points := (v_points (V s))(n \<mapsto> []),
                                v_info := (v_info (V s))(n := \<lparr>ci_vectors = vc, ci_params = kw\<rparr>),
                                v_schema := (v_schema (V s))(n := [])\<rparr> \<and> v_points (V s) n = None)
          (\<lambda>e s'. V s' = V s \<or> (v_points (V s) n = None
             \<and> V s' = (V s)\<lparr>v_points := (v_points (V s))(n \<mapsto> []),
                                v_info := (v_info (V s))(n := \<lparr>ci_vectors = vc, ci_params = kw\<rparr>),
                                v_schema := (v_schema (V s))(n := [])\<rparr>)) s"
    and drop_law: "wp (cl_drop C n)
          (\<lambda>_ s'. V s' = (V s)\<lparr>v_points := (v_points (V s))(n := None)\<rparr>)
          (\<lambda>e s'. V s' = V s \<or> V s' = (V s)\<lparr>v_points := (v_points (V s))(n := None)\<rparr>) s"
    and index_law: "wp (cl_index C n fld ty)
          (\<lambda>_ s'. \<exists>sc. V s' = (V s)\<lparr>v_schema := sc\<rparr>) (\<lambda>e s'. \<exists>sc. V s' = (V s)\<lparr>v_schema := sc\<rparr>) s"
    and threshold_law: "wp (cl_threshold C n th) (\<lambda>_ s'. V s' = V s) (\<lambda>e s'. V s' = V s) s"
    and update_aliases_law: "wp (cl_update_aliases C ops)
          (\<lambda>ok s'. V s' = (if ok then (V s)\<lparr>v_alias := fold apply_alias_op ops (v_alias (V s))\<rparr> else V s))
          (\<lambda>e s'. V s' = V s \<or> V s' = (V s)\<lparr>v_alias := fold apply_alias_op ops (v_alias (V s))\<rparr>) s"
    and snapshot_law: "wp (cl_snapshot C n) (\<lambda>_ s'. V s' = V s) (\<lambda>e s'. V s' = V s) s"

text \<open>The laws as introduction rules, one per call.\<close>

context qdrant_reader
begin

lemma wp_exists [wp_rules]:
  "(\<And>b s'. V s' = V s \<Longrightarrow> map_of (v_alias (V s)) n = None \<longrightarrow> b = (v_points (V s) n \<noteq> None) \<Longrightarrow> Q b s')
   \<Longrightarrow> (\<And>e s'. V s' = V s \<Longrightarrow> E e s') \<Longrightarrow> wp (cl_exists C n) Q E s"
  by (rule wp_conseq [OF exists_law]) auto

lemma wp_info [wp_rules]:
  "(\<And>s'. V s' = V s \<Longrightarrow> v_points (V s) (phys (V s) n) \<noteq> None \<Longrightarrow> Q (v_info (V s) (phys (V s) n)) s')
   \<Longrightarrow> (\<And>e s'. V s' = V s \<Longrightarrow> E e s') \<Longrightarrow> wp (cl_info C n) Q E s"
  by (rule wp_conseq [OF info_law]) auto

lemma wp_aliases [wp_rules]:
  "(\<And>as s'. V s' = V s \<Longrightarrow> map_of as = map_of (v_alias (V s)) \<Longrightarrow> Q as s')
   \<Longrightarrow> (\<And>e s'. V s' = V s \<Longrightarrow> E e s') \<Longrightarrow> wp (cl_aliases C) Q E s"
  by (rule wp_conseq [OF aliases_law]) auto

lemma wp_first_page [wp_rules]:
  "1 \<le> lim \<Longrightarrow> (\<And>s' nxt. V s' = V s \<Longrightarrow> Q (map (project pr vec) (take lim (matching (V s) n f)), nxt) s')
   \<Longrightarrow> (\<And>e s'. V s' = V s \<Longrightarrow> E e s') \<Longrightarrow> wp (cl_scroll C n f lim pr vec None) Q E s"
  by (rule wp_conseq [OF scroll_law]) (auto simp: from_offset_def)

lemma wp_retrieve [wp_rules]:
  "(\<And>ps s'. V s' = V s \<Longrightarrow> distinct (map pt_id ps) \<Longrightarrow>
      set ps = project pr vec ` {p \<in> set (points_of (V s) n). pt_id p \<in> set ids} \<Longrightarrow> Q ps s')
   \<Longrightarrow> (\<And>e s'. V s' = V s \<Longrightarrow> E e s') \<Longrightarrow> wp (cl_retrieve C n ids pr vec) Q E s"
  by (rule wp_conseq [OF retrieve_law]) auto

end

context qdrant_store
begin

lemma wp_snapshot [wp_rules]:
  "(\<And>x s'. V s' = V s \<Longrightarrow> Q x s') \<Longrightarrow> (\<And>e s'. V s' = V s \<Longrightarrow> E e s') \<Longrightarrow> wp (cl_snapshot C n) Q E s"
  by (rule wp_conseq [OF snapshot_law]) auto

lemma wp_upsert [wp_rules]:
  "(\<And>s'. updated n (put_points ps) (V s) (V s') \<Longrightarrow> Q () s')
   \<Longrightarrow> (\<And>e s' qs. set qs \<subseteq> set ps \<Longrightarrow> updated n (put_points qs) (V s) (V s') \<Longrightarrow> E e s')
   \<Longrightarrow> wp (cl_upsert C n ps) Q E s"
  by (rule wp_conseq [OF upsert_law]) auto

lemma wp_delete_ids [wp_rules]:
  "(\<And>s'. updated n (drop_points (set ids)) (V s) (V s') \<Longrightarrow> Q () s')
   \<Longrightarrow> (\<And>e s' gone. gone \<subseteq> set ids \<Longrightarrow> updated n (drop_points gone) (V s) (V s') \<Longrightarrow> E e s')
   \<Longrightarrow> wp (cl_delete_ids C n ids) Q E s"
  by (rule wp_conseq [OF delete_ids_law]) auto

lemma wp_update_aliases [wp_rules]:
  "(\<And>s'. V s' = (V s)\<lparr>v_alias := fold apply_alias_op ops (v_alias (V s))\<rparr> \<Longrightarrow> Q True s')
   \<Longrightarrow> (\<And>s'. V s' = V s \<Longrightarrow> Q False s')
   \<Longrightarrow> (\<And>e s'. V s' = V s \<or> V s' = (V s)\<lparr>v_alias := fold apply_alias_op ops (v_alias (V s))\<rparr> \<Longrightarrow> E e s')
   \<Longrightarrow> wp (cl_update_aliases C ops) Q E s"
proof (rule wp_conseq [OF update_aliases_law])
  fix ok s'
  assume q: "\<And>s'. V s' = (V s)\<lparr>v_alias := fold apply_alias_op ops (v_alias (V s))\<rparr> \<Longrightarrow> Q True s'"
    "\<And>s'. V s' = V s \<Longrightarrow> Q False s'"
    and "V s' = (if ok then V s\<lparr>v_alias := fold apply_alias_op ops (v_alias (V s))\<rparr> else V s)"
  then show "Q ok s'" by (cases ok) simp_all
qed blast

end

section \<open>The in-memory client\<close>

text \<open>
  The state of \<open>PointStore\<close>: collections, aliases and, for the calls the double only
  stubs, collection parameters and payload schemas. A missing collection is answered with the
  server's 404 instead of being created on the fly, and the scroll offset is the id of the
  next point.
\<close>

record mem =
  mem_colls :: "(string \<times> point list) list"
  mem_alias :: "(string \<times> string) list"
  mem_info :: "(string \<times> coll_info) list"
  mem_schema :: "(string \<times> (string \<times> string) list) list"

text \<open>Ids are keys: of several points with one id the first counts.\<close>

fun dedup_points :: "point list \<Rightarrow> point list" where
  "dedup_points [] = []"
| "dedup_points (p # ps) = p # filter (\<lambda>q. pt_id q \<noteq> pt_id p) (dedup_points ps)"

definition mem_view :: "mem \<Rightarrow> view" where
  "mem_view s = \<lparr>v_points = (\<lambda>c. map_option dedup_points (map_of (mem_colls s) c)),
     v_alias = mem_alias s,
     v_info = (\<lambda>c. case map_of (mem_info s) c of Some i \<Rightarrow> i | None \<Rightarrow> \<lparr>ci_vectors = SingleVector None, ci_params = []\<rparr>),
     v_schema = (\<lambda>c. case map_of (mem_schema s) c of Some i \<Rightarrow> i | None \<Rightarrow> [])\<rparr>"

definition not_found :: "string \<Rightarrow> exn" where
  "not_found n = Exn (StoreStatus 404) ''collection_not_found'' [JStr n]"

text \<open>Run a call on the stored points of an existing collection.\<close>

definition mem_with :: "string \<Rightarrow> (point list \<Rightarrow> 'a) \<Rightarrow> (mem, 'a) eff" where
  "mem_with n f s = (case v_points (mem_view s) (phys (mem_view s) n) of
       None \<Rightarrow> (Inl (not_found n), s) | Some ps \<Rightarrow> (Inr (f ps), s))"

definition mem_change :: "string \<Rightarrow> (point list \<Rightarrow> point list) \<Rightarrow> (mem, unit) eff" where
  "mem_change n f s = (case v_points (mem_view s) (phys (mem_view s) n) of
       None \<Rightarrow> (Inl (not_found n), s)
     | Some ps \<Rightarrow> (Inr (), s\<lparr>mem_colls := AList.update (phys (mem_view s) n) (f ps) (mem_colls s)\<rparr>))"

definition mem_scroll :: "string \<Rightarrow> cond \<Rightarrow> nat \<Rightarrow> projection \<Rightarrow> bool \<Rightarrow> string option
    \<Rightarrow> (mem, point list \<times> string option) eff" where
  "mem_scroll n f lim pr vec off = mem_with n (\<lambda>ps.
     let todo = from_offset off (filter (matches f) ps)
     in (map (project pr vec) (take lim todo), next_offset lim todo))"

definition mem_retrieve :: "string \<Rightarrow> string list \<Rightarrow> projection \<Rightarrow> bool \<Rightarrow> (mem, point list) eff" where
  "mem_retrieve n ids pr vec =
     mem_with n (\<lambda>ps. map (project pr vec) (filter (\<lambda>p. pt_id p \<in> set ids) ps))"

definition mem_upsert :: "string \<Rightarrow> point list \<Rightarrow> (mem, unit) eff" where
  "mem_upsert n new = mem_change n (\<lambda>ps.
     filter (\<lambda>p. pt_id p \<notin> pt_id ` set new) ps @ dedup_points (rev new))"

definition mem_delete_ids :: "string \<Rightarrow> string list \<Rightarrow> (mem, unit) eff" where
  "mem_delete_ids n ids = mem_change n (filter (\<lambda>p. pt_id p \<notin> set ids))"

definition mem_delete_match :: "string \<Rightarrow> cond \<Rightarrow> (mem, unit) eff" where
  "mem_delete_match n f = mem_change n (filter (\<lambda>p. \<not> matches f p))"

definition mem_create :: "string \<Rightarrow> vector_config \<Rightarrow> (string \<times> int) list \<Rightarrow> (mem, unit) eff" where
  "mem_create n vc kw s =
     (if map_of (mem_colls s) n \<noteq> None
      then (Inl (Exn (StoreStatus 409) ''collection_exists'' [JStr n]), s)
      else (Inr (), s\<lparr>mem_colls := AList.update n [] (mem_colls s),
                      mem_info := AList.update n \<lparr>ci_vectors = vc, ci_params = kw\<rparr> (mem_info s),
                      mem_schema := AList.update n [] (mem_schema s)\<rparr>))"

definition mem_client :: "mem client" where
  "mem_client = \<lparr>
     cl_exists = (\<lambda>n s. (Inr (map_of (mem_colls s) n \<noteq> None), s)),
     cl_info = (\<lambda>n s. mem_with n (\<lambda>_. v_info (mem_view s) (phys (mem_view s) n)) s),
     cl_schema = (\<lambda>n s. mem_with n (\<lambda>_. v_schema (mem_view s) (phys (mem_view s) n)) s),
     cl_aliases = (\<lambda>s. (Inr (mem_alias s), s)),
     cl_scroll = mem_scroll,
     cl_retrieve = mem_retrieve,
     cl_create = mem_create,
     cl_drop = (\<lambda>n s. (Inr (), s\<lparr>mem_colls := AList.delete n (mem_colls s)\<rparr>)),
     cl_index = (\<lambda>n fld ty s. (Inr (), s\<lparr>mem_schema := AList.update n
        ((fld, ty) # v_schema (mem_view s) n) (mem_schema s)\<rparr>)),
     cl_threshold = (\<lambda>n th s. (Inr (), s)),
     cl_upsert = mem_upsert,
     cl_delete_ids = mem_delete_ids,
     cl_delete_match = mem_delete_match,
     cl_update_aliases = (\<lambda>ops s. (Inr True, s\<lparr>mem_alias := fold apply_alias_op ops (mem_alias s)\<rparr>)),
     cl_snapshot = (\<lambda>n s. (Inr (Some (n @ ''.snapshot'')), s)),
     cl_budget = (\<lambda>s. Suc (sum_list (map (length \<circ> snd) (mem_colls s))))\<rparr>"

subsection \<open>It satisfies the laws\<close>

lemma set_dedup [simp]: "pt_id ` set (dedup_points ps) = pt_id ` set ps"
proof (induction ps)
  case (Cons p ps)
  have "pt_id ` {q \<in> S. pt_id q \<noteq> a} = pt_id ` S - {a}" for S :: "point set" and a by auto
  with Cons show ?case by simp
qed simp

lemma distinct_dedup [simp]: "distinct (map pt_id (dedup_points ps))"
  by (induction ps) (auto simp: distinct_map intro: inj_on_subset)

lemma by_id_filter: "distinct (map pt_id ps) \<Longrightarrow>
    by_id (filter P ps) i = (case by_id ps i of Some p \<Rightarrow> if P p then Some p else None | None \<Rightarrow> None)"
  unfolding by_id_def
  by (induction ps) (auto simp: map_of_eq_None_iff split: option.splits dest!: map_of_SomeD)

lemma by_id_append: "by_id (xs @ ys) i = (case by_id xs i of Some p \<Rightarrow> Some p | None \<Rightarrow> by_id ys i)"
  by (induction xs) (auto simp: by_id_def)

lemma by_id_Some: "by_id ps i = Some p \<Longrightarrow> p \<in> set ps \<and> pt_id p = i"
  by (auto simp: by_id_def dest!: map_of_SomeD)

lemma by_id_None: "by_id ps i = None \<longleftrightarrow> i \<notin> pt_id ` set ps"
proof -
  have "fst ` set (map (\<lambda>p. (pt_id p, p)) ps) = pt_id ` set ps" by (simp add: image_image)
  then show ?thesis unfolding by_id_def map_of_eq_None_iff by simp
qed

lemma by_id_in: "distinct (map pt_id ps) \<Longrightarrow> by_id ps i = Some p \<longleftrightarrow> p \<in> set ps \<and> pt_id p = i"
  unfolding by_id_def by (subst map_of_eq_Some_iff) (auto simp: comp_def)

lemma by_id_dedup: "by_id (dedup_points ps) i = by_id ps i"
proof (induction ps)
  case (Cons p ps)
  have "by_id (filter (\<lambda>q. pt_id q \<noteq> pt_id p) (dedup_points ps)) i
      = (if i = pt_id p then None else by_id (dedup_points ps) i)"
    by (auto simp: by_id_filter split: option.splits dest: by_id_Some)
  with Cons show ?case by (auto simp: by_id_def)
qed simp

lemma dedup_distinct: "distinct (map pt_id ps) \<Longrightarrow> dedup_points ps = ps"
proof (induction ps)
  case (Cons p ps)
  then have "filter (\<lambda>q. pt_id q \<noteq> pt_id p) ps = ps"
    unfolding filter_id_conv by (metis distinct.simps(2) imageI list.map(2) list.set_map)
  with Cons show ?case by simp
qed simp

lemma length_dedup: "length (dedup_points ps) \<le> length ps"
  by (induction ps) (auto intro: le_trans [OF length_filter_le])

lemma points_of_mem: "points_of (mem_view s) n
    = (case map_of (mem_colls s) (phys (mem_view s) n) of Some ps \<Rightarrow> dedup_points ps | None \<Rightarrow> [])"
  by (auto simp: points_of_def mem_view_def split: option.split)

lemma phys_mem_colls [simp]: "phys (mem_view (s\<lparr>mem_colls := c\<rparr>)) n = phys (mem_view s) n"
  by (simp add: phys_def mem_view_def)

lemma wp_mem_with:
  "(\<And>ps. v_points (mem_view s) (phys (mem_view s) n) = Some ps \<Longrightarrow> points_of (mem_view s) n = ps \<Longrightarrow> Q (f ps) s)
   \<Longrightarrow> E (not_found n) s \<Longrightarrow> wp (mem_with n f) Q E s"
  by (auto simp: wp_def mem_with_def points_of_def split: option.split)

lemma mem_change_updated:
  assumes "v_points (mem_view s) (phys (mem_view s) n) = Some ps" "distinct (map pt_id (f ps))"
    "by_id (f ps) = g (by_id ps)"
  shows "updated n g (mem_view s) (mem_view (s\<lparr>mem_colls := AList.update (phys (mem_view s) n) (f ps) (mem_colls s)\<rparr>))"
proof -
  have "points_of (mem_view s) n = ps" using assms(1) by (simp add: points_of_def)
  moreover have "points_of (mem_view (s\<lparr>mem_colls := AList.update (phys (mem_view s) n) (f ps) (mem_colls s)\<rparr>)) n = f ps"
    using assms(2) by (simp add: points_of_mem update_conv' dedup_distinct)
  ultimately show ?thesis
    using assms unfolding updated_def
    by (auto simp: mem_view_def update_conv' phys_def)
qed

lemma wp_mem_change:
  assumes "\<And>ps. points_of (mem_view s) n = ps \<Longrightarrow> distinct (map pt_id ps) \<Longrightarrow> distinct (map pt_id (f ps)) \<and> by_id (f ps) = g (by_id ps)"
    and "\<And>s'. updated n g (mem_view s) (mem_view s') \<Longrightarrow> Q () s'" "E (not_found n) s"
  shows "wp (mem_change n f) Q E s"
proof (cases "v_points (mem_view s) (phys (mem_view s) n)")
  case None
  with assms show ?thesis by (simp add: wp_def mem_change_def)
next
  case (Some ps)
  then have "points_of (mem_view s) n = ps" "distinct (map pt_id ps)"
    by (auto simp: points_of_def mem_view_def)
  with assms(1) Some mem_change_updated [OF Some, of f g] assms(2) show ?thesis
    by (simp add: wp_def mem_change_def)
qed

interpretation mem: qdrant_store mem_client mem_view
proof
  fix s n
  show "distinct (map pt_id (points_of (mem_view s) n))"
    by (simp add: points_of_mem split: option.split)
  show "length (points_of (mem_view s) n) < cl_budget mem_client s"
  proof (cases "map_of (mem_colls s) (phys (mem_view s) n)")
    case (Some ps)
    then have "length ps \<in> set (map (length \<circ> snd) (mem_colls s))"
      by (force dest: map_of_SomeD)
    then have "length ps \<le> sum_list (map (length \<circ> snd) (mem_colls s))"
      by (rule member_le_sum_list) simp_all
    with Some length_dedup [of ps] show ?thesis by (simp add: points_of_mem mem_client_def)
  qed (simp add: points_of_mem mem_client_def)
next
  fix s n
  show "wp (cl_exists mem_client n)
      (\<lambda>b s'. mem_view s' = mem_view s \<and> (map_of (v_alias (mem_view s)) n = None \<longrightarrow> b = (v_points (mem_view s) n \<noteq> None)))
      (\<lambda>e s'. mem_view s' = mem_view s) s"
    by (simp add: wp_def mem_client_def mem_view_def)
next
  fix s n
  show "wp (cl_info mem_client n) (\<lambda>i s'. mem_view s' = mem_view s \<and> v_points (mem_view s) (phys (mem_view s) n) \<noteq> None
      \<and> i = v_info (mem_view s) (phys (mem_view s) n)) (\<lambda>e s'. mem_view s' = mem_view s) s"
    by (simp add: wp_def mem_client_def mem_with_def split: option.split)
next
  fix s n
  show "wp (cl_schema mem_client n) (\<lambda>i s'. mem_view s' = mem_view s) (\<lambda>e s'. mem_view s' = mem_view s) s"
    by (simp add: wp_def mem_client_def mem_with_def split: option.split)
next
  fix s
  show "wp (cl_aliases mem_client) (\<lambda>as s'. mem_view s' = mem_view s \<and> map_of as = map_of (v_alias (mem_view s)))
      (\<lambda>e s'. mem_view s' = mem_view s) s"
    by (simp add: wp_def mem_client_def mem_view_def)
next
  fix lim n f pr vec off s
  show "wp (cl_scroll mem_client n f lim pr vec off)
      (\<lambda>r s'. mem_view s' = mem_view s
         \<and> fst r = map (project pr vec) (take lim (from_offset off (matching (mem_view s) n f)))
         \<and> snd r = next_offset lim (from_offset off (matching (mem_view s) n f)))
      (\<lambda>e s'. mem_view s' = mem_view s \<and> exn_cls e \<noteq> Unfinished) s"
    unfolding mem_client_def client.simps mem_scroll_def
    by (rule wp_mem_with) (auto simp: matching_def Let_def not_found_def)
next
  fix n ids pr vec s
  show "wp (cl_retrieve mem_client n ids pr vec)
      (\<lambda>ps s'. mem_view s' = mem_view s \<and> distinct (map pt_id ps)
         \<and> set ps = project pr vec ` {p \<in> set (points_of (mem_view s) n). pt_id p \<in> set ids})
      (\<lambda>e s'. mem_view s' = mem_view s) s"
    unfolding mem_client_def client.simps mem_retrieve_def
  proof (rule wp_mem_with)
    fix ps assume "points_of (mem_view s) n = ps"
    moreover have "distinct (map pt_id (points_of (mem_view s) n))"
      by (simp add: points_of_mem split: option.split)
    moreover have "map pt_id (map (project pr vec) qs) = map pt_id qs" for qs
      by (simp add: project_def)
    ultimately show "mem_view s = mem_view s \<and> distinct (map pt_id (map (project pr vec) (filter (\<lambda>p. pt_id p \<in> set ids) ps)))
        \<and> set (map (project pr vec) (filter (\<lambda>p. pt_id p \<in> set ids) ps))
           = project pr vec ` {p \<in> set (points_of (mem_view s) n). pt_id p \<in> set ids}"
      by (auto simp: distinct_map_filter simp del: map_map)
  qed simp
next
  fix n ps s
  show "wp (cl_upsert mem_client n ps) (\<lambda>_ s'. updated n (put_points ps) (mem_view s) (mem_view s'))
      (\<lambda>e s'. \<exists>qs. set qs \<subseteq> set ps \<and> updated n (put_points qs) (mem_view s) (mem_view s')) s"
    unfolding mem_client_def client.simps mem_upsert_def
  proof (rule wp_mem_change [where g = "put_points ps"])
    fix qs :: "point list" assume d: "distinct (map pt_id qs)"
    let ?r = "filter (\<lambda>p. pt_id p \<notin> pt_id ` set ps) qs @ dedup_points (rev ps)"
    have "distinct (map pt_id ?r)"
      using d by (auto simp: distinct_map_filter)
    moreover have "by_id ?r = put_points ps (by_id qs)"
    proof
      fix i
      show "by_id ?r i = put_points ps (by_id qs) i"
      proof (cases "by_id (rev ps) i")
        case None
        then have "i \<notin> pt_id ` set ps" by (simp add: by_id_None)
        with None show ?thesis
          by (auto simp: put_points_def by_id_append by_id_dedup by_id_filter [OF d] map_add_def
              split: option.split dest: by_id_Some)
      next
        case (Some p)
        then have "i \<in> pt_id ` set ps" by (auto dest: by_id_Some)
        then have "by_id (filter (\<lambda>p. pt_id p \<notin> pt_id ` set ps) qs) i = None"
          unfolding by_id_None set_filter by blast
        with Some show ?thesis by (simp add: put_points_def by_id_append by_id_dedup map_add_def)
      qed
    qed
    ultimately show "distinct (map pt_id ?r) \<and> by_id ?r = put_points ps (by_id qs)" by blast
  next
    show "\<exists>qs. set qs \<subseteq> set ps \<and> updated n (put_points qs) (mem_view s) (mem_view s)"
      by (rule exI [of _ "[]"]) (auto simp: updated_def put_points_def by_id_def)
  qed
next
  fix n ids s
  show "wp (cl_delete_ids mem_client n ids) (\<lambda>_ s'. updated n (drop_points (set ids)) (mem_view s) (mem_view s'))
      (\<lambda>e s'. \<exists>gone \<subseteq> set ids. updated n (drop_points gone) (mem_view s) (mem_view s')) s"
    unfolding mem_client_def client.simps mem_delete_ids_def
  proof (rule wp_mem_change [where g = "drop_points (set ids)"])
    fix qs :: "point list" assume d: "distinct (map pt_id qs)"
    show "distinct (map pt_id (filter (\<lambda>p. pt_id p \<notin> set ids) qs))
        \<and> by_id (filter (\<lambda>p. pt_id p \<notin> set ids) qs) = drop_points (set ids) (by_id qs)"
      using d by (auto simp: distinct_map_filter by_id_filter [OF d] drop_points_def restrict_map_def
          fun_eq_iff split: option.split dest: by_id_Some)
  next
    show "\<exists>gone \<subseteq> set ids. updated n (drop_points gone) (mem_view s) (mem_view s)"
      by (rule exI [of _ "{}"]) (auto simp: updated_def drop_points_def)
  qed
next
  fix n f s
  show "wp (cl_delete_match mem_client n f)
      (\<lambda>_ s'. updated n (drop_points (pt_id ` set (matching (mem_view s) n f))) (mem_view s) (mem_view s'))
      (\<lambda>e s'. \<exists>gone \<subseteq> pt_id ` set (matching (mem_view s) n f). updated n (drop_points gone) (mem_view s) (mem_view s')) s"
    unfolding mem_client_def client.simps mem_delete_match_def
  proof (rule wp_mem_change [where g = "drop_points (pt_id ` set (matching (mem_view s) n f))"])
    fix qs assume q: "points_of (mem_view s) n = qs" and d: "distinct (map pt_id qs)"
    have m: "pt_id p \<in> pt_id ` set (matching (mem_view s) n f) \<longleftrightarrow> matches f p" if "p \<in> set qs" for p
      using d that by (auto simp: matching_def q distinct_map inj_on_def)
    show "distinct (map pt_id (filter (\<lambda>p. \<not> matches f p) qs))
        \<and> by_id (filter (\<lambda>p. \<not> matches f p) qs) = drop_points (pt_id ` set (matching (mem_view s) n f)) (by_id qs)"
      using d m by (auto simp: distinct_map_filter by_id_filter [OF d] drop_points_def restrict_map_def
          fun_eq_iff split: option.split dest: by_id_Some)
  next
    show "\<exists>gone \<subseteq> pt_id ` set (matching (mem_view s) n f). updated n (drop_points gone) (mem_view s) (mem_view s)"
      by (rule exI [of _ "{}"]) (auto simp: updated_def drop_points_def)
  qed
next
  fix n vc kw s
  show "wp (cl_create mem_client n vc kw)
      (\<lambda>_ s'. mem_view s' = (mem_view s)\<lparr>v_points := (v_points (mem_view s))(n \<mapsto> []),
           v_info := (v_info (mem_view s))(n := \<lparr>ci_vectors = vc, ci_params = kw\<rparr>),
           v_schema := (v_schema (mem_view s))(n := [])\<rparr> \<and> v_points (mem_view s) n = None)
      (\<lambda>e s'. mem_view s' = mem_view s \<or> (v_points (mem_view s) n = None
         \<and> mem_view s' = (mem_view s)\<lparr>v_points := (v_points (mem_view s))(n \<mapsto> []),
           v_info := (v_info (mem_view s))(n := \<lparr>ci_vectors = vc, ci_params = kw\<rparr>),
           v_schema := (v_schema (mem_view s))(n := [])\<rparr>)) s"
    by (auto simp: wp_def mem_client_def mem_create_def mem_view_def update_conv' fun_eq_iff)
next
  fix n s
  show "wp (cl_drop mem_client n) (\<lambda>_ s'. mem_view s' = (mem_view s)\<lparr>v_points := (v_points (mem_view s))(n := None)\<rparr>)
      (\<lambda>e s'. mem_view s' = mem_view s \<or> mem_view s' = (mem_view s)\<lparr>v_points := (v_points (mem_view s))(n := None)\<rparr>) s"
    by (auto simp: wp_def mem_client_def mem_view_def delete_conv' fun_eq_iff)
next
  fix n fld ty s
  show "wp (cl_index mem_client n fld ty) (\<lambda>_ s'. \<exists>sc. mem_view s' = (mem_view s)\<lparr>v_schema := sc\<rparr>)
      (\<lambda>e s'. \<exists>sc. mem_view s' = (mem_view s)\<lparr>v_schema := sc\<rparr>) s"
    by (auto simp: wp_def mem_client_def mem_view_def)
next
  fix n th s
  show "wp (cl_threshold mem_client n th) (\<lambda>_ s'. mem_view s' = mem_view s) (\<lambda>e s'. mem_view s' = mem_view s) s"
    by (simp add: wp_def mem_client_def)
next
  fix ops s
  show "wp (cl_update_aliases mem_client ops)
      (\<lambda>ok s'. mem_view s' = (if ok then (mem_view s)\<lparr>v_alias := fold apply_alias_op ops (v_alias (mem_view s))\<rparr> else mem_view s))
      (\<lambda>e s'. mem_view s' = mem_view s \<or> mem_view s' = (mem_view s)\<lparr>v_alias := fold apply_alias_op ops (v_alias (mem_view s))\<rparr>) s"
    by (simp add: wp_def mem_client_def mem_view_def)
next
  fix n s
  show "wp (cl_snapshot mem_client n) (\<lambda>_ s'. mem_view s' = mem_view s) (\<lambda>e s'. mem_view s' = mem_view s) s"
    by (simp add: wp_def mem_client_def)
qed

end
