(* ===== verification/Payload.thy ===== *)
theory Payload
  imports Identity
begin

text \<open>
  What a chunk becomes when it is stored (\<open>mainframe_rag/ingest/payload.py\<close>), with the data
  it is made of (\<open>Chunk\<close> of \<open>chunk.py\<close>, \<open>ParsedDoc\<close> of \<open>ibm_pdf.py\<close>), and the identity of an
  immutable build (\<open>build.py\<close>).
\<close>

record unit_span =
  us_start :: int
  us_end :: int
  us_kind :: string

record chunk =
  ch_id :: string
  ch_doc_id :: string
  ch_heading_path :: string
  ch_page_start :: int
  ch_page_label :: string
  ch_type :: string
  ch_text :: string
  ch_message_ids :: "string list"
  ch_members :: "string list"
  ch_ordinal :: int
  ch_system_codes :: "string list"
  ch_units :: "unit_span list option"
  ch_page_end :: "int option"

record parsed_doc =
  pd_sha256 :: string
  pd_doc_id :: string
  pd_title :: string
  pd_product :: "string option"
  pd_version :: "string option"
  pd_vendor :: string
  pd_page_count :: int

definition parsed_source_rev :: "parsed_doc \<Rightarrow> string" where
  "parsed_source_rev d = source_rev_key (Some (pd_vendor d)) (pd_product d) (pd_version d) (pd_sha256 d)"

definition normalize_context :: "string \<Rightarrow> nat \<Rightarrow> string" where
  "normalize_context txt max_chars = rstrip (take max_chars (join_with '' '' (split_ws txt)))"

definition strs_json :: "string list \<Rightarrow> json" where
  "strs_json xs = JList (map JStr xs)"

definition point_payload :: "parsed_doc \<Rightarrow> chunk \<Rightarrow> string \<Rightarrow> string option \<Rightarrow> payload" where
  "point_payload parsed c rules_v context =
     [(''vendor'', JStr (pd_vendor parsed)),
      (''product'', jopt (pd_product parsed)),
      (''version'', jopt (pd_version parsed)),
      (''doc_id'', JStr (ch_doc_id c)),
      (''source_rev'', JStr (parsed_source_rev parsed)),
      (''title'', JStr (pd_title parsed)),
      (''heading_path'', JStr (ch_heading_path c)),
      (''page_label'', JStr (ch_page_label c)),
      (''page_start'', JInt (ch_page_start c)),
      (''page_end'', JInt (case ch_page_end c of Some e \<Rightarrow> e | None \<Rightarrow> ch_page_start c)),
      (''chunk_type'', JStr (ch_type c)),
      (''message_ids'', strs_json (ch_message_ids c)),
      (''members'', strs_json (ch_members c)),
      (''system_codes'', strs_json (ch_system_codes c)),
      (''sha256'', JStr (pd_sha256 parsed)),
      (''rules_v'', JStr rules_v),
      (''text'', JStr (ch_text c))]
     @ (case ch_units c of
          None \<Rightarrow> []
        | Some us \<Rightarrow> if us = [] then []
            else [(''units'', JList (map (\<lambda>u. JList [JInt (us_start u), JInt (us_end u), JStr (us_kind u)]) us))])
     @ (case context of None \<Rightarrow> [] | Some t \<Rightarrow> if t = [] then [] else [(''context'', JStr t)])"

lemma jget_append: "jget (p @ q) k = (if jhas p k then jget p k else jget q k)"
  by (induction p) auto

lemma point_payload_fields [simp]:
  "jget (point_payload d c rv cx) ''doc_id'' = JStr (ch_doc_id c)"
  "jget (point_payload d c rv cx) ''source_rev'' = JStr (parsed_source_rev d)"
  "jget (point_payload d c rv cx) ''sha256'' = JStr (pd_sha256 d)"
  "jget (point_payload d c rv cx) ''rules_v'' = JStr rv"
  "jget (point_payload d c rv cx) ''text'' = JStr (ch_text c)"
  by (simp_all add: point_payload_def)

section \<open>Build identity\<close>

definition is_hex_lower :: "char \<Rightarrow> bool" where
  "is_hex_lower c \<longleftrightarrow> (CHR ''0'' \<le> c \<and> c \<le> CHR ''9'') \<or> (CHR ''a'' \<le> c \<and> c \<le> CHR ''f'')"

text \<open>\<open>str(uuid.UUID(v)) == v\<close>: the canonical text form, 8-4-4-4-12 lower-case hex digits.\<close>

definition is_canonical_uuid :: "string \<Rightarrow> bool" where
  "is_canonical_uuid v \<longleftrightarrow> length v = 36
     \<and> list_all (\<lambda>(i, c). if i \<in> {8, 13, 18, 23} then c = CHR ''-'' else is_hex_lower c) (enumerate 0 v)"

definition is_nil_uuid :: "string \<Rightarrow> bool" where
  "is_nil_uuid v \<longleftrightarrow> list_all (\<lambda>c. c = CHR ''0'' \<or> c = CHR ''-'') v"

definition canonical_build_id :: "json \<Rightarrow> string res" where
  "canonical_build_id value =
     (case value of
        JStr v \<Rightarrow> if is_canonical_uuid v \<and> \<not> is_nil_uuid v then Inr v
                  else raise_exn ValueErr ''invalid_build_identity'' []
      | _ \<Rightarrow> raise_exn TypeErr ''invalid_build_identity'' [])"

definition build_aliases :: "string \<Rightarrow> string \<Rightarrow> (string \<times> string) res" where
  "build_aliases alias build_id =
     rbind (canonical_build_id (JStr build_id)) (\<lambda>_.
       let data = alias @ ''__build_'' @ build_id in Inr (data, data @ ''__completions''))"

end
