(* ===== verification/Qdrant_IO.thy ===== *)
theory Qdrant_IO
  imports Store Payload
begin

text \<open>
  Collection administration and point I/O (\<open>mainframe_rag/ingest/qdrant_io.py\<close>): the paginated
  scan every observer uses, collection creation and its checks, revision deletes, the copy of a
  generation, the alias cutover and the batched upsert.
\<close>

definition hnsw_bulk_threshold :: int where "hnsw_bulk_threshold = 1073741824"
definition default_threshold :: int where "default_threshold = 20000"

definition keyword_indexes :: "string list" where
  "keyword_indexes = [''vendor'', ''product'', ''version'', ''doc_id'', ''chunk_type'', ''message_ids'',
     ''members'', ''system_codes'', ''sha256'', ''source_rev'']"

section \<open>The scan\<close>

text \<open>The \<open>while True\<close> loop: it stops at the last page or at an empty one.\<close>

fun scan_pages :: "nat \<Rightarrow> 's client \<Rightarrow> string \<Rightarrow> cond \<Rightarrow> projection \<Rightarrow> nat \<Rightarrow> string option \<Rightarrow> point list
    \<Rightarrow> ('s, point list) eff" where
  "scan_pages 0 C n f pr page_size offset gathered = sraise (Exn Unfinished ''scan'' [])"
| "scan_pages (Suc b) C n f pr page_size offset gathered =
     sbind (cl_scroll C n f page_size pr False offset) (\<lambda>(page, next).
       if next = None \<or> page = [] then sret (gathered @ page)
       else scan_pages b C n f pr page_size next (gathered @ page))"

definition scroll_all_points :: "'s client \<Rightarrow> string \<Rightarrow> cond \<Rightarrow> projection \<Rightarrow> nat \<Rightarrow> ('s, point list) eff" where
  "scroll_all_points C n f pr page_size s = scan_pages (cl_budget C s) C n f pr page_size None [] s"

section \<open>Collections\<close>

definition policy_attrs :: "string list" where
  "policy_attrs = [''shard_number'', ''replication_factor'', ''write_consistency_factor'']"

fun check_attrs :: "string \<Rightarrow> (string \<times> int) list \<Rightarrow> (string \<times> int) list \<Rightarrow> string list \<Rightarrow> unit res" where
  "check_attrs n policy params [] = Inr ()"
| "check_attrs n policy params (a # as) =
     (case map_of policy a of
        None \<Rightarrow> check_attrs n policy params as
      | Some want \<Rightarrow>
          (case map_of params a of
             None \<Rightarrow> check_attrs n policy params as
           | Some live \<Rightarrow>
               if live = want then check_attrs n policy params as
               else raise_exn PolicyMismatchErr ''distribution_mismatch''
                      [JStr n, JStr a, JInt live, JInt want]))"

definition check_collection_distribution :: "'s client \<Rightarrow> string \<Rightarrow> settings \<Rightarrow> ('s, unit) eff" where
  "check_collection_distribution C n s =
     (let policy = collection_distribution_kwargs s
      in if policy = [] then sret ()
         else sbind (cl_info C n) (\<lambda>info. slift (check_attrs n policy (ci_params info) policy_attrs)))"

definition set_bulk_indexing :: "'s client \<Rightarrow> string \<Rightarrow> bool \<Rightarrow> ('s, unit) eff" where
  "set_bulk_indexing C n bulk = cl_threshold C n (if bulk then hnsw_bulk_threshold else default_threshold)"

definition collection_vector_configs :: "int \<Rightarrow> vector_config" where
  "collection_vector_configs dim = NamedVectors [(''dense'', dim)]"

definition ensure_payload_indexes :: "'s client \<Rightarrow> string \<Rightarrow> ('s, unit) eff" where
  "ensure_payload_indexes C n =
     sseq (seach (\<lambda>fld. cl_index C n fld ''keyword'') keyword_indexes)
          (cl_index C n ''page_start'' ''integer'')"

definition dense_size :: "vector_config \<Rightarrow> int option" where
  "dense_size vc = (case vc of NamedVectors vs \<Rightarrow> map_of vs ''dense'' | SingleVector d \<Rightarrow> d)"

definition ensure_collection :: "'s client \<Rightarrow> settings \<Rightarrow> ('s, unit) eff" where
  "ensure_collection C s =
     sbind (slift (require_dense_dim s)) (\<lambda>dim.
       let n = qdrant_collection s
       in sbind (cl_exists C n) (\<lambda>ex.
            if ex then
              sbind (cl_info C n) (\<lambda>info.
                if dense_size (ci_vectors info) \<noteq> Some dim
                then sraise (Exn DimMismatchErr ''dense_dim''
                       [JStr n, jopt_int (dense_size (ci_vectors info)), JInt dim])
                else sseq (check_collection_distribution C n s) (ensure_payload_indexes C n))
            else sseq (cl_create C n (collection_vector_configs dim) (collection_distribution_kwargs s))
                      (ensure_payload_indexes C n)))"

text \<open>A payload string, or \<open>None\<close> for a point without the field.\<close>

definition opt_str :: "json \<Rightarrow> string option" where
  "opt_str j = (case j of JStr t \<Rightarrow> Some t | _ \<Rightarrow> None)"

definition stored_doc_revisions :: "'s client \<Rightarrow> settings \<Rightarrow> string \<Rightarrow> ('s, string option set) eff" where
  "stored_doc_revisions C s doc =
     sbind (scroll_all_points C (qdrant_collection s) [(''doc_id'', doc)] (WithFields [''source_rev''])
              (ingest_scan_page_size s))
       (\<lambda>ps. sret (set (map (\<lambda>p. opt_str (jget (pt_payload p) ''source_rev'')) ps)))"

definition stored_rules_version :: "'s client \<Rightarrow> settings \<Rightarrow> ('s, string option) eff" where
  "stored_rules_version C s =
     sbind (cl_scroll C (qdrant_collection s) [] 1 (WithFields [''rules_v'']) False None) (\<lambda>(page, _).
       sret (case page of [] \<Rightarrow> None | p # _ \<Rightarrow> Some (str_of (jget (pt_payload p) ''rules_v''))))"

definition delete_by_revision :: "'s client \<Rightarrow> settings \<Rightarrow> string \<Rightarrow> ('s, unit) eff" where
  "delete_by_revision C s source_rev =
     cl_delete_match C (qdrant_collection s) [(''source_rev'', source_rev)]"

section \<open>The alias and the live generation\<close>

definition live_collection_from :: "string \<Rightarrow> string option \<Rightarrow> bool \<Rightarrow> string option \<times> bool" where
  "live_collection_from alias target exists =
     (case target of
        Some t \<Rightarrow> if exists then (Some t, False) else (None, False)
      | None \<Rightarrow> if exists then (Some alias, True) else (None, False))"

definition resolve_live_collection :: "'s client \<Rightarrow> settings \<Rightarrow> ('s, string option \<times> bool) eff" where
  "resolve_live_collection C s =
     (let alias = qdrant_collection s
      in sbind (cl_aliases C) (\<lambda>as.
           let target = map_of as alias;
               candidate = (case target of Some t \<Rightarrow> t | None \<Rightarrow> alias)
           in sbind (cl_exists C candidate) (\<lambda>ex. sret (live_collection_from alias target ex))))"

definition snapshot_collection :: "'s client \<Rightarrow> string \<Rightarrow> ('s, string) eff" where
  "snapshot_collection C n =
     sbind (cl_snapshot C n) (\<lambda>snap.
       case snap of
         None \<Rightarrow> sraise (Exn RuntimeErr ''snapshot_no_name'' [JStr n])
       | Some name \<Rightarrow> if name = [] then sraise (Exn RuntimeErr ''snapshot_no_name'' [JStr n]) else sret name)"

definition point_ids :: "'s client \<Rightarrow> settings \<Rightarrow> string \<Rightarrow> ('s, string set) eff" where
  "point_ids C s n =
     sbind (scroll_all_points C n [] WithNone (ingest_scan_page_size s)) (\<lambda>ps. sret (set (map pt_id ps)))"

text \<open>The copy loop of \<open>clone_collection\<close>: each page read from the source is written at once.\<close>

fun copy_pages :: "nat \<Rightarrow> 's client \<Rightarrow> string \<Rightarrow> string \<Rightarrow> nat \<Rightarrow> string option \<Rightarrow> ('s, unit) eff" where
  "copy_pages 0 C src dst page_size offset = sraise (Exn Unfinished ''copy'' [])"
| "copy_pages (Suc b) C src dst page_size offset =
     sbind (cl_scroll C src [] page_size WithAll True offset) (\<lambda>(page, next).
       sseq (if page \<noteq> [] then cl_upsert C dst page else sret ())
         (if next = None \<or> page = [] then sret ()
          else copy_pages b C src dst page_size next))"

definition clone_collection :: "'s client \<Rightarrow> settings \<Rightarrow> string \<Rightarrow> string \<Rightarrow> ('s, unit) eff" where
  "clone_collection C s src dst =
     sbind (cl_exists C dst) (\<lambda>ex.
     if ex then sraise (Exn RuntimeErr ''copy_target_exists'' [JStr dst])
     else sbind (cl_info C src) (\<lambda>info.
     case (case ci_vectors info of NamedVectors vs \<Rightarrow> map_of vs ''dense'' | SingleVector _ \<Rightarrow> None) of
       None \<Rightarrow> sraise (Exn RuntimeErr ''copy_source_no_dense'' [JStr src])
     | Some dim \<Rightarrow>
       sseq (cl_create C dst (collection_vector_configs dim) (collection_distribution_kwargs s))
      (sbind (cl_schema C src) (\<lambda>schema.
       sseq (seach (\<lambda>(fld, ty). cl_index C dst fld ty) (sort_key fst schema))
      (sseq (\<lambda>st. copy_pages (cl_budget C st) C src dst (ingest_scan_page_size s) None st)
      (sbind (point_ids C s src) (\<lambda>want.
       sbind (point_ids C s dst) (\<lambda>got.
       if got \<noteq> want
       then sraise (Exn RuntimeErr ''copy_unverified''
              [JStr src, JStr dst, JInt (int (card got)), JInt (int (card want))])
       else sret ()))))))))"

record publication =
  pub_alias :: string
  pub_physical :: string
  pub_previous :: "string option"
  pub_snapshot :: "string option"

definition swap_ops :: "string \<Rightarrow> string \<Rightarrow> bool \<Rightarrow> (string \<times> string) option \<Rightarrow> alias_op list" where
  "swap_ops alias new_physical alias_exists immutable =
     (if alias_exists then [DeleteAlias alias] else []) @ [CreateAlias new_physical alias]
     @ (case immutable of None \<Rightarrow> []
        | Some (a, b) \<Rightarrow> [CreateAlias new_physical a, CreateAlias (new_physical @ ''__completions'') b])"

text \<open>\<open>build_aliases(alias, build_id) if build_id is not None else None\<close>.\<close>

definition immutable_aliases :: "string \<Rightarrow> string option \<Rightarrow> (string \<times> string) option res" where
  "immutable_aliases alias build_id =
     (case build_id of None \<Rightarrow> Inr None | Some b \<Rightarrow> rbind (build_aliases alias b) (\<lambda>ab. Inr (Some ab)))"

definition swap_alias_to ::
    "'s client \<Rightarrow> settings \<Rightarrow> string \<Rightarrow> string option \<Rightarrow> string option \<Rightarrow> ('s, publication) eff" where
  "swap_alias_to C s new_physical old_physical build_id =
     (let alias = qdrant_collection s
      in sbind (cl_aliases C) (\<lambda>observed.
         sbind (slift (immutable_aliases alias build_id)) (\<lambda>immutable.
         if (case immutable of None \<Rightarrow> False
             | Some (a, b) \<Rightarrow> map_of observed a \<noteq> None \<or> map_of observed b \<noteq> None)
         then sraise (Exn RuntimeErr ''build_alias_exists'' [])
         else
         sbind (case old_physical of None \<Rightarrow> sret None
                | Some old \<Rightarrow> sbind (snapshot_collection C old) (\<lambda>n. sret (Some n))) (\<lambda>safety.
         sbind (cl_aliases C) (\<lambda>as.
         let current = map_of as alias
         in sbind (cl_exists C (case current of Some c \<Rightarrow> c | None \<Rightarrow> alias)) (\<lambda>ex.
            let resolved = (if current = None then None else fst (live_collection_from alias current ex))
            in if resolved \<noteq> old_physical
               then sraise (Exn RuntimeErr ''live_target_moved'' [jopt old_physical, jopt resolved])
               else sbind (cl_update_aliases C (swap_ops alias new_physical (current \<noteq> None) immutable)) (\<lambda>ok.
                 if \<not> ok then sraise (Exn RuntimeErr ''alias_swap_rejected'' [JStr alias, JStr new_physical])
                 else sret \<lparr>pub_alias = alias, pub_physical = new_physical, pub_previous = old_physical,
                            pub_snapshot = safety\<rparr>)))))))"

section \<open>The batched upsert\<close>

definition context_for :: "(string \<times> string) list option \<Rightarrow> string \<Rightarrow> string option" where
  "context_for contexts cid = (case contexts of None \<Rightarrow> None | Some m \<Rightarrow> map_of m cid)"

definition chunk_point :: "parsed_doc \<Rightarrow> string \<Rightarrow> (string \<times> string) list option \<Rightarrow> chunk \<times> json \<Rightarrow> point" where
  "chunk_point parsed rules_v contexts cv =
     \<lparr>pt_id = ch_id (fst cv),
      pt_payload = point_payload parsed (fst cv) rules_v (context_for contexts (ch_id (fst cv))),
      pt_vectors = snd cv\<rparr>"

function batches :: "nat \<Rightarrow> 'a list \<Rightarrow> 'a list list" where
  "batches n xs = (if n = 0 \<or> xs = [] then [] else take n xs # batches n (drop n xs))"
  by pat_completeness auto
termination by (relation "measure (\<lambda>(n, xs). length xs)") auto

declare batches.simps [simp del]

text \<open>The rules version of the running code is an argument: it is a hash of the module files.\<close>

definition upsert_chunks ::
    "'s client \<Rightarrow> settings \<Rightarrow> string \<Rightarrow> parsed_doc \<Rightarrow> chunk list \<Rightarrow> json list
       \<Rightarrow> (string \<times> string) list option \<Rightarrow> ('s, nat) eff" where
  "upsert_chunks C s rules_v parsed chunks vectors contexts =
     (if length chunks \<noteq> length vectors
      then sraise (Exn ValueErr ''length_mismatch'' [JInt (int (length chunks)), JInt (int (length vectors))])
      else let points = map (chunk_point parsed rules_v contexts) (zip chunks vectors)
           in sseq (seach (cl_upsert C (qdrant_collection s)) (batches (batch_size s) points))
                   (sret (length points)))"

section \<open>What the calls do, by the laws\<close>

lemma from_offset_None [simp]: "from_offset None ps = ps"
  by (simp add: from_offset_def)

text \<open>The offset a page returns leads exactly to what the page left out.\<close>

lemma next_offset_resume:
  assumes "distinct (map pt_id ps)" "ps = before @ todo" "next_offset lim todo = Some o'"
  shows "from_offset (Some o') ps = drop lim todo"
proof -
  obtain p rest where d: "drop lim todo = p # rest" and o': "o' = pt_id p"
    using assms(3) by (auto simp: next_offset_def split: list.splits)
  have ps: "ps = (before @ take lim todo) @ p # rest"
    using assms(2) by (metis append.assoc append_take_drop_id d)
  have "pt_id p \<notin> pt_id ` set (before @ take lim todo)"
    using assms(1) unfolding ps by auto
  then have "\<forall>q \<in> set (before @ take lim todo). pt_id q \<noteq> pt_id p" by (metis imageI)
  then have "dropWhile (\<lambda>q. pt_id q \<noteq> pt_id p) ((before @ take lim todo) @ p # rest) = p # rest"
    by (subst dropWhile_append2) auto
  then show ?thesis using ps o' d by (simp add: from_offset_def)
qed

lemma next_offset_None: "next_offset lim todo = None \<longleftrightarrow> length todo \<le> lim"
  by (auto simp: next_offset_def split: list.split dest: arg_cong [where f = length])

lemma pt_id_project [simp]: "pt_id (project pr vec p) = pt_id p"
  by (simp add: project_def)

lemma set_matching [simp]: "set (matching v n f) = {p \<in> set (points_of v n). matches f p}"
  by (simp add: matching_def)

lemma jget_project:
  "pr = WithAll \<or> (\<exists>fs. pr = WithFields fs \<and> k \<in> set fs) \<Longrightarrow>
     jget (pt_payload (project pr vec p)) k = jget (pt_payload p) k"
proof -
  have "k \<in> set fs \<Longrightarrow> jget (filter (\<lambda>(k, v). k \<in> set fs) pl) k = jget pl k" for fs pl
    by (induction pl) auto
  then show "pr = WithAll \<or> (\<exists>fs. pr = WithFields fs \<and> k \<in> set fs) \<Longrightarrow> ?thesis"
    by (auto simp: project_def project_payload_def)
qed

context qdrant_reader
begin

lemma distinct_matching: "distinct (map pt_id (matching (V s) n f))"
  using wf [of s n] by (simp add: matching_def distinct_map_filter)

lemma length_matching: "length (matching (V s) n f) < cl_budget C s"
  using budget [of s n] by (simp add: matching_def le_less_trans [OF length_filter_le])

lemma wp_scan_pages:
  assumes "1 \<le> page_size" "matching (V s) n f = before @ from_offset off (matching (V s) n f)"
    and "length (from_offset off (matching (V s) n f)) < b"
  shows "wp (scan_pages b C n f pr page_size off got)
     (\<lambda>ps s'. V s' = V s \<and> ps = got @ map (project pr False) (from_offset off (matching (V s) n f)))
     (\<lambda>e s'. V s' = V s \<and> exn_cls e \<noteq> Unfinished) s"
  using assms(2,3)
proof (induction b arbitrary: off got before s)
  case (Suc b)
  let ?todo = "from_offset off (matching (V s) n f)"
  have step: "wp (scan_pages (Suc b) C n f pr page_size off got)
      (\<lambda>ps s'. V s' = V s \<and> ps = got @ map (project pr False) ?todo)
      (\<lambda>e s'. V s' = V s \<and> exn_cls e \<noteq> Unfinished) s"
    if rest: "\<And>s' o'. V s' = V s \<Longrightarrow> next_offset page_size ?todo = Some o' \<Longrightarrow> take page_size ?todo \<noteq> [] \<Longrightarrow>
      wp (scan_pages b C n f pr page_size (Some o') (got @ map (project pr False) (take page_size ?todo)))
        (\<lambda>ps s''. V s'' = V s \<and> ps = got @ map (project pr False) ?todo)
        (\<lambda>e s''. V s'' = V s \<and> exn_cls e \<noteq> Unfinished) s'"
  proof -
    have all: "take page_size ?todo = ?todo" if "next_offset page_size ?todo = None \<or> take page_size ?todo = []"
      using that assms(1) by (auto simp: next_offset_None)
    show ?thesis
      unfolding scan_pages.simps wp_bind
    proof (rule wp_conseq [OF scroll_law [OF assms(1)]])
      fix r s' assume r: "V s' = V s \<and> fst r = map (project pr False) (take page_size ?todo)
          \<and> snd r = next_offset page_size ?todo"
      show "wp (case r of (page, next) \<Rightarrow> if next = None \<or> page = [] then sret (got @ page)
             else scan_pages b C n f pr page_size next (got @ page))
          (\<lambda>ps s'. V s' = V s \<and> ps = got @ map (project pr False) ?todo)
          (\<lambda>e s'. V s' = V s \<and> exn_cls e \<noteq> Unfinished) s'"
      proof (cases "snd r = None \<or> fst r = []")
        case True
        with r all show ?thesis by (cases r) auto
      next
        case False
        then obtain o' where "snd r = Some o'" by auto
        with False r rest [of s' o'] show ?thesis by (cases r) auto
      qed
    qed simp
  qed
  show ?case
  proof (rule step)
    fix s' o' assume v: "V s' = V s" and o': "next_offset page_size ?todo = Some o'" "take page_size ?todo \<noteq> []"
    have r: "from_offset (Some o') (matching (V s) n f) = drop page_size ?todo"
      by (rule next_offset_resume [OF distinct_matching Suc.prems(1) o'(1)])
    have m: "matching (V s') n f = (before @ take page_size ?todo) @ from_offset (Some o') (matching (V s') n f)"
      unfolding v r append.assoc append_take_drop_id by (rule Suc.prems(1))
    have l: "length (from_offset (Some o') (matching (V s') n f)) < b"
    proof -
      have "0 < length ?todo" using o'(2) by auto
      then show ?thesis unfolding v r length_drop using Suc.prems(2) assms(1) by linarith
    qed
    have e: "got @ map (project pr False) ?todo = (got @ map (project pr False) (take page_size ?todo))
        @ map (project pr False) (drop page_size ?todo)"
      by (simp flip: map_append)
    show "wp (scan_pages b C n f pr page_size (Some o') (got @ map (project pr False) (take page_size ?todo)))
        (\<lambda>ps s''. V s'' = V s \<and> ps = got @ map (project pr False) ?todo)
        (\<lambda>e s''. V s'' = V s \<and> exn_cls e \<noteq> Unfinished) s'"
      by (rule wp_conseq [OF Suc.IH [OF m l]]) (simp_all only: v r e simp_thms not_False_eq_True)
  qed
qed simp

text \<open>A scan returns every matching point once, and never runs out of budget.\<close>

lemma wp_scroll_all:
  assumes "1 \<le> page_size"
  shows "wp (scroll_all_points C n f pr page_size)
     (\<lambda>ps s'. V s' = V s \<and> ps = map (project pr False) (matching (V s) n f))
     (\<lambda>e s'. V s' = V s \<and> exn_cls e \<noteq> Unfinished) s"
proof -
  have "wp (scan_pages (cl_budget C s) C n f pr page_size None [])
     (\<lambda>ps s'. V s' = V s \<and> ps = [] @ map (project pr False) (from_offset None (matching (V s) n f)))
     (\<lambda>e s'. V s' = V s \<and> exn_cls e \<noteq> Unfinished) s"
    by (rule wp_scan_pages [OF assms, of s n f "[]"]) (simp_all add: length_matching)
  then show ?thesis by (simp add: wp_def scroll_all_points_def)
qed

lemma wp_stored_doc_revisions:
  assumes "1 \<le> ingest_scan_page_size st"
  shows "wp (stored_doc_revisions C st doc)
     (\<lambda>revs s'. V s' = V s \<and> revs = {opt_str (jget (pt_payload p) ''source_rev'') | p.
          p \<in> set (points_of (V s) (qdrant_collection st)) \<and> matches [(''doc_id'', doc)] p})
     (\<lambda>e s'. V s' = V s) s"
  unfolding stored_doc_revisions_def wp_bind
proof (rule wp_conseq [OF wp_scroll_all [OF assms]])
  fix ps s'
  assume a: "V s' = V s \<and> ps = map (project (WithFields [''source_rev'']) False)
      (matching (V s) (qdrant_collection st) [(''doc_id'', doc)])"
  have "map (\<lambda>p. opt_str (jget (pt_payload p) ''source_rev'')) ps
      = map (\<lambda>p. opt_str (jget (pt_payload p) ''source_rev'')) (matching (V s) (qdrant_collection st) [(''doc_id'', doc)])"
    using a by (simp add: jget_project)
  with a show "wp (sret (set (map (\<lambda>p. opt_str (jget (pt_payload p) ''source_rev'')) ps)))
      (\<lambda>revs s'. V s' = V s \<and> revs = {opt_str (jget (pt_payload p) ''source_rev'') | p.
          p \<in> set (points_of (V s) (qdrant_collection st)) \<and> matches [(''doc_id'', doc)] p})
      (\<lambda>e s'. V s' = V s) s'"
    by (simp only: wp_ret set_map set_matching) (simp add: Setcompr_eq_image image_def, blast)
qed simp

lemma wp_resolve_live:
  assumes "\<forall>a t. map_of (v_alias (V s)) a = Some t \<longrightarrow> map_of (v_alias (V s)) t = None"
  shows "wp (resolve_live_collection C st)
     (\<lambda>r s'. V s' = V s \<and> (let a = qdrant_collection st; t = map_of (v_alias (V s)) a in
        r = live_collection_from a t (v_points (V s) (case t of Some t \<Rightarrow> t | None \<Rightarrow> a) \<noteq> None)))
     (\<lambda>e s'. V s' = V s) s"
  unfolding resolve_live_collection_def Let_def wp_bind
  by (rule wp_conseq [OF aliases_law], rule wp_conseq [OF exists_law])
     (use assms in \<open>auto split: option.split\<close>)

end

lemma put_points_by_id:
  assumes "distinct (map pt_id (xs @ ys))"
  shows "put_points ys (by_id xs) = by_id (xs @ ys)"
proof
  fix i
  have dy: "distinct (map pt_id ys)" and dr: "distinct (map pt_id (rev ys))"
    using assms by (auto simp: rev_map [symmetric])
  have r: "by_id (rev ys) i = by_id ys i"
  proof (cases "by_id ys i")
    case None then show ?thesis by (metis by_id_None set_rev)
  next
    case (Some p) then show ?thesis using by_id_in [OF dy] by_id_in [OF dr] by (metis set_rev)
  qed
  have "by_id xs i = None" if "by_id ys i = Some p" for p
    using that assms by (auto simp: by_id_None dest!: by_id_Some)
  then show "put_points ys (by_id xs) i = by_id (xs @ ys) i"
    by (auto simp: put_points_def map_add_def r by_id_append split: option.split)
qed

lemma project_all [simp]: "project WithAll True p = p"
  by (simp add: project_def project_payload_def)

lemma map_project_all [simp]: "map (project WithAll True) ps = ps"
  by (simp add: map_idI)

lemma phys_updated: "updated n f v v' \<Longrightarrow> phys v' m = phys v m"
  by (simp add: updated_def phys_def)

lemma points_of_updated:
  "updated n f v v' \<Longrightarrow> phys v m \<noteq> phys v n \<Longrightarrow> points_of v' m = points_of v m"
  by (simp add: points_of_def phys_updated) (simp add: updated_def)

lemma by_id_points_updated: "updated n f v v' \<Longrightarrow> phys v m = phys v n \<Longrightarrow>
    by_id (points_of v' m) = f (by_id (points_of v m))"
proof -
  assume u: "updated n f v v'" and p: "phys v m = phys v n"
  have "points_of v' m = points_of v' n" "points_of v m = points_of v n"
    using p by (simp_all add: points_of_def phys_updated [OF u])
  then show ?thesis using u by (simp add: updated_def)
qed

text \<open>The aliases after the cutover; the immutable ones did not exist before.\<close>

definition free_names :: "(string \<times> string) list \<Rightarrow> (string \<times> string) option \<Rightarrow> bool" where
  "free_names as imm \<longleftrightarrow> (case imm of None \<Rightarrow> True | Some (a, b) \<Rightarrow> map_of as a = None \<and> map_of as b = None)"

definition swapped :: "string \<Rightarrow> string \<Rightarrow> string option \<Rightarrow> view \<Rightarrow> view \<Rightarrow> bool" where
  "swapped alias new build_id v v' \<longleftrightarrow> (\<exists>imm. immutable_aliases alias build_id = Inr imm \<and> free_names (v_alias v) imm
     \<and> v' = v\<lparr>v_alias := fold apply_alias_op (swap_ops alias new (map_of (v_alias v) alias \<noteq> None) imm) (v_alias v)\<rparr>)"

lemma updated_trans: "updated n f v v' \<Longrightarrow> updated n g v' v'' \<Longrightarrow> updated n (g \<circ> f) v v''"
  by (auto simp: updated_def phys_def)

lemma put_points_append: "put_points (xs @ ys) = put_points ys \<circ> put_points xs"
  by (intro ext) (auto simp: put_points_def map_add_def by_id_append split: option.split)

lemma concat_batches: "1 \<le> n \<Longrightarrow> concat (batches n xs) = xs"
proof (induction n xs rule: batches.induct)
  case (1 n xs)
  show ?case
  proof (cases "xs = []")
    case True then show ?thesis by (simp add: batches.simps)
  next
    case False
    with 1 show ?thesis by (subst batches.simps) simp
  qed
qed

text \<open>Only an empty collection of this name was added, if any.\<close>

definition grown :: "string \<Rightarrow> view \<Rightarrow> view \<Rightarrow> bool" where
  "grown n v v' \<longleftrightarrow> v_alias v' = v_alias v
     \<and> (v_points v' = v_points v \<or> (v_points v n = None \<and> v_points v' = (v_points v)(n \<mapsto> [])))"

lemma grownI: "v_points v' = v_points v \<Longrightarrow> v_alias v' = v_alias v \<Longrightarrow> grown n v v'"
  by (simp add: grown_def)

text \<open>A name whose points a write on \<open>n\<close> cannot touch.\<close>

definition apart :: "view \<Rightarrow> string \<Rightarrow> string \<Rightarrow> bool" where
  "apart v m n \<longleftrightarrow> phys v m \<noteq> phys v n"

context qdrant_store
begin

lemma wp_copy_pages:
  assumes "1 \<le> page_size" "matching (V s) src [] = before @ from_offset off (matching (V s) src [])"
    and "length (from_offset off (matching (V s) src [])) < b"
    and "by_id (points_of (V s) dst) = by_id before" "apart (V s) src dst"
  shows "wp (copy_pages b C src dst page_size off)
     (\<lambda>_ s'. by_id (points_of (V s') dst) = by_id (matching (V s) src [])
        \<and> points_of (V s') src = points_of (V s) src \<and> v_alias (V s') = v_alias (V s))
     (\<lambda>e s'. points_of (V s') src = points_of (V s) src \<and> v_alias (V s') = v_alias (V s)) s"
  using assms(2-5)
proof (induction b arbitrary: off before s)
  case (Suc b)
  let ?L = "matching (V s) src []"
  let ?todo = "from_offset off ?L"
  let ?page = "take page_size ?todo"
  let ?Q = "\<lambda>_ s'. by_id (points_of (V s') dst) = by_id ?L
        \<and> points_of (V s') src = points_of (V s) src \<and> v_alias (V s') = v_alias (V s)"
  let ?E = "\<lambda>e s'. points_of (V s') src = points_of (V s) src \<and> v_alias (V s') = v_alias (V s)"
  have dist: "distinct (map pt_id (before @ ?page))"
  proof -
    have "?L = (before @ ?page) @ drop page_size ?todo"
      by (subst append.assoc, subst append_take_drop_id, rule Suc.prems(1))
    then show ?thesis using distinct_matching [of s src "[]"] by (metis distinct_append map_append)
  qed
  have todo: "before @ ?page = ?L" if "next_offset page_size ?todo = None \<or> ?page = []"
    using that assms(1) Suc.prems(1) by (auto simp: next_offset_None)
  text \<open>After the page is written.\<close>
  have go: "wp (if snd r = None \<or> fst r = [] then sret () else copy_pages b C src dst page_size (snd r)) ?Q ?E s2"
    if r: "fst r = ?page" "snd r = next_offset page_size ?todo"
      and u: "by_id (points_of (V s2) dst) = by_id (before @ ?page)" "points_of (V s2) src = points_of (V s) src"
        "v_alias (V s2) = v_alias (V s)" for r :: "point list \<times> string option" and s2
  proof (cases "snd r = None \<or> fst r = []")
    case True
    with todo r u show ?thesis by simp
  next
    case False
    then obtain o' where o': "snd r = Some o'" by auto
    have m: "matching (V s2) src [] = ?L" by (simp add: matching_def u(2))
    have f: "from_offset (Some o') ?L = drop page_size ?todo"
      using next_offset_resume [OF distinct_matching Suc.prems(1)] r o' by metis
    have "0 < length ?todo" using False r(1) by auto
    then have len: "length (from_offset (Some o') (matching (V s2) src [])) < b"
      unfolding m f length_drop using Suc.prems(2) assms(1) by linarith
    have pre: "matching (V s2) src [] = (before @ ?page) @ from_offset (Some o') (matching (V s2) src [])"
      unfolding m f append.assoc append_take_drop_id by (rule Suc.prems(1))
    have ap: "apart (V s2) src dst" using Suc.prems(4) u(3) by (simp add: apart_def phys_def)
    have "wp (copy_pages b C src dst page_size (snd r)) ?Q ?E s2"
      by (rule wp_conseq [OF Suc.IH [OF pre len u(1) ap, folded o']]) (simp_all add: m u)
    then show ?thesis unfolding if_not_P [OF False] .
  qed
  show ?case
    unfolding copy_pages.simps wp_bind
  proof (rule wp_conseq [OF scroll_law [OF assms(1)]])
    fix r :: "point list \<times> string option" and s1
    assume "V s1 = V s \<and> fst r = map (project WithAll True) ?page \<and> snd r = next_offset page_size ?todo"
    then have v: "V s1 = V s" and r: "fst r = ?page" "snd r = next_offset page_size ?todo" by simp_all
    have written: "wp (if fst r \<noteq> [] then cl_upsert C dst (fst r) else sret ())
        (\<lambda>_. wp (if snd r = None \<or> fst r = [] then sret () else copy_pages b C src dst page_size (snd r)) ?Q ?E) ?E s1"
    proof (cases "fst r = []")
      case True
      then have pe: "?page = []" using r(1) by simp
      have "by_id (points_of (V s1) dst) = by_id (before @ ?page)"
        unfolding pe append_Nil2 v by (rule Suc.prems(3))
      from go [OF r this] have "wp (if snd r = None \<or> fst r = [] then sret ()
          else copy_pages b C src dst page_size (snd r)) ?Q ?E s1"
        by (simp add: v)
      then show ?thesis using True by simp
    next
      case False
      have "wp (cl_upsert C dst (fst r))
        (\<lambda>_. wp (if snd r = None \<or> fst r = [] then sret () else copy_pages b C src dst page_size (snd r)) ?Q ?E) ?E s1"
      proof (rule wp_conseq [OF upsert_law])
        fix x s2 assume "updated dst (put_points (fst r)) (V s1) (V s2)"
        then have u: "updated dst (put_points ?page) (V s) (V s2)" by (simp add: v r)
        have "by_id (points_of (V s2) dst) = by_id (before @ ?page)"
          using by_id_points_updated [OF u refl] Suc.prems(3) put_points_by_id [OF dist] by simp
        moreover have "points_of (V s2) src = points_of (V s) src"
          using points_of_updated [OF u] Suc.prems(4) by (simp add: apart_def)
        moreover have "v_alias (V s2) = v_alias (V s)" using u by (simp add: updated_def)
        ultimately show "wp (if snd r = None \<or> fst r = [] then sret () else copy_pages b C src dst page_size (snd r)) ?Q ?E s2"
          by (rule go [OF r])
      next
        fix e s2 assume "\<exists>qs. set qs \<subseteq> set (fst r) \<and> updated dst (put_points qs) (V s1) (V s2)"
        then obtain qs where u: "updated dst (put_points qs) (V s) (V s2)" by (auto simp: v)
        show "?E e s2"
          using points_of_updated [OF u] Suc.prems(4) u by (simp add: apart_def updated_def)
      qed
      then show ?thesis unfolding if_P [OF False] .
    qed
    then show "wp (case r of (page, next) \<Rightarrow> sseq (if page \<noteq> [] then cl_upsert C dst page else sret ())
         (if next = None \<or> page = [] then sret () else copy_pages b C src dst page_size next)) ?Q ?E s1"
      by (cases r) (simp only: prod.case fst_conv snd_conv wp_seq)
  qed simp
qed simp

lemma wp_index_all:
  "wp (seach (\<lambda>(fld, ty). cl_index C n fld ty) xs)
     (\<lambda>_ s'. v_points (V s') = v_points (V s) \<and> v_alias (V s') = v_alias (V s))
     (\<lambda>_ s'. v_points (V s') = v_points (V s) \<and> v_alias (V s') = v_alias (V s)) s"
proof (rule wp_seach)
  fix x s' assume i: "v_points (V s') = v_points (V s) \<and> v_alias (V s') = v_alias (V s)"
  have "wp (cl_index C n (fst x) (snd x))
     (\<lambda>_ s'. v_points (V s') = v_points (V s) \<and> v_alias (V s') = v_alias (V s))
     (\<lambda>_ s'. v_points (V s') = v_points (V s) \<and> v_alias (V s') = v_alias (V s)) s'"
    by (rule wp_conseq [OF index_law]) (use i in auto)
  then show "wp (case x of (fld, ty) \<Rightarrow> cl_index C n fld ty)
     (\<lambda>_ s'. v_points (V s') = v_points (V s) \<and> v_alias (V s') = v_alias (V s))
     (\<lambda>_ s'. v_points (V s') = v_points (V s) \<and> v_alias (V s') = v_alias (V s)) s'"
    by (cases x) simp
qed simp

lemma wp_point_ids:
  "1 \<le> ingest_scan_page_size st \<Longrightarrow> wp (point_ids C st n)
     (\<lambda>ids s'. V s' = V s \<and> ids = pt_id ` set (points_of (V s) n)) (\<lambda>e s'. V s' = V s) s"
  unfolding point_ids_def wp_bind
  by (rule wp_conseq [OF wp_scroll_all]) (auto simp: matching_def matches_def image_image)

lemma wp_clone:
  assumes pg: "1 \<le> ingest_scan_page_size st" and al: "map_of (v_alias (V s)) dst = None"
  shows "wp (clone_collection C st src dst)
     (\<lambda>_ s'. by_id (points_of (V s') dst) = by_id (points_of (V s) src)
        \<and> points_of (V s') src = points_of (V s) src \<and> v_alias (V s') = v_alias (V s))
     (\<lambda>e s'. points_of (V s') src = points_of (V s) src \<and> v_alias (V s') = v_alias (V s)) s"
proof -
  let ?E = "\<lambda>e s'. points_of (V s') src = points_of (V s) src \<and> v_alias (V s') = v_alias (V s)"
  have made: "points_of v' src = points_of v src \<and> v_alias v' = v_alias v \<and> apart v' src dst \<and> points_of v' dst = []"
    if "v_points v dst = None" "v_points v (phys v src) \<noteq> None" "map_of (v_alias v) dst = None"
      "v' = v\<lparr>v_points := (v_points v)(dst \<mapsto> []), v_info := i, v_schema := sc\<rparr>" for v v' i sc
  proof -
    have "phys v src \<noteq> dst" using that(1,2) by auto
    moreover have "phys v' n = phys v n" for n using that(4) by (simp add: phys_def)
    moreover have "phys v dst = dst" using that(3) by (simp add: phys_def)
    ultimately show ?thesis using that(4) by (auto simp: points_of_def apart_def)
  qed
  let ?T = "sbind (cl_schema C src) (\<lambda>schema.
       sseq (seach (\<lambda>(fld, ty). cl_index C dst fld ty) (sort_key fst schema))
      (sseq (\<lambda>st'. copy_pages (cl_budget C st') C src dst (ingest_scan_page_size st) None st')
      (sbind (point_ids C st src) (\<lambda>want.
       sbind (point_ids C st dst) (\<lambda>got.
       if got \<noteq> want
       then sraise (Exn RuntimeErr ''copy_unverified''
              [JStr src, JStr dst, JInt (int (card got)), JInt (int (card want))])
       else sret ())))))"
  have tail: "wp ?T
     (\<lambda>_ s'. by_id (points_of (V s') dst) = by_id (points_of (V s) src)
        \<and> points_of (V s') src = points_of (V s) src \<and> v_alias (V s') = v_alias (V s)) ?E s1"
    if p: "points_of (V s1) src = points_of (V s) src" "v_alias (V s1) = v_alias (V s)"
      "apart (V s1) src dst" "points_of (V s1) dst = []" for s1
  proof -
    have match_all: "matching v n [] = points_of v n" for v n by (simp add: matching_def matches_def)
    have copy: "wp (\<lambda>st'. copy_pages (cl_budget C st') C src dst (ingest_scan_page_size st) None st')
       (\<lambda>_ s'. by_id (points_of (V s') dst) = by_id (points_of (V s) src)
        \<and> points_of (V s') src = points_of (V s) src \<and> v_alias (V s') = v_alias (V s)) ?E s2"
      if q: "v_points (V s2) = v_points (V s1)" "v_alias (V s2) = v_alias (V s1)" for s2
    proof -
      have same: "phys (V s2) n = phys (V s1) n" "points_of (V s2) n = points_of (V s1) n" for n
        using q by (simp_all add: phys_def points_of_def)
      have "wp (copy_pages (cl_budget C s2) C src dst (ingest_scan_page_size st) None)
       (\<lambda>_ s'. by_id (points_of (V s') dst) = by_id (matching (V s2) src [])
          \<and> points_of (V s') src = points_of (V s2) src \<and> v_alias (V s') = v_alias (V s2))
       (\<lambda>e s'. points_of (V s') src = points_of (V s2) src \<and> v_alias (V s') = v_alias (V s2)) s2"
        by (rule wp_copy_pages [OF pg, of s2 src "[]"])
           (use p same length_matching in \<open>simp_all add: apart_def by_id_def\<close>)
      then have "wp (\<lambda>st'. copy_pages (cl_budget C st') C src dst (ingest_scan_page_size st) None st')
       (\<lambda>_ s'. by_id (points_of (V s') dst) = by_id (matching (V s2) src [])
          \<and> points_of (V s') src = points_of (V s2) src \<and> v_alias (V s') = v_alias (V s2))
       (\<lambda>e s'. points_of (V s') src = points_of (V s2) src \<and> v_alias (V s') = v_alias (V s2)) s2"
        by (simp add: wp_def)
      then show ?thesis by (rule wp_conseq) (simp_all add: match_all same p q)
    qed
    have check: "wp (sbind (point_ids C st src) (\<lambda>want. sbind (point_ids C st dst) (\<lambda>got.
         if got \<noteq> want
         then sraise (Exn RuntimeErr ''copy_unverified''
                [JStr src, JStr dst, JInt (int (card got)), JInt (int (card want))])
         else sret ())))
       (\<lambda>_ s'. by_id (points_of (V s') dst) = by_id (points_of (V s) src)
          \<and> points_of (V s') src = points_of (V s) src \<and> v_alias (V s') = v_alias (V s)) ?E s3"
      if "by_id (points_of (V s3) dst) = by_id (points_of (V s) src)"
        "points_of (V s3) src = points_of (V s) src" "v_alias (V s3) = v_alias (V s)" for s3
      unfolding wp_bind
      by (rule wp_conseq [OF wp_point_ids [OF pg]], rule wp_conseq [OF wp_point_ids [OF pg]])
         (use that in simp_all)
    show ?thesis
      unfolding wp_bind wp_seq
    proof (rule wp_conseq [OF schema_law])
      fix sch s2 assume v: "V s2 = V s1"
      show "wp (seach (\<lambda>(fld, ty). cl_index C dst fld ty) (sort_key fst sch))
        (\<lambda>_. wp (\<lambda>st'. copy_pages (cl_budget C st') C src dst (ingest_scan_page_size st) None st')
          (\<lambda>_. wp (point_ids C st src) (\<lambda>want. wp (point_ids C st dst) (\<lambda>got. wp (if got \<noteq> want
              then sraise (Exn RuntimeErr ''copy_unverified''
                [JStr src, JStr dst, JInt (int (card got)), JInt (int (card want))]) else sret ())
            (\<lambda>_ s'. by_id (points_of (V s') dst) = by_id (points_of (V s) src)
              \<and> points_of (V s') src = points_of (V s) src \<and> v_alias (V s') = v_alias (V s)) ?E) ?E) ?E) ?E) ?E s2"
        by (rule wp_conseq [OF wp_index_all], rule wp_conseq [OF copy])
           (use check [unfolded wp_bind] v p in \<open>auto simp: points_of_def phys_def\<close>)
    qed (use p in simp)
  qed
  let ?Q = "\<lambda>_ s'. by_id (points_of (V s') dst) = by_id (points_of (V s) src)
        \<and> points_of (V s') src = points_of (V s) src \<and> v_alias (V s') = v_alias (V s)"
  have create: "wp (sseq (cl_create C dst vc kw) ?T) ?Q ?E s2"
    if v: "V s2 = V s" and src: "v_points (V s) (phys (V s) src) \<noteq> None" for s2 vc kw
    unfolding wp_seq
  proof (rule wp_conseq [OF create_law])
    fix x s3
    assume a: "V s3 = V s2\<lparr>v_points := (v_points (V s2))(dst \<mapsto> []),
        v_info := (v_info (V s2))(dst := \<lparr>ci_vectors = vc, ci_params = kw\<rparr>),
        v_schema := (v_schema (V s2))(dst := [])\<rparr> \<and> v_points (V s2) dst = None"
    then have b: "v_points (V s) dst = None" "V s3 = V s\<lparr>v_points := (v_points (V s))(dst \<mapsto> []),
        v_info := (v_info (V s))(dst := \<lparr>ci_vectors = vc, ci_params = kw\<rparr>),
        v_schema := (v_schema (V s))(dst := [])\<rparr>"
      unfolding v by blast+
    have "points_of (V s3) src = points_of (V s) src \<and> v_alias (V s3) = v_alias (V s)
        \<and> apart (V s3) src dst \<and> points_of (V s3) dst = []"
      by (rule made [OF b(1) src al b(2)])
    then show "wp ?T ?Q ?E s3" by (intro tail) simp_all
  next
    fix e s3
    assume a: "V s3 = V s2 \<or> v_points (V s2) dst = None \<and> V s3 = V s2\<lparr>v_points := (v_points (V s2))(dst \<mapsto> []),
        v_info := (v_info (V s2))(dst := \<lparr>ci_vectors = vc, ci_params = kw\<rparr>),
        v_schema := (v_schema (V s2))(dst := [])\<rparr>"
    show "?E e s3"
    proof (cases "V s3 = V s2")
      case False
      with a have b: "v_points (V s) dst = None" "V s3 = V s\<lparr>v_points := (v_points (V s))(dst \<mapsto> []),
        v_info := (v_info (V s))(dst := \<lparr>ci_vectors = vc, ci_params = kw\<rparr>),
        v_schema := (v_schema (V s))(dst := [])\<rparr>"
        unfolding v by blast+
      have "points_of (V s3) src = points_of (V s) src \<and> v_alias (V s3) = v_alias (V s)
        \<and> apart (V s3) src dst \<and> points_of (V s3) dst = []"
        by (rule made [OF b(1) src al b(2)])
      then show ?thesis by simp
    qed (simp add: v)
  qed
  show ?thesis
    unfolding clone_collection_def wp_bind
  proof (rule wp_conseq [OF exists_law])
    fix ex s1
    assume "V s1 = V s \<and> (map_of (v_alias (V s)) dst = None \<longrightarrow> ex = (v_points (V s) dst \<noteq> None))"
    then have v: "V s1 = V s" by blast
    let ?D = "\<lambda>info. case ci_vectors info of NamedVectors vs \<Rightarrow> map_of vs ''dense'' | SingleVector _ \<Rightarrow> None"
    have "wp (sbind (cl_info C src) (\<lambda>info. case ?D info of
           None \<Rightarrow> sraise (Exn RuntimeErr ''copy_source_no_dense'' [JStr src])
         | Some dim \<Rightarrow> sseq (cl_create C dst (collection_vector_configs dim) (collection_distribution_kwargs st)) ?T))
       ?Q ?E s1"
      unfolding wp_bind
    proof (rule wp_conseq [OF info_law])
      fix info s2 assume "V s2 = V s1 \<and> v_points (V s1) (phys (V s1) src) \<noteq> None \<and> info = v_info (V s1) (phys (V s1) src)"
      then have w: "V s2 = V s" "v_points (V s) (phys (V s) src) \<noteq> None" unfolding v by blast+
      show "wp (case ?D info of None \<Rightarrow> sraise (Exn RuntimeErr ''copy_source_no_dense'' [JStr src])
         | Some dim \<Rightarrow> sseq (cl_create C dst (collection_vector_configs dim) (collection_distribution_kwargs st)) ?T)
       ?Q ?E s2"
      proof (cases "?D info")
        case None
        then show ?thesis by (simp add: w)
      next
        case (Some dim)
        show ?thesis unfolding Some option.case by (rule create [OF w])
      qed
    qed (simp add: v)
    then show "wp (if ex then sraise (Exn RuntimeErr ''copy_target_exists'' [JStr dst])
       else sbind (cl_info C src) (\<lambda>info. case ?D info of
           None \<Rightarrow> sraise (Exn RuntimeErr ''copy_source_no_dense'' [JStr src])
         | Some dim \<Rightarrow> sseq (cl_create C dst (collection_vector_configs dim) (collection_distribution_kwargs st)) ?T))
       ?Q ?E s1"
      by (cases ex) (simp_all only: if_True if_False wp_raise v refl simp_thms)
  qed simp
qed

lemma wp_delete_by_revision:
  "wp (delete_by_revision C st srev)
     (\<lambda>_ s'. updated (qdrant_collection st)
        (drop_points (pt_id ` set (matching (V s) (qdrant_collection st) [(''source_rev'', srev)]))) (V s) (V s'))
     (\<lambda>e s'. \<exists>gone \<subseteq> pt_id ` set (matching (V s) (qdrant_collection st) [(''source_rev'', srev)]).
        updated (qdrant_collection st) (drop_points gone) (V s) (V s')) s"
  unfolding delete_by_revision_def by (rule delete_match_law)

text \<open>The cutover: everything before the alias call only reads.\<close>

lemma wp_snapshot_opt [wp_rules]:
  "(\<And>x s'. V s' = V s \<Longrightarrow> Q x s') \<Longrightarrow> (\<And>e s'. V s' = V s \<Longrightarrow> E e s') \<Longrightarrow>
   wp (case old of None \<Rightarrow> sret None | Some n \<Rightarrow> sbind (snapshot_collection C n) (\<lambda>m. sret (Some m))) Q E s"
  by (cases old) (auto simp: snapshot_collection_def intro!: wp_rules split: option.split)

lemma wp_swap_alias:
  fixes st
  defines "alias \<equiv> qdrant_collection st"
  assumes al: "\<forall>a t. map_of (v_alias (V s)) a = Some t \<longrightarrow> map_of (v_alias (V s)) t = None"
  shows "wp (swap_alias_to C st new old build_id)
     (\<lambda>p s'. swapped alias new build_id (V s) (V s')
        \<and> old = (case map_of (v_alias (V s)) alias of None \<Rightarrow> None
                 | Some t \<Rightarrow> if v_points (V s) t \<noteq> None then Some t else None)
        \<and> pub_physical p = new \<and> pub_previous p = old)
     (\<lambda>e s'. V s' = V s \<or> swapped alias new build_id (V s) (V s')) s"
    (is "wp _ ?Q ?E s")
proof -
  have cut: "wp (sbind (cl_aliases C) (\<lambda>as.
         let current = map_of as alias
         in sbind (cl_exists C (case current of Some c \<Rightarrow> c | None \<Rightarrow> alias)) (\<lambda>ex.
            let resolved = (if current = None then None else fst (live_collection_from alias current ex))
            in if resolved \<noteq> old
               then sraise (Exn RuntimeErr ''live_target_moved'' [jopt old, jopt resolved])
               else sbind (cl_update_aliases C (swap_ops alias new (current \<noteq> None) imm)) (\<lambda>ok.
                 if \<not> ok then sraise (Exn RuntimeErr ''alias_swap_rejected'' [JStr alias, JStr new])
                 else sret \<lparr>pub_alias = alias, pub_physical = new, pub_previous = old,
                            pub_snapshot = safety\<rparr>)))) ?Q ?E s1"
    if v: "V s1 = V s" and imm: "immutable_aliases alias build_id = Inr imm \<and> free_names (v_alias (V s)) imm" for imm safety s1
    unfolding wp_bind Let_def
  proof (rule wp_aliases)
    fix as s2 assume a: "V s2 = V s1" "map_of as = map_of (v_alias (V s1))"
    let ?cur = "map_of (v_alias (V s)) alias"
    let ?cand = "case ?cur of Some c \<Rightarrow> c | None \<Rightarrow> alias"
    have m: "map_of as = map_of (v_alias (V s))" using a v by simp
    have cand: "map_of (v_alias (V s)) ?cand = None" using al by (auto split: option.split)
    show "wp (cl_exists C (case map_of as alias of Some c \<Rightarrow> c | None \<Rightarrow> alias))
        (\<lambda>ex. wp (if (if map_of as alias = None then None else fst (live_collection_from alias (map_of as alias) ex)) \<noteq> old
           then sraise (Exn RuntimeErr ''live_target_moved''
              [jopt old, jopt (if map_of as alias = None then None else fst (live_collection_from alias (map_of as alias) ex))])
           else sbind (cl_update_aliases C (swap_ops alias new (map_of as alias \<noteq> None) imm)) (\<lambda>ok.
                 if \<not> ok then sraise (Exn RuntimeErr ''alias_swap_rejected'' [JStr alias, JStr new])
                 else sret \<lparr>pub_alias = alias, pub_physical = new, pub_previous = old,
                            pub_snapshot = safety\<rparr>)) ?Q ?E) ?E s2"
      unfolding m
    proof (rule wp_exists)
      fix ex s3
      assume "V s3 = V s2" "map_of (v_alias (V s2)) ?cand = None \<longrightarrow> ex = (v_points (V s2) ?cand \<noteq> None)"
      then have w: "V s3 = V s" "ex = (v_points (V s) ?cand \<noteq> None)" using cand a(1) v by auto
      let ?res = "if ?cur = None then None else fst (live_collection_from alias ?cur ex)"
      have res: "?res = (case ?cur of None \<Rightarrow> None | Some t \<Rightarrow> if v_points (V s) t \<noteq> None then Some t else None)"
        using w(2) by (auto simp: live_collection_from_def split: option.split)
      show "wp (if ?res \<noteq> old
           then sraise (Exn RuntimeErr ''live_target_moved'' [jopt old, jopt ?res])
           else sbind (cl_update_aliases C (swap_ops alias new (?cur \<noteq> None) imm)) (\<lambda>ok.
                 if \<not> ok then sraise (Exn RuntimeErr ''alias_swap_rejected'' [JStr alias, JStr new])
                 else sret \<lparr>pub_alias = alias, pub_physical = new, pub_previous = old,
                            pub_snapshot = safety\<rparr>)) ?Q ?E s3"
      proof (cases "?res = old")
        case True
        have sw: "swapped alias new build_id (V s) (V s')"
          if "V s' = (V s3)\<lparr>v_alias := fold apply_alias_op (swap_ops alias new (?cur \<noteq> None) imm) (v_alias (V s3))\<rparr>" for s'
          using that imm unfolding w swapped_def by blast
        have "wp (sbind (cl_update_aliases C (swap_ops alias new (?cur \<noteq> None) imm)) (\<lambda>ok.
                 if \<not> ok then sraise (Exn RuntimeErr ''alias_swap_rejected'' [JStr alias, JStr new])
                 else sret \<lparr>pub_alias = alias, pub_physical = new, pub_previous = old,
                            pub_snapshot = safety\<rparr>)) ?Q ?E s3"
          unfolding wp_bind
        proof (rule wp_update_aliases)
          fix s' assume "V s' = (V s3)\<lparr>v_alias := fold apply_alias_op (swap_ops alias new (?cur \<noteq> None) imm) (v_alias (V s3))\<rparr>"
          from sw [OF this] show "wp (if \<not> True then sraise (Exn RuntimeErr ''alias_swap_rejected'' [JStr alias, JStr new])
                 else sret \<lparr>pub_alias = alias, pub_physical = new, pub_previous = old,
                            pub_snapshot = safety\<rparr>) ?Q ?E s'"
            using True res by simp
        next
          fix s' assume "V s' = V s3"
          then show "wp (if \<not> False then sraise (Exn RuntimeErr ''alias_swap_rejected'' [JStr alias, JStr new])
                 else sret \<lparr>pub_alias = alias, pub_physical = new, pub_previous = old,
                            pub_snapshot = safety\<rparr>) ?Q ?E s'" by (simp add: w)
        next
          fix e s' assume "V s' = V s3 \<or> V s' = (V s3)\<lparr>v_alias := fold apply_alias_op (swap_ops alias new (?cur \<noteq> None) imm) (v_alias (V s3))\<rparr>"
          then show "?E e s'" using sw w by metis
        qed
        then show ?thesis using True by (simp only: simp_thms if_False)
      next
        case False
        have "wp (sraise (Exn RuntimeErr ''live_target_moved'' [jopt old, jopt ?res])) ?Q ?E s3" by (simp add: w)
        then show ?thesis unfolding if_P [OF False] .
      qed
    qed (use a v in simp)
  qed (use v in simp)
  show ?thesis
    unfolding swap_alias_to_def alias_def [symmetric] Let_def [of "alias"] wp_bind
  proof (rule wp_aliases)
    fix obs s1 assume a: "V s1 = V s" "map_of obs = map_of (v_alias (V s))"
    show "wp (slift (immutable_aliases alias build_id))
      (\<lambda>imm. wp (if (case imm of None \<Rightarrow> False | Some (a, b) \<Rightarrow> map_of obs a \<noteq> None \<or> map_of obs b \<noteq> None)
         then sraise (Exn RuntimeErr ''build_alias_exists'' []) else
         sbind (case old of None \<Rightarrow> sret None
                | Some old \<Rightarrow> sbind (snapshot_collection C old) (\<lambda>n. sret (Some n))) (\<lambda>safety.
         sbind (cl_aliases C) (\<lambda>as.
         let current = map_of as alias
         in sbind (cl_exists C (case current of Some c \<Rightarrow> c | None \<Rightarrow> alias)) (\<lambda>ex.
            let resolved = (if current = None then None else fst (live_collection_from alias current ex))
            in if resolved \<noteq> old
               then sraise (Exn RuntimeErr ''live_target_moved'' [jopt old, jopt resolved])
               else sbind (cl_update_aliases C (swap_ops alias new (current \<noteq> None) imm)) (\<lambda>ok.
                 if \<not> ok then sraise (Exn RuntimeErr ''alias_swap_rejected'' [JStr alias, JStr new])
                 else sret \<lparr>pub_alias = alias, pub_physical = new, pub_previous = old,
                            pub_snapshot = safety\<rparr>))))) ?Q ?E) ?E s1"
    proof (cases "immutable_aliases alias build_id")
      case (Inl e)
      then show ?thesis by (simp add: a)
    next
      case (Inr imm)
      let ?busy = "case imm of None \<Rightarrow> False | Some (a, b) \<Rightarrow> map_of obs a \<noteq> None \<or> map_of obs b \<noteq> None"
      show ?thesis
      proof (cases ?busy)
        case True
        then show ?thesis unfolding wp_lift Inr sum.case if_P [OF True] wp_raise by (simp add: a)
      next
        case False
        show ?thesis
          unfolding wp_lift Inr sum.case if_not_P [OF False]
          by (subst wp_bind, rule wp_snapshot_opt; (rule cut)?)
             (use False Inr in \<open>auto simp: a free_names_def split: option.splits\<close>)
      qed
    qed
  qed simp
qed

text \<open>Writing the batches one after another is one write of their concatenation.\<close>

lemma wp_upsert_batches:
  "wp (seach (cl_upsert C n) bs) (\<lambda>_ s'. updated n (put_points (concat bs)) (V s) (V s'))
     (\<lambda>e s'. \<exists>qs. set qs \<subseteq> set (concat bs) \<and> updated n (put_points qs) (V s) (V s')) s"
proof (induction bs arbitrary: s)
  case Nil
  show ?case by (simp add: updated_def put_points_def by_id_def)
next
  case (Cons b bs)
  have both: "updated n (put_points (b @ qs)) (V s) (V s2)"
    if "updated n (put_points b) (V s) (V s1)" "updated n (put_points qs) (V s1) (V s2)" for qs s1 s2
    using updated_trans [OF that] by (simp add: put_points_append)
  show ?case
    unfolding seach.simps wp_seq
  proof (rule wp_upsert)
    fix s1 assume u: "updated n (put_points b) (V s) (V s1)"
    show "wp (seach (cl_upsert C n) bs) (\<lambda>_ s'. updated n (put_points (concat (b # bs))) (V s) (V s'))
       (\<lambda>e s'. \<exists>qs. set qs \<subseteq> set (concat (b # bs)) \<and> updated n (put_points qs) (V s) (V s')) s1"
    proof (rule wp_conseq [OF Cons.IH])
      fix e s2 assume "\<exists>qs. set qs \<subseteq> set (concat bs) \<and> updated n (put_points qs) (V s1) (V s2)"
      then obtain qs where q: "set qs \<subseteq> set (concat bs)" "updated n (put_points qs) (V s1) (V s2)" by blast
      have "set (b @ qs) \<subseteq> set (concat (b # bs))" using q(1) by auto
      with both [OF u q(2)] show "\<exists>qs. set qs \<subseteq> set (concat (b # bs)) \<and> updated n (put_points qs) (V s) (V s2)"
        by blast
    qed (use both [OF u] in simp)
  next
    fix e s1 qs assume "set qs \<subseteq> set b" "updated n (put_points qs) (V s) (V s1)"
    moreover have "set b \<subseteq> set (concat (b # bs))" by simp
    ultimately show "\<exists>qs. set qs \<subseteq> set (concat (b # bs)) \<and> updated n (put_points qs) (V s) (V s1)" by blast
  qed
qed

lemma wp_upsert_chunks:
  assumes "1 \<le> batch_size st"
  shows "wp (upsert_chunks C st rv parsed chunks vectors cx)
     (\<lambda>k s'. length chunks = length vectors \<and> k = length chunks
        \<and> updated (qdrant_collection st) (put_points (map (chunk_point parsed rv cx) (zip chunks vectors))) (V s) (V s'))
     (\<lambda>e s'. if length chunks = length vectors
        then \<exists>qs. set qs \<subseteq> set (map (chunk_point parsed rv cx) (zip chunks vectors))
               \<and> updated (qdrant_collection st) (put_points qs) (V s) (V s')
        else V s' = V s) s"
proof (cases "length chunks = length vectors")
  case True
  show ?thesis
    unfolding upsert_chunks_def Let_def if_not_P [OF not_not [THEN iffD2, OF True]] wp_seq
    by (rule wp_conseq [OF wp_upsert_batches]) (simp_all only: concat_batches [OF assms] wp_ret True
        length_map length_zip min.idem if_True simp_thms)
qed (simp add: upsert_chunks_def)

text \<open>
  Creating or examining the collection never touches stored points: an existing collection
  keeps every point, and a new one starts empty.
\<close>

lemma wp_indexes:
  "(\<And>s'. v_points (V s') = v_points (V s) \<Longrightarrow> v_alias (V s') = v_alias (V s) \<Longrightarrow> v_info (V s') = v_info (V s) \<Longrightarrow> Q () s') \<Longrightarrow>
   (\<And>e s'. v_points (V s') = v_points (V s) \<Longrightarrow> v_alias (V s') = v_alias (V s) \<Longrightarrow> v_info (V s') = v_info (V s) \<Longrightarrow> E e s') \<Longrightarrow>
   wp (seach (\<lambda>fld. cl_index C n fld ty) xs) Q E s"
proof (rule wp_conseq [OF wp_seach [where I = "\<lambda>s'. v_points (V s') = v_points (V s) \<and> v_alias (V s') = v_alias (V s)
      \<and> v_info (V s') = v_info (V s)" and E = "\<lambda>e s'. v_points (V s') = v_points (V s) \<and> v_alias (V s') = v_alias (V s)
      \<and> v_info (V s') = v_info (V s)"]])
  fix x s' assume i: "v_points (V s') = v_points (V s) \<and> v_alias (V s') = v_alias (V s) \<and> v_info (V s') = v_info (V s)"
  show "wp (cl_index C n x ty)
      (\<lambda>_ s'. v_points (V s') = v_points (V s) \<and> v_alias (V s') = v_alias (V s) \<and> v_info (V s') = v_info (V s))
      (\<lambda>e s'. v_points (V s') = v_points (V s) \<and> v_alias (V s') = v_alias (V s) \<and> v_info (V s') = v_info (V s)) s'"
    by (rule wp_conseq [OF index_law]) (use i in auto)
qed auto

lemma wp_payload_indexes:
  "(\<And>s'. v_points (V s') = v_points (V s) \<Longrightarrow> v_alias (V s') = v_alias (V s) \<Longrightarrow> v_info (V s') = v_info (V s) \<Longrightarrow> Q () s') \<Longrightarrow>
   (\<And>e s'. v_points (V s') = v_points (V s) \<Longrightarrow> v_alias (V s') = v_alias (V s) \<Longrightarrow> v_info (V s') = v_info (V s) \<Longrightarrow> E e s') \<Longrightarrow>
   wp (ensure_payload_indexes C n) Q E s"
  unfolding ensure_payload_indexes_def wp_seq
  by (rule wp_indexes; (rule wp_conseq [OF index_law])?; force)

lemma wp_check_distribution:
  "wp (check_collection_distribution C n st) (\<lambda>_ s'. V s' = V s) (\<lambda>e s'. V s' = V s) s"
  by (auto simp: check_collection_distribution_def Let_def intro!: wp_rules split: sum.split)

lemma wp_ensure_collection:
  fixes st
  defines "n \<equiv> qdrant_collection st"
  assumes al: "map_of (v_alias (V s)) n = None"
  shows "wp (ensure_collection C st)
     (\<lambda>_ s'. grown n (V s) (V s') \<and> v_points (V s') n \<noteq> None
        \<and> (\<exists>d. require_dense_dim st = Inr d \<and> dense_size (ci_vectors (v_info (V s') n)) = Some d))
     (\<lambda>e s'. grown n (V s) (V s')) s"
    (is "wp _ ?Q ?E s")
proof (cases "require_dense_dim st")
  case (Inl e)
  then show ?thesis by (simp add: ensure_collection_def grownI)
next
  case (Inr dim)
  have ph: "phys (V s) n = n" using al by (simp add: phys_def)
  have present: "wp (sbind (cl_info C n) (\<lambda>info.
                if dense_size (ci_vectors info) \<noteq> Some dim
                then sraise (Exn DimMismatchErr ''dense_dim''
                       [JStr n, jopt_int (dense_size (ci_vectors info)), JInt dim])
                else sseq (check_collection_distribution C n st) (ensure_payload_indexes C n))) ?Q ?E s1"
    if v: "V s1 = V s" for s1
    unfolding wp_bind
  proof (rule wp_info)
    fix s2 assume a: "V s2 = V s1" "v_points (V s1) (phys (V s1) n) \<noteq> None"
    have tail: "wp (ensure_payload_indexes C n) ?Q ?E s3"
      if "V s3 = V s" "dense_size (ci_vectors (v_info (V s) n)) = Some dim" for s3
      by (rule wp_payload_indexes) (use that a v ph Inr in \<open>simp_all add: grownI\<close>)
    show "wp (if dense_size (ci_vectors (v_info (V s1) (phys (V s1) n))) \<noteq> Some dim
                then sraise (Exn DimMismatchErr ''dense_dim''
                       [JStr n, jopt_int (dense_size (ci_vectors (v_info (V s1) (phys (V s1) n)))), JInt dim])
                else sseq (check_collection_distribution C n st) (ensure_payload_indexes C n)) ?Q ?E s2"
    proof (cases "dense_size (ci_vectors (v_info (V s) n)) = Some dim")
      case True
      have "wp (sseq (check_collection_distribution C n st) (ensure_payload_indexes C n)) ?Q ?E s2"
        unfolding wp_seq
        by (rule wp_conseq [OF wp_check_distribution]) (use tail True a v in \<open>simp_all add: grownI\<close>)
      then show ?thesis using True by (simp only: v ph simp_thms if_False)
    qed (use a v ph in \<open>simp add: grownI\<close>)
  qed (use v in \<open>simp add: grownI\<close>)
  have absent: "wp (sseq (cl_create C n (collection_vector_configs dim) (collection_distribution_kwargs st))
                      (ensure_payload_indexes C n)) ?Q ?E s1" if v: "V s1 = V s" for s1
    unfolding wp_seq
  proof (rule wp_conseq [OF create_law])
    fix x s2
    assume a: "V s2 = (V s1)\<lparr>v_points := (v_points (V s1))(n \<mapsto> []),
        v_info := (v_info (V s1))(n := \<lparr>ci_vectors = collection_vector_configs dim, ci_params = collection_distribution_kwargs st\<rparr>),
        v_schema := (v_schema (V s1))(n := [])\<rparr> \<and> v_points (V s1) n = None"
    show "wp (ensure_payload_indexes C n) ?Q ?E s2"
      by (rule wp_payload_indexes)
         (use a v Inr in \<open>simp_all add: grown_def dense_size_def collection_vector_configs_def\<close>)
  qed (use v in \<open>auto simp: grown_def\<close>)
  have body: "ensure_collection C st = sbind (cl_exists C n) (\<lambda>ex.
            if ex then
              sbind (cl_info C n) (\<lambda>info.
                if dense_size (ci_vectors info) \<noteq> Some dim
                then sraise (Exn DimMismatchErr ''dense_dim''
                       [JStr n, jopt_int (dense_size (ci_vectors info)), JInt dim])
                else sseq (check_collection_distribution C n st) (ensure_payload_indexes C n))
            else sseq (cl_create C n (collection_vector_configs dim) (collection_distribution_kwargs st))
                      (ensure_payload_indexes C n))"
    by (simp add: ensure_collection_def Let_def n_def [symmetric] Inr)
  show ?thesis
    unfolding body wp_bind [of "cl_exists C n"]
  proof (rule wp_exists)
    fix ex s1 assume "V s1 = V s"
    then show "wp (if ex then sbind (cl_info C n) (\<lambda>info.
                if dense_size (ci_vectors info) \<noteq> Some dim
                then sraise (Exn DimMismatchErr ''dense_dim''
                       [JStr n, jopt_int (dense_size (ci_vectors info)), JInt dim])
                else sseq (check_collection_distribution C n st) (ensure_payload_indexes C n))
            else sseq (cl_create C n (collection_vector_configs dim) (collection_distribution_kwargs st))
                      (ensure_payload_indexes C n)) ?Q ?E s1"
      using present absent by (cases ex) (simp_all only: if_True if_False)
  qed (simp add: grownI)
qed

end

section \<open>Properties\<close>

text \<open>A corpus of three points in one collection, for the concrete runs.\<close>

definition demo_point :: "string \<Rightarrow> string \<Rightarrow> string \<Rightarrow> point" where
  "demo_point i doc srev = \<lparr>pt_id = i, pt_payload = [(''doc_id'', JStr doc), (''source_rev'', JStr srev)],
                           pt_vectors = JNull\<rparr>"

definition demo_mem :: mem where
  "demo_mem = \<lparr>mem_colls = [(''gen1'', [demo_point ''1'' ''A'' ''r1'', demo_point ''2'' ''A'' ''r2'', demo_point ''3'' ''B'' ''r3''])],
     mem_alias = [(''live'', ''gen1'')],
     mem_info = [(''gen1'', \<lparr>ci_vectors = NamedVectors [(''dense'', 256)], ci_params = []\<rparr>)],
     mem_schema = [(''gen1'', [(''doc_id'', ''keyword'')])]\<rparr>"

definition demo_settings :: "string \<Rightarrow> settings" where
  "demo_settings n = \<lparr>qdrant_collection = n, qdrant_shard_number = None, qdrant_replication_factor = None,
     qdrant_write_consistency_factor = None, qdrant_peer_urls = None, embed_mode = ''hash'', embed_model = None,
     dense_dim = None, embed_model_revision = [], dense_query_prefix = [], batch_size = 16,
     ingest_scan_page_size = 100, bm25_model = ''bm25'', bm25_weights_revision = ''w'',
     contextual_embed_enabled = False, context_llm_model = None, context_max_chars = 200\<rparr>"

definition demo_chunk :: chunk where
  "demo_chunk = \<lparr>ch_id = ''4'', ch_doc_id = ''C'', ch_heading_path = ''H'', ch_page_start = 0, ch_page_label = [],
     ch_type = ''narrative'', ch_text = ''hello'', ch_message_ids = [], ch_members = [], ch_ordinal = 0,
     ch_system_codes = [], ch_units = None, ch_page_end = None\<rparr>"

definition demo_parsed :: parsed_doc where
  "demo_parsed = \<lparr>pd_sha256 = ''abc'', pd_doc_id = ''C'', pd_title = ''T'', pd_product = None, pd_version = None,
     pd_vendor = ''ibm'', pd_page_count = 1\<rparr>"

lemma demo_settings_valid [simp]: "settings_valid (demo_settings n)"
  by (simp add: demo_settings_def settings_valid_def at_least_one_def)

lemma demo_settings_collection [simp]: "qdrant_collection (demo_settings n) = n"
  by (simp add: demo_settings_def)

lemma settings_valid_pages: "settings_valid st \<Longrightarrow> 1 \<le> ingest_scan_page_size st"
  by (simp add: settings_valid_def)

lemma settings_valid_batch: "settings_valid st \<Longrightarrow> 1 \<le> batch_size st"
  by (simp add: settings_valid_def)

lemma demo_points:
  "points_of (mem_view demo_mem) ''live'' = [demo_point ''1'' ''A'' ''r1'', demo_point ''2'' ''A'' ''r2'', demo_point ''3'' ''B'' ''r3'']"
  by (simp add: points_of_def demo_mem_def phys_def mem_view_def) (simp add: demo_point_def)

lemma demo_aliases: "v_alias (mem_view demo_mem) = [(''live'', ''gen1'')]"
  by (simp add: demo_mem_def mem_view_def)

text \<open>C7: a paginated scan is exhaustive. Against any server that keeps the documented scroll
  behaviour, it returns every point matching the filter, once and in the server's order, and
  ends within its page budget; when a page fails, nothing has changed.\<close>
theorem scan_exhaustive:
  assumes "qdrant_reader C V" "1 \<le> page_size"
  shows "wp (scroll_all_points C n f pr page_size)
     (\<lambda>ps s'. V s' = V s \<and> ps = map (project pr False) (filter (matches f) (points_of (V s) n)))
     (\<lambda>e s'. V s' = V s \<and> exn_cls e \<noteq> Unfinished) s"
  using qdrant_reader.wp_scroll_all [OF assms] by (simp add: matching_def)

lemma scan_exhaustive_witness:
  "wp (scroll_all_points mem_client ''live'' [(''doc_id'', ''A'')] WithNone 1)
     (\<lambda>ps s'. map pt_id ps = [''1'', ''2'']) (\<lambda>e s'. exn_cls e \<noteq> Unfinished) demo_mem"
  by (rule wp_conseq [OF scan_exhaustive [OF mem.qdrant_reader_axioms, of 1 "''live''" "[(''doc_id'', ''A'')]" WithNone demo_mem]])
     (simp_all add: demo_points, simp_all add: demo_point_def matches_def field_matches_def)

text \<open>C4: cloning a generation copies it exactly. On success the destination holds the same
  points under the same ids, with their payloads and vectors; on success and on failure the
  source and the aliases are as before, so readers never see the copy in progress.\<close>
theorem clone_collection_copies:
  assumes "qdrant_store C V" "settings_valid st" "map_of (v_alias (V s)) dst = None"
  shows "wp (clone_collection C st src dst)
     (\<lambda>_ s'. by_id (points_of (V s') dst) = by_id (points_of (V s) src)
        \<and> points_of (V s') src = points_of (V s) src \<and> v_alias (V s') = v_alias (V s))
     (\<lambda>e s'. points_of (V s') src = points_of (V s) src \<and> v_alias (V s') = v_alias (V s)) s"
  by (rule qdrant_store.wp_clone [OF assms(1) settings_valid_pages [OF assms(2)] assms(3)])

lemma clone_collection_copies_witness:
  "wp (clone_collection mem_client (demo_settings ''gen2'') ''live'' ''gen2'')
     (\<lambda>_ s'. by_id (points_of (mem_view s') ''gen2'') ''2'' = Some (demo_point ''2'' ''A'' ''r2''))
     (\<lambda>e s'. v_alias (mem_view s') = [(''live'', ''gen1'')]) demo_mem"
proof -
  have "map_of (v_alias (mem_view demo_mem)) ''gen2'' = None" by (simp add: demo_aliases)
  from clone_collection_copies [OF mem.qdrant_store_axioms demo_settings_valid this, of "''gen2''" "''live''"]
  show ?thesis
    by (rule wp_conseq) (simp_all add: demo_points demo_aliases by_id_def, simp_all add: demo_point_def)
qed

text \<open>C3: the cutover is atomic and guarded. It succeeds only when the alias still resolves to
  the generation the caller prepared against, and then exactly the alias updates of this
  publication are applied; when it raises, the server is as before, or the one alias update was
  applied although its reply was lost.\<close>
theorem swap_alias_guarded:
  assumes "qdrant_store C V" "\<forall>a t. map_of (v_alias (V s)) a = Some t \<longrightarrow> map_of (v_alias (V s)) t = None"
  shows "wp (swap_alias_to C st new old build_id)
     (\<lambda>p s'. swapped (qdrant_collection st) new build_id (V s) (V s')
        \<and> old = (case map_of (v_alias (V s)) (qdrant_collection st) of None \<Rightarrow> None
                 | Some t \<Rightarrow> if v_points (V s) t \<noteq> None then Some t else None)
        \<and> pub_physical p = new \<and> pub_previous p = old)
     (\<lambda>e s'. V s' = V s \<or> swapped (qdrant_collection st) new build_id (V s) (V s')) s"
  by (rule qdrant_store.wp_swap_alias [OF assms])

lemma swap_alias_guarded_witness:
  "wp (swap_alias_to mem_client (demo_settings ''live'') ''gen2'' (Some ''gen1'') None)
     (\<lambda>p s'. map_of (v_alias (mem_view s')) ''live'' = Some ''gen2'')
     (\<lambda>e s'. True) demo_mem"
proof -
  have al: "\<forall>a t. map_of (v_alias (mem_view demo_mem)) a = Some t \<longrightarrow> map_of (v_alias (mem_view demo_mem)) t = None"
    by (simp add: demo_aliases)
  show ?thesis
    by (rule wp_conseq [OF swap_alias_guarded [OF mem.qdrant_store_axioms al]])
       (auto simp: swapped_def immutable_aliases_def swap_ops_def apply_alias_op_def)
qed

text \<open>The batched upsert writes exactly the points of its chunks, in order, and counts them;
  misaligned chunks and vectors are refused before anything is written, and a failing batch
  leaves only points of this call behind.\<close>
theorem upsert_chunks_writes:
  assumes "qdrant_store C V" "settings_valid st"
  shows "wp (upsert_chunks C st rv parsed chunks vectors cx)
     (\<lambda>k s'. length chunks = length vectors \<and> k = length chunks
        \<and> updated (qdrant_collection st) (put_points (map (chunk_point parsed rv cx) (zip chunks vectors))) (V s) (V s'))
     (\<lambda>e s'. if length chunks = length vectors
        then \<exists>qs. set qs \<subseteq> set (map (chunk_point parsed rv cx) (zip chunks vectors))
               \<and> updated (qdrant_collection st) (put_points qs) (V s) (V s')
        else V s' = V s) s"
  by (rule qdrant_store.wp_upsert_chunks [OF assms(1) settings_valid_batch [OF assms(2)]])

lemma upsert_chunks_writes_witness:
  "wp (upsert_chunks mem_client (demo_settings ''gen1'') ''rules'' demo_parsed [] [JNull] None)
     (\<lambda>k s'. False) (\<lambda>e s'. mem_view s' = mem_view demo_mem) demo_mem
   \<and> wp (upsert_chunks mem_client (demo_settings ''gen1'') ''rules'' demo_parsed [demo_chunk] [JNull] None)
     (\<lambda>k s'. k = 1 \<and> by_id (points_of (mem_view s') ''gen1'') (ch_id demo_chunk)
        = Some (chunk_point demo_parsed ''rules'' None (demo_chunk, JNull)))
     (\<lambda>e s'. True) demo_mem"
proof (rule conjI; rule wp_conseq [OF upsert_chunks_writes [OF mem.qdrant_store_axioms demo_settings_valid]])
qed (auto simp: updated_def put_points_def by_id_def chunk_point_def map_add_def)

text \<open>Preparing the target never costs a stored point. An existing collection is examined
  and indexed in place, a missing one is created empty, and success means the collection exists
  with the dense size the configuration asks for.\<close>
theorem ensure_collection_preserves:
  assumes "qdrant_store C V" "map_of (v_alias (V s)) (qdrant_collection st) = None"
  shows "wp (ensure_collection C st)
     (\<lambda>_ s'. grown (qdrant_collection st) (V s) (V s') \<and> v_points (V s') (qdrant_collection st) \<noteq> None
        \<and> (\<exists>d. require_dense_dim st = Inr d
              \<and> dense_size (ci_vectors (v_info (V s') (qdrant_collection st))) = Some d))
     (\<lambda>e s'. grown (qdrant_collection st) (V s) (V s')) s"
  by (rule qdrant_store.wp_ensure_collection [OF assms])

lemma ensure_collection_preserves_witness:
  "wp (ensure_collection mem_client (demo_settings ''gen1''))
     (\<lambda>_ s'. points_of (mem_view s') ''gen1'' = points_of (mem_view demo_mem) ''gen1'')
     (\<lambda>e s'. points_of (mem_view s') ''gen1'' = points_of (mem_view demo_mem) ''gen1'') demo_mem"
proof -
  have "map_of (v_alias (mem_view demo_mem)) (qdrant_collection (demo_settings ''gen1'')) = None"
    by (simp add: demo_mem_def mem_view_def)
  from ensure_collection_preserves [OF mem.qdrant_store_axioms this] show ?thesis
    by (rule wp_conseq) (auto simp: grown_def points_of_def phys_def demo_mem_def mem_view_def)
qed

end
