(* ===== verification/Canonical.thy ===== *)
theory Canonical
  imports Prelude
begin

text \<open>
  The canonical JSON text the digests are taken over: \<open>json.dumps(v, sort_keys=True,
  separators=(",", ":"))\<close> of the standard library, with its default ASCII escaping, and
  Python's \<open>str\<close> of a stored value. The lemmas show that the text of a flat object determines
  its values, so a digest of it can stand for the object.
\<close>

section \<open>Strings\<close>

definition hex_digit :: "nat \<Rightarrow> char" where
  "hex_digit n = ''0123456789abcdef'' ! n"

definition json_escape :: "char \<Rightarrow> string" where
  "json_escape c =
     (if c = CHR 0x22 then [CHR 0x5C, CHR 0x22]
      else if c = CHR 0x5C then [CHR 0x5C, CHR 0x5C]
      else if c = CHR 10 then [CHR 0x5C, CHR ''n'']
      else if c = CHR 13 then [CHR 0x5C, CHR ''r'']
      else if c = CHR 9 then [CHR 0x5C, CHR ''t'']
      else if c = CHR 8 then [CHR 0x5C, CHR ''b'']
      else if c = CHR 12 then [CHR 0x5C, CHR ''f'']
      else if of_char c < (32::nat) \<or> 126 < (of_char c :: nat)
      then [CHR 0x5C, CHR ''u'', CHR ''0'', CHR ''0'', hex_digit (of_char c div 16), hex_digit (of_char c mod 16)]
      else [c])"

definition json_string :: "string \<Rightarrow> string" where
  "json_string s = CHR 0x22 # concat (map json_escape s) @ [CHR 0x22]"

section \<open>Values\<close>

text \<open>A separator between the parts, as \<open>sep.join(parts)\<close>.\<close>

fun join_sep :: "char \<Rightarrow> string list \<Rightarrow> string" where
  "join_sep c [] = []"
| "join_sep c [x] = x"
| "join_sep c (x # y # xs) = x @ c # join_sep c (y # xs)"

fun json_text :: "json \<Rightarrow> string" where
  "json_text JNull = ''null''"
| "json_text (JBool b) = (if b then ''true'' else ''false'')"
| "json_text (JInt i) = string_of_int i"
| "json_text (JFloat r) = r"
| "json_text (JStr s) = json_string s"
| "json_text (JList xs) = CHR ''['' # join_sep (CHR '','') (map json_text xs) @ '']''"
| "json_text (JObj kvs) = CHR 0x7B # join_sep (CHR '','')
     (map (\<lambda>(k, t). json_string k @ CHR '':'' # t) (sort_key fst (map (\<lambda>kv. (fst kv, json_text (snd kv))) kvs)))
     @ [CHR 0x7D]"

text \<open>
  \<open>repr\<close> of a string: single quotes unless the text has a single quote and no double quote;
  \<open>str\<close> of a value is the string itself, and \<open>repr\<close> of everything else.
\<close>

definition py_escape :: "char \<Rightarrow> char \<Rightarrow> string" where
  "py_escape q c =
     (if c = q \<or> c = CHR 0x5C then [CHR 0x5C, c]
      else if c = CHR 10 then [CHR 0x5C, CHR ''n'']
      else if c = CHR 13 then [CHR 0x5C, CHR ''r'']
      else if c = CHR 9 then [CHR 0x5C, CHR ''t'']
      else if of_char c < (32::nat) \<or> of_char c = (127::nat)
      then [CHR 0x5C, CHR ''x'', hex_digit (of_char c div 16), hex_digit (of_char c mod 16)]
      else [c])"

definition py_repr_str :: "string \<Rightarrow> string" where
  "py_repr_str s =
     (let q = (if CHR 0x27 \<in> set s \<and> CHR 0x22 \<notin> set s then CHR 0x22 else CHR 0x27)
      in q # concat (map (py_escape q) s) @ [q])"

fun join_comma :: "string list \<Rightarrow> string" where
  "join_comma [] = []"
| "join_comma [x] = x"
| "join_comma (x # y # xs) = x @ '', '' @ join_comma (y # xs)"

fun py_repr :: "json \<Rightarrow> string" where
  "py_repr JNull = ''None''"
| "py_repr (JBool b) = (if b then ''True'' else ''False'')"
| "py_repr (JInt i) = string_of_int i"
| "py_repr (JFloat r) = r"
| "py_repr (JStr s) = py_repr_str s"
| "py_repr (JList xs) = CHR ''['' # join_comma (map py_repr xs) @ '']''"
| "py_repr (JObj kvs) = CHR 0x7B # join_comma
     (map (\<lambda>kv. py_repr_str (fst kv) @ '': '' @ py_repr (snd kv)) kvs) @ [CHR 0x7D]"

fun py_str :: "json \<Rightarrow> string" where
  "py_str (JStr s) = s"
| "py_str v = py_repr v"

section \<open>The text determines the value\<close>

lemma hex_digit_inj: "a < 16 \<Longrightarrow> b < 16 \<Longrightarrow> hex_digit a = hex_digit b \<Longrightarrow> a = b"
proof -
  have "distinct ''0123456789abcdef''" "length ''0123456789abcdef'' = 16" by simp_all
  then show "a < 16 \<Longrightarrow> b < 16 \<Longrightarrow> hex_digit a = hex_digit b \<Longrightarrow> a = b"
    unfolding hex_digit_def by (metis nth_eq_iff_index_eq)
qed

lemma hex_pair_inj:
  assumes "hex_digit ((of_char a :: nat) div 16) = hex_digit (of_char b div 16)"
    "hex_digit ((of_char a :: nat) mod 16) = hex_digit (of_char b mod 16)"
  shows "a = b"
proof -
  have lt: "(of_char c :: nat) div 16 < 16" "(of_char c :: nat) mod 16 < 16" for c :: char
    using nat_of_char_less_256 [of c] by (simp_all add: less_mult_imp_div_less)
  have "(of_char a :: nat) div 16 = of_char b div 16" "(of_char a :: nat) mod 16 = of_char b mod 16"
    using assms lt hex_digit_inj by blast+
  then have "(of_char a :: nat) = of_char b" by (metis div_mult_mod_eq)
  then show ?thesis by simp
qed

lemma json_escape_prefix: "json_escape a @ r = json_escape b @ r' \<Longrightarrow> a = b \<and> r = r'"
  unfolding json_escape_def
  by (auto split: if_splits dest: hex_pair_inj)

lemma json_escape_no_quote: "json_escape a @ r \<noteq> CHR 0x22 # r'"
  by (auto simp: json_escape_def)

text \<open>Any escape code whose words are told apart, and never begin with a quote, makes quoted texts self-delimiting.\<close>

locale quoted =
  fixes esc :: "char \<Rightarrow> string"
  assumes esc_prefix: "esc a @ r = esc b @ r' \<Longrightarrow> a = b \<and> r = r'"
    and esc_no_quote: "esc a @ r \<noteq> CHR 0x22 # r'"
begin

lemma escaped_prefix:
  "concat (map esc s) @ CHR 0x22 # r = concat (map esc t) @ CHR 0x22 # r' \<Longrightarrow> s = t \<and> r = r'"
proof (induction s arbitrary: t)
  case Nil
  then show ?case using esc_no_quote by (cases t) (auto, metis)
next
  case (Cons a s)
  show ?case
  proof (cases t)
    case Nil
    with Cons.prems esc_no_quote show ?thesis by auto
  next
    case (Cons b t')
    with Cons.prems have "esc a @ (concat (map esc s) @ CHR 0x22 # r)
        = esc b @ (concat (map esc t') @ CHR 0x22 # r')" by simp
    from esc_prefix [OF this] Cons.IH [of t'] Cons show ?thesis by simp
  qed
qed

end

interpretation ascii: quoted json_escape
  by unfold_locales (use json_escape_prefix json_escape_no_quote in blast)+

lemma json_string_prefix: "json_string s @ r = json_string t @ r' \<Longrightarrow> s = t \<and> r = r'"
  using ascii.escaped_prefix [of s r t r'] by (simp add: json_string_def)

definition ends_value :: "char \<Rightarrow> bool" where
  "ends_value c \<longleftrightarrow> c = CHR '','' \<or> c = CHR 0x7D"

lemma string_of_int_chars:
  "c \<in> set (string_of_int i) \<Longrightarrow> c = CHR ''-'' \<or> 48 \<le> (of_char c :: nat) \<and> (of_char c :: nat) < 58"
  using string_of_nat_digits by (auto simp: string_of_int_def split: if_splits)

lemma string_of_int_head: "\<exists>c cs. string_of_int i = c # cs \<and> (c = CHR ''-'' \<or> 48 \<le> (of_char c :: nat) \<and> (of_char c :: nat) < 58)"
proof -
  have "string_of_int i \<noteq> []" by (simp add: string_of_int_def)
  then show ?thesis using string_of_int_chars [of _ i] by (cases "string_of_int i") auto
qed

lemma prefix_before:
  assumes "\<forall>c \<in> set xs. \<not> P c" "\<forall>c \<in> set ys. \<not> P c" "P a" "P b" "xs @ a # r = ys @ b # r'"
  shows "xs = ys \<and> a # r = b # r'"
  using assms
proof (induction xs arbitrary: ys)
  case Nil then show ?case by (cases ys) auto
next
  case (Cons x xs) then show ?case by (cases ys) auto
qed

lemma int_prefix:
  assumes "ends_value a" "ends_value b" "string_of_int i @ a # r = string_of_int j @ b # r'"
  shows "i = j \<and> a # r = b # r'"
proof -
  have "\<not> ends_value c" if "c \<in> set (string_of_int k)" for c k
    using string_of_int_chars [OF that] by (auto simp: ends_value_def)
  then show ?thesis using prefix_before [of _ ends_value, OF _ _ assms] by auto
qed

fun is_atom :: "json \<Rightarrow> bool" where
  "is_atom JNull = True"
| "is_atom (JBool b) = True"
| "is_atom (JInt i) = True"
| "is_atom (JStr s) = True"
| "is_atom _ = False"

lemma atom_prefix:
  assumes "is_atom v" "is_atom w" "ends_value a" "ends_value b" "json_text v @ a # r = json_text w @ b # r'"
  shows "v = w \<and> a # r = b # r'"
proof -
  obtain ci di where h: "\<And>i. string_of_int i = ci i # di i"
      "\<And>i. ci i = CHR ''-'' \<or> 48 \<le> (of_char (ci i) :: nat) \<and> (of_char (ci i) :: nat) < 58"
    using string_of_int_head by metis
  have n: "ci i \<noteq> CHR ''n''" "ci i \<noteq> CHR ''t''" "ci i \<noteq> CHR ''f''" "ci i \<noteq> CHR 0x22" for i
    using h(2) [of i] by auto
  show ?thesis
    using assms
    by (cases v; cases w)
       (auto simp: h(1) n n [symmetric] json_string_def split: if_splits
        dest: json_string_prefix [unfolded json_string_def, simplified] int_prefix [unfolded h(1), simplified])
qed

text \<open>Sorting by key commutes with a change of the values.\<close>

lemma insort_key_map_fst:
  "(\<And>kv. fst (g kv) = fst kv) \<Longrightarrow> insort_key fst (g kv) (map g l) = map g (insort_key fst kv l)"
  by (induction l) auto

lemma sort_key_map_fst:
  "(\<And>kv. fst (g kv) = fst kv) \<Longrightarrow> sort_key fst (map g l) = map g (sort_key fst l)"
  by (induction l) (simp_all add: insort_key_map_fst)

lemma map_fst_insort_key: "map fst (insort_key fst x l) = insort (fst x) (map fst l)"
  by (induction l) auto

lemma map_fst_sort_key: "map fst (sort_key fst l) = sort (map fst l)"
  by (induction l) (simp_all add: map_fst_insort_key)

lemma same_keys_same_set:
  assumes "map fst xs = map fst ys" "distinct (map fst xs)" "set xs = set ys"
  shows "xs = ys"
proof (rule nth_equalityI)
  show len: "length xs = length ys" using assms(1) map_eq_imp_length_eq by blast
  fix i assume i: "i < length xs"
  have "xs ! i \<in> set ys" using nth_mem [OF i] unfolding assms(3) .
  moreover have "ys ! i \<in> set ys" using i unfolding len by (rule nth_mem)
  moreover have "fst (xs ! i) = fst (ys ! i)"
    using arg_cong [OF assms(1), of "\<lambda>l. l ! i"] i len by simp
  moreover have "distinct (map fst ys)" using assms(1,2) by simp
  ultimately show "xs ! i = ys ! i"
    by (simp add: distinct_map inj_on_def)
qed

text \<open>
  What the text of a value must promise for the text of an object to determine its members: it
  ends where the next member or the closing brace begins. The object then determines its values
  under any such encoding.
\<close>

definition members_text :: "(string \<Rightarrow> string) \<Rightarrow> (json \<Rightarrow> string) \<Rightarrow> payload \<Rightarrow> string" where
  "members_text key enc kvs = join_sep (CHR '','') (map (\<lambda>kv. key (fst kv) @ CHR '':'' # enc (snd kv)) kvs)"

locale value_text =
  fixes key :: "string \<Rightarrow> string" and enc :: "json \<Rightarrow> string" and ok :: "json \<Rightarrow> bool"
  assumes value_prefix: "ok v \<Longrightarrow> ok w \<Longrightarrow> ends_value a \<Longrightarrow> ends_value b
    \<Longrightarrow> enc v @ a # r = enc w @ b # r' \<Longrightarrow> v = w \<and> a # r = b # r'"
begin

lemma members_prefix:
  assumes "map fst kvs = map fst kws" "list_all (ok \<circ> snd) kvs" "list_all (ok \<circ> snd) kws"
    "members_text key enc kvs @ CHR 0x7D # r = members_text key enc kws @ CHR 0x7D # r'"
  shows "kvs = kws"
  using assms
proof (induction kvs arbitrary: kws)
  case (Cons kv kvs)
  then obtain kw kws' where kws: "kws = kw # kws'" by (cases kws) auto
  have k: "fst kv = fst kw" "map fst kvs = map fst kws'" "ok (snd kv)" "ok (snd kw)"
    using Cons.prems kws by auto
  show ?case
  proof (cases kvs)
    case Nil
    then have "kws' = []" using k(2) by simp
    with Cons.prems(4) Nil kws k(1)
    have "enc (snd kv) @ CHR 0x7D # r = enc (snd kw) @ CHR 0x7D # r'" by (simp add: members_text_def)
    from value_prefix [OF k(3,4) _ _ this] have "snd kv = snd kw" by (simp add: ends_value_def)
    with k(1) kws Nil \<open>kws' = []\<close> show ?thesis by (simp add: prod_eq_iff)
  next
    case (Cons a l)
    then obtain b m where m: "kws' = b # m" using k(2) by (cases kws') auto
    have "enc (snd kv) @ CHR '','' # (members_text key enc kvs @ CHR 0x7D # r)
        = enc (snd kw) @ CHR '','' # (members_text key enc kws' @ CHR 0x7D # r')"
      using Cons.prems(4) kws k(1) Cons m by (simp add: members_text_def)
    from value_prefix [OF k(3,4) _ _ this]
    have "snd kv = snd kw" "members_text key enc kvs @ CHR 0x7D # r = members_text key enc kws' @ CHR 0x7D # r'"
      by (simp_all add: ends_value_def)
    with Cons.IH [OF k(2)] Cons.prems kws k(1) show ?thesis by (simp add: prod_eq_iff)
  qed
qed simp

lemma sorted_members_inject:
  assumes "map fst kvs = map fst kws" "distinct (map fst kvs)" "list_all (ok \<circ> snd) kvs" "list_all (ok \<circ> snd) kws"
    "members_text key enc (sort_key fst kvs) @ CHR 0x7D # r = members_text key enc (sort_key fst kws) @ CHR 0x7D # r'"
  shows "kvs = kws"
proof -
  have "sort_key fst kvs = sort_key fst kws"
    by (rule members_prefix [OF _ _ _ assms(5)]) (use assms in \<open>simp_all add: map_fst_sort_key list_all_iff\<close>)
  then have "set kvs = set kws" by (metis set_sort)
  with assms show "kvs = kws" by (intro same_keys_same_set) simp_all
qed

end

interpretation atom_text: value_text json_string json_text is_atom
  by unfold_locales (use atom_prefix in blast)

text \<open>Two flat objects with the same keys have the same text only if they have the same values.\<close>

theorem flat_object_text_inject:
  assumes "map fst kvs = map fst kws" "distinct (map fst kvs)"
    "list_all (is_atom \<circ> snd) kvs" "list_all (is_atom \<circ> snd) kws"
  shows "json_text (JObj kvs) = json_text (JObj kws) \<longleftrightarrow> kvs = kws"
proof
  have obj: "json_text (JObj l) = CHR 0x7B # members_text json_string json_text (sort_key fst l) @ [CHR 0x7D]" for l
  proof -
    have "sort_key fst (map (\<lambda>kv. (fst kv, json_text (snd kv))) l) = map (\<lambda>kv. (fst kv, json_text (snd kv))) (sort_key fst l)"
      by (rule sort_key_map_fst) simp
    then show ?thesis by (simp add: members_text_def comp_def case_prod_beta)
  qed
  assume "json_text (JObj kvs) = json_text (JObj kws)"
  then show "kvs = kws" unfolding obj by (intro atom_text.sorted_members_inject [OF assms]) simp
qed simp

end
