(* ===== verification/Representation.thy ===== *)
theory Representation
  imports Qdrant_IO Canonical
begin

text \<open>
  The representation contract of a stored collection
  (\<open>mainframe_rag/ingest/representation.py\<close>): the manifest, its digest, the point it is stored
  in, its pending and committed states, and the gates of ingest and of serving that compare it
  with the running configuration.
\<close>

section \<open>Library functions\<close>

text \<open>
  What the code takes from libraries outside the repository: SHA-256 as hexadecimal text, the
  UUID5 of a name in the URL name space, the lax conversions pydantic applies to a stored value
  that does not have the declared type, and the clock. Nothing is assumed of them here; a
  theorem that needs two digests to differ says so.
\<close>

record libs =
  lib_sha256 :: "string \<Rightarrow> string"
  lib_uuid5 :: "string \<Rightarrow> string"
  lib_int :: "json \<Rightarrow> int option"
  lib_bool :: "json \<Rightarrow> bool option"
  lib_float :: "json \<Rightarrow> string option"
  lib_now :: string

text \<open>A field of a pydantic model: its declared type, and its default when the key is missing.\<close>

definition as_int :: "libs \<Rightarrow> json \<Rightarrow> int option" where
  "as_int L v = (case v of JInt i \<Rightarrow> Some i | _ \<Rightarrow> lib_int L v)"

definition as_bool :: "libs \<Rightarrow> json \<Rightarrow> bool option" where
  "as_bool L v = (case v of JBool b \<Rightarrow> Some b | _ \<Rightarrow> lib_bool L v)"

definition as_str :: "json \<Rightarrow> string option" where
  "as_str v = (case v of JStr s \<Rightarrow> Some s | _ \<Rightarrow> None)"

definition as_opt :: "(json \<Rightarrow> 'a option) \<Rightarrow> json \<Rightarrow> 'a option option" where
  "as_opt f v = (if v = JNull then Some None else map_option Some (f v))"

definition field_req :: "payload \<Rightarrow> string \<Rightarrow> (json \<Rightarrow> 'a option) \<Rightarrow> 'a option" where
  "field_req p k f = (if jhas p k then f (jget p k) else None)"

definition field_def :: "payload \<Rightarrow> string \<Rightarrow> 'a \<Rightarrow> (json \<Rightarrow> 'a option) \<Rightarrow> 'a option" where
  "field_def p k d f = (if jhas p k then f (jget p k) else Some d)"

section \<open>The manifest\<close>

definition manifest_schema_version :: int where "manifest_schema_version = 1"
definition context_prompt_version :: string where "context_prompt_version = ''v2''"
definition state_pending :: string where "state_pending = ''pending''"
definition state_committed :: string where "state_committed = ''committed''"
definition identity_schema_source_rev :: string where "identity_schema_source_rev = ''source_rev''"
definition manifest_key_prefix :: string where "manifest_key_prefix = ''representation-manifest''"

record manifest =
  mf_schema_version :: int
  mf_extraction_rules :: string
  mf_identity_schema :: string
  mf_embed_mode :: string
  mf_embed_model :: "string option"
  mf_embed_model_revision :: string
  mf_dense_dim :: "int option"
  mf_contextual_enabled :: bool
  mf_context_llm_model :: "string option"
  mf_context_prompt_version :: string
  mf_context_max_chars :: int
  mf_sparse_model :: string
  mf_sparse_weights_revision :: string
  mf_dense_query_prefix :: string

text \<open>The \<open>mode="before"\<close> validator: a blank context model is an absent one.\<close>

definition blank_is_absent :: "json \<Rightarrow> json" where
  "blank_is_absent v = (case v of JStr s \<Rightarrow> if strip s = [] then JNull else v | _ \<Rightarrow> v)"

definition blank_opt :: "string option \<Rightarrow> string option" where
  "blank_opt v = (case v of Some s \<Rightarrow> if strip s = [] then None else Some s | None \<Rightarrow> None)"

definition dim_or_none :: "settings \<Rightarrow> int option" where
  "dim_or_none s = (case require_dense_dim s of Inr d \<Rightarrow> Some d | Inl _ \<Rightarrow> None)"

definition build_manifest :: "settings \<Rightarrow> string \<Rightarrow> manifest" where
  "build_manifest s rules_v = \<lparr>
     mf_schema_version = manifest_schema_version,
     mf_extraction_rules = rules_v,
     mf_identity_schema = identity_schema_source_rev,
     mf_embed_mode = embed_mode s,
     mf_embed_model = embed_model s,
     mf_embed_model_revision = strip (embed_model_revision s),
     mf_dense_dim = dim_or_none s,
     mf_contextual_enabled = contextual_embed_enabled s,
     mf_context_llm_model = blank_opt (context_llm_model s),
     mf_context_prompt_version = context_prompt_version,
     mf_context_max_chars = context_max_chars s,
     mf_sparse_model = bm25_model s,
     mf_sparse_weights_revision = bm25_weights_revision s,
     mf_dense_query_prefix = dense_query_prefix s\<rparr>"

text \<open>\<open>model_dump(mode="json")\<close>, in field order; \<open>getattr(m, f)\<close> is a lookup in it.\<close>

definition manifest_fields :: "manifest \<Rightarrow> payload" where
  "manifest_fields m =
     [(''schema_version'', JInt (mf_schema_version m)),
      (''extraction_rules'', JStr (mf_extraction_rules m)),
      (''identity_schema'', JStr (mf_identity_schema m)),
      (''embed_mode'', JStr (mf_embed_mode m)),
      (''embed_model'', jopt (mf_embed_model m)),
      (''embed_model_revision'', JStr (mf_embed_model_revision m)),
      (''dense_dim'', jopt_int (mf_dense_dim m)),
      (''contextual_enabled'', JBool (mf_contextual_enabled m)),
      (''context_llm_model'', jopt (mf_context_llm_model m)),
      (''context_prompt_version'', JStr (mf_context_prompt_version m)),
      (''context_max_chars'', JInt (mf_context_max_chars m)),
      (''sparse_model'', JStr (mf_sparse_model m)),
      (''sparse_weights_revision'', JStr (mf_sparse_weights_revision m)),
      (''dense_query_prefix'', JStr (mf_dense_query_prefix m))]"

text \<open>\<open>model_validate\<close>: the first field that does not validate refuses the whole value.\<close>

definition parse_manifest :: "libs \<Rightarrow> payload \<Rightarrow> manifest option" where
  "parse_manifest L p =
     Option.bind (field_def p ''schema_version'' manifest_schema_version (as_int L)) (\<lambda>a.
     Option.bind (field_req p ''extraction_rules'' as_str) (\<lambda>b.
     Option.bind (field_def p ''identity_schema'' identity_schema_source_rev as_str) (\<lambda>c.
     Option.bind (field_req p ''embed_mode'' as_str) (\<lambda>d.
     Option.bind (field_def p ''embed_model'' None (as_opt as_str)) (\<lambda>e.
     Option.bind (field_def p ''embed_model_revision'' [] as_str) (\<lambda>f.
     Option.bind (field_def p ''dense_dim'' None (as_opt (as_int L))) (\<lambda>g.
     Option.bind (field_def p ''contextual_enabled'' False (as_bool L)) (\<lambda>h.
     Option.bind (field_def p ''context_llm_model'' None (as_opt as_str \<circ> blank_is_absent)) (\<lambda>i.
     Option.bind (field_def p ''context_prompt_version'' context_prompt_version as_str) (\<lambda>j.
     Option.bind (field_def p ''context_max_chars'' 0 (as_int L)) (\<lambda>k.
     Option.bind (field_def p ''sparse_model'' [] as_str) (\<lambda>l.
     Option.bind (field_def p ''sparse_weights_revision'' [] as_str) (\<lambda>m.
     Option.bind (field_def p ''dense_query_prefix'' [] as_str) (\<lambda>n.
     Some \<lparr>mf_schema_version = a, mf_extraction_rules = b, mf_identity_schema = c, mf_embed_mode = d,
           mf_embed_model = e, mf_embed_model_revision = f, mf_dense_dim = g, mf_contextual_enabled = h,
           mf_context_llm_model = i, mf_context_prompt_version = j, mf_context_max_chars = k,
           mf_sparse_model = l, mf_sparse_weights_revision = m, mf_dense_query_prefix = n\<rparr>))))))))))))))"

definition digest_of :: "libs \<Rightarrow> manifest \<Rightarrow> string" where
  "digest_of L m = take 16 (lib_sha256 L (json_text (JObj (manifest_fields m))))"

definition manifest_digest :: "libs \<Rightarrow> settings \<Rightarrow> string \<Rightarrow> string" where
  "manifest_digest L s rules_v = digest_of L (build_manifest s rules_v)"

definition manifest_point_id :: "libs \<Rightarrow> string \<Rightarrow> string" where
  "manifest_point_id L completions = lib_uuid5 L (manifest_key_prefix @ ''|'' @ completions)"

section \<open>The stored manifest\<close>

record stored_manifest =
  sm_manifest :: manifest
  sm_state :: string

text \<open>The vector of a control point: zeros of the configured size, and a one-term sparse vector.\<close>

definition control_vector :: "settings \<Rightarrow> json" where
  "control_vector s =
     JObj [(''dense'', JList (replicate (nat (case dim_or_none s of Some d \<Rightarrow> d | None \<Rightarrow> 1)) (JFloat ''0.0''))),
           (''bm25'', JObj [(''indices'', JList [JInt 0]), (''values'', JList [JFloat ''1.0''])])]"

definition manifest_payload :: "libs \<Rightarrow> string \<Rightarrow> manifest \<Rightarrow> string \<Rightarrow> payload" where
  "manifest_payload L completions m st =
     [(''record_type'', JStr manifest_key_prefix),
      (''target_collection'', JStr completions),
      (''manifest_digest'', JStr (digest_of L m)),
      (''manifest'', JObj (manifest_fields m)),
      (''state'', JStr st)]"

definition write_manifest :: "libs \<Rightarrow> 's client \<Rightarrow> string \<Rightarrow> settings \<Rightarrow> string \<Rightarrow> string \<Rightarrow> ('s, string) eff" where
  "write_manifest L C completions s rules_v st =
     (let m = build_manifest s rules_v
      in sseq (cl_upsert C completions [\<lparr>pt_id = manifest_point_id L completions,
                  pt_payload = manifest_payload L completions m st, pt_vectors = control_vector s\<rparr>])
              (sret (manifest_digest L s rules_v)))"

definition record_from_payload :: "libs \<Rightarrow> payload \<Rightarrow> stored_manifest option" where
  "record_from_payload L p =
     (if jget p ''record_type'' \<noteq> JStr manifest_key_prefix then None
      else case jget p ''manifest'' of
        JObj m \<Rightarrow>
          (case (if jhas p ''state'' then jget p ''state'' else JStr state_committed) of
             JStr st \<Rightarrow> map_option (\<lambda>m'. \<lparr>sm_manifest = m', sm_state = st\<rparr>) (parse_manifest L m)
           | _ \<Rightarrow> None)
      | _ \<Rightarrow> None)"

text \<open>\<open>read_manifest_record\<close>: an unreadable point reads as absent.\<close>

definition read_manifest_record :: "libs \<Rightarrow> 's client \<Rightarrow> string \<Rightarrow> bool \<Rightarrow> ('s, stored_manifest option) eff" where
  "read_manifest_record L C completions validate_envelope =
     sbind (cl_exists C completions) (\<lambda>ex.
     if \<not> ex then sret None
     else sbind (scatch (sbind (cl_retrieve C completions [manifest_point_id L completions] WithAll False)
                           (\<lambda>ps. sret (Some ps)))
                        (\<lambda>_. sret None)) (\<lambda>got.
       sret (case got of
          None \<Rightarrow> None
        | Some [] \<Rightarrow> None
        | Some (p # _) \<Rightarrow>
            (case record_from_payload L (pt_payload p) of
               None \<Rightarrow> None
             | Some r \<Rightarrow>
                 if validate_envelope
                    \<and> (jget (pt_payload p) ''target_collection'' \<noteq> JStr completions
                       \<or> jget (pt_payload p) ''manifest_digest'' \<noteq> JStr (digest_of L (sm_manifest r)))
                 then None else Some r))))"

definition read_manifest :: "libs \<Rightarrow> 's client \<Rightarrow> string \<Rightarrow> ('s, manifest option) eff" where
  "read_manifest L C completions =
     sbind (read_manifest_record L C completions False) (\<lambda>r. sret (map_option sm_manifest r))"

section \<open>Comparing contracts\<close>

definition reembed_fields :: "string list" where
  "reembed_fields = [''schema_version'', ''extraction_rules'', ''identity_schema'', ''embed_mode'',
     ''embed_model'', ''embed_model_revision'', ''dense_dim'', ''contextual_enabled'', ''context_llm_model'',
     ''context_prompt_version'', ''context_max_chars'', ''sparse_model'', ''sparse_weights_revision'']"

definition record_only_fields :: "string list" where
  "record_only_fields = [''dense_query_prefix'']"

text \<open>The outcomes of the gates.\<close>

datatype outcome = Compatible | Record_Only_Drift | Reembed_Required | Legacy | Empty | Pending_Contract | Unknown_Store

definition changed_fields :: "string list \<Rightarrow> manifest \<Rightarrow> manifest \<Rightarrow> string list" where
  "changed_fields fs stored wanted =
     filter (\<lambda>f. jget (manifest_fields stored) f \<noteq> jget (manifest_fields wanted) f) fs"

definition compare_manifests :: "manifest \<Rightarrow> manifest \<Rightarrow> outcome \<times> string list" where
  "compare_manifests stored wanted =
     (let reembed = changed_fields reembed_fields stored wanted;
          record_only = changed_fields record_only_fields stored wanted
      in if reembed \<noteq> [] then (Reembed_Required, reembed)
         else if record_only \<noteq> [] then (Record_Only_Drift, record_only)
         else (Compatible, []))"

section \<open>Opening and committing a contract\<close>

datatype manifest_mode = Already_Current | Mode_Committed | Mode_Pending

definition begin_manifest :: "libs \<Rightarrow> 's client \<Rightarrow> string \<Rightarrow> settings \<Rightarrow> string \<Rightarrow> ('s, string \<times> manifest_mode) eff" where
  "begin_manifest L C completions s rules_v =
     (let wanted = build_manifest s rules_v;
          declare_pending = sbind (write_manifest L C completions s rules_v state_pending) (\<lambda>d. sret (d, Mode_Pending))
      in sbind (read_manifest_record L C completions False) (\<lambda>stored.
         case stored of
           None \<Rightarrow> declare_pending
         | Some r \<Rightarrow>
             if sm_state r = state_committed then
               (if sm_manifest r = wanted then sret (digest_of L wanted, Already_Current)
                else if fst (compare_manifests (sm_manifest r) wanted) = Record_Only_Drift
                then sbind (write_manifest L C completions s rules_v state_committed) (\<lambda>d. sret (d, Mode_Committed))
                else declare_pending)
             else declare_pending))"

definition commit_manifest :: "libs \<Rightarrow> 's client \<Rightarrow> string \<Rightarrow> settings \<Rightarrow> string \<Rightarrow> ('s, string) eff" where
  "commit_manifest L C completions s rules_v = write_manifest L C completions s rules_v state_committed"

section \<open>The gates\<close>

definition require_attested_revision :: "settings \<Rightarrow> unit res" where
  "require_attested_revision s =
     (if embed_mode s \<noteq> ''vllm'' then Inr ()
      else if strip (embed_model_revision s) = []
      then raise_exn RuntimeErr ''unattested_revision'' [jopt (embed_model s)] else Inr ())"

definition reject_unversioned_target :: "libs \<Rightarrow> 's client \<Rightarrow> settings \<Rightarrow> string \<Rightarrow> ('s, unit) eff" where
  "reject_unversioned_target L C s completions =
     sbind (read_manifest_record L C completions False) (\<lambda>r.
     if r \<noteq> None then sret ()
     else sbind (cl_scroll C (qdrant_collection s) [] 1 WithNone False None) (\<lambda>(points, _).
       sensure (points = []) (Exn RuntimeErr ''unversioned_target'' [JStr (qdrant_collection s)])))"

definition check_ingest_compatible :: "libs \<Rightarrow> 's client \<Rightarrow> settings \<Rightarrow> string \<Rightarrow> string \<Rightarrow> ('s, string \<times> string list) eff" where
  "check_ingest_compatible L C s completions rules_v =
     sseq (slift (require_attested_revision s))
    (let wanted = build_manifest s rules_v; digest = digest_of L wanted
     in sseq (reject_unversioned_target L C s completions)
       (sbind (read_manifest_record L C completions False) (\<lambda>stored.
        case stored of
          None \<Rightarrow> sret (digest, [])
        | Some r \<Rightarrow>
            if sm_state r \<noteq> state_committed
            then sraise (Exn RuntimeErr ''unfinished_migration'' [JStr (qdrant_collection s), JStr (sm_state r)])
            else (case compare_manifests (sm_manifest r) wanted of
                    (Reembed_Required, fs) \<Rightarrow>
                       sraise (Exn RuntimeErr ''representation_drift''
                         [JList (map JStr fs), JStr (qdrant_collection s),
                          JStr (digest_of L (sm_manifest r)), JStr digest])
                  | (Record_Only_Drift, fs) \<Rightarrow> sret (digest, fs)
                  | (_, fs) \<Rightarrow> sret (digest, [])))))"

definition rekey_manifest :: "libs \<Rightarrow> 's client \<Rightarrow> string \<Rightarrow> string \<Rightarrow> ('s, bool) eff" where
  "rekey_manifest L C src dst =
     sbind (cl_exists C src) (\<lambda>ex.
     if \<not> ex then sret False
     else sbind (cl_retrieve C src [manifest_point_id L src] WithAll True) (\<lambda>ps.
       case ps of
         [] \<Rightarrow> sret False
       | p # _ \<Rightarrow>
           (case record_from_payload L (pt_payload p) of
              None \<Rightarrow> sret False
            | Some r \<Rightarrow>
                if pt_vectors p = JNull then sret False
                else sseq (cl_upsert C dst [\<lparr>pt_id = manifest_point_id L dst,
                        pt_payload = manifest_payload L dst (sm_manifest r) (sm_state r), pt_vectors = pt_vectors p\<rparr>])
                      (sret True))))"

section \<open>Serving\<close>

definition read_manifest_record_async :: "libs \<Rightarrow> 's client \<Rightarrow> string \<Rightarrow> ('s, stored_manifest option) eff" where
  "read_manifest_record_async L C completions =
     sbind (cl_exists C completions) (\<lambda>ex.
     if \<not> ex then sret None
     else sbind (cl_retrieve C completions [manifest_point_id L completions] WithAll False) (\<lambda>ps.
       sret (case ps of [] \<Rightarrow> None | p # _ \<Rightarrow> record_from_payload L (pt_payload p))))"

definition serving_outcome :: "libs \<Rightarrow> 's client \<Rightarrow> settings \<Rightarrow> string \<Rightarrow> string \<Rightarrow> ('s, outcome \<times> string list) eff" where
  "serving_outcome L C s completions rules_v =
     sseq (slift (require_attested_revision s))
    (scatch
      (sbind (read_manifest_record_async L C completions) (\<lambda>stored.
       case stored of
         None \<Rightarrow> sbind (cl_scroll C (qdrant_collection s) [] 1 WithNone False None) (\<lambda>(points, _).
                   sret (if points = [] then (Empty, []) else (Legacy, [])))
       | Some r \<Rightarrow>
           if sm_state r \<noteq> state_committed then sret (Pending_Contract, [])
           else sret (compare_manifests (sm_manifest r) (build_manifest s rules_v))))
      (\<lambda>_. sret (Unknown_Store, [])))"

definition completion_collection_for :: "string \<Rightarrow> string" where
  "completion_collection_for collection = collection @ ''__completions''"

definition resolve_serving_generation ::
    "libs \<Rightarrow> 's client \<Rightarrow> settings \<Rightarrow> string \<Rightarrow> ('s, string option \<times> outcome \<times> string list) eff" where
  "resolve_serving_generation L C s rules_v =
     (let alias = qdrant_collection s
      in sbind (cl_aliases C) (\<lambda>as.
         let target = map_of as alias
         in sbind (cl_exists C (case target of Some t \<Rightarrow> t | None \<Rightarrow> alias)) (\<lambda>ex.
            case fst (live_collection_from alias target ex) of
              None \<Rightarrow> sret (None, Empty, [])
            | Some physical \<Rightarrow>
                sbind (serving_outcome L C (s\<lparr>qdrant_collection := physical\<rparr>) (completion_collection_for physical) rules_v)
                  (\<lambda>(out, details). sret (Some physical, out, details)))))"

section \<open>Manifests and their text\<close>

lemma manifest_fields_keys: "map fst (manifest_fields m) = map fst (manifest_fields m')"
  by (simp add: manifest_fields_def)

lemma manifest_fields_distinct: "distinct (map fst (manifest_fields m))"
  by (simp add: manifest_fields_def)

lemma is_atom_jopt [simp]: "is_atom (jopt v)" "is_atom (jopt_int i)"
  by (cases v; simp) (cases i; simp)

lemma jopt_int_inj [simp]: "jopt_int a = jopt_int b \<longleftrightarrow> a = b"
  by (cases a; cases b) auto

lemma manifest_fields_atoms: "list_all (is_atom \<circ> snd) (manifest_fields m)"
  by (simp add: manifest_fields_def)

lemma manifest_fields_inject [simp]: "manifest_fields m = manifest_fields m' \<longleftrightarrow> m = m'"
  by (cases m; cases m') (auto simp: manifest_fields_def)

lemma manifest_text_inject: "json_text (JObj (manifest_fields m)) = json_text (JObj (manifest_fields m')) \<longleftrightarrow> m = m'"
  by (subst flat_object_text_inject [OF manifest_fields_keys manifest_fields_distinct manifest_fields_atoms manifest_fields_atoms])
     simp

lemma blank_opt_idem [simp]: "blank_opt (blank_opt v) = blank_opt v"
  by (auto simp: blank_opt_def split: option.splits)

lemma build_manifest_blank [simp]: "blank_opt (mf_context_llm_model (build_manifest s rv)) = mf_context_llm_model (build_manifest s rv)"
  by (simp add: build_manifest_def)

lemma as_opt_jopt [simp]: "as_opt as_str (jopt v) = Some v"
  by (cases v) (simp_all add: as_opt_def as_str_def)

lemma as_opt_jopt_int [simp]: "as_opt (as_int L) (jopt_int v) = Some v"
  by (cases v) (simp_all add: as_opt_def as_int_def)

lemma as_opt_blank [simp]: "as_opt as_str (blank_is_absent (jopt v)) = Some (blank_opt v)"
  by (cases v) (simp_all add: as_opt_def as_str_def blank_is_absent_def blank_opt_def)

text \<open>Reading back what \<open>model_dump\<close> wrote.\<close>

lemma parse_manifest_fields:
  assumes "blank_opt (mf_context_llm_model m) = mf_context_llm_model m"
  shows "parse_manifest L (manifest_fields m) = Some m"
proof -
  have "parse_manifest L (manifest_fields m) = Some (m\<lparr>mf_context_llm_model := blank_opt (mf_context_llm_model m)\<rparr>)"
    by (cases m) (simp add: parse_manifest_def manifest_fields_def field_def_def field_req_def as_int_def as_bool_def as_str_def)
  then show ?thesis using assms by simp
qed

lemma record_from_manifest_payload:
  assumes "blank_opt (mf_context_llm_model m) = mf_context_llm_model m"
  shows "record_from_payload L (manifest_payload L cc m st) = Some \<lparr>sm_manifest = m, sm_state = st\<rparr>"
  by (simp add: record_from_payload_def manifest_payload_def parse_manifest_fields [OF assms])

section \<open>Comparison\<close>

lemma changed_fields_Nil: "changed_fields fs m m' = [] \<longleftrightarrow> (\<forall>f \<in> set fs. jget (manifest_fields m) f = jget (manifest_fields m') f)"
  by (auto simp: changed_fields_def filter_empty_conv)

text \<open>Two contracts store the same vectors: they differ at most in the query prefix.\<close>

definition same_vectors :: "manifest \<Rightarrow> manifest \<Rightarrow> bool" where
  "same_vectors m m' \<longleftrightarrow> m\<lparr>mf_dense_query_prefix := mf_dense_query_prefix m'\<rparr> = m'"

lemma no_reembed_iff: "changed_fields reembed_fields m m' = [] \<longleftrightarrow> same_vectors m m'"
  by (cases m; cases m') (auto simp: changed_fields_Nil reembed_fields_def manifest_fields_def same_vectors_def)

lemma no_record_iff: "changed_fields record_only_fields m m' = [] \<longleftrightarrow> mf_dense_query_prefix m = mf_dense_query_prefix m'"
  by (auto simp: changed_fields_Nil record_only_fields_def manifest_fields_def)

lemma same_vectors_eq: "same_vectors m m' \<Longrightarrow> mf_dense_query_prefix m = mf_dense_query_prefix m' \<Longrightarrow> m = m'"
  by (cases m; cases m') (simp add: same_vectors_def)

lemma compare_cases:
  "compare_manifests m m' = (if \<not> same_vectors m m' then (Reembed_Required, changed_fields reembed_fields m m')
     else if m \<noteq> m' then (Record_Only_Drift, [''dense_query_prefix'']) else (Compatible, []))"
proof -
  have "changed_fields record_only_fields m m' = [''dense_query_prefix'']"
    if "mf_dense_query_prefix m \<noteq> mf_dense_query_prefix m'"
    using that by (simp add: changed_fields_def record_only_fields_def manifest_fields_def)
  moreover have "same_vectors m m" by (simp add: same_vectors_def)
  ultimately show ?thesis
    using same_vectors_eq by (auto simp: compare_manifests_def Let_def no_reembed_iff no_record_iff)
qed

section \<open>The contract a store holds\<close>

definition contract_in :: "libs \<Rightarrow> view \<Rightarrow> string \<Rightarrow> stored_manifest option" where
  "contract_in L v cc =
     (case by_id (points_of v cc) (manifest_point_id L cc) of
        None \<Rightarrow> None | Some p \<Rightarrow> record_from_payload L (pt_payload p))"

text \<open>A server that answers reads: a get by id on an existing collection does not fail.\<close>

definition retrieve_answers :: "'s client \<Rightarrow> ('s \<Rightarrow> view) \<Rightarrow> bool" where
  "retrieve_answers C V \<longleftrightarrow> (\<forall>s n ids pr vec. v_points (V s) (phys (V s) n) \<noteq> None
     \<longrightarrow> (\<exists>ps s'. cl_retrieve C n ids pr vec s = (Inr ps, s')))"

lemma by_id_same: "set qs \<subseteq> {p} \<Longrightarrow> by_id qs i = (if qs \<noteq> [] \<and> i = pt_id p then Some p else None)"
  by (induction qs) (auto simp: by_id_def)

text \<open>Writing one control point replaces the contract, or leaves it.\<close>

lemma contract_put:
  assumes "updated cc (put_points qs) v v'" "set qs \<subseteq> {p}" "pt_id p = manifest_point_id L cc"
  shows "contract_in L v' cc = (if qs = [] then contract_in L v cc else record_from_payload L (pt_payload p))"
proof -
  have "by_id (points_of v' cc) = by_id (points_of v cc) ++ by_id (rev qs)"
    using assms(1) by (simp add: updated_def put_points_def)
  moreover have "set (rev qs) \<subseteq> {p}" using assms(2) by simp
  ultimately show ?thesis
    using assms(3) by (simp add: contract_in_def map_add_def by_id_same)
qed

lemma project_all_payload [simp]: "pt_payload (project WithAll vec p) = pt_payload p"
  by (simp add: project_def project_payload_def)

text \<open>Opening a contract never turns it into a committed one for other vectors.\<close>

definition certified_before :: "libs \<Rightarrow> view \<Rightarrow> string \<Rightarrow> view \<Rightarrow> bool" where
  "certified_before L v cc v' \<longleftrightarrow>
     (\<forall>m. contract_in L v' cc = Some \<lparr>sm_manifest = m, sm_state = state_committed\<rparr> \<longrightarrow>
        (\<exists>m0. contract_in L v cc = Some \<lparr>sm_manifest = m0, sm_state = state_committed\<rparr> \<and> same_vectors m0 m))"

text \<open>A contract that was read never has a blank context model.\<close>

lemma as_opt_blank_normal: "as_opt as_str (blank_is_absent v) = Some i \<Longrightarrow> blank_opt i = i"
  by (cases v) (auto simp: as_opt_def as_str_def blank_is_absent_def blank_opt_def split: if_splits)

lemma field_blank_normal: "field_def p k None (as_opt as_str \<circ> blank_is_absent) = Some i \<Longrightarrow> blank_opt i = i"
  by (auto simp: field_def_def as_opt_blank_normal split: if_splits) (simp add: blank_opt_def)

lemma bind_SomeE: "Option.bind x f = Some y \<Longrightarrow> (\<And>a. x = Some a \<Longrightarrow> f a = Some y \<Longrightarrow> R) \<Longrightarrow> R"
  by (cases x) auto

lemma parse_manifest_blank: "parse_manifest L p = Some m \<Longrightarrow> blank_opt (mf_context_llm_model m) = mf_context_llm_model m"
  unfolding parse_manifest_def
  by (elim bind_SomeE, drule option.inject [THEN iffD1], drule field_blank_normal, erule subst) (simp only: manifest.simps)

lemma contract_in_blank: "contract_in L v cc = Some c \<Longrightarrow>
    blank_opt (mf_context_llm_model (sm_manifest c)) = mf_context_llm_model (sm_manifest c)"
  by (auto simp: contract_in_def record_from_payload_def dest: parse_manifest_blank
      split: option.splits if_splits json.splits)

context qdrant_reader
begin

text \<open>A get by one id answers with that point or with nothing.\<close>

lemma wp_retrieve_one:
  assumes "\<And>s'. V s' = V s \<Longrightarrow> by_id (points_of (V s) n) i = None \<Longrightarrow> Q [] s'"
    and "\<And>p s'. V s' = V s \<Longrightarrow> by_id (points_of (V s) n) i = Some p \<Longrightarrow> Q [project pr vec p] s'"
    and "\<And>e s'. V s' = V s \<Longrightarrow> E e s'"
  shows "wp (cl_retrieve C n [i] pr vec) Q E s"
proof (rule wp_retrieve)
  fix ps s'
  assume v: "V s' = V s" and d: "distinct (map pt_id ps)"
    and ps: "set ps = project pr vec ` {p \<in> set (points_of (V s) n). pt_id p \<in> set [i]}"
  show "Q ps s'"
  proof (cases "by_id (points_of (V s) n) i")
    case None
    then have none: "{p \<in> set (points_of (V s) n). pt_id p \<in> set [i]} = {}" by (auto simp: by_id_None)
    have "ps = []" using ps unfolding none by simp
    with assms(1) [OF v None] show ?thesis by simp
  next
    case (Some p)
    have one: "{p \<in> set (points_of (V s) n). pt_id p \<in> set [i]} = {p}"
      using Some wf [of s n] by (auto simp: by_id_in [OF wf] distinct_map inj_on_def)
    have only: "set ps = {project pr vec p}" using ps unfolding one by simp
    moreover have "distinct ps" using d by (simp add: distinct_map)
    ultimately have "length ps = 1" using distinct_card by fastforce
    then have "ps = [project pr vec p]" using only by (cases ps) auto
    with assms(2) [OF v Some] show ?thesis by simp
  qed
qed (rule assms(3))

text \<open>What a read answers is the contract of the store, or nothing when the read fails.\<close>

lemma wp_read_manifest_record:
  "wp (read_manifest_record L C cc False)
     (\<lambda>r s'. V s' = V s \<and> (r = None \<or> r = contract_in L (V s) cc)) (\<lambda>e s'. V s' = V s) s"
  unfolding read_manifest_record_def wp_bind
  by (rule wp_exists; simp; (intro conjI impI)?; (rule wp_retrieve_one)?)
     (auto simp: contract_in_def split: option.split)

lemma wp_read_manifest_sure:
  assumes "retrieve_answers C V" "map_of (v_alias (V s)) cc = None"
  shows "wp (read_manifest_record L C cc False)
     (\<lambda>r s'. V s' = V s \<and> r = contract_in L (V s) cc) (\<lambda>e s'. V s' = V s) s"
proof -
  have ph: "phys (V s) cc = cc" using assms(2) by (simp add: phys_def)
  show ?thesis
    unfolding read_manifest_record_def wp_bind
  proof (rule wp_exists)
    fix ex s1
    assume v: "V s1 = V s" and ex: "map_of (v_alias (V s)) cc = None \<longrightarrow> ex = (v_points (V s) cc \<noteq> None)"
    show "wp (if \<not> ex then sret None
      else sbind (scatch (sbind (cl_retrieve C cc [manifest_point_id L cc] WithAll False) (\<lambda>ps. sret (Some ps)))
                         (\<lambda>_. sret None)) (\<lambda>got.
       sret (case got of None \<Rightarrow> None | Some [] \<Rightarrow> None
        | Some (p # _) \<Rightarrow> (case record_from_payload L (pt_payload p) of None \<Rightarrow> None
             | Some r \<Rightarrow> if False \<and> (jget (pt_payload p) ''target_collection'' \<noteq> JStr cc
                       \<or> jget (pt_payload p) ''manifest_digest'' \<noteq> JStr (digest_of L (sm_manifest r)))
                 then None else Some r))))
       (\<lambda>r s'. V s' = V s \<and> r = contract_in L (V s) cc) (\<lambda>e s'. V s' = V s) s1"
    proof (cases ex)
      case False
      with ex assms(2) have "points_of (V s) cc = []" by (simp add: points_of_def ph)
      with False v show ?thesis by (simp add: contract_in_def by_id_def)
    next
      case True
      with ex assms(2) v ph have "v_points (V s1) (phys (V s1) cc) \<noteq> None" by simp
      then obtain ps s2 where run: "cl_retrieve C cc [manifest_point_id L cc] WithAll False s1 = (Inr ps, s2)"
        using assms(1) unfolding retrieve_answers_def by blast
      let ?Q = "\<lambda>ps s'. V s' = V s \<and> (case ps of [] \<Rightarrow> contract_in L (V s) cc = None
            | p # _ \<Rightarrow> contract_in L (V s) cc = record_from_payload L (pt_payload p))"
      have "wp (cl_retrieve C cc [manifest_point_id L cc] WithAll False) ?Q (\<lambda>e s'. True) s1"
        by (rule wp_retrieve_one) (use v in \<open>auto simp: contract_in_def\<close>)
      from wp_InrD [OF this run] have q: "?Q ps s2" .
      then show ?thesis
        using True by (simp add: wp_def run sret_def sbind_def scatch_def split: list.splits option.splits)
    qed
  qed simp
qed

text \<open>The ingest gate, on a server that answers reads.\<close>

lemma wp_check_ingest_compatible:
  assumes "retrieve_answers C V" "map_of (v_alias (V s)) cc = None"
  shows "wp (check_ingest_compatible L C st cc rv)
     (\<lambda>r s'. V s' = V s \<and> require_attested_revision st = Inr () \<and> fst r = manifest_digest L st rv
        \<and> (case contract_in L (V s) cc of
             None \<Rightarrow> points_of (V s) (qdrant_collection st) = [] \<and> snd r = []
           | Some c \<Rightarrow> sm_state c = state_committed \<and> same_vectors (sm_manifest c) (build_manifest st rv)
                \<and> snd r = changed_fields record_only_fields (sm_manifest c) (build_manifest st rv)))
     (\<lambda>e s'. V s' = V s) s"
    (is "wp _ ?Q ?E s")
proof (cases "require_attested_revision st")
  case (Inl e)
  then show ?thesis by (simp add: check_ingest_compatible_def)
next
  case (Inr u)
  let ?c = "contract_in L (V s) cc"
  have gate: "wp (reject_unversioned_target L C st cc)
      (\<lambda>_ s'. V s' = V s \<and> (?c = None \<longrightarrow> points_of (V s) (qdrant_collection st) = [])) ?E s"
    unfolding reject_unversioned_target_def wp_bind
  proof (rule wp_conseq [OF wp_read_manifest_sure [OF assms]])
    fix r s1 assume r: "V s1 = V s \<and> r = ?c"
    show "wp (if r \<noteq> None then sret ()
        else sbind (cl_scroll C (qdrant_collection st) [] 1 WithNone False None) (\<lambda>(points, _).
          sensure (points = []) (Exn RuntimeErr ''unversioned_target'' [JStr (qdrant_collection st)])))
      (\<lambda>_ s'. V s' = V s \<and> (?c = None \<longrightarrow> points_of (V s) (qdrant_collection st) = [])) ?E s1"
      using r by (auto simp: matching_def matches_def intro!: wp_first_page)
  qed simp
  let ?decide = "\<lambda>c. case c of None \<Rightarrow> sret (digest_of L (build_manifest st rv), [])
        | Some r \<Rightarrow>
            if sm_state r \<noteq> state_committed
            then sraise (Exn RuntimeErr ''unfinished_migration'' [JStr (qdrant_collection st), JStr (sm_state r)])
            else (case compare_manifests (sm_manifest r) (build_manifest st rv) of
                    (Reembed_Required, fs) \<Rightarrow>
                       sraise (Exn RuntimeErr ''representation_drift''
                         [JList (map JStr fs), JStr (qdrant_collection st),
                          JStr (digest_of L (sm_manifest r)), JStr (digest_of L (build_manifest st rv))])
                  | (Record_Only_Drift, fs) \<Rightarrow> sret (digest_of L (build_manifest st rv), fs)
                  | (_, fs) \<Rightarrow> sret (digest_of L (build_manifest st rv), []))"
  have decide: "wp (?decide c) ?Q ?E s2"
    if "c = ?c" "V s2 = V s" "?c = None \<longrightarrow> points_of (V s) (qdrant_collection st) = []" for c s2
  proof (cases ?c)
    case None
    with that Inr show ?thesis by (simp add: manifest_digest_def)
  next
    case (Some r)
    have drift: "changed_fields record_only_fields m m' = (if m = m' then [] else [''dense_query_prefix''])"
      if "same_vectors m m'" for m m'
      using same_vectors_eq [OF that]
      by (auto simp: changed_fields_def record_only_fields_def manifest_fields_def)
    from Some that Inr show ?thesis by (simp add: manifest_digest_def compare_cases drift)
  qed
  have body: "check_ingest_compatible L C st cc rv = sseq (reject_unversioned_target L C st cc)
      (sbind (read_manifest_record L C cc False) (?decide))"
    by (simp add: check_ingest_compatible_def Inr Let_def sseq_def)
  show ?thesis
    unfolding body wp_seq wp_bind
  proof (rule wp_conseq [OF gate])
    fix x s1 assume g: "V s1 = V s \<and> (?c = None \<longrightarrow> points_of (V s) (qdrant_collection st) = [])"
    then have al: "map_of (v_alias (V s1)) cc = None" using assms(2) by simp
    show "wp (read_manifest_record L C cc False) (\<lambda>c. wp (?decide c) ?Q ?E) ?E s1"
      by (rule wp_conseq [OF wp_read_manifest_sure [OF assms(1) al]]) (use decide g in simp_all)
  qed simp
qed

text \<open>Serving never writes, and calls a contract compatible only when it is committed and the same.\<close>

lemma wp_serving_outcome:
  "wp (serving_outcome L C st cc rv)
     (\<lambda>r s'. V s' = V s \<and> require_attested_revision st = Inr ()
        \<and> (fst r \<in> {Compatible, Record_Only_Drift} \<longrightarrow>
             (\<exists>m. contract_in L (V s) cc = Some \<lparr>sm_manifest = m, sm_state = state_committed\<rparr>
                \<and> same_vectors m (build_manifest st rv) \<and> (fst r = Compatible \<longleftrightarrow> m = build_manifest st rv)))
        \<and> (fst r = Empty \<longrightarrow> points_of (V s) (qdrant_collection st) = []))
     (\<lambda>e s'. V s' = V s \<and> require_attested_revision st = Inl e) s"
    (is "wp _ ?Q ?E s")
proof (cases "require_attested_revision st")
  case (Inl e)
  then show ?thesis by (simp add: serving_outcome_def)
next
  case (Inr u)
  have rec: "wp (read_manifest_record_async L C cc) (\<lambda>r s'. V s' = V s \<and> (r = None \<or> r = contract_in L (V s) cc))
      (\<lambda>e s'. V s' = V s) s"
    unfolding read_manifest_record_async_def wp_bind
    by (rule wp_exists; simp; (intro conjI impI)?; (rule wp_retrieve_one)?)
       (auto simp: contract_in_def)
  let ?rest = "\<lambda>stored. case stored of
         None \<Rightarrow> sbind (cl_scroll C (qdrant_collection st) [] 1 WithNone False None) (\<lambda>(points, _).
                   sret (if points = [] then (Empty, []) else (Legacy, [])))
       | Some r \<Rightarrow>
           if sm_state r \<noteq> state_committed then sret (Pending_Contract, [])
           else sret (compare_manifests (sm_manifest r) (build_manifest st rv))"
  have rest: "wp (?rest stored) ?Q (\<lambda>e s'. V s' = V s) s1"
    if "V s1 = V s" "stored = None \<or> stored = contract_in L (V s) cc" for stored s1
  proof (cases stored)
    case None
    with that Inr show ?thesis by (auto simp: matching_def matches_def intro!: wp_first_page)
  next
    case (Some r)
    then have "contract_in L (V s) cc = Some r" using that by simp
    moreover have "same_vectors m m" for m by (simp add: same_vectors_def)
    ultimately show ?thesis using that Some Inr
      by (cases r) (auto simp: compare_cases)
  qed
  show ?thesis
    unfolding serving_outcome_def Inr wp_seq wp_lift sum.case wp_catch wp_bind
    by (rule wp_conseq [OF rec], rule wp_conseq [OF rest]) (use Inr in auto)
qed

end

context qdrant_store
begin

text \<open>Writing the manifest, in either state.\<close>

lemma wp_write_manifest:
  assumes "\<And>s'. contract_in L (V s') cc = Some \<lparr>sm_manifest = build_manifest st rv, sm_state = state\<rparr> \<Longrightarrow>
      \<forall>n. apart (V s) n cc \<longrightarrow> points_of (V s') n = points_of (V s) n \<Longrightarrow> Q (manifest_digest L st rv) s'"
    and "\<And>e s'. contract_in L (V s') cc = contract_in L (V s) cc
        \<or> contract_in L (V s') cc = Some \<lparr>sm_manifest = build_manifest st rv, sm_state = state\<rparr> \<Longrightarrow>
      \<forall>n. apart (V s) n cc \<longrightarrow> points_of (V s') n = points_of (V s) n \<Longrightarrow> E e s'"
  shows "wp (write_manifest L C cc st rv state) Q E s"
proof -
  let ?p = "\<lparr>pt_id = manifest_point_id L cc, pt_payload = manifest_payload L cc (build_manifest st rv) state,
             pt_vectors = control_vector st\<rparr>"
  have after: "contract_in L (V s') cc = (if qs = [] then contract_in L (V s) cc
        else Some \<lparr>sm_manifest = build_manifest st rv, sm_state = state\<rparr>)
      \<and> (\<forall>n. apart (V s) n cc \<longrightarrow> points_of (V s') n = points_of (V s) n)"
    if "updated cc (put_points qs) (V s) (V s')" "set qs \<subseteq> {?p}" for qs s'
    using contract_put [OF that, of L] points_of_updated [OF that(1)]
    by (simp add: record_from_manifest_payload apart_def)
  show ?thesis
    unfolding write_manifest_def Let_def wp_seq
  proof (rule wp_upsert)
    fix s' assume "updated cc (put_points [?p]) (V s) (V s')"
    from after [OF this] show "wp (sret (manifest_digest L st rv)) Q E s'" using assms(1) by simp
  next
    fix e s' qs assume "set qs \<subseteq> set [?p]" "updated cc (put_points qs) (V s) (V s')"
    with after [of qs s'] show "E e s'" using assms(2) by (cases "qs = []") auto
  qed
qed

lemma wp_begin_manifest:
  "wp (begin_manifest L C cc st rv)
     (\<lambda>r s'. certified_before L (V s) cc (V s') \<and> fst r = manifest_digest L st rv
        \<and> contract_in L (V s') cc = Some \<lparr>sm_manifest = build_manifest st rv,
             sm_state = (if snd r = Mode_Pending then state_pending else state_committed)\<rparr>)
     (\<lambda>e s'. certified_before L (V s) cc (V s')) s"
    (is "wp _ ?Q ?E s")
proof -
  let ?w = "build_manifest st rv"
  have states: "state_pending \<noteq> state_committed" by (simp add: state_pending_def state_committed_def)
  have refl: "same_vectors m m" for m by (simp add: same_vectors_def)
  have pend: "wp (sbind (write_manifest L C cc st rv state_pending) (\<lambda>d. sret (d, Mode_Pending))) ?Q ?E s1"
    if "V s1 = V s" for s1
    unfolding wp_bind
    by (rule wp_write_manifest) (use that states refl in \<open>auto simp: certified_before_def\<close>)
  have rec_only: "wp (sbind (write_manifest L C cc st rv state_committed) (\<lambda>d. sret (d, Mode_Committed))) ?Q ?E s1"
    if "V s1 = V s" "contract_in L (V s) cc = Some \<lparr>sm_manifest = m, sm_state = state_committed\<rparr>" "same_vectors m ?w" for s1 m
    unfolding wp_bind
    by (rule wp_write_manifest) (use that refl in \<open>auto simp: certified_before_def\<close>)
  show ?thesis
    unfolding begin_manifest_def Let_def wp_bind [of "read_manifest_record L C cc False"]
  proof (rule wp_conseq [OF wp_read_manifest_record])
    fix r s1 assume r: "V s1 = V s \<and> (r = None \<or> r = contract_in L (V s) cc)"
    show "wp (case r of
           None \<Rightarrow> sbind (write_manifest L C cc st rv state_pending) (\<lambda>d. sret (d, Mode_Pending))
         | Some r \<Rightarrow>
             if sm_state r = state_committed then
               (if sm_manifest r = ?w then sret (digest_of L ?w, Already_Current)
                else if fst (compare_manifests (sm_manifest r) ?w) = Record_Only_Drift
                then sbind (write_manifest L C cc st rv state_committed) (\<lambda>d. sret (d, Mode_Committed))
                else sbind (write_manifest L C cc st rv state_pending) (\<lambda>d. sret (d, Mode_Pending)))
             else sbind (write_manifest L C cc st rv state_pending) (\<lambda>d. sret (d, Mode_Pending))) ?Q ?E s1"
    proof (cases r)
      case None
      then show ?thesis using pend r by (simp only: option.case)
    next
      case (Some c)
      obtain m sta where c: "c = \<lparr>sm_manifest = m, sm_state = sta\<rparr>" by (cases c)
      have now: "contract_in L (V s) cc = Some \<lparr>sm_manifest = m, sm_state = sta\<rparr>" using r Some c by simp
      consider "sta \<noteq> state_committed" | "sta = state_committed" "m = ?w"
        | "sta = state_committed" "m \<noteq> ?w" "same_vectors m ?w" | "sta = state_committed" "m \<noteq> ?w" "\<not> same_vectors m ?w"
        by blast
      then show ?thesis
      proof cases
        case 1
        then show ?thesis unfolding Some option.case c stored_manifest.simps if_not_P [OF 1] by (intro pend) (use r in simp)
      next
        case 2
        then show ?thesis unfolding Some c
          using r now refl by (simp add: certified_before_def manifest_digest_def)
      next
        case 3
        then have "fst (compare_manifests m ?w) = Record_Only_Drift" by (simp add: compare_cases)
        with 3 show ?thesis unfolding Some option.case c stored_manifest.simps
          using rec_only [OF conjunct1 [OF r], of m] now by (simp only: if_True if_False simp_thms)
      next
        case 4
        then have "fst (compare_manifests m ?w) \<noteq> Record_Only_Drift" by (simp add: compare_cases)
        with 4 show ?thesis unfolding Some option.case c stored_manifest.simps
          using pend [OF conjunct1 [OF r]] by (simp only: if_True if_False simp_thms)
      qed
    qed
  qed (use refl in \<open>auto simp: certified_before_def\<close>)
qed

text \<open>Re-keying carries the contract of the source, with its state, or nothing.\<close>

lemma wp_rekey_manifest:
  "wp (rekey_manifest L C src dst)
     (\<lambda>carried s'. if carried then
          (\<exists>c. contract_in L (V s) src = Some c \<and> contract_in L (V s') dst = Some c)
        else V s' = V s)
     (\<lambda>e s'. \<forall>n. apart (V s) n dst \<longrightarrow> points_of (V s') n = points_of (V s) n) s"
    (is "wp _ ?Q ?E s")
proof -
  have carry: "wp (sseq (cl_upsert C dst [\<lparr>pt_id = manifest_point_id L dst,
                        pt_payload = manifest_payload L dst (sm_manifest c) (sm_state c), pt_vectors = vec\<rparr>])
                      (sret True)) ?Q ?E s1"
    if v: "V s1 = V s" and c: "contract_in L (V s) src = Some c" for c vec s1
    unfolding wp_seq
  proof (rule wp_upsert)
    fix s2 assume "updated dst (put_points [\<lparr>pt_id = manifest_point_id L dst,
        pt_payload = manifest_payload L dst (sm_manifest c) (sm_state c), pt_vectors = vec\<rparr>]) (V s1) (V s2)"
    from contract_put [OF this, of "\<lparr>pt_id = manifest_point_id L dst,
        pt_payload = manifest_payload L dst (sm_manifest c) (sm_state c), pt_vectors = vec\<rparr>" L]
    show "wp (sret True) ?Q ?E s2"
      using c record_from_manifest_payload [OF contract_in_blank [OF c], of L dst "sm_state c"] by simp
  next
    fix e s2 qs assume "updated dst (put_points qs) (V s1) (V s2)"
    from points_of_updated [OF this] show "?E e s2" by (simp add: v apart_def)
  qed
  show ?thesis
    unfolding rekey_manifest_def wp_bind
  proof (rule wp_exists)
    fix ex s1 assume v: "V s1 = V s"
    have "wp (cl_retrieve C src [manifest_point_id L src] WithAll True) (\<lambda>ps. wp (case ps of
         [] \<Rightarrow> sret False
       | p # _ \<Rightarrow>
           (case record_from_payload L (pt_payload p) of
              None \<Rightarrow> sret False
            | Some r \<Rightarrow>
                if pt_vectors p = JNull then sret False
                else sseq (cl_upsert C dst [\<lparr>pt_id = manifest_point_id L dst,
                        pt_payload = manifest_payload L dst (sm_manifest r) (sm_state r), pt_vectors = pt_vectors p\<rparr>])
                      (sret True))) ?Q ?E) ?E s1"
    proof (rule wp_retrieve_one)
      fix p s2 assume a: "V s2 = V s1" "by_id (points_of (V s1) src) (manifest_point_id L src) = Some p"
      show "wp (case [project WithAll True p] of [] \<Rightarrow> sret False
       | p # _ \<Rightarrow> (case record_from_payload L (pt_payload p) of
              None \<Rightarrow> sret False
            | Some r \<Rightarrow>
                if pt_vectors p = JNull then sret False
                else sseq (cl_upsert C dst [\<lparr>pt_id = manifest_point_id L dst,
                        pt_payload = manifest_payload L dst (sm_manifest r) (sm_state r), pt_vectors = pt_vectors p\<rparr>])
                      (sret True))) ?Q ?E s2"
      proof (cases "record_from_payload L (pt_payload p)")
        case None
        then show ?thesis using a v by simp
      next
        case (Some c)
        then have "contract_in L (V s) src = Some c" using a v by (simp add: contract_in_def)
        from carry [OF _ this] a v Some show ?thesis by (simp del: wp_seq)
      qed
    qed (simp_all add: v)
    then show "wp (if \<not> ex then sret False else sbind (cl_retrieve C src [manifest_point_id L src] WithAll True) (\<lambda>ps. case ps of
         [] \<Rightarrow> sret False
       | p # _ \<Rightarrow>
           (case record_from_payload L (pt_payload p) of
              None \<Rightarrow> sret False
            | Some r \<Rightarrow>
                if pt_vectors p = JNull then sret False
                else sseq (cl_upsert C dst [\<lparr>pt_id = manifest_point_id L dst,
                        pt_payload = manifest_payload L dst (sm_manifest r) (sm_state r), pt_vectors = pt_vectors p\<rparr>])
                      (sret True)))) ?Q ?E s1"
      by (cases ex) (simp_all only: if_True if_False simp_thms wp_bind wp_ret v)
  qed simp
qed

end

section \<open>Properties\<close>

definition demo_libs :: libs where
  "demo_libs = \<lparr>lib_sha256 = rev, lib_uuid5 = (\<lambda>x. x), lib_int = (\<lambda>_. None), lib_bool = (\<lambda>_. None),
                lib_float = (\<lambda>_. None), lib_now = ''0.0''\<rparr>"

lemma mem_retrieve_answers: "retrieve_answers mem_client mem_view"
  by (auto simp: retrieve_answers_def mem_client_def mem_retrieve_def mem_with_def)

text \<open>A collection with a committed contract, written under the rules version \<open>r1\<close>.\<close>

definition contract_mem :: mem where
  "contract_mem = \<lparr>mem_colls = [(''gen1'', [demo_point ''1'' ''A'' ''r1'']),
       (''gen1__completions'', [\<lparr>pt_id = manifest_point_id demo_libs ''gen1__completions'',
          pt_payload = manifest_payload demo_libs ''gen1__completions'' (build_manifest (demo_settings ''gen1'') ''r1'') state_committed,
          pt_vectors = JObj []\<rparr>])],
     mem_alias = [], mem_info = [], mem_schema = []\<rparr>"

lemma contract_mem_phys: "phys (mem_view contract_mem) n = n"
  by (simp add: phys_def mem_view_def contract_mem_def)

lemma contract_mem_contract:
  "contract_in demo_libs (mem_view contract_mem) ''gen1__completions''
     = Some \<lparr>sm_manifest = build_manifest (demo_settings ''gen1'') ''r1'', sm_state = state_committed\<rparr>"
  by (simp add: contract_in_def points_of_def phys_def mem_view_def contract_mem_def by_id_def record_from_manifest_payload)

text \<open>The digest of a manifest identifies the contract: two manifests have the same digest
  exactly when all fourteen fields agree, provided the truncated hash does not collide on their
  two canonical texts.\<close>
theorem digest_contract:
  assumes "take 16 (lib_sha256 L (json_text (JObj (manifest_fields m)))) = take 16 (lib_sha256 L (json_text (JObj (manifest_fields m'))))
    \<Longrightarrow> json_text (JObj (manifest_fields m)) = json_text (JObj (manifest_fields m'))"
  shows "digest_of L m = digest_of L m' \<longleftrightarrow> m = m'"
  using assms manifest_text_inject by (auto simp: digest_of_def)

lemma digest_contract_witness:
  "digest_of demo_libs (build_manifest (demo_settings ''c'') ''r1'') \<noteq>
   digest_of demo_libs ((build_manifest (demo_settings ''c'') ''r1'')\<lparr>mf_sparse_weights_revision := ''w2''\<rparr>)"
proof -
  let ?m = "build_manifest (demo_settings ''c'') ''r1''" and ?m' = "(build_manifest (demo_settings ''c'') ''r1'')\<lparr>mf_sparse_weights_revision := ''w2''\<rparr>"
  have "take 16 (lib_sha256 demo_libs (json_text (JObj (manifest_fields ?m)))) \<noteq> take 16 (lib_sha256 demo_libs (json_text (JObj (manifest_fields ?m'))))"
    by code_simp
  from digest_contract [of demo_libs ?m ?m'] this
  have "digest_of demo_libs ?m = digest_of demo_libs ?m' \<longleftrightarrow> ?m = ?m'" by blast
  moreover have "?m \<noteq> ?m'" by (simp add: build_manifest_def demo_settings_def)
  ultimately show ?thesis by blast
qed

text \<open>A written manifest reads back as the same contract in the same state.\<close>
theorem manifest_roundtrip:
  "record_from_payload L (manifest_payload L cc (build_manifest st rv) state)
     = Some \<lparr>sm_manifest = build_manifest st rv, sm_state = state\<rparr>"
  by (simp add: record_from_manifest_payload)

text \<open>The compatibility policy is a total classification: equal contracts are compatible,
  contracts that differ in the query prefix alone are record-only drift, and any other
  difference requires re-embedding and names at least one field.\<close>
theorem compare_manifests_policy:
  "(fst (compare_manifests m m') = Compatible \<longleftrightarrow> m = m')
   \<and> (fst (compare_manifests m m') = Record_Only_Drift \<longleftrightarrow> m \<noteq> m' \<and> same_vectors m m')
   \<and> (fst (compare_manifests m m') = Reembed_Required \<longleftrightarrow> \<not> same_vectors m m')
   \<and> (snd (compare_manifests m m') = [] \<longleftrightarrow> m = m')"
proof -
  have "changed_fields reembed_fields m m' \<noteq> []" if "\<not> same_vectors m m'"
    using that by (simp add: no_reembed_iff)
  moreover have "same_vectors m m" by (simp add: same_vectors_def)
  ultimately show ?thesis by (auto simp: compare_cases)
qed



text \<open>A server whose second read by id times out; nothing else distinguishes it from
  \<open>mem_client\<close> (the run of the gate does not look at the collection parameters it counts with).\<close>

definition flaky_client :: "mem client" where
  "flaky_client = mem_client\<lparr>cl_retrieve := (\<lambda>n ids pr vec s.
      if mem_info s = [] then (Inl (Exn StoreErr ''timeout'' []), s)
      else mem_retrieve n ids pr vec (s\<lparr>mem_info := tl (mem_info s)\<rparr>))\<rparr>"

text \<open>One failed read opens the ingest gate. The gate reads the contract twice and treats a
  read that fails as an absent contract; when only the second read fails, a run over stored
  vectors of another contract is let through with no drift reported.\<close>
theorem ingest_gate_gap:
  "let s = contract_mem\<lparr>mem_info := [(''gen1'', \<lparr>ci_vectors = SingleVector None, ci_params = []\<rparr>)]\<rparr>;
       st = demo_settings ''gen1''
   in contract_in demo_libs (mem_view s) ''gen1__completions''
        = Some \<lparr>sm_manifest = build_manifest st ''r1'', sm_state = state_committed\<rparr>
      \<and> \<not> same_vectors (build_manifest st ''r1'') (build_manifest st ''r2'')
      \<and> points_of (mem_view s) ''gen1'' \<noteq> []
      \<and> fst (check_ingest_compatible demo_libs flaky_client st ''gen1__completions'' ''r2'' s)
        = Inr (manifest_digest demo_libs st ''r2'', [])"
proof -
  let ?s = "contract_mem\<lparr>mem_info := [(''gen1'', \<lparr>ci_vectors = SingleVector None, ci_params = []\<rparr>)]\<rparr>"
  let ?e = "contract_mem\<lparr>mem_info := []\<rparr>"
  let ?st = "demo_settings ''gen1''"
  let ?cc = "''gen1__completions''"
  let ?p = "\<lparr>pt_id = manifest_point_id demo_libs ?cc, pt_payload = manifest_payload demo_libs ?cc (build_manifest ?st ''r1'') state_committed, pt_vectors = JNull\<rparr>"
  have ex: "cl_exists flaky_client ?cc s = (Inr True, s)" if "mem_colls s = mem_colls contract_mem" for s
    using that by (simp add: flaky_client_def mem_client_def contract_mem_def)
  have one: "cl_retrieve flaky_client ?cc [manifest_point_id demo_libs ?cc] WithAll False ?s = (Inr [?p], ?e)"
    by (simp add: flaky_client_def mem_retrieve_def mem_with_def mem_view_def phys_def contract_mem_def
        project_def project_payload_def)
  have two: "cl_retrieve flaky_client ?cc [manifest_point_id demo_libs ?cc] WithAll False ?e
      = (Inl (Exn StoreErr ''timeout'' []), ?e)"
    by (simp add: flaky_client_def)
  have first: "read_manifest_record demo_libs flaky_client ?cc False ?s
      = (Inr (Some \<lparr>sm_manifest = build_manifest ?st ''r1'', sm_state = state_committed\<rparr>), ?e)"
    by (simp add: read_manifest_record_def sbind_def scatch_def sret_def ex one record_from_manifest_payload)
  have second: "read_manifest_record demo_libs flaky_client ?cc False ?e = (Inr None, ?e)"
    by (simp add: read_manifest_record_def sbind_def scatch_def sret_def ex two)
  have gate: "check_ingest_compatible demo_libs flaky_client ?st ?cc ''r2'' ?s
      = (Inr (manifest_digest demo_libs ?st ''r2'', []), ?e)"
    by (simp add: check_ingest_compatible_def reject_unversioned_target_def require_attested_revision_def
        demo_settings_def sseq_def sbind_def first [unfolded demo_settings_def] second [unfolded demo_settings_def]
        sret_def Let_def manifest_digest_def)
  have "contract_in demo_libs (mem_view ?s) ?cc = Some \<lparr>sm_manifest = build_manifest ?st ''r1'', sm_state = state_committed\<rparr>"
    by (simp add: contract_in_def points_of_def phys_def mem_view_def contract_mem_def by_id_def record_from_manifest_payload)
  moreover have "\<not> same_vectors (build_manifest ?st ''r1'') (build_manifest ?st ''r2'')"
    by (simp add: same_vectors_def build_manifest_def)
  moreover have "points_of (mem_view ?s) ''gen1'' \<noteq> []"
    by (simp add: points_of_def phys_def mem_view_def contract_mem_def)
  ultimately show ?thesis using gate by (simp add: Let_def)
qed

text \<open>Opening a contract never certifies vectors it has not checked. Whether it returns or
  fails, a committed contract afterwards was a committed contract for the same stored vectors
  before; and when it returns, the contract in force is the wanted one, pending unless it was
  already certified.\<close>
theorem begin_manifest_safe:
  assumes "qdrant_store C V"
  shows "wp (begin_manifest L C cc st rv)
     (\<lambda>r s'. certified_before L (V s) cc (V s') \<and> fst r = manifest_digest L st rv
        \<and> contract_in L (V s') cc = Some \<lparr>sm_manifest = build_manifest st rv,
             sm_state = (if snd r = Mode_Pending then state_pending else state_committed)\<rparr>)
     (\<lambda>e s'. certified_before L (V s) cc (V s')) s"
  by (rule qdrant_store.wp_begin_manifest [OF assms])

lemma begin_manifest_safe_witness:
  "wp (begin_manifest demo_libs mem_client ''gen1__completions'' (demo_settings ''gen1'') ''r2'')
     (\<lambda>r s'. snd r = Mode_Pending) (\<lambda>e s'. True) contract_mem"
proof -
  have "\<not> same_vectors (build_manifest (demo_settings ''gen1'') ''r1'') (build_manifest (demo_settings ''gen1'') ''r2'')"
    by (simp add: same_vectors_def build_manifest_def)
  then show ?thesis
    by (intro wp_conseq [OF begin_manifest_safe [OF mem.qdrant_store_axioms,
          of demo_libs "''gen1__completions''" "demo_settings ''gen1''" "''r2''" contract_mem]])
       (auto simp: certified_before_def contract_mem_contract split: if_splits)
qed

text \<open>Re-keying a manifest onto the staging collection carries the live contract verbatim,
  state included, or reports that there was none; a pending contract never becomes committed
  on the way.\<close>
theorem rekey_manifest_verbatim:
  assumes "qdrant_store C V"
  shows "wp (rekey_manifest L C src dst)
     (\<lambda>carried s'. if carried then
          (\<exists>c. contract_in L (V s) src = Some c \<and> contract_in L (V s') dst = Some c)
        else V s' = V s)
     (\<lambda>e s'. \<forall>n. apart (V s) n dst \<longrightarrow> points_of (V s') n = points_of (V s) n) s"
  by (rule qdrant_store.wp_rekey_manifest [OF assms])

lemma rekey_manifest_verbatim_witness:
  "wp (rekey_manifest demo_libs mem_client ''gen1__completions'' ''gen1'')
     (\<lambda>carried s'. carried \<longrightarrow> contract_in demo_libs (mem_view s') ''gen1''
         = Some \<lparr>sm_manifest = build_manifest (demo_settings ''gen1'') ''r1'', sm_state = state_committed\<rparr>)
     (\<lambda>e s'. points_of (mem_view s') ''gen1__completions'' = points_of (mem_view contract_mem) ''gen1__completions'') contract_mem"
  by (rule wp_conseq [OF rekey_manifest_verbatim [OF mem.qdrant_store_axioms]])
     (auto simp: contract_mem_contract apart_def contract_mem_phys split: if_splits)

text \<open>Serving readiness only reads, and reports a collection as compatible only when its
  contract is committed and equal to the wanted one, as drifted only when it differs in the
  query prefix alone, and as empty only when it stores no point.\<close>
theorem serving_outcome_sound:
  assumes "qdrant_reader C V"
  shows "wp (serving_outcome L C st cc rv)
     (\<lambda>r s'. V s' = V s \<and> require_attested_revision st = Inr ()
        \<and> (fst r \<in> {Compatible, Record_Only_Drift} \<longrightarrow>
             (\<exists>m. contract_in L (V s) cc = Some \<lparr>sm_manifest = m, sm_state = state_committed\<rparr>
                \<and> same_vectors m (build_manifest st rv) \<and> (fst r = Compatible \<longleftrightarrow> m = build_manifest st rv)))
        \<and> (fst r = Empty \<longrightarrow> points_of (V s) (qdrant_collection st) = []))
     (\<lambda>e s'. V s' = V s \<and> require_attested_revision st = Inl e) s"
  by (rule qdrant_reader.wp_serving_outcome [OF assms])

lemma serving_outcome_sound_witness:
  "wp (serving_outcome demo_libs mem_client (demo_settings ''gen1'') ''gen1__completions'' ''r2'')
     (\<lambda>r s'. fst r \<notin> {Compatible, Record_Only_Drift, Empty}) (\<lambda>e s'. False) contract_mem"
proof -
  have "\<not> same_vectors (build_manifest (demo_settings ''gen1'') ''r1'') (build_manifest (demo_settings ''gen1'') ''r2'')"
    by (simp add: same_vectors_def build_manifest_def)
  moreover have "points_of (mem_view contract_mem) ''gen1'' \<noteq> []"
    by (simp add: points_of_def phys_def mem_view_def contract_mem_def)
  moreover have "require_attested_revision (demo_settings ''gen1'') = Inr ()"
    by (simp add: require_attested_revision_def demo_settings_def)
  ultimately show ?thesis
    by (intro wp_conseq [OF serving_outcome_sound [OF mem.qdrant_reader_axioms,
          of demo_libs "demo_settings ''gen1''" "''gen1__completions''" "''r2''" contract_mem]])
       (auto simp: contract_mem_contract)
qed

end
