(* ===== verification/Completion.thy ===== *)
theory Completion
  imports Representation "HOL-Library.Multiset"
begin

text \<open>
  Completion markers (\<open>mainframe_rag/ingest/completion.py\<close>): the record that certifies a fully
  stored revision of a document, its digests and identities, the verification of the stored
  points against it, the skip gate, the invalidation of markers, and the delete plans of a
  refresh and of a retirement.
\<close>

section \<open>Markers\<close>

definition completion_suffix :: string where "completion_suffix = ''__completions''"
definition representation_fingerprint_version :: string where "representation_fingerprint_version = ''2''"

definition completion_keyword_indexes :: "string list" where
  "completion_keyword_indexes = [''doc_id'', ''sha256'', ''rules_v'', ''generation_id'', ''target_collection'']"

record marker =
  mk_doc_id :: string
  mk_sha256 :: string
  mk_rules_v :: string
  mk_target :: string
  mk_generation :: string
  mk_expected :: int
  mk_ids_digest :: string
  mk_content_digest :: string
  mk_embed_mode :: string
  mk_embed_model :: "string option"
  mk_dense_dim :: "int option"
  mk_manifest_digest :: string
  mk_source_rev :: string
  mk_finished_at :: string

text \<open>\<open>model_dump\<close> and \<open>model_validate\<close>; \<open>expected_chunks\<close> must be at least 1.\<close>

definition marker_payload :: "marker \<Rightarrow> payload" where
  "marker_payload m =
     [(''doc_id'', JStr (mk_doc_id m)), (''sha256'', JStr (mk_sha256 m)), (''rules_v'', JStr (mk_rules_v m)),
      (''target_collection'', JStr (mk_target m)), (''generation_id'', JStr (mk_generation m)),
      (''expected_chunks'', JInt (mk_expected m)), (''chunk_ids_digest'', JStr (mk_ids_digest m)),
      (''content_digest'', JStr (mk_content_digest m)), (''embed_mode'', JStr (mk_embed_mode m)),
      (''embed_model'', jopt (mk_embed_model m)), (''dense_dim'', jopt_int (mk_dense_dim m)),
      (''manifest_digest'', JStr (mk_manifest_digest m)), (''source_rev'', JStr (mk_source_rev m)),
      (''finished_at'', JFloat (mk_finished_at m))]"

definition as_float :: "libs \<Rightarrow> json \<Rightarrow> string option" where
  "as_float L v = (case v of JFloat r \<Rightarrow> Some r | _ \<Rightarrow> lib_float L v)"

definition as_positive :: "libs \<Rightarrow> json \<Rightarrow> int option" where
  "as_positive L v = Option.bind (as_int L v) (\<lambda>i. if 1 \<le> i then Some i else None)"

definition parse_marker :: "libs \<Rightarrow> payload \<Rightarrow> marker option" where
  "parse_marker L p =
     Option.bind (field_req p ''doc_id'' as_str) (\<lambda>a.
     Option.bind (field_req p ''sha256'' as_str) (\<lambda>b.
     Option.bind (field_req p ''rules_v'' as_str) (\<lambda>c.
     Option.bind (field_req p ''target_collection'' as_str) (\<lambda>d.
     Option.bind (field_req p ''generation_id'' as_str) (\<lambda>e.
     Option.bind (field_req p ''expected_chunks'' (as_positive L)) (\<lambda>f.
     Option.bind (field_req p ''chunk_ids_digest'' as_str) (\<lambda>g.
     Option.bind (field_req p ''content_digest'' as_str) (\<lambda>h.
     Option.bind (field_def p ''embed_mode'' [] as_str) (\<lambda>i.
     Option.bind (field_def p ''embed_model'' None (as_opt as_str)) (\<lambda>j.
     Option.bind (field_def p ''dense_dim'' None (as_opt (as_int L))) (\<lambda>k.
     Option.bind (field_req p ''manifest_digest'' as_str) (\<lambda>l.
     Option.bind (field_req p ''source_rev'' as_str) (\<lambda>m.
     Option.bind (field_def p ''finished_at'' (lib_now L) (as_float L)) (\<lambda>n.
     Some \<lparr>mk_doc_id = a, mk_sha256 = b, mk_rules_v = c, mk_target = d, mk_generation = e, mk_expected = f,
           mk_ids_digest = g, mk_content_digest = h, mk_embed_mode = i, mk_embed_model = j, mk_dense_dim = k,
           mk_manifest_digest = l, mk_source_rev = m, mk_finished_at = n\<rparr>))))))))))))))"

section \<open>Identities and digests\<close>

definition completion_collection_name :: "settings \<Rightarrow> string" where
  "completion_collection_name s = completion_collection_for (qdrant_collection s)"

definition representation_projection :: "manifest \<Rightarrow> payload" where
  "representation_projection m = map (\<lambda>f. (f, jget (manifest_fields m) f)) reembed_fields"

definition representation_fingerprint :: "libs \<Rightarrow> settings \<Rightarrow> string \<Rightarrow> string" where
  "representation_fingerprint L s rules_v =
     ''rp'' @ representation_fingerprint_version @ '':''
       @ take 16 (lib_sha256 L (json_text (JObj (representation_projection (build_manifest s rules_v)))))"

definition doc_generation_id :: "libs \<Rightarrow> settings \<Rightarrow> string \<Rightarrow> string \<Rightarrow> string \<Rightarrow> string" where
  "doc_generation_id L s sha256 rules_v labels =
     sha256 @ ''|'' @ representation_fingerprint L s rules_v @ ''|'' @ labels"

text \<open>\<open>v or ''\<close>.\<close>

definition or_empty :: "string option \<Rightarrow> string" where
  "or_empty v = (case v of None \<Rightarrow> [] | Some s \<Rightarrow> s)"

definition source_labels :: "string option \<Rightarrow> string option \<Rightarrow> string option \<Rightarrow> string" where
  "source_labels vendor product version = or_empty vendor @ ''|'' @ or_empty product @ ''|'' @ or_empty version"

text \<open>The texts the two digests hash, from the sorted ids: every field ends with a NUL.\<close>

definition nul :: char where "nul = CHR 0x00"

definition ids_text :: "string list \<Rightarrow> string" where
  "ids_text ids = concat (map (\<lambda>cid. cid @ [nul]) ids)"

definition content_text :: "(string \<Rightarrow> string) \<Rightarrow> string list \<Rightarrow> string" where
  "content_text tx ids = concat (map (\<lambda>cid. cid @ [nul] @ tx cid @ [nul]) ids)"

text \<open>The dict \<open>{key: value}\<close> of a list: a later entry replaces an earlier one.\<close>

definition last_text :: "(string \<times> string) list \<Rightarrow> string \<Rightarrow> string" where
  "last_text kvs k = (case map_of (rev kvs) k of Some t \<Rightarrow> t | None \<Rightarrow> [])"

definition expected_digests :: "libs \<Rightarrow> chunk list \<Rightarrow> nat \<times> string \<times> string" where
  "expected_digests L chunks =
     (let ids = sort (map ch_id chunks)
      in (length chunks, lib_sha256 L (ids_text ids),
          lib_sha256 L (content_text (last_text (map (\<lambda>c. (ch_id c, ch_text c)) chunks)) ids)))"

definition completion_point_id :: "libs \<Rightarrow> string \<Rightarrow> string \<Rightarrow> string option \<Rightarrow> string \<Rightarrow> string" where
  "completion_point_id L target doc source_rev generation =
     lib_uuid5 L (''completion|'' @ target @ ''|'' @ doc @ ''|'' @ or_empty source_rev @ ''|'' @ generation)"

section \<open>The completions collection\<close>

definition ensure_completion_collection :: "'s client \<Rightarrow> settings \<Rightarrow> ('s, string) eff" where
  "ensure_completion_collection C s =
     (let n = completion_collection_name s;
          index_all = seach (\<lambda>fld. cl_index C n fld ''keyword'') completion_keyword_indexes
      in sbind (cl_exists C n) (\<lambda>ex.
         if ex then sseq (check_collection_distribution C n s) (sseq index_all (sret n))
         else sbind (slift (require_dense_dim s)) (\<lambda>dim.
              sseq (cl_create C n (collection_vector_configs dim) (collection_distribution_kwargs s))
                   (sseq index_all (sret n)))))"

definition doc_filter :: "string \<Rightarrow> cond" where
  "doc_filter doc = [(''doc_id'', doc)]"

definition rev_filter :: "string \<Rightarrow> string \<Rightarrow> cond" where
  "rev_filter doc source_rev = [(''doc_id'', doc), (''source_rev'', source_rev)]"

text \<open>The markers that parse; the others read as absent.\<close>

definition markers_of :: "libs \<Rightarrow> point list \<Rightarrow> marker list" where
  "markers_of L ps = List.map_filter (\<lambda>p. parse_marker L (pt_payload p)) ps"

definition doc_markers :: "libs \<Rightarrow> 's client \<Rightarrow> settings \<Rightarrow> string \<Rightarrow> ('s, marker list) eff" where
  "doc_markers L C s doc =
     (let n = completion_collection_name s
      in sbind (cl_exists C n) (\<lambda>ex.
         if \<not> ex then sret []
         else sbind (scroll_all_points C n (doc_filter doc) WithAll (ingest_scan_page_size s)) (\<lambda>ps.
              sret (markers_of L ps))))"

definition read_completion ::
    "libs \<Rightarrow> 's client \<Rightarrow> settings \<Rightarrow> string \<Rightarrow> string \<Rightarrow> string \<Rightarrow> ('s, marker option) eff" where
  "read_completion L C s doc source_rev generation =
     sbind (doc_markers L C s doc) (\<lambda>ms.
       sret (find (\<lambda>m. mk_source_rev m = source_rev \<and> mk_generation m = generation
                     \<and> mk_target m = qdrant_collection s) ms))"

definition completion_record ::
    "libs \<Rightarrow> settings \<Rightarrow> string \<Rightarrow> string \<Rightarrow> string \<Rightarrow> string \<Rightarrow> string \<Rightarrow> nat \<Rightarrow> string \<Rightarrow> string \<Rightarrow> marker" where
  "completion_record L s doc sha256 rules_v labels source_rev expected ids_digest content_digest =
     \<lparr>mk_doc_id = doc, mk_sha256 = sha256, mk_rules_v = rules_v, mk_target = qdrant_collection s,
      mk_generation = doc_generation_id L s sha256 rules_v labels, mk_expected = int expected,
      mk_ids_digest = ids_digest, mk_content_digest = content_digest, mk_embed_mode = embed_mode s,
      mk_embed_model = embed_model s, mk_dense_dim = dim_or_none s,
      mk_manifest_digest = manifest_digest L s rules_v, mk_source_rev = source_rev, mk_finished_at = lib_now L\<rparr>"

text \<open>Building the record validates it: an expected count below 1 is refused.\<close>

definition write_completion ::
    "libs \<Rightarrow> 's client \<Rightarrow> settings \<Rightarrow> string \<Rightarrow> string \<Rightarrow> string \<Rightarrow> string \<Rightarrow> string \<Rightarrow> nat \<Rightarrow> string \<Rightarrow> string \<Rightarrow> ('s, marker) eff" where
  "write_completion L C s doc sha256 rules_v labels source_rev expected ids_digest content_digest =
     (let m = completion_record L s doc sha256 rules_v labels source_rev expected ids_digest content_digest
      in sseq (sensure (1 \<le> expected) (Exn ValueErr ''expected_chunks'' [JInt (int expected)]))
        (sseq (cl_upsert C (completion_collection_name s)
                [\<lparr>pt_id = completion_point_id L (qdrant_collection s) doc (Some source_rev) (mk_generation m),
                  pt_payload = marker_payload m, pt_vectors = control_vector s\<rparr>])
              (sret m)))"

section \<open>Invalidating markers\<close>

definition delete_completion :: "'s client \<Rightarrow> settings \<Rightarrow> string \<Rightarrow> string \<Rightarrow> ('s, unit) eff" where
  "delete_completion C s doc source_rev =
     (let n = completion_collection_name s
      in sbind (cl_exists C n) (\<lambda>ex.
         if \<not> ex then sret ()
         else sbind (scroll_all_points C n (doc_filter doc) (WithFields [''source_rev'']) (ingest_scan_page_size s)) (\<lambda>ps.
           let ids = map pt_id (filter (\<lambda>p. jget (pt_payload p) ''source_rev'' = JStr source_rev) ps)
           in if ids \<noteq> [] then cl_delete_ids C n ids else sret ())))"

definition delete_revision_completions :: "'s client \<Rightarrow> settings \<Rightarrow> string \<Rightarrow> ('s, unit) eff" where
  "delete_revision_completions C s source_rev =
     (let n = completion_collection_name s
      in sbind (cl_exists C n) (\<lambda>ex.
         if \<not> ex then sret ()
         else sbind (scroll_all_points C n [(''source_rev'', source_rev)] (WithFields [''source_rev'', ''doc_id''])
                       (ingest_scan_page_size s)) (\<lambda>ps.
           let ids = map pt_id (filter (\<lambda>p. truthy (jget (pt_payload p) ''doc_id'')
                         \<and> jget (pt_payload p) ''source_rev'' = JStr source_rev) ps)
           in if ids \<noteq> [] then cl_delete_ids C n ids else sret ())))"

section \<open>Verification\<close>

definition match_digests :: "libs \<Rightarrow> string list \<Rightarrow> (string \<Rightarrow> string) \<Rightarrow> string \<Rightarrow> string \<Rightarrow> bool" where
  "match_digests L ids texts ids_digest content_digest \<longleftrightarrow>
     lib_sha256 L (ids_text ids) = ids_digest \<and> lib_sha256 L (content_text texts ids) = content_digest"

text \<open>\<open>str(payload.get("text") or "")\<close>.\<close>

definition stored_text :: "point \<Rightarrow> string" where
  "stored_text p = (let v = jget (pt_payload p) ''text'' in if truthy v then py_str v else [])"

definition point_of_rev :: "string \<Rightarrow> string \<Rightarrow> string \<Rightarrow> point \<Rightarrow> bool" where
  "point_of_rev sha256 rules_v source_rev p \<longleftrightarrow>
     jget (pt_payload p) ''sha256'' = JStr sha256 \<and> jget (pt_payload p) ''rules_v'' = JStr rules_v
     \<and> jget (pt_payload p) ''source_rev'' = JStr source_rev"

definition verify_batch :: "libs \<Rightarrow> point list \<Rightarrow> string \<Rightarrow> string \<Rightarrow> string \<Rightarrow> string \<Rightarrow> string \<Rightarrow> bool" where
  "verify_batch L ps sha256 rules_v source_rev ids_digest content_digest \<longleftrightarrow>
     list_all (point_of_rev sha256 rules_v source_rev) ps
     \<and> match_digests L (sort (map pt_id ps)) (last_text (map (\<lambda>p. (pt_id p, stored_text p)) ps))
         ids_digest content_digest"

definition verify_doc_points ::
    "libs \<Rightarrow> 's client \<Rightarrow> settings \<Rightarrow> string \<Rightarrow> string \<Rightarrow> string \<Rightarrow> string \<Rightarrow> int \<Rightarrow> string \<Rightarrow> string \<Rightarrow> ('s, bool) eff" where
  "verify_doc_points L C s doc sha256 rules_v source_rev expected ids_digest content_digest =
     (if expected < 1 then sret False
      else sbind (cl_scroll C (qdrant_collection s) (rev_filter doc source_rev) (nat (expected + 1))
                    (WithFields [''sha256'', ''rules_v'', ''source_rev'', ''text'']) False None) (\<lambda>(scoped, _).
        if int (length scoped) \<noteq> expected then sret False
        else sret (verify_batch L scoped sha256 rules_v source_rev ids_digest content_digest)))"

definition is_doc_complete ::
    "libs \<Rightarrow> 's client \<Rightarrow> settings \<Rightarrow> string \<Rightarrow> string \<Rightarrow> string \<Rightarrow> string \<Rightarrow> string \<Rightarrow> string option \<Rightarrow> ('s, bool) eff" where
  "is_doc_complete L C s doc sha256 rules_v labels source_rev required_manifest_digest =
     sbind (read_completion L C s doc source_rev (doc_generation_id L s sha256 rules_v labels)) (\<lambda>scoped.
     case scoped of
       None \<Rightarrow> sret False
     | Some m \<Rightarrow>
         if required_manifest_digest \<noteq> None \<and> Some (mk_manifest_digest m) \<noteq> required_manifest_digest then sret False
         else if mk_sha256 m \<noteq> sha256 \<or> mk_rules_v m \<noteq> rules_v then sret False
         else verify_doc_points L C s doc sha256 rules_v source_rev (mk_expected m) (mk_ids_digest m) (mk_content_digest m))"

text \<open>\<open>{collection} | ({ancestor} if ancestor else set())\<close>.\<close>

definition commit_targets :: "settings \<Rightarrow> string option \<Rightarrow> string set" where
  "commit_targets s ancestor = insert (qdrant_collection s)
     (case ancestor of None \<Rightarrow> {} | Some a \<Rightarrow> if a = [] then {} else {a})"

definition is_revision_committed ::
    "libs \<Rightarrow> 's client \<Rightarrow> settings \<Rightarrow> string \<Rightarrow> string \<Rightarrow> string option \<Rightarrow> ('s, bool) eff" where
  "is_revision_committed L C s doc source_rev ancestor =
     sbind (doc_markers L C s doc) (\<lambda>ms.
       sany (\<lambda>m. if mk_source_rev m \<noteq> source_rev \<or> mk_target m \<notin> commit_targets s ancestor then sret False
                 else verify_doc_points L C s doc (mk_sha256 m) (mk_rules_v m) source_rev
                        (mk_expected m) (mk_ids_digest m) (mk_content_digest m)) ms)"

section \<open>Stale markers\<close>

record retire_entry =
  re_revs :: "string set"
  re_whole :: bool

type_synonym retire_plan = "(string \<times> retire_entry) list"

text \<open>The stored \<open>doc_id\<close> and \<open>source_rev\<close> are JSON values; only strings are members of the sets.\<close>

definition is_marker_excluded :: "json \<Rightarrow> json \<Rightarrow> string set \<Rightarrow> retire_plan option \<Rightarrow> bool" where
  "is_marker_excluded doc source_rev exclude plan =
     (case doc of
        JStr d \<Rightarrow>
          if d \<notin> exclude then False
          else (case (case plan of None \<Rightarrow> None | Some pl \<Rightarrow> map_of pl d) of
                  None \<Rightarrow> True
                | Some entry \<Rightarrow>
                    if re_whole entry then True
                    else (case source_rev of JStr r \<Rightarrow> r \<in> re_revs entry | _ \<Rightarrow> False))
      | _ \<Rightarrow> False)"

definition revision_has_points :: "'s client \<Rightarrow> settings \<Rightarrow> string \<Rightarrow> string \<Rightarrow> ('s, bool) eff" where
  "revision_has_points C s doc source_rev =
     sbind (cl_scroll C (qdrant_collection s) (rev_filter doc source_rev) 1 WithNone False None)
       (\<lambda>(points, _). sret (points \<noteq> []))"

definition revision_stored :: "'s client \<Rightarrow> settings \<Rightarrow> string \<Rightarrow> ('s, bool) eff" where
  "revision_stored C s source_rev =
     sbind (cl_scroll C (qdrant_collection s) [(''source_rev'', source_rev)] 1 WithNone False None)
       (\<lambda>(points, _). sret (points \<noteq> []))"

text \<open>One marker of the scan; the sample keeps the first labels.\<close>

definition stale_step ::
    "'s client \<Rightarrow> settings \<Rightarrow> string \<Rightarrow> nat \<Rightarrow> string set \<Rightarrow> retire_plan option \<Rightarrow> bool
       \<Rightarrow> point \<Rightarrow> nat \<times> string list \<Rightarrow> ('s, nat \<times> string list) eff" where
  "stale_step C s wanted_digest sample exclude plan require_stored p acc =
     (let doc = jget (pt_payload p) ''doc_id'';
          srev = jget (pt_payload p) ''source_rev'';
          counted = (fst acc + 1,
            if length (snd acc) < sample
            then snd acc @ [py_str doc @ ''@'' @ (if truthy srev then py_str srev else ''unknown'')] else snd acc)
      in if \<not> truthy doc then sret acc
         else if is_marker_excluded doc srev exclude plan then sret acc
         else if jget (pt_payload p) ''manifest_digest'' = JStr wanted_digest then sret acc
         else if require_stored \<and> truthy srev
         then sbind (revision_has_points C s (py_str doc) (py_str srev)) (\<lambda>found.
                if found then sret counted else sret acc)
         else sret counted)"

definition stale_completion_markers ::
    "'s client \<Rightarrow> settings \<Rightarrow> string \<Rightarrow> nat \<Rightarrow> string set \<Rightarrow> retire_plan option \<Rightarrow> bool
       \<Rightarrow> ('s, nat \<times> string list) eff" where
  "stale_completion_markers C s wanted_digest sample exclude plan require_stored =
     (let n = completion_collection_name s
      in sbind (cl_exists C n) (\<lambda>ex.
         if \<not> ex then sret (0, [])
         else sbind (scroll_all_points C n [] (WithFields [''doc_id'', ''source_rev'', ''manifest_digest''])
                       (ingest_scan_page_size s)) (\<lambda>ps.
                sfold (stale_step C s wanted_digest sample exclude plan require_stored) ps (0, []))))"

section \<open>Refresh and retirement plans\<close>

definition stray_sha16s :: "'s client \<Rightarrow> settings \<Rightarrow> string \<Rightarrow> ('s, string list) eff" where
  "stray_sha16s C s doc =
     sbind (scroll_all_points C (qdrant_collection s) (doc_filter doc) (WithFields [''source_rev'', ''sha256''])
              (ingest_scan_page_size s)) (\<lambda>ps.
       sret (sorted_set (map (\<lambda>p. take 16 (py_str (jget (pt_payload p) ''sha256'')))
         (filter (\<lambda>p. jget (pt_payload p) ''source_rev'' = JNull \<and> truthy (jget (pt_payload p) ''sha256'')) ps))))"

definition named_revisions :: "string option set \<Rightarrow> string set" where
  "named_revisions present = {r. Some r \<in> present}"

lemma named_revisions_code [code]: "named_revisions present = the ` (present - {None})"
  by (force simp: named_revisions_def image_iff)

definition sweep_step ::
    "libs \<Rightarrow> 's client \<Rightarrow> settings \<Rightarrow> string \<Rightarrow> string option \<Rightarrow> string \<Rightarrow> string set \<Rightarrow> ('s, string set) eff" where
  "sweep_step L C s doc ancestor other dels =
     sbind (is_revision_committed L C s doc other ancestor) (\<lambda>ok.
       sret (if ok then dels else insert other dels))"

definition plan_refresh_deletes ::
    "libs \<Rightarrow> 's client \<Rightarrow> settings \<Rightarrow> string \<Rightarrow> string \<Rightarrow> string option \<Rightarrow> string option \<Rightarrow> ('s, string set) eff" where
  "plan_refresh_deletes L C s doc source_rev lineage ancestor =
     sbind (stored_doc_revisions C s doc) (\<lambda>present.
     if None \<in> present
     then sbind (stray_sha16s C s doc) (\<lambda>shas. sraise (Exn UnsupportedLegacyErr doc (map JStr shas)))
     else let named = named_revisions present;
              dels = (if source_rev \<in> named then {source_rev} else {})
          in case lineage of
               Some l \<Rightarrow>
                 if l = source_rev then sret dels
                 else if l \<in> named then sret (insert l dels)
                 else sbind (revision_stored C s l) (\<lambda>found. sret (if found then insert l dels else dels))
             | None \<Rightarrow>
                 sfold (sweep_step L C s doc ancestor) (sorted_list_of_set (named - {source_rev})) dels)"

text \<open>
  \<open>plan_retire_deletes\<close>: approved and requested revisions per document; a request for
  \<open>None\<close> means the whole document. The documents are taken in order, the first problem ends
  the plan.
\<close>

definition retire_doc ::
    "(string \<times> string option set) list \<Rightarrow> string \<times> string option set \<Rightarrow> (string \<times> retire_entry) res" where
  "retire_doc approved_revs req =
     (case map_of approved_revs (fst req) of
        None \<Rightarrow> raise_exn RuntimeErr ''retire_no_history'' [JStr (fst req)]
      | Some approved \<Rightarrow>
          if None \<in> approved then raise_exn RuntimeErr ''retire_revisionless'' [JStr (fst req)]
          else let named = named_revisions approved
               in if None \<in> snd req then Inr (fst req, \<lparr>re_revs = named, re_whole = True\<rparr>)
                  else if named_revisions (snd req) - named \<noteq> {}
                  then raise_exn RuntimeErr ''retire_unapproved''
                         (JStr (fst req) # map JStr (sorted_list_of_set (named_revisions (snd req) - named)))
                  else Inr (fst req, \<lparr>re_revs = named_revisions (snd req), re_whole = False\<rparr>))"

definition plan_retire_deletes ::
    "(string \<times> string option set) list \<Rightarrow> (string \<times> string option set) list \<Rightarrow> retire_plan res" where
  "plan_retire_deletes approved_revs requested =
     res_map (retire_doc approved_revs) (sort_key fst requested)"

section \<open>Publish locks\<close>

text \<open>\<open>re.sub(r"[^A-Za-z0-9_.-]+", "_", alias)\<close>: every maximal run becomes one underscore.\<close>

definition lock_char :: "char \<Rightarrow> bool" where
  "lock_char c \<longleftrightarrow> (CHR ''A'' \<le> c \<and> c \<le> CHR ''Z'') \<or> (CHR ''a'' \<le> c \<and> c \<le> CHR ''z'')
     \<or> (CHR ''0'' \<le> c \<and> c \<le> CHR ''9'') \<or> c = CHR ''_'' \<or> c = CHR ''.'' \<or> c = CHR ''-''"

fun squeeze :: "bool \<Rightarrow> string \<Rightarrow> string" where
  "squeeze in_run [] = []"
| "squeeze in_run (c # cs) =
     (if lock_char c then c # squeeze False cs
      else if in_run then squeeze True cs else CHR ''_'' # squeeze True cs)"

definition trim_lock :: "string \<Rightarrow> string" where
  "trim_lock t = (let edge = (\<lambda>c. c = CHR ''.'' \<or> c = CHR ''_'')
                  in rev (dropWhile edge (rev (dropWhile edge t))))"

definition legacy_lock_stem :: "string \<Rightarrow> string res" where
  "legacy_lock_stem alias =
     (let safe = trim_lock (squeeze False alias)
      in if safe = [] then raise_exn RuntimeErr ''empty_lock_alias'' [JStr alias] else Inr safe)"

definition publish_lock_name :: "libs \<Rightarrow> string \<Rightarrow> string res" where
  "publish_lock_name L alias =
     rbind (legacy_lock_stem alias) (\<lambda>stem.
       let safe = (if stem \<noteq> alias then stem @ ''-'' @ take 12 (lib_sha256 L alias) else stem)
       in Inr (''publish-'' @ safe @ ''.lock''))"

definition legacy_publish_lock_name :: "string \<Rightarrow> string option res" where
  "legacy_publish_lock_name alias =
     rbind (legacy_lock_stem alias) (\<lambda>safe.
       Inr (if safe = alias then None else Some (''publish-'' @ safe @ ''.lock'')))"

section \<open>The digest texts\<close>

lemma content_text_fields: "content_text tx ids = ids_text (concat (map (\<lambda>cid. [cid, tx cid]) ids))"
  by (induction ids) (simp_all add: content_text_def ids_text_def)

lemma count_nul_fields:
  "count_list (ids_text fs) nul \<ge> length fs
   \<and> ((\<forall>f \<in> set fs. nul \<notin> set f) \<longrightarrow> count_list (ids_text fs) nul = length fs)"
  by (induction fs) (auto simp: ids_text_def)

text \<open>NUL-free fields can be read back from their text, among texts of equally many fields.\<close>

lemma fields_inject:
  assumes "length fs = length gs" "\<forall>f \<in> set fs. nul \<notin> set f" "ids_text fs = ids_text gs"
  shows "fs = gs"
  using assms
proof (induction fs gs rule: list_induct2)
  case (Cons f fs g gs)
  have eq: "f @ nul # ids_text fs = g @ nul # ids_text gs"
    using Cons.prems(2) by (simp add: ids_text_def)
  have g: "nul \<notin> set g"
  proof
    assume "nul \<in> set g"
    then have "count_list (g @ nul # ids_text gs) nul \<ge> Suc (Suc (length gs))"
      using count_nul_fields [of gs] count_list_0_iff [of g nul] by (cases "count_list g nul") auto
    moreover have "count_list (f @ nul # ids_text fs) nul = Suc (length fs)"
      using count_nul_fields [of fs] Cons.prems(1) by simp
    ultimately show False using eq Cons.hyps by simp
  qed
  have "f = g \<and> nul # ids_text fs = nul # ids_text gs"
    by (rule prefix_before [where P = "\<lambda>c. c = nul"]) (use Cons.prems(1) g eq in auto)
  then show ?case using Cons by simp
qed simp

lemma content_inject:
  assumes "\<forall>cid \<in> set ids. nul \<notin> set cid \<and> nul \<notin> set (tx cid)" "content_text tx ids = content_text tx' ids"
  shows "\<forall>cid \<in> set ids. tx cid = tx' cid"
proof -
  have "length (concat (map (\<lambda>cid. [cid, tx cid]) ids)) = length (concat (map (\<lambda>cid. [cid, tx' cid]) ids))"
    by (simp add: length_concat comp_def)
  then have "concat (map (\<lambda>cid. [cid, tx cid]) ids) = concat (map (\<lambda>cid. [cid, tx' cid]) ids)"
    using assms by (intro fields_inject) (auto simp: content_text_fields)
  then show ?thesis by (induction ids) auto
qed

section \<open>What the store holds of a revision\<close>

definition revision_points :: "view \<Rightarrow> settings \<Rightarrow> string \<Rightarrow> string \<Rightarrow> point list" where
  "revision_points v st doc source_rev = matching v (qdrant_collection st) (rev_filter doc source_rev)"

text \<open>The check the code makes, on the view: right count, right bindings, right digests.\<close>

definition revision_verified ::
    "libs \<Rightarrow> view \<Rightarrow> settings \<Rightarrow> string \<Rightarrow> string \<Rightarrow> string \<Rightarrow> string \<Rightarrow> int \<Rightarrow> string \<Rightarrow> string \<Rightarrow> bool" where
  "revision_verified L v st doc sha rv source_rev expected d1 d2 \<longleftrightarrow>
     1 \<le> expected \<and> int (length (revision_points v st doc source_rev)) = expected
     \<and> verify_batch L (revision_points v st doc source_rev) sha rv source_rev d1 d2"

text \<open>What it means: exactly the points of these chunks are stored, each with its text.\<close>

definition revision_stored_exactly ::
    "view \<Rightarrow> settings \<Rightarrow> string \<Rightarrow> string \<Rightarrow> string \<Rightarrow> string \<Rightarrow> chunk list \<Rightarrow> bool" where
  "revision_stored_exactly v st doc sha rv source_rev chunks \<longleftrightarrow>
     list_all (point_of_rev sha rv source_rev) (revision_points v st doc source_rev)
     \<and> pt_id ` set (revision_points v st doc source_rev) = ch_id ` set chunks
     \<and> distinct (map ch_id chunks)
     \<and> (\<forall>p \<in> set (revision_points v st doc source_rev). \<forall>c \<in> set chunks.
          ch_id c = pt_id p \<longrightarrow> stored_text p = ch_text c)"

lemma last_text_distinct: "distinct (map fst kvs) \<Longrightarrow> (k, t) \<in> set kvs \<Longrightarrow> last_text kvs k = t"
  by (simp add: last_text_def rev_map [symmetric] map_of_is_SomeI)

lemma sort_eq_iff_mset: "sort xs = sort ys \<longleftrightarrow> mset xs = mset (ys :: string list)"
  by (metis mset_sort properties_for_sort sorted_sort)

text \<open>The hypotheses on a hash, for the two texts at hand.\<close>

definition tells_apart :: "libs \<Rightarrow> string \<Rightarrow> string \<Rightarrow> bool" where
  "tells_apart L a b \<longleftrightarrow> (lib_sha256 L a = lib_sha256 L b \<longrightarrow> a = b)"

definition chunk_ids_text :: "chunk list \<Rightarrow> string" where
  "chunk_ids_text chunks = ids_text (sort (map ch_id chunks))"

definition chunk_content_text :: "chunk list \<Rightarrow> string" where
  "chunk_content_text chunks =
     content_text (last_text (map (\<lambda>c. (ch_id c, ch_text c)) chunks)) (sort (map ch_id chunks))"

definition stored_ids_text :: "point list \<Rightarrow> string" where
  "stored_ids_text ps = ids_text (sort (map pt_id ps))"

definition stored_content_text :: "point list \<Rightarrow> string" where
  "stored_content_text ps = content_text (last_text (map (\<lambda>p. (pt_id p, stored_text p)) ps)) (sort (map pt_id ps))"

definition nul_free :: "chunk list \<Rightarrow> bool" where
  "nul_free chunks \<longleftrightarrow> (\<forall>c \<in> set chunks. nul \<notin> set (ch_id c) \<and> nul \<notin> set (ch_text c))"

lemma expected_digests_conv:
  "expected_digests L chunks = (length chunks, lib_sha256 L (chunk_ids_text chunks), lib_sha256 L (chunk_content_text chunks))"
  by (simp add: expected_digests_def Let_def chunk_ids_text_def chunk_content_text_def)

lemma verify_batch_conv:
  "verify_batch L ps sha rv source_rev d1 d2 \<longleftrightarrow> list_all (point_of_rev sha rv source_rev) ps
     \<and> lib_sha256 L (stored_ids_text ps) = d1 \<and> lib_sha256 L (stored_content_text ps) = d2"
  by (simp add: verify_batch_def match_digests_def stored_ids_text_def stored_content_text_def)

lemma last_text_in: "k \<in> fst ` set kvs \<Longrightarrow> (k, last_text kvs k) \<in> set kvs"
proof -
  assume "k \<in> fst ` set kvs"
  then obtain t where "map_of (rev kvs) k = Some t"
    by (metis domD dom_map_of_conv_image_fst set_rev)
  then show ?thesis by (auto simp: last_text_def dest: map_of_SomeD)
qed

lemma stored_text_lookup:
  "distinct (map pt_id ps) \<Longrightarrow> p \<in> set ps \<Longrightarrow> last_text (map (\<lambda>p. (pt_id p, stored_text p)) ps) (pt_id p) = stored_text p"
  by (rule last_text_distinct) (auto simp: comp_def)

lemma chunk_text_lookup:
  "distinct (map ch_id cs) \<Longrightarrow> c \<in> set cs \<Longrightarrow> last_text (map (\<lambda>c. (ch_id c, ch_text c)) cs) (ch_id c) = ch_text c"
  by (rule last_text_distinct) (auto simp: comp_def)

text \<open>Equal texts of equally many fields: the same ids with the same contents.\<close>

lemma texts_determine:
  assumes d: "distinct (map pt_id ps)" and n: "length ps = length chunks" and nf: "nul_free chunks"
    and i: "stored_ids_text ps = chunk_ids_text chunks" and c: "stored_content_text ps = chunk_content_text chunks"
  shows "pt_id ` set ps = ch_id ` set chunks \<and> distinct (map ch_id chunks)
    \<and> (\<forall>p \<in> set ps. \<forall>c \<in> set chunks. ch_id c = pt_id p \<longrightarrow> stored_text p = ch_text c)"
proof -
  let ?ids = "sort (map ch_id chunks)"
  let ?ct = "last_text (map (\<lambda>c. (ch_id c, ch_text c)) chunks)" and ?st = "last_text (map (\<lambda>p. (pt_id p, stored_text p)) ps)"
  have ids: "?ids = sort (map pt_id ps)"
    by (rule fields_inject)
       (use n nf i in \<open>auto simp: nul_free_def chunk_ids_text_def stored_ids_text_def\<close>)
  then have ms: "mset (map pt_id ps) = mset (map ch_id chunks)" by (simp add: sort_eq_iff_mset)
  then have same: "pt_id ` set ps = ch_id ` set chunks" by (metis set_map set_mset_mset)
  have dc: "distinct (map ch_id chunks)" using ms d mset_eq_imp_distinct_iff by blast
  have "content_text ?ct ?ids = content_text ?st ?ids"
    using c unfolding chunk_content_text_def stored_content_text_def ids by simp
  moreover have "nul \<notin> set cid \<and> nul \<notin> set (?ct cid)" if cid: "cid \<in> set ?ids" for cid
  proof -
    from cid obtain c where "c \<in> set chunks" "cid = ch_id c" by auto
    with nf chunk_text_lookup [OF dc] show ?thesis by (simp add: nul_free_def)
  qed
  ultimately have eq: "\<forall>cid \<in> set ?ids. ?ct cid = ?st cid" by (intro content_inject) auto
  have "stored_text p = ch_text c" if "p \<in> set ps" "c \<in> set chunks" "ch_id c = pt_id p" for p c
  proof -
    have "?ct (ch_id c) = ?st (ch_id c)" using eq that(2) by simp
    then show ?thesis
      using stored_text_lookup [OF d that(1)] chunk_text_lookup [OF dc that(2)] that(3) by simp
  qed
  with same dc show ?thesis by blast
qed

lemma revision_verified_sound:
  assumes "distinct (map pt_id (revision_points v st doc srev))" "nul_free chunks"
    and "tells_apart L (stored_ids_text (revision_points v st doc srev)) (chunk_ids_text chunks)"
    and "tells_apart L (stored_content_text (revision_points v st doc srev)) (chunk_content_text chunks)"
    and "expected_digests L chunks = (n, d1, d2)" "revision_verified L v st doc sha rv srev (int n) d1 d2"
  shows "revision_stored_exactly v st doc sha rv srev chunks"
proof -
  have "stored_ids_text (revision_points v st doc srev) = chunk_ids_text chunks"
    "stored_content_text (revision_points v st doc srev) = chunk_content_text chunks"
    "length (revision_points v st doc srev) = length chunks"
    using assms by (auto simp: revision_verified_def verify_batch_conv expected_digests_conv tells_apart_def)
  from texts_determine [OF assms(1) this(3) assms(2) this(1,2)] assms(6) show ?thesis
    by (simp add: revision_stored_exactly_def revision_verified_def verify_batch_conv)
qed

lemma revision_verified_complete:
  assumes "distinct (map pt_id (revision_points v st doc srev))" "chunks \<noteq> []"
    and "revision_stored_exactly v st doc sha rv srev chunks" "expected_digests L chunks = (n, d1, d2)"
  shows "revision_verified L v st doc sha rv srev (int n) d1 d2"
proof -
  let ?ps = "revision_points v st doc srev"
  let ?ids = "sort (map pt_id ?ps)"
  have dc: "distinct (map ch_id chunks)" and same: "pt_id ` set ?ps = ch_id ` set chunks"
    using assms(3) by (auto simp: revision_stored_exactly_def)
  then have "mset (map pt_id ?ps) = mset (map ch_id chunks)"
    using assms(1) set_eq_iff_mset_eq_distinct by (metis set_map)
  then have ids: "sort (map ch_id chunks) = ?ids" and "length (map pt_id ?ps) = length (map ch_id chunks)"
    unfolding sort_eq_iff_mset by (rule sym, rule mset_eq_length)
  then have len: "length ?ps = length chunks" by simp
  have "last_text (map (\<lambda>c. (ch_id c, ch_text c)) chunks) cid = last_text (map (\<lambda>p. (pt_id p, stored_text p)) ?ps) cid"
    if "cid \<in> set ?ids" for cid
  proof -
    from that obtain p where p: "p \<in> set ?ps" "cid = pt_id p" by auto
    then have "pt_id p \<in> ch_id ` set chunks" unfolding same [symmetric] by blast
    then obtain c where c: "c \<in> set chunks" "ch_id c = pt_id p" by auto
    with p assms(3) have "stored_text p = ch_text c" by (auto simp: revision_stored_exactly_def)
    then show ?thesis
      using stored_text_lookup [OF assms(1) p(1)] chunk_text_lookup [OF dc c(1)] c(2) p(2) by simp
  qed
  then have "chunk_content_text chunks = stored_content_text ?ps"
    unfolding chunk_content_text_def stored_content_text_def ids content_text_def
    by (intro arg_cong [where f = concat] map_cong) auto
  moreover have "chunk_ids_text chunks = stored_ids_text ?ps"
    by (simp add: chunk_ids_text_def stored_ids_text_def ids)
  ultimately show ?thesis
    using assms len by (auto simp: revision_verified_def verify_batch_conv expected_digests_conv
        revision_stored_exactly_def Suc_le_eq)
qed

section \<open>What the operations do\<close>

lemma point_of_rev_project:
  "set [''sha256'', ''rules_v'', ''source_rev''] \<subseteq> set fs \<Longrightarrow>
     point_of_rev sha rv srev (project (WithFields fs) vec p) = point_of_rev sha rv srev p"
  by (simp add: point_of_rev_def jget_project)

lemma stored_text_project: "''text'' \<in> set fs \<Longrightarrow> stored_text (project (WithFields fs) vec p) = stored_text p"
  by (simp add: stored_text_def jget_project)

lemma verify_batch_project:
  assumes "set [''sha256'', ''rules_v'', ''source_rev'', ''text''] \<subseteq> set fs"
  shows "verify_batch L (map (project (WithFields fs) vec) ps) sha rv srev d1 d2 = verify_batch L ps sha rv srev d1 d2"
  using assms by (simp add: verify_batch_def list_all_iff point_of_rev_project stored_text_project comp_def)

lemma markers_of_project [simp]: "markers_of L (map (project WithAll vec) ps) = markers_of L ps"
  by (induction ps) (simp_all add: markers_of_def List.map_filter_simps split: option.split)

definition markers_in :: "libs \<Rightarrow> view \<Rightarrow> settings \<Rightarrow> string \<Rightarrow> marker list" where
  "markers_in L v st doc = markers_of L (matching v (completion_collection_name st) (doc_filter doc))"

text \<open>The completions collection of the target is a collection, not an alias.\<close>

definition plain_control :: "view \<Rightarrow> settings \<Rightarrow> bool" where
  "plain_control v st \<longleftrightarrow> map_of (v_alias v) (completion_collection_name st) = None"

definition revision_committed :: "libs \<Rightarrow> view \<Rightarrow> settings \<Rightarrow> string \<Rightarrow> string \<Rightarrow> string option \<Rightarrow> bool" where
  "revision_committed L v st doc srev ancestor \<longleftrightarrow>
     (\<exists>m \<in> set (markers_in L v st doc). mk_source_rev m = srev \<and> mk_target m \<in> commit_targets st ancestor
        \<and> revision_verified L v st doc (mk_sha256 m) (mk_rules_v m) srev (mk_expected m) (mk_ids_digest m) (mk_content_digest m))"

text \<open>The skip gate finds the scoped marker and verifies its points.\<close>

definition scoped_marker :: "libs \<Rightarrow> view \<Rightarrow> settings \<Rightarrow> string \<Rightarrow> string \<Rightarrow> string \<Rightarrow> marker option" where
  "scoped_marker L v st doc srev generation =
     find (\<lambda>m. mk_source_rev m = srev \<and> mk_generation m = generation \<and> mk_target m = qdrant_collection st)
       (markers_in L v st doc)"

definition doc_complete :: "libs \<Rightarrow> view \<Rightarrow> settings \<Rightarrow> string \<Rightarrow> string \<Rightarrow> string \<Rightarrow> string \<Rightarrow> string \<Rightarrow> string option \<Rightarrow> bool" where
  "doc_complete L v st doc sha rv labels srev required \<longleftrightarrow>
     (\<exists>m. scoped_marker L v st doc srev (doc_generation_id L st sha rv labels) = Some m
        \<and> (required = None \<or> required = Some (mk_manifest_digest m)) \<and> mk_sha256 m = sha \<and> mk_rules_v m = rv
        \<and> revision_verified L v st doc sha rv srev (mk_expected m) (mk_ids_digest m) (mk_content_digest m))"

text \<open>The markers an invalidation removes.\<close>

definition doomed_markers :: "view \<Rightarrow> settings \<Rightarrow> string \<Rightarrow> string \<Rightarrow> string set" where
  "doomed_markers v st doc srev =
     pt_id ` {p \<in> set (points_of v (completion_collection_name st)).
                matches (doc_filter doc) p \<and> jget (pt_payload p) ''source_rev'' = JStr srev}"

definition doomed_revision :: "view \<Rightarrow> settings \<Rightarrow> string \<Rightarrow> string set" where
  "doomed_revision v st srev =
     pt_id ` {p \<in> set (points_of v (completion_collection_name st)).
                truthy (jget (pt_payload p) ''doc_id'') \<and> jget (pt_payload p) ''source_rev'' = JStr srev}"

lemma updated_refl: "updated n (drop_points {}) v v" "updated n (put_points []) v v"
  by (simp_all add: updated_def drop_points_def put_points_def by_id_def restrict_map_def)

lemma points_of_missing: "plain_control v st \<Longrightarrow> v_points v (completion_collection_name st) = None \<Longrightarrow>
    points_of v (completion_collection_name st) = []"
  by (simp add: plain_control_def points_of_def phys_def)

lemma matching_missing: "plain_control v st \<Longrightarrow> v_points v (completion_collection_name st) = None \<Longrightarrow>
    matching v (completion_collection_name st) f = []"
  by (simp add: plain_control_def matching_def points_of_def phys_def)

context qdrant_reader
begin

lemma wp_verify_doc_points:
  "wp (verify_doc_points L C st doc sha rv srev expected d1 d2)
     (\<lambda>b s'. V s' = V s \<and> (b \<longleftrightarrow> revision_verified L (V s) st doc sha rv srev expected d1 d2))
     (\<lambda>e s'. V s' = V s) s"
proof (cases "expected < 1")
  case True
  then show ?thesis by (simp add: verify_doc_points_def revision_verified_def)
next
  case False
  let ?ps = "revision_points (V s) st doc srev"
  let ?fs = "[''sha256'', ''rules_v'', ''source_rev'', ''text'']"
  have count: "int (length (take (nat (expected + 1)) ?ps)) = expected \<longleftrightarrow> int (length ?ps) = expected"
    using False by auto
  have all: "take (nat (expected + 1)) ?ps = ?ps" if "int (length ?ps) = expected"
    using that by simp
  show ?thesis
    unfolding verify_doc_points_def if_not_P [OF False] wp_bind
  proof (rule wp_first_page)
    fix s' nxt assume v: "V s' = V s"
    show "wp (case (map (project (WithFields ?fs) False) (take (nat (expected + 1)) (matching (V s) (qdrant_collection st) (rev_filter doc srev))), nxt)
        of (scoped, _) \<Rightarrow> if int (length scoped) \<noteq> expected then sret False
          else sret (verify_batch L scoped sha rv srev d1 d2))
       (\<lambda>b s'. V s' = V s \<and> (b \<longleftrightarrow> revision_verified L (V s) st doc sha rv srev expected d1 d2))
       (\<lambda>e s'. V s' = V s) s'"
      unfolding revision_points_def [symmetric] prod.case length_map count
      using False v all by (auto simp: revision_verified_def verify_batch_project wp_if)
  qed (use False in simp_all)
qed

lemma wp_doc_markers:
  assumes "plain_control (V s) st" "1 \<le> ingest_scan_page_size st"
  shows "wp (doc_markers L C st doc) (\<lambda>ms s'. V s' = V s \<and> ms = markers_in L (V s) st doc) (\<lambda>e s'. V s' = V s) s"
  unfolding doc_markers_def Let_def wp_bind
proof (rule wp_exists)
  let ?n = "completion_collection_name st"
  fix ex s' assume v: "V s' = V s" and ex: "map_of (v_alias (V s)) ?n = None \<longrightarrow> ex = (v_points (V s) ?n \<noteq> None)"
  have "wp (sbind (scroll_all_points C ?n (doc_filter doc) WithAll (ingest_scan_page_size st)) (\<lambda>ps. sret (markers_of L ps)))
      (\<lambda>ms s'. V s' = V s \<and> ms = markers_in L (V s) st doc) (\<lambda>e s'. V s' = V s) s'"
    unfolding wp_bind by (rule wp_conseq [OF wp_scroll_all [OF assms(2)]]) (simp_all add: v markers_in_def)
  moreover have "markers_in L (V s) st doc = []" if "\<not> ex"
    using that ex assms(1) by (simp add: markers_in_def matching_missing markers_of_def List.map_filter_simps plain_control_def)
  ultimately show "wp (if \<not> ex then sret [] else sbind (scroll_all_points C ?n (doc_filter doc) WithAll (ingest_scan_page_size st))
        (\<lambda>ps. sret (markers_of L ps)))
      (\<lambda>ms s'. V s' = V s \<and> ms = markers_in L (V s) st doc) (\<lambda>e s'. V s' = V s) s'"
    using v by (cases ex) (simp_all del: wp_bind)
qed simp

lemma wp_is_revision_committed:
  assumes "plain_control (V s) st" "1 \<le> ingest_scan_page_size st"
  shows "wp (is_revision_committed L C st doc srev ancestor)
     (\<lambda>b s'. V s' = V s \<and> (b \<longleftrightarrow> revision_committed L (V s) st doc srev ancestor)) (\<lambda>e s'. V s' = V s) s"
  unfolding is_revision_committed_def wp_bind
proof (rule wp_conseq [OF wp_doc_markers [OF assms]])
  let ?test = "\<lambda>m. if mk_source_rev m \<noteq> srev \<or> mk_target m \<notin> commit_targets st ancestor then sret False
                 else verify_doc_points L C st doc (mk_sha256 m) (mk_rules_v m) srev
                        (mk_expected m) (mk_ids_digest m) (mk_content_digest m)"
  let ?P = "\<lambda>m. mk_source_rev m = srev \<and> mk_target m \<in> commit_targets st ancestor
        \<and> revision_verified L (V s) st doc (mk_sha256 m) (mk_rules_v m) srev (mk_expected m) (mk_ids_digest m) (mk_content_digest m)"
  fix ms s' assume ms: "V s' = V s \<and> ms = markers_in L (V s) st doc"
  have "wp (sany ?test ms) (\<lambda>b s'. V s' = V s \<and> (b \<longleftrightarrow> (\<exists>m \<in> set ms. ?P m))) (\<lambda>e s'. V s' = V s) s'"
  proof (rule wp_sany_iff)
    fix m s1 assume v: "V s1 = V s"
    show "wp (?test m) (\<lambda>b s'. V s' = V s \<and> (b \<longleftrightarrow> ?P m)) (\<lambda>e s'. V s' = V s) s1"
    proof (cases "mk_source_rev m \<noteq> srev \<or> mk_target m \<notin> commit_targets st ancestor")
      case False
      show ?thesis
        unfolding if_not_P [OF False]
        by (rule wp_conseq [OF wp_verify_doc_points]) (use v False in simp_all)
    qed (use v in auto)
  qed (use ms in simp)
  then show "wp (sany ?test ms) (\<lambda>b s'. V s' = V s \<and> (b \<longleftrightarrow> revision_committed L (V s) st doc srev ancestor))
      (\<lambda>e s'. V s' = V s) s'"
    by (rule wp_conseq) (use ms in \<open>auto simp: revision_committed_def\<close>)
qed

lemma wp_is_doc_complete:
  assumes "plain_control (V s) st" "1 \<le> ingest_scan_page_size st"
  shows "wp (is_doc_complete L C st doc sha rv labels srev required)
     (\<lambda>b s'. V s' = V s \<and> (b \<longleftrightarrow> doc_complete L (V s) st doc sha rv labels srev required)) (\<lambda>e s'. V s' = V s) s"
  unfolding is_doc_complete_def read_completion_def wp_bind
proof (rule wp_conseq [OF wp_doc_markers [OF assms]])
  let ?g = "doc_generation_id L st sha rv labels"
  fix ms s' assume ms: "V s' = V s \<and> ms = markers_in L (V s) st doc"
  then have found: "find (\<lambda>m. mk_source_rev m = srev \<and> mk_generation m = ?g \<and> mk_target m = qdrant_collection st) ms
      = scoped_marker L (V s) st doc srev ?g"
    by (simp add: scoped_marker_def)
  show "wp (sret (find (\<lambda>m. mk_source_rev m = srev \<and> mk_generation m = ?g \<and> mk_target m = qdrant_collection st) ms))
      (\<lambda>scoped. wp (case scoped of None \<Rightarrow> sret False
         | Some m \<Rightarrow>
             if required \<noteq> None \<and> Some (mk_manifest_digest m) \<noteq> required then sret False
             else if mk_sha256 m \<noteq> sha \<or> mk_rules_v m \<noteq> rv then sret False
             else verify_doc_points L C st doc sha rv srev (mk_expected m) (mk_ids_digest m) (mk_content_digest m))
        (\<lambda>b s'. V s' = V s \<and> (b \<longleftrightarrow> doc_complete L (V s) st doc sha rv labels srev required)) (\<lambda>e s'. V s' = V s))
      (\<lambda>e s'. V s' = V s) s'"
    unfolding wp_ret found
  proof (cases "scoped_marker L (V s) st doc srev ?g")
    case None
    then show "wp (case scoped_marker L (V s) st doc srev ?g of None \<Rightarrow> sret False
         | Some m \<Rightarrow>
             if required \<noteq> None \<and> Some (mk_manifest_digest m) \<noteq> required then sret False
             else if mk_sha256 m \<noteq> sha \<or> mk_rules_v m \<noteq> rv then sret False
             else verify_doc_points L C st doc sha rv srev (mk_expected m) (mk_ids_digest m) (mk_content_digest m))
        (\<lambda>b s'. V s' = V s \<and> (b \<longleftrightarrow> doc_complete L (V s) st doc sha rv labels srev required)) (\<lambda>e s'. V s' = V s) s'"
      using ms by (simp add: doc_complete_def)
  next
    case (Some m)
    have dc: "doc_complete L (V s) st doc sha rv labels srev required \<longleftrightarrow>
       (required = None \<or> required = Some (mk_manifest_digest m)) \<and> mk_sha256 m = sha \<and> mk_rules_v m = rv
        \<and> revision_verified L (V s) st doc sha rv srev (mk_expected m) (mk_ids_digest m) (mk_content_digest m)"
      by (simp add: doc_complete_def Some)
    show "wp (case scoped_marker L (V s) st doc srev ?g of None \<Rightarrow> sret False
         | Some m \<Rightarrow>
             if required \<noteq> None \<and> Some (mk_manifest_digest m) \<noteq> required then sret False
             else if mk_sha256 m \<noteq> sha \<or> mk_rules_v m \<noteq> rv then sret False
             else verify_doc_points L C st doc sha rv srev (mk_expected m) (mk_ids_digest m) (mk_content_digest m))
        (\<lambda>b s'. V s' = V s \<and> (b \<longleftrightarrow> doc_complete L (V s) st doc sha rv labels srev required)) (\<lambda>e s'. V s' = V s) s'"
      unfolding Some option.case dc
      using ms by (auto simp: wp_if intro!: wp_conseq [OF wp_verify_doc_points])
  qed
qed simp

end

context qdrant_store
begin

lemma wp_delete_selected:
  assumes "plain_control (V s) st" "1 \<le> ingest_scan_page_size st" "n = completion_collection_name st"
    and ids: "pt_id ` {p \<in> set (points_of (V s) n). matches f p \<and> sel (project (WithFields fs) False p)} = gone"
  shows "wp (sbind (cl_exists C n) (\<lambda>ex.
         if \<not> ex then sret ()
         else sbind (scroll_all_points C n f (WithFields fs) (ingest_scan_page_size st)) (\<lambda>ps.
           let ids = map pt_id (filter sel ps)
           in if ids \<noteq> [] then cl_delete_ids C n ids else sret ())))
     (\<lambda>_ s'. updated n (drop_points gone) (V s) (V s'))
     (\<lambda>e s'. \<exists>part \<subseteq> gone. updated n (drop_points part) (V s) (V s')) s"
    (is "wp _ ?Q ?E s")
  unfolding wp_bind [of "cl_exists C n"]
proof (rule wp_exists)
  have refl: "updated n (drop_points {}) (V s) (V s)" by (rule updated_refl)
  fix ex s1 assume v: "V s1 = V s" and ex: "map_of (v_alias (V s)) n = None \<longrightarrow> ex = (v_points (V s) n \<noteq> None)"
  let ?del = "\<lambda>ps. let ids = map pt_id (filter sel ps) in if ids \<noteq> [] then cl_delete_ids C n ids else sret ()"
  have del: "wp (?del (map (project (WithFields fs) False) (matching (V s) n f))) ?Q ?E s2" if "V s2 = V s" for s2
  proof -
    let ?ids = "map pt_id (filter sel (map (project (WithFields fs) False) (matching (V s) n f)))"
    have set_ids: "set ?ids = gone" using ids by (auto simp: image_def)
    show ?thesis
    proof (cases "?ids = []")
      case True
      then have "gone = {}" using set_ids by auto
      with True refl that show ?thesis by (simp add: Let_def)
    next
      case False
      have "wp (cl_delete_ids C n ?ids) ?Q ?E s2"
        by (rule wp_delete_ids) (use that in \<open>auto simp: set_ids simp del: set_map\<close>)
      then show ?thesis unfolding Let_def if_P [OF False] .
    qed
  qed
  have "wp (sbind (scroll_all_points C n f (WithFields fs) (ingest_scan_page_size st)) ?del) ?Q ?E s1"
    unfolding wp_bind
  proof (rule wp_conseq [OF wp_scroll_all [OF assms(2)]])
    fix ps s2
    assume a: "V s2 = V s1 \<and> ps = map (project (WithFields fs) False) (matching (V s1) n f)"
    show "wp (?del ps) ?Q ?E s2" using del [of s2] a v by (simp only: conjunct2 [OF a] v)
  next
    fix e s2 assume "V s2 = V s1 \<and> exn_cls e \<noteq> Unfinished"
    with refl v show "?E e s2" by auto
  qed
  moreover have "gone = {}" if "\<not> ex"
    using that ex assms(1,3) ids points_of_missing by (auto simp: plain_control_def)
  ultimately show "wp (if \<not> ex then sret () else
      sbind (scroll_all_points C n f (WithFields fs) (ingest_scan_page_size st)) ?del) ?Q ?E s1"
    using refl v by (cases ex) (simp_all del: wp_bind)
next
  fix e s1 assume "V s1 = V s"
  then show "?E e s1" using updated_refl by auto
qed

lemma wp_delete_completion:
  assumes "plain_control (V s) st" "1 \<le> ingest_scan_page_size st"
  shows "wp (delete_completion C st doc srev)
     (\<lambda>_ s'. updated (completion_collection_name st) (drop_points (doomed_markers (V s) st doc srev)) (V s) (V s'))
     (\<lambda>e s'. \<exists>part \<subseteq> doomed_markers (V s) st doc srev.
        updated (completion_collection_name st) (drop_points part) (V s) (V s')) s"
  unfolding delete_completion_def Let_def [of "completion_collection_name st"]
  by (rule wp_delete_selected [OF assms refl]) (simp add: doomed_markers_def jget_project)

lemma wp_delete_revision_completions:
  assumes "plain_control (V s) st" "1 \<le> ingest_scan_page_size st"
  shows "wp (delete_revision_completions C st srev)
     (\<lambda>_ s'. updated (completion_collection_name st) (drop_points (doomed_revision (V s) st srev)) (V s) (V s'))
     (\<lambda>e s'. \<exists>part \<subseteq> doomed_revision (V s) st srev.
        updated (completion_collection_name st) (drop_points part) (V s) (V s')) s"
  unfolding delete_revision_completions_def Let_def [of "completion_collection_name st"]
  by (rule wp_delete_selected [OF assms refl])
     (auto simp: doomed_revision_def jget_project matches_def field_matches_def image_def)

end

text \<open>The plans, on the view.\<close>

definition present_revisions :: "view \<Rightarrow> settings \<Rightarrow> string \<Rightarrow> string option set" where
  "present_revisions v st doc =
     {opt_str (jget (pt_payload p) ''source_rev'') | p.
        p \<in> set (points_of v (qdrant_collection st)) \<and> matches (doc_filter doc) p}"

definition refresh_deletes ::
    "libs \<Rightarrow> view \<Rightarrow> settings \<Rightarrow> string \<Rightarrow> string \<Rightarrow> string option \<Rightarrow> string option \<Rightarrow> string set" where
  "refresh_deletes L v st doc srev lineage ancestor =
     (let named = named_revisions (present_revisions v st doc)
      in (if srev \<in> named then {srev} else {})
         \<union> (case lineage of
              Some l \<Rightarrow> if l \<noteq> srev \<and> (l \<in> named \<or> matching v (qdrant_collection st) [(''source_rev'', l)] \<noteq> [])
                        then {l} else {}
            | None \<Rightarrow> {r \<in> named - {srev}. \<not> revision_committed L v st doc r ancestor}))"

lemma fold_insert_if: "fold (\<lambda>x S. if P x then S else insert x S) xs A = A \<union> {x \<in> set xs. \<not> P x}"
  by (induction xs arbitrary: A) auto

lemma finite_named: "finite (named_revisions (present_revisions v st doc))"
proof -
  have "named_revisions (present_revisions v st doc)
      \<subseteq> (\<lambda>p. the (opt_str (jget (pt_payload p) ''source_rev''))) ` set (points_of v (qdrant_collection st))"
  proof
    fix r assume "r \<in> named_revisions (present_revisions v st doc)"
    then obtain p where "p \<in> set (points_of v (qdrant_collection st))" "Some r = opt_str (jget (pt_payload p) ''source_rev'')"
      by (auto simp: named_revisions_def present_revisions_def)
    then show "r \<in> (\<lambda>p. the (opt_str (jget (pt_payload p) ''source_rev''))) ` set (points_of v (qdrant_collection st))"
      by (metis (no_types, lifting) image_eqI option.sel)
  qed
  then show ?thesis by (rule finite_subset) simp
qed

definition stale_marker ::
    "view \<Rightarrow> settings \<Rightarrow> string \<Rightarrow> string set \<Rightarrow> retire_plan option \<Rightarrow> bool \<Rightarrow> point \<Rightarrow> bool" where
  "stale_marker v st wanted exclude plan require_stored p \<longleftrightarrow>
     truthy (jget (pt_payload p) ''doc_id'')
     \<and> \<not> is_marker_excluded (jget (pt_payload p) ''doc_id'') (jget (pt_payload p) ''source_rev'') exclude plan
     \<and> jget (pt_payload p) ''manifest_digest'' \<noteq> JStr wanted
     \<and> (require_stored \<and> truthy (jget (pt_payload p) ''source_rev'') \<longrightarrow>
          revision_points v st (py_str (jget (pt_payload p) ''doc_id'')) (py_str (jget (pt_payload p) ''source_rev'')) \<noteq> [])"

definition count_stale :: "(point \<Rightarrow> bool) \<Rightarrow> nat \<Rightarrow> point \<Rightarrow> nat \<times> string list \<Rightarrow> nat \<times> string list" where
  "count_stale P sample p acc =
     (if P p then (fst acc + 1,
        if length (snd acc) < sample
        then snd acc @ [py_str (jget (pt_payload p) ''doc_id'') @ ''@''
               @ (if truthy (jget (pt_payload p) ''source_rev'') then py_str (jget (pt_payload p) ''source_rev'') else ''unknown'')]
        else snd acc) else acc)"

lemma count_stale_fold:
  "fst (fold (count_stale P sample) ps acc) = fst acc + length (filter P ps)"
  "length (snd acc) \<le> sample \<Longrightarrow>
     length (snd (fold (count_stale P sample) ps acc)) = min sample (length (snd acc) + length (filter P ps))"
  by (induction ps arbitrary: acc) (auto simp: count_stale_def)

context qdrant_reader
begin

lemma wp_plan_refresh_deletes:
  assumes "plain_control (V s) st" "1 \<le> ingest_scan_page_size st"
  shows "wp (plan_refresh_deletes L C st doc srev lineage ancestor)
     (\<lambda>dels s'. V s' = V s \<and> None \<notin> present_revisions (V s) st doc
        \<and> dels = refresh_deletes L (V s) st doc srev lineage ancestor)
     (\<lambda>e s'. V s' = V s) s"
    (is "wp _ ?Q ?E s")
proof -
  let ?present = "present_revisions (V s) st doc"
  let ?named = "named_revisions ?present"
  let ?own = "if srev \<in> ?named then {srev} else {}"
  have stray: "wp (sbind (stray_sha16s C st doc) (\<lambda>shas. sraise (Exn UnsupportedLegacyErr doc (map JStr shas)))) ?Q ?E s1"
    if "V s1 = V s" for s1
    unfolding stray_sha16s_def wp_bind
    by (rule wp_conseq [OF wp_scroll_all [OF assms(2)]]) (simp_all add: that)
  have with_lineage: "wp (if l = srev then sret ?own
                 else if l \<in> ?named then sret (insert l ?own)
                 else sbind (revision_stored C st l) (\<lambda>found. sret (if found then insert l ?own else ?own))) ?Q ?E s1"
    if v: "V s1 = V s" and n: "None \<notin> ?present" and l: "lineage = Some l" for l s1
  proof -
    have "wp (sbind (revision_stored C st l) (\<lambda>found. sret (if found then insert l ?own else ?own))) ?Q ?E s1"
      if "l \<noteq> srev" "l \<notin> ?named"
      unfolding revision_stored_def wp_bind
      by (rule wp_first_page) (use that v n l in \<open>auto simp: refresh_deletes_def Let_def\<close>)
    then show ?thesis using v n l by (auto simp: wp_if refresh_deletes_def Let_def simp del: wp_bind)
  qed
  have sweep: "wp (sfold (sweep_step L C st doc ancestor) (sorted_list_of_set (?named - {srev})) ?own) ?Q ?E s1"
    if v: "V s1 = V s" and n: "None \<notin> ?present" and l: "lineage = None" for s1
  proof -
    have "wp (sfold (sweep_step L C st doc ancestor) (sorted_list_of_set (?named - {srev})) ?own)
        (\<lambda>r s'. V s' = V s \<and> r = fold (\<lambda>x S. if revision_committed L (V s) st doc x ancestor then S else insert x S)
           (sorted_list_of_set (?named - {srev})) ?own) ?E s1"
    proof (rule wp_sfold)
      fix x acc s2 assume w: "V s2 = V s"
      have "plain_control (V s2) st" using assms(1) w by simp
      then show "wp (sweep_step L C st doc ancestor x acc)
          (\<lambda>r s'. V s' = V s \<and> r = (if revision_committed L (V s) st doc x ancestor then acc else insert x acc)) ?E s2"
        unfolding sweep_step_def wp_bind
        by (intro wp_conseq [OF wp_is_revision_committed [OF _ assms(2)]]) (simp_all add: w)
    qed (rule v)
    then show ?thesis
    proof (rule wp_conseq)
      fix r s2
      assume "V s2 = V s \<and> r = fold (\<lambda>x S. if revision_committed L (V s) st doc x ancestor then S else insert x S)
           (sorted_list_of_set (?named - {srev})) ?own"
      then show "?Q r s2" using n l finite_named [of "V s" st doc]
        unfolding fold_insert_if by (simp add: refresh_deletes_def Let_def)
    qed
  qed
  show ?thesis
    unfolding plan_refresh_deletes_def wp_bind [of "stored_doc_revisions C st doc"]
  proof (rule wp_conseq [OF wp_stored_doc_revisions [OF assms(2)]])
    fix present s1
    assume "V s1 = V s \<and> present = {opt_str (jget (pt_payload p) ''source_rev'') | p.
          p \<in> set (points_of (V s) (qdrant_collection st)) \<and> matches [(''doc_id'', doc)] p}"
    then have a: "V s1 = V s" "present = ?present" by (simp_all add: present_revisions_def doc_filter_def)
    show "wp (if None \<in> present
     then sbind (stray_sha16s C st doc) (\<lambda>shas. sraise (Exn UnsupportedLegacyErr doc (map JStr shas)))
     else let named = named_revisions present;
              dels = (if srev \<in> named then {srev} else {})
          in case lineage of
               Some l \<Rightarrow>
                 if l = srev then sret dels
                 else if l \<in> named then sret (insert l dels)
                 else sbind (revision_stored C st l) (\<lambda>found. sret (if found then insert l dels else dels))
             | None \<Rightarrow>
                 sfold (sweep_step L C st doc ancestor) (sorted_list_of_set (named - {srev})) dels) ?Q ?E s1"
    proof (cases "None \<in> ?present")
      case True
      show ?thesis unfolding a(2) if_P [OF True] by (rule stray [OF a(1)])
    next
      case False
      show ?thesis
        unfolding a(2) if_not_P [OF False] Let_def
      proof (cases lineage)
        case None
        show "wp (case lineage of
               Some l \<Rightarrow>
                 if l = srev then sret ?own
                 else if l \<in> ?named then sret (insert l ?own)
                 else sbind (revision_stored C st l) (\<lambda>found. sret (if found then insert l ?own else ?own))
             | None \<Rightarrow> sfold (sweep_step L C st doc ancestor) (sorted_list_of_set (?named - {srev})) ?own) ?Q ?E s1"
          using sweep [OF a(1) False None] unfolding None option.case .
      next
        case (Some l)
        show "wp (case lineage of
               Some l \<Rightarrow>
                 if l = srev then sret ?own
                 else if l \<in> ?named then sret (insert l ?own)
                 else sbind (revision_stored C st l) (\<lambda>found. sret (if found then insert l ?own else ?own))
             | None \<Rightarrow> sfold (sweep_step L C st doc ancestor) (sorted_list_of_set (?named - {srev})) ?own) ?Q ?E s1"
          using with_lineage [OF a(1) False Some] unfolding Some option.case .
      qed
    qed
  qed simp
qed

lemma wp_stale_completion_markers:
  assumes "plain_control (V s) st" "1 \<le> ingest_scan_page_size st"
  shows "wp (stale_completion_markers C st wanted sample exclude plan require_stored)
     (\<lambda>r s'. V s' = V s
        \<and> fst r = length (filter (stale_marker (V s) st wanted exclude plan require_stored)
                           (points_of (V s) (completion_collection_name st)))
        \<and> length (snd r) = min sample (fst r))
     (\<lambda>e s'. V s' = V s) s"
    (is "wp _ ?Q ?E s")
proof -
  let ?n = "completion_collection_name st"
  let ?fs = "[''doc_id'', ''source_rev'', ''manifest_digest'']"
  let ?P = "stale_marker (V s) st wanted exclude plan require_stored"
  let ?all = "map (project (WithFields ?fs) False) (points_of (V s) ?n)"
  have step: "wp (stale_step C st wanted sample exclude plan require_stored p acc)
      (\<lambda>r s'. V s' = V s \<and> r = count_stale ?P sample p acc) ?E s1" if v: "V s1 = V s" for p acc s1
    unfolding stale_step_def Let_def revision_has_points_def
    using v by (auto simp: wp_if stale_marker_def count_stale_def revision_points_def intro!: wp_first_page)
  have stale_proj: "?P (project (WithFields ?fs) False p) = ?P p" for p
    by (simp add: stale_marker_def jget_project)
  have scan: "wp (sbind (scroll_all_points C ?n [] (WithFields ?fs) (ingest_scan_page_size st)) (\<lambda>ps.
                sfold (stale_step C st wanted sample exclude plan require_stored) ps (0, []))) ?Q ?E s1"
    if v: "V s1 = V s" for s1
    unfolding wp_bind
  proof (rule wp_conseq [OF wp_scroll_all [OF assms(2)]])
    fix ps s2 assume "V s2 = V s1 \<and> ps = map (project (WithFields ?fs) False) (matching (V s1) ?n [])"
    then have a: "V s2 = V s" "ps = ?all" using v by (simp_all add: matching_def matches_def)
    have "wp (sfold (stale_step C st wanted sample exclude plan require_stored) ps (0, []))
        (\<lambda>r s'. V s' = V s \<and> r = fold (count_stale ?P sample) ps (0, [])) ?E s2"
      by (rule wp_sfold) (use a(1) step in auto)
    then show "wp (sfold (stale_step C st wanted sample exclude plan require_stored) ps (0, [])) ?Q ?E s2"
      by (rule wp_conseq)
         (simp_all add: a(2) count_stale_fold filter_map comp_def stale_proj)
  qed (use v in simp)
  show ?thesis
    unfolding stale_completion_markers_def Let_def wp_bind [of "cl_exists C ?n"]
  proof (rule wp_exists)
    fix ex s1 assume v: "V s1 = V s" and ex: "map_of (v_alias (V s)) ?n = None \<longrightarrow> ex = (v_points (V s) ?n \<noteq> None)"
    have "points_of (V s) ?n = []" if "\<not> ex"
      using that ex assms(1) points_of_missing by (auto simp: plain_control_def)
    then show "wp (if \<not> ex then sret (0, [])
         else sbind (scroll_all_points C ?n [] (WithFields ?fs) (ingest_scan_page_size st)) (\<lambda>ps.
                sfold (stale_step C st wanted sample exclude plan require_stored) ps (0, []))) ?Q ?E s1"
      using scan [OF v] v by (cases ex) (simp_all del: wp_bind)
  qed simp
qed

end

section \<open>Identities\<close>

text \<open>A marker reads back as it was written.\<close>

lemma parse_marker_payload: "1 \<le> mk_expected m \<Longrightarrow> parse_marker L (marker_payload m) = Some m"
  by (cases m)
     (simp add: parse_marker_def marker_payload_def field_req_def field_def_def as_str_def as_int_def as_positive_def as_float_def)

lemma projection_inject: "representation_projection m = representation_projection m' \<longleftrightarrow> same_vectors m m'"
proof -
  have "representation_projection m = representation_projection m' \<longleftrightarrow> changed_fields reembed_fields m m' = []"
    by (auto simp: representation_projection_def changed_fields_Nil)
  then show ?thesis by (simp add: no_reembed_iff)
qed

lemma projection_text_inject:
  "json_text (JObj (representation_projection m)) = json_text (JObj (representation_projection m')) \<longleftrightarrow> same_vectors m m'"
proof -
  have keys: "map fst (representation_projection m) = reembed_fields" for m
    by (simp add: representation_projection_def comp_def)
  have atoms: "list_all (is_atom \<circ> snd) (representation_projection m)" for m
    by (simp add: representation_projection_def reembed_fields_def manifest_fields_def)
  have "distinct reembed_fields" by (simp add: reembed_fields_def)
  then show ?thesis
    by (subst flat_object_text_inject) (simp_all add: keys atoms projection_inject)
qed

lemma bar_prefix: "CHR ''|'' \<notin> set a \<Longrightarrow> CHR ''|'' \<notin> set b \<Longrightarrow> a @ CHR ''|'' # r = b @ CHR ''|'' # r' \<Longrightarrow> a = b \<and> r = r'"
  using prefix_before [of a "\<lambda>c. c = CHR ''|''" b "CHR ''|''" "CHR ''|''" r r'] by auto

section \<open>Locks and retirement\<close>

lemma publish_lock_separates:
  assumes "publish_lock_name L a = Inr n" "publish_lock_name L b = Inr n" "legacy_lock_stem a = legacy_lock_stem b"
    and "take 12 (lib_sha256 L a) = take 12 (lib_sha256 L b) \<Longrightarrow> a = b"
  shows "a = b"
proof -
  obtain stem where stem: "legacy_lock_stem a = Inr stem" "legacy_lock_stem b = Inr stem"
    using assms(1,3) by (auto simp: publish_lock_name_def rbind_Inr_iff)
  have "publish_lock_name L x = Inr n \<Longrightarrow> legacy_lock_stem x = Inr stem \<Longrightarrow>
      (if stem \<noteq> x then stem @ ''-'' @ take 12 (lib_sha256 L x) else stem) @ ''.lock'' = drop 8 n" for x
    by (auto simp: publish_lock_name_def Let_def)
  with assms(1,2) stem have "(if stem \<noteq> a then stem @ ''-'' @ take 12 (lib_sha256 L a) else stem) @ ''.lock''
      = (if stem \<noteq> b then stem @ ''-'' @ take 12 (lib_sha256 L b) else stem) @ ''.lock''" by metis
  then have "(if stem \<noteq> a then stem @ ''-'' @ take 12 (lib_sha256 L a) else stem)
      = (if stem \<noteq> b then stem @ ''-'' @ take 12 (lib_sha256 L b) else stem)" by (simp only: append_same_eq)
  with assms(4) show ?thesis by (cases "stem = a"; cases "stem = b") simp_all
qed

lemma retire_doc_Inr:
  "retire_doc approved req = Inr (d, e) \<longleftrightarrow>
     d = fst req \<and> (\<exists>have. map_of approved d = Some have \<and> None \<notin> have
        \<and> (if None \<in> snd req then e = \<lparr>re_revs = named_revisions have, re_whole = True\<rparr>
           else named_revisions (snd req) \<subseteq> named_revisions have \<and> e = \<lparr>re_revs = named_revisions (snd req), re_whole = False\<rparr>))"
  by (auto simp: retire_doc_def Let_def split: option.splits if_splits)

section \<open>Properties\<close>

text \<open>C12: verification is exact. For the digests of a non-empty chunk list it answers true exactly
  when the points stored under that document and revision are the points of those chunks, each
  with its text and its bindings: nothing missing, nothing extra. The hash must tell the two id
  texts and the two content texts apart, and chunk ids and texts carry no NUL.\<close>
theorem verify_doc_points_exact:
  assumes "qdrant_reader C V" "chunks \<noteq> []" "nul_free chunks" "expected_digests L chunks = (n, d1, d2)"
    and "tells_apart L (stored_ids_text (revision_points (V s) st doc srev)) (chunk_ids_text chunks)"
    and "tells_apart L (stored_content_text (revision_points (V s) st doc srev)) (chunk_content_text chunks)"
  shows "wp (verify_doc_points L C st doc sha rv srev (int n) d1 d2)
     (\<lambda>b s'. V s' = V s \<and> (b \<longleftrightarrow> revision_stored_exactly (V s) st doc sha rv srev chunks))
     (\<lambda>e s'. V s' = V s) s"
proof -
  have d: "distinct (map pt_id (revision_points (V s) st doc srev))"
    using qdrant_reader.distinct_matching [OF assms(1)] by (simp add: revision_points_def)
  have "revision_verified L (V s) st doc sha rv srev (int n) d1 d2 \<longleftrightarrow> revision_stored_exactly (V s) st doc sha rv srev chunks"
    using revision_verified_sound [OF d assms(3,5,6,4)] revision_verified_complete [OF d assms(2) _ assms(4)] by blast
  then show ?thesis
    using qdrant_reader.wp_verify_doc_points [OF assms(1), of L st doc sha rv srev "int n" d1 d2 s] by simp
qed

definition verified_mem :: mem where
  "verified_mem = \<lparr>mem_colls = [(''gen1'', [chunk_point demo_parsed ''r1'' None (demo_chunk, JNull)]), (''gen1__completions'', [])],
     mem_alias = [], mem_info = [], mem_schema = []\<rparr>"

definition plain_libs :: libs where
  "plain_libs = demo_libs\<lparr>lib_sha256 := (\<lambda>x. x)\<rparr>"

lemma verified_mem_points:
  "revision_points (mem_view verified_mem) (demo_settings ''gen1'') ''C'' (parsed_source_rev demo_parsed)
     = [chunk_point demo_parsed ''r1'' None (demo_chunk, JNull)]"
  by (simp add: revision_points_def matching_def points_of_def phys_def mem_view_def verified_mem_def
      rev_filter_def matches_def field_matches_def chunk_point_def) (simp add: demo_chunk_def)

lemma verified_mem_stored:
  "revision_stored_exactly (mem_view verified_mem) (demo_settings ''gen1'') ''C'' ''abc'' ''r1'' (parsed_source_rev demo_parsed) [demo_chunk]"
proof -
  let ?p = "chunk_point demo_parsed ''r1'' None (demo_chunk, JNull)"
  have "jget (pt_payload ?p) ''text'' = JStr ''hello''" by (simp add: chunk_point_def) (simp add: demo_chunk_def)
  then have "stored_text ?p = ch_text demo_chunk" by (simp add: stored_text_def demo_chunk_def)
  then show ?thesis
    unfolding revision_stored_exactly_def verified_mem_points
    by (simp add: point_of_rev_def chunk_point_def) (simp add: demo_parsed_def)
qed

lemma verify_doc_points_exact_witness:
  "wp (verify_doc_points plain_libs mem_client (demo_settings ''gen1'') ''C'' ''abc'' ''r1'' (parsed_source_rev demo_parsed)
         1 (chunk_ids_text [demo_chunk]) (chunk_content_text [demo_chunk]))
     (\<lambda>b s'. b) (\<lambda>e s'. True) verified_mem"
proof -
  have dig: "expected_digests plain_libs [demo_chunk] = (1, chunk_ids_text [demo_chunk], chunk_content_text [demo_chunk])"
    by (simp add: expected_digests_conv plain_libs_def)
  have nf: "nul_free [demo_chunk]" by (simp add: nul_free_def demo_chunk_def nul_def)
  have ap: "tells_apart plain_libs a b" for a b by (simp add: tells_apart_def plain_libs_def)
  note verified_mem_stored
  then have "wp (verify_doc_points plain_libs mem_client (demo_settings ''gen1'') ''C'' ''abc'' ''r1'' (parsed_source_rev demo_parsed)
         (int 1) (chunk_ids_text [demo_chunk]) (chunk_content_text [demo_chunk]))
     (\<lambda>b s'. b) (\<lambda>e s'. True) verified_mem"
    by (intro wp_conseq [OF verify_doc_points_exact [OF mem.qdrant_reader_axioms not_Cons_self2 nf dig ap ap]]) simp_all
  then show ?thesis by simp
qed

text \<open>C13: the skip gate only reads, and skips a document exactly when the first marker scoped to
  this revision, this representation generation and this target names the same bytes and rules
  (and the required contract, if one is given) and the stored points pass its digests.\<close>
theorem skip_gate_sound:
  assumes "qdrant_reader C V" "settings_valid st" "plain_control (V s) st"
  shows "wp (is_doc_complete L C st doc sha rv labels srev required)
     (\<lambda>b s'. V s' = V s \<and> (b \<longleftrightarrow> doc_complete L (V s) st doc sha rv labels srev required)) (\<lambda>e s'. V s' = V s) s"
  by (rule qdrant_reader.wp_is_doc_complete [OF assms(1,3) settings_valid_pages [OF assms(2)]])

lemma verified_mem_plain: "plain_control (mem_view verified_mem) (demo_settings ''gen1'')"
  by (simp add: plain_control_def verified_mem_def mem_view_def)

lemma skip_gate_sound_witness:
  "wp (is_doc_complete plain_libs mem_client (demo_settings ''gen1'') ''C'' ''abc'' ''r1'' ''||'' ''rev'' None)
     (\<lambda>b s'. \<not> b) (\<lambda>e s'. True) verified_mem"
proof -
  have "markers_in plain_libs (mem_view verified_mem) (demo_settings ''gen1'') ''C'' = []"
    by (simp add: markers_in_def matching_def points_of_def phys_def mem_view_def verified_mem_def
        completion_collection_name_def completion_collection_for_def markers_of_def List.map_filter_simps)
  then have "\<not> doc_complete plain_libs (mem_view verified_mem) (demo_settings ''gen1'') ''C'' ''abc'' ''r1'' ''||'' ''rev'' None"
    by (simp add: doc_complete_def scoped_marker_def)
  then show ?thesis
    by (intro wp_conseq [OF skip_gate_sound [OF mem.qdrant_reader_axioms demo_settings_valid verified_mem_plain]]) simp_all
qed

text \<open>Invalidating a revision removes exactly its markers under the document: afterwards none
  is left, every other marker and every other collection is untouched, and a failure removes
  only some of them.\<close>
theorem delete_completion_exact:
  assumes "qdrant_store C V" "settings_valid st" "plain_control (V s) st"
  shows "wp (delete_completion C st doc srev)
     (\<lambda>_ s'. doomed_markers (V s') st doc srev = {}
        \<and> updated (completion_collection_name st) (drop_points (doomed_markers (V s) st doc srev)) (V s) (V s'))
     (\<lambda>e s'. \<exists>part \<subseteq> doomed_markers (V s) st doc srev.
        updated (completion_collection_name st) (drop_points part) (V s) (V s')) s"
proof (rule wp_conseq [OF qdrant_store.wp_delete_completion [OF assms(1,3) settings_valid_pages [OF assms(2)], of doc srev]])
  let ?n = "completion_collection_name st"
  fix x s' assume u: "updated ?n (drop_points (doomed_markers (V s) st doc srev)) (V s) (V s')"
  have "p \<notin> set (points_of (V s') ?n)" if m: "matches (doc_filter doc) p" "jget (pt_payload p) ''source_rev'' = JStr srev" for p
  proof
    assume "p \<in> set (points_of (V s') ?n)"
    then have "by_id (points_of (V s') ?n) (pt_id p) = Some p"
      using qdrant_reader.wf [OF qdrant_store.axioms(1) [OF assms(1)]] by (simp add: by_id_in)
    then have "pt_id p \<notin> doomed_markers (V s) st doc srev" "by_id (points_of (V s) ?n) (pt_id p) = Some p"
      using u by (auto simp: updated_def drop_points_def restrict_map_def split: if_splits)
    then show False using m by (auto simp: doomed_markers_def dest: by_id_Some)
  qed
  then show "doomed_markers (V s') st doc srev = {}
      \<and> updated ?n (drop_points (doomed_markers (V s) st doc srev)) (V s) (V s')"
    using u by (auto simp: doomed_markers_def)
qed

lemma delete_completion_exact_witness:
  "wp (delete_completion mem_client (demo_settings ''gen1'') ''C'' ''rev'')
     (\<lambda>_ s'. doomed_markers (mem_view s') (demo_settings ''gen1'') ''C'' ''rev'' = {}) (\<lambda>e s'. True) verified_mem"
  by (rule wp_conseq [OF delete_completion_exact [OF mem.qdrant_store_axioms demo_settings_valid verified_mem_plain]]) simp_all

text \<open>A refresh plan never selects a committed sibling. It reads only, refuses a document with
  points that carry no revision, and otherwise selects the stale revision itself, the lineage
  revision when the run names one, and, without lineage, exactly those other stored revisions
  that no marker of this target or its ancestor certifies.\<close>
theorem refresh_plan_spares_committed:
  assumes "qdrant_reader C V" "settings_valid st" "plain_control (V s) st"
  shows "wp (plan_refresh_deletes L C st doc srev lineage ancestor)
     (\<lambda>dels s'. V s' = V s \<and> None \<notin> present_revisions (V s) st doc
        \<and> dels = refresh_deletes L (V s) st doc srev lineage ancestor
        \<and> (\<forall>r \<in> dels. r = srev \<or> lineage = Some r \<or> (lineage = None \<and> \<not> revision_committed L (V s) st doc r ancestor)))
     (\<lambda>e s'. V s' = V s) s"
  by (rule wp_conseq [OF qdrant_reader.wp_plan_refresh_deletes [OF assms(1,3) settings_valid_pages [OF assms(2)]]])
     (auto simp: refresh_deletes_def Let_def split: if_splits option.splits)

lemma refresh_plan_spares_committed_witness:
  "wp (plan_refresh_deletes plain_libs mem_client (demo_settings ''gen1'') ''C'' (parsed_source_rev demo_parsed) (Some ''old'') None)
     (\<lambda>dels s'. dels \<subseteq> {parsed_source_rev demo_parsed, ''old''}) (\<lambda>e s'. True) verified_mem"
  by (rule wp_conseq [OF refresh_plan_spares_committed [OF mem.qdrant_reader_axioms demo_settings_valid verified_mem_plain]]) auto

text \<open>The migration residue proof counts. The reported number is the number of stored markers
  that certify another contract and are not excused by the removal plan, and the sample has as
  many labels as were asked for or as there are; so zero means none.\<close>
theorem stale_markers_counted:
  assumes "qdrant_reader C V" "settings_valid st" "plain_control (V s) st"
  shows "wp (stale_completion_markers C st wanted sample exclude plan require_stored)
     (\<lambda>r s'. V s' = V s
        \<and> fst r = length (filter (stale_marker (V s) st wanted exclude plan require_stored)
                           (points_of (V s) (completion_collection_name st)))
        \<and> length (snd r) = min sample (fst r))
     (\<lambda>e s'. V s' = V s) s"
  by (rule qdrant_reader.wp_stale_completion_markers [OF assms(1,3) settings_valid_pages [OF assms(2)]])

lemma stale_markers_counted_witness:
  "wp (stale_completion_markers mem_client (demo_settings ''gen1'') ''digest'' 3 {} None False)
     (\<lambda>r s'. fst r = 0) (\<lambda>e s'. True) verified_mem"
  by (rule wp_conseq [OF stale_markers_counted [OF mem.qdrant_reader_axioms demo_settings_valid verified_mem_plain]])
     (simp_all add: points_of_def phys_def mem_view_def verified_mem_def completion_collection_name_def completion_collection_for_def)

text \<open>A generation id binds the bytes, the stored representation and the source labels: equal
  ids mean the same content hash, the same label text, and contracts that produce the same
  vectors. A hexadecimal digest holds no bar, and the truncated hash must tell the two
  projections apart.\<close>
theorem generation_id_binds:
  assumes "\<And>t. CHR ''|'' \<notin> set (lib_sha256 L t)" "CHR ''|'' \<notin> set sha" "CHR ''|'' \<notin> set sha'"
    and "take 16 (lib_sha256 L (json_text (JObj (representation_projection (build_manifest st rv)))))
          = take 16 (lib_sha256 L (json_text (JObj (representation_projection (build_manifest st' rv')))))
        \<Longrightarrow> json_text (JObj (representation_projection (build_manifest st rv)))
          = json_text (JObj (representation_projection (build_manifest st' rv')))"
    and "doc_generation_id L st sha rv labels = doc_generation_id L st' sha' rv' labels'"
  shows "sha = sha' \<and> labels = labels' \<and> same_vectors (build_manifest st rv) (build_manifest st' rv')"
proof -
  have fp: "CHR ''|'' \<notin> set (representation_fingerprint L st rv)" for st rv
    using assms(1) by (auto simp: representation_fingerprint_def representation_fingerprint_version_def dest!: in_set_takeD)
  from assms(5) have "sha = sha' \<and> representation_fingerprint L st rv @ ''|'' @ labels = representation_fingerprint L st' rv' @ ''|'' @ labels'"
    unfolding doc_generation_id_def by (intro bar_prefix [OF assms(2,3)]) simp
  moreover from this have "representation_fingerprint L st rv = representation_fingerprint L st' rv' \<and> labels = labels'"
    by (intro bar_prefix [OF fp fp]) simp
  ultimately have eqs: "sha = sha'" "labels = labels'" "representation_fingerprint L st rv = representation_fingerprint L st' rv'"
    by blast+
  have "json_text (JObj (representation_projection (build_manifest st rv)))
      = json_text (JObj (representation_projection (build_manifest st' rv')))"
    using eqs(3) unfolding representation_fingerprint_def by (intro assms(4)) (simp only: append_same_eq same_append_eq)
  with eqs(1,2) show ?thesis by (simp only: projection_text_inject)
qed

lemma generation_id_binds_witness:
  "doc_generation_id (demo_libs\<lparr>lib_sha256 := \<lambda>t. []\<rparr>) (demo_settings ''c'') ''abc'' ''r1'' ''ibm||''
     = doc_generation_id (demo_libs\<lparr>lib_sha256 := \<lambda>t. []\<rparr>) (demo_settings ''d'') ''abc'' ''r1'' ''ibm||''
   \<and> same_vectors (build_manifest (demo_settings ''c'') ''r1'') (build_manifest (demo_settings ''d'') ''r1'')"
proof
  let ?L = "demo_libs\<lparr>lib_sha256 := \<lambda>t. []\<rparr>"
  have same: "build_manifest (demo_settings ''c'') ''r1'' = build_manifest (demo_settings ''d'') ''r1''"
    by (simp add: build_manifest_def demo_settings_def dim_or_none_def require_dense_dim_def)
  show eq: "doc_generation_id ?L (demo_settings ''c'') ''abc'' ''r1'' ''ibm||'' = doc_generation_id ?L (demo_settings ''d'') ''abc'' ''r1'' ''ibm||''"
    by (simp add: doc_generation_id_def representation_fingerprint_def same)
  show "same_vectors (build_manifest (demo_settings ''c'') ''r1'') (build_manifest (demo_settings ''d'') ''r1'')"
    using generation_id_binds [OF _ _ _ _ eq] same by simp
qed

text \<open>A retirement plan touches approved history only. It lists the requested documents in
  order; a named request retires exactly the named revisions, all of them approved, and a
  whole-document request exactly the approved ones.\<close>
theorem retire_plan_approved:
  assumes "plan_retire_deletes approved requested = Inr plan"
  shows "map fst plan = sort (map fst requested)
     \<and> (\<forall>(d, e) \<in> set plan. \<exists>history wanted. map_of approved d = Some history \<and> None \<notin> history
          \<and> (d, wanted) \<in> set requested \<and> re_revs e \<subseteq> named_revisions history
          \<and> (re_whole e \<longleftrightarrow> None \<in> wanted)
          \<and> re_revs e = (if None \<in> wanted then named_revisions history else named_revisions wanted))"
proof -
  have l: "list_all2 (\<lambda>x y. retire_doc approved x = Inr y) (sort_key fst requested) plan"
    using assms by (simp add: plan_retire_deletes_def res_map_Inr_iff)
  have "map fst plan = map fst (sort_key fst requested)"
    using l by (induction rule: list_all2_induct) (auto simp: retire_doc_Inr split: prod.splits)
  moreover have "\<exists>history wanted. map_of approved d = Some history \<and> None \<notin> history
          \<and> (d, wanted) \<in> set requested \<and> re_revs e \<subseteq> named_revisions history
          \<and> (re_whole e \<longleftrightarrow> None \<in> wanted)
          \<and> re_revs e = (if None \<in> wanted then named_revisions history else named_revisions wanted)"
    if de: "(d, e) \<in> set plan" for d e
  proof -
    from de obtain i where i: "i < length plan" "plan ! i = (d, e)" by (auto simp: in_set_conv_nth)
    with l have n: "i < length (sort_key fst requested)" "retire_doc approved (sort_key fst requested ! i) = Inr (d, e)"
      using list_all2_nthD2 [OF l i(1)] list_all2_lengthD [OF l] by simp_all
    then obtain x where x: "x \<in> set requested" "retire_doc approved x = Inr (d, e)"
      using nth_mem [OF n(1)] unfolding set_sort by blast
    have w: "(d, snd x) \<in> set requested" using x by (simp add: retire_doc_Inr)
    from x(2) obtain history where h: "map_of approved d = Some history" "None \<notin> history"
        "if None \<in> snd x then e = \<lparr>re_revs = named_revisions history, re_whole = True\<rparr>
         else named_revisions (snd x) \<subseteq> named_revisions history \<and> e = \<lparr>re_revs = named_revisions (snd x), re_whole = False\<rparr>"
      by (auto simp: retire_doc_Inr)
    show ?thesis
      by (rule exI [of _ history], rule exI [of _ "snd x"]) (use h w in \<open>simp split: if_splits\<close>)
  qed
  ultimately show ?thesis unfolding map_fst_sort_key by (intro conjI ballI) (assumption, clarsimp simp only: split_beta, metis prod.collapse)
qed

lemma retire_plan_approved_witness:
  "plan_retire_deletes [(''D'', {Some ''r1'', Some ''r2''})] [(''D'', {Some ''r2''})] = Inr [(''D'', \<lparr>re_revs = {''r2''}, re_whole = False\<rparr>)]
   \<and> {''r2''} \<subseteq> named_revisions {Some ''r1'', Some ''r2''}"
proof
  have n: "named_revisions {Some ''r1'', Some ''r2''} = {''r1'', ''r2''}" "named_revisions {Some ''r2''} = {''r2''}"
    by (auto simp: named_revisions_def)
  show eq: "plan_retire_deletes [(''D'', {Some ''r1'', Some ''r2''})] [(''D'', {Some ''r2''})] = Inr [(''D'', \<lparr>re_revs = {''r2''}, re_whole = False\<rparr>)]"
    by (simp add: plan_retire_deletes_def retire_doc_def n)
  show "{''r2''} \<subseteq> named_revisions {Some ''r1'', Some ''r2''}"
    using conjunct2 [OF retire_plan_approved [OF eq]] n by simp
qed

text \<open>The label triple of a generation id is not escaped: two different triples, both with a bar
  in a label, give one text.\<close>

theorem source_labels_ambiguous:
  "\<exists>vendor product vendor' product'. (vendor, product) \<noteq> (vendor', product')
     \<and> source_labels vendor product None = source_labels vendor' product' None"
  by (rule exI [of _ "Some ''a|b''"], rule exI [of _ "Some ''c''"], rule exI [of _ "Some ''a''"], rule exI [of _ "Some ''b|c''"])
     (simp add: source_labels_def or_empty_def)

end
