(* ===== verification/Upsert.thy ===== *)
theory Upsert
  imports Completion
begin

text \<open>
  The upsert stage of the ingest run for one parsed document (\<open>_upsert_one\<close> in
  \<open>mainframe_rag/ingest/run_ingest.py\<close>): skip a verified document, plan the deletes, invalidate
  the markers before any point is touched, delete and upsert, verify, and only then certify.
  The revision locks serialise runs over one revision, so the calls of one run are not
  interleaved with another's; the returned durations and the log line are left out.
\<close>

section \<open>The document id gate\<close>

text \<open>
  The hidden characters, in UTF-8: the C0 and C1 controls, DEL, and the bidirectional and
  zero-width marks of the pattern. A character pattern matches where a byte pattern does, since no
  encoded character starts inside another.
\<close>

fun hidden_code :: "nat list \<Rightarrow> bool" where
  "hidden_code (b # c # d # bs) \<longleftrightarrow>
     b \<le> 31 \<or> b = 127
     \<or> b = 0xC2 \<and> (0x80 \<le> c \<and> c \<le> 0x9F \<or> c = 0xAD)
     \<or> b = 0xD8 \<and> c = 0x9C
     \<or> b = 0xE1 \<and> c = 0xA0 \<and> d = 0x8E
     \<or> b = 0xE2 \<and> c = 0x80 \<and> (0x8B \<le> d \<and> d \<le> 0x8F \<or> 0xA8 \<le> d \<and> d \<le> 0xAE)
     \<or> b = 0xE2 \<and> c = 0x81 \<and> 0xA0 \<le> d \<and> d \<le> 0xAF
     \<or> b = 0xEF \<and> c = 0xBB \<and> d = 0xBF
     \<or> b = 0xF3 \<and> c = 0xA0 \<and> (d = 0x80 \<or> d = 0x81)"
| "hidden_code [b, c] \<longleftrightarrow> b \<le> 31 \<or> b = 127 \<or> b = 0xC2 \<and> (0x80 \<le> c \<and> c \<le> 0x9F \<or> c = 0xAD) \<or> b = 0xD8 \<and> c = 0x9C"
| "hidden_code [b] \<longleftrightarrow> b \<le> 31 \<or> b = 127"
| "hidden_code [] \<longleftrightarrow> False"

fun has_hidden :: "string \<Rightarrow> bool" where
  "has_hidden [] = False"
| "has_hidden (c # cs) = (hidden_code (map of_char (c # cs)) \<or> has_hidden cs)"

definition require_visible_doc_id :: "parsed_doc \<Rightarrow> unit res" where
  "require_visible_doc_id parsed =
     (if has_hidden (pd_doc_id parsed)
      then raise_exn ValueErr ''doc_id_hidden_characters'' [] else Inr ())"

definition walked_source_rev :: "parsed_doc \<Rightarrow> string res" where
  "walked_source_rev parsed = rbind (require_visible_doc_id parsed) (\<lambda>_. Inr (parsed_source_rev parsed))"

section \<open>One document\<close>

datatype doc_status = Upserted | Skipped | Empty_Doc

text \<open>The other revisions whose markers go: the deleted ones, and the lineage revision.\<close>

definition other_revisions :: "string set \<Rightarrow> string \<Rightarrow> string option \<Rightarrow> string set" where
  "other_revisions rev_deletes revision lineage =
     (rev_deletes - {revision})
     \<union> (case lineage of None \<Rightarrow> {} | Some l \<Rightarrow> if l \<noteq> revision then {l} else {})"

text \<open>The \<open>try\<close> block: a 404 means the completions collection is gone, anything else propagates.\<close>

definition invalidate_markers :: "'s client \<Rightarrow> settings \<Rightarrow> string \<Rightarrow> string \<Rightarrow> string set \<Rightarrow> ('s, unit) eff" where
  "invalidate_markers C s doc revision others =
     scatch
       (sseq (delete_completion C s doc revision)
             (seach (delete_revision_completions C s) (sorted_list_of_set others)))
       (\<lambda>e. if exn_cls e \<noteq> StoreStatus 404 then sraise e else sret ())"

text \<open>Upsert, verify and certify, after the deletes.\<close>

definition store_and_certify ::
    "libs \<Rightarrow> 's client \<Rightarrow> settings \<Rightarrow> string \<Rightarrow> parsed_doc \<Rightarrow> chunk list \<Rightarrow> json list
       \<Rightarrow> (string \<times> string) list option \<Rightarrow> string \<Rightarrow> string \<Rightarrow> ('s, doc_status) eff" where
  "store_and_certify L C s rules_v parsed chunks vectors contexts src_labels revision =
     sbind (upsert_chunks C s rules_v parsed chunks vectors contexts) (\<lambda>upserted.
     let (expected, ids_digest, content_digest) = expected_digests L chunks
     in if upserted \<noteq> expected
        then sraise (Exn RuntimeErr ''upsert_count'' [JInt (int upserted), JStr (pd_doc_id parsed), JInt (int expected)])
        else sbind (verify_doc_points L C s (pd_doc_id parsed) (pd_sha256 parsed) rules_v revision
                      (int expected) ids_digest content_digest) (\<lambda>ok.
          if \<not> ok then sraise (Exn RuntimeErr ''upsert_verification'' [JStr (pd_doc_id parsed), JInt (int expected)])
          else sseq (write_completion L C s (pd_doc_id parsed) (pd_sha256 parsed) rules_v src_labels revision
                       expected ids_digest content_digest)
                    (sret Upserted)))"

text \<open>Plan, invalidate, delete, then store: the path of a document that is not skipped.\<close>

definition refresh_document ::
    "libs \<Rightarrow> 's client \<Rightarrow> settings \<Rightarrow> string \<Rightarrow> parsed_doc \<Rightarrow> chunk list \<Rightarrow> json list
       \<Rightarrow> (string \<times> string) list option \<Rightarrow> string \<Rightarrow> string option \<Rightarrow> string option \<Rightarrow> string
       \<Rightarrow> ('s, doc_status) eff" where
  "refresh_document L C s rules_v parsed chunks vectors contexts src_labels lineage_rev ancestor revision =
     sbind (plan_refresh_deletes L C s (pd_doc_id parsed) revision lineage_rev ancestor) (\<lambda>rev_deletes.
       sseq (invalidate_markers C s (pd_doc_id parsed) revision (other_revisions rev_deletes revision lineage_rev))
      (sseq (seach (delete_by_revision C s) (sorted_list_of_set rev_deletes))
            (store_and_certify L C s rules_v parsed chunks vectors contexts src_labels revision)))"

definition upsert_one ::
    "libs \<Rightarrow> 's client \<Rightarrow> settings \<Rightarrow> string \<Rightarrow> parsed_doc \<Rightarrow> chunk list \<Rightarrow> json list
       \<Rightarrow> (string \<times> string) list option \<Rightarrow> bool \<Rightarrow> string \<Rightarrow> string option \<Rightarrow> string option
       \<Rightarrow> ('s, doc_status) eff" where
  "upsert_one L C s rules_v parsed chunks vectors contexts force_reingest src_labels lineage_rev ancestor =
     sbind (slift (walked_source_rev parsed)) (\<lambda>revision.
     if chunks = [] then sret Empty_Doc
     else if length chunks \<noteq> length vectors
     then sraise (Exn ValueErr ''length_mismatch'' [JInt (int (length chunks)), JInt (int (length vectors))])
     else sbind (if force_reingest then sret False
                 else is_doc_complete L C s (pd_doc_id parsed) (pd_sha256 parsed) rules_v src_labels revision None) (\<lambda>complete.
       if complete then sret Skipped
       else refresh_document L C s rules_v parsed chunks vectors contexts src_labels lineage_rev ancestor revision))"

section \<open>Deleting and writing points, on the view\<close>

definition wf_view :: "view \<Rightarrow> bool" where
  "wf_view v \<longleftrightarrow> (\<forall>n. distinct (map pt_id (points_of v n)))"

definition shrunk :: "string \<Rightarrow> string set \<Rightarrow> view \<Rightarrow> view \<Rightarrow> bool" where
  "shrunk n ids v v' \<longleftrightarrow> (\<exists>gone \<subseteq> ids. updated n (drop_points gone) v v')"

lemma set_dropped:
  assumes "wf_view v" "wf_view v'" "updated n (drop_points ids) v v'"
  shows "set (points_of v' n) = {p \<in> set (points_of v n). pt_id p \<notin> ids}"
proof -
  have "p \<in> set (points_of v' n) \<longleftrightarrow> p \<in> set (points_of v n) \<and> pt_id p \<notin> ids" for p
  proof -
    have "p \<in> set (points_of v' n) \<longleftrightarrow> by_id (points_of v' n) (pt_id p) = Some p"
      using assms(2) by (simp add: wf_view_def by_id_in)
    also have "\<dots> \<longleftrightarrow> by_id (points_of v n) (pt_id p) = Some p \<and> pt_id p \<notin> ids"
      using assms(3) by (auto simp: updated_def drop_points_def restrict_map_def)
    also have "by_id (points_of v n) (pt_id p) = Some p \<longleftrightarrow> p \<in> set (points_of v n)"
      using assms(1) by (simp add: wf_view_def by_id_in)
    finally show ?thesis .
  qed
  then show ?thesis by blast
qed

lemma set_put:
  assumes "wf_view v" "wf_view v'" "updated n (put_points ps) v v'"
  shows "p \<in> set (points_of v' n) \<longleftrightarrow>
     by_id (rev ps) (pt_id p) = Some p \<or> (p \<in> set (points_of v n) \<and> pt_id p \<notin> pt_id ` set ps)"
proof -
  have none: "by_id (rev ps) (pt_id p) = None \<longleftrightarrow> pt_id p \<notin> pt_id ` set ps" by (simp add: by_id_None)
  have "p \<in> set (points_of v' n) \<longleftrightarrow> by_id (points_of v' n) (pt_id p) = Some p"
    using assms(2) by (simp add: wf_view_def by_id_in)
  also have "\<dots> \<longleftrightarrow> (by_id (points_of v n) ++ by_id (rev ps)) (pt_id p) = Some p"
    using assms(3) by (simp add: updated_def put_points_def)
  also have "\<dots> \<longleftrightarrow> by_id (rev ps) (pt_id p) = Some p
      \<or> (by_id (rev ps) (pt_id p) = None \<and> by_id (points_of v n) (pt_id p) = Some p)"
    by (auto simp: map_add_def split: option.split)
  also have "by_id (points_of v n) (pt_id p) = Some p \<longleftrightarrow> p \<in> set (points_of v n)"
    using assms(1) by (simp add: wf_view_def by_id_in)
  finally show ?thesis unfolding none by blast
qed

lemma drop_points_comp: "drop_points B \<circ> drop_points A = drop_points (A \<union> B)"
  by (auto simp: drop_points_def restrict_map_def fun_eq_iff)

lemma shrunk_refl: "shrunk n A v v"
  unfolding shrunk_def by (rule exI [of _ "{}"]) (simp add: updated_refl)

lemma shrunk_mono: "shrunk n A v v' \<Longrightarrow> A \<subseteq> B \<Longrightarrow> shrunk n B v v'"
  unfolding shrunk_def by blast

lemma shrunk_trans:
  assumes "shrunk n A v v'" "shrunk n A v' v''"
  shows "shrunk n A v v''"
proof -
  from assms obtain g h where "g \<subseteq> A" "updated n (drop_points g) v v'" "h \<subseteq> A" "updated n (drop_points h) v' v''"
    unfolding shrunk_def by blast
  then have "g \<union> h \<subseteq> A" "updated n (drop_points (g \<union> h)) v v''"
    using updated_trans [of n "drop_points g" v v' "drop_points h" v''] by (auto simp: drop_points_comp)
  then show ?thesis unfolding shrunk_def by blast
qed

lemma set_shrunk:
  assumes "wf_view v" "wf_view v'" "shrunk n A v v'"
  shows "set (points_of v' n) \<subseteq> set (points_of v n)"
    and "\<And>p. p \<in> set (points_of v n) \<Longrightarrow> pt_id p \<notin> A \<Longrightarrow> p \<in> set (points_of v' n)"
  using assms set_dropped [OF assms(1,2)] unfolding shrunk_def by blast+

lemma alias_updated: "updated n f v v' \<Longrightarrow> v_alias v' = v_alias v"
  by (simp add: updated_def)

lemma alias_shrunk: "shrunk n A v v' \<Longrightarrow> v_alias v' = v_alias v"
  by (auto simp: shrunk_def alias_updated)

lemma points_of_shrunk: "shrunk n A v v' \<Longrightarrow> apart v m n \<Longrightarrow> points_of v' m = points_of v m"
  by (auto simp: shrunk_def apart_def intro: points_of_updated)

text \<open>Names apart stay apart, and a control collection stays plain, while the aliases stand.\<close>

lemma apart_alias: "v_alias v' = v_alias v \<Longrightarrow> apart v' m n = apart v m n"
  by (simp add: apart_def phys_def)

lemma plain_alias: "v_alias v' = v_alias v \<Longrightarrow> plain_control v' st = plain_control v st"
  by (simp add: plain_control_def)

text \<open>The ids a sweep of revisions, and an invalidation of markers, may remove.\<close>

definition revision_ids :: "view \<Rightarrow> settings \<Rightarrow> string set \<Rightarrow> string set" where
  "revision_ids v st revs =
     pt_id ` {p \<in> set (points_of v (qdrant_collection st)). \<exists>r \<in> revs. field_matches r (jget (pt_payload p) ''source_rev'')}"

definition marker_ids :: "view \<Rightarrow> settings \<Rightarrow> string \<Rightarrow> string \<Rightarrow> string set \<Rightarrow> string set" where
  "marker_ids v st doc revision others =
     doomed_markers v st doc revision \<union> (\<Union>r \<in> others. doomed_revision v st r)"

lemma shrunk_ids:
  assumes "wf_view v" "wf_view v'" "shrunk n A v v'"
  shows "n = qdrant_collection st \<Longrightarrow> revision_ids v' st revs \<subseteq> revision_ids v st revs"
    and "n = completion_collection_name st \<Longrightarrow> doomed_markers v' st doc r \<subseteq> doomed_markers v st doc r"
    and "n = completion_collection_name st \<Longrightarrow> doomed_revision v' st r \<subseteq> doomed_revision v st r"
  using set_shrunk(1) [OF assms] by (auto simp: revision_ids_def doomed_markers_def doomed_revision_def)

text \<open>
  A 404 is about a missing collection: the one law the 404 branch relies on. The in-memory
  client answers so.
\<close>

definition absent :: "view \<Rightarrow> string \<Rightarrow> bool" where
  "absent v n \<longleftrightarrow> v_points v (phys v n) = None"

locale qdrant_missing = qdrant_store C V for C :: "'s client" and V :: "'s \<Rightarrow> view" +
  assumes exists_404: "wp (cl_exists C n) (\<lambda>_ _. True) (\<lambda>e s'. exn_cls e = StoreStatus 404 \<longrightarrow> absent (V s') n) s"
    and scroll_404: "wp (cl_scroll C n f lim pr vec off) (\<lambda>_ _. True)
          (\<lambda>e s'. exn_cls e = StoreStatus 404 \<longrightarrow> absent (V s') n) s"
    and delete_ids_404: "wp (cl_delete_ids C n ids) (\<lambda>_ _. True)
          (\<lambda>e s'. exn_cls e = StoreStatus 404 \<longrightarrow> absent (V s') n) s"

interpretation mem404: qdrant_missing mem_client mem_view
proof
  fix n s
  show "wp (cl_exists mem_client n) (\<lambda>_ _. True) (\<lambda>e s'. exn_cls e = StoreStatus 404 \<longrightarrow> absent (mem_view s') n) s"
    by (simp add: wp_def mem_client_def)
next
  fix n f lim pr vec off s
  show "wp (cl_scroll mem_client n f lim pr vec off) (\<lambda>_ _. True)
      (\<lambda>e s'. exn_cls e = StoreStatus 404 \<longrightarrow> absent (mem_view s') n) s"
    by (simp add: wp_def mem_client_def mem_scroll_def mem_with_def absent_def split: option.split)
next
  fix n ids s
  show "wp (cl_delete_ids mem_client n ids) (\<lambda>_ _. True)
      (\<lambda>e s'. exn_cls e = StoreStatus 404 \<longrightarrow> absent (mem_view s') n) s"
    by (simp add: wp_def mem_client_def mem_delete_ids_def mem_change_def absent_def split: option.split)
qed

context qdrant_missing
begin

lemma wf_V: "wf_view (V s)"
  by (simp add: wf_view_def wf)

lemma scan_404: "wp (scroll_all_points C n f pr k) (\<lambda>_ _. True) (\<lambda>e s'. exn_cls e = StoreStatus 404 \<longrightarrow> absent (V s') n) s"
proof -
  have "wp (scan_pages b C n f pr k off got) (\<lambda>_ _. True) (\<lambda>e s'. exn_cls e = StoreStatus 404 \<longrightarrow> absent (V s') n) s" for b off got s
  proof (induction b arbitrary: off got s)
    case (Suc b)
    show ?case
      unfolding scan_pages.simps wp_bind
      by (rule wp_conseq [OF scroll_404]) (auto simp: wp_if Suc.IH split: prod.split)
  qed simp
  then show ?thesis by (simp add: wp_def scroll_all_points_def)
qed

lemma delete_selected_404:
  "wp (sbind (cl_exists C n) (\<lambda>ex. if \<not> ex then sret ()
         else sbind (scroll_all_points C n f pr k) (\<lambda>ps.
           let ids = map pt_id (filter sel ps) in if ids \<noteq> [] then cl_delete_ids C n ids else sret ())))
     (\<lambda>_ _. True) (\<lambda>e s'. exn_cls e = StoreStatus 404 \<longrightarrow> absent (V s') n) s"
  (is "wp _ ?Q ?E s")
proof -
  have "wp (let ids = map pt_id (filter sel ps) in if ids \<noteq> [] then cl_delete_ids C n ids else sret ()) ?Q ?E s" for ps s
    by (simp add: Let_def wp_if delete_ids_404)
  then have "wp (sbind (scroll_all_points C n f pr k) (\<lambda>ps.
           let ids = map pt_id (filter sel ps) in if ids \<noteq> [] then cl_delete_ids C n ids else sret ())) ?Q ?E s" for s
    unfolding wp_bind by (intro wp_conseq [OF scan_404]) simp_all
  then show ?thesis
    unfolding wp_bind [of "cl_exists C n"] by (intro wp_conseq [OF exists_404]) (simp_all add: wp_if del: wp_bind)
qed

lemma wp_delete_revisions:
  "wp (seach (delete_by_revision C st) revs)
     (\<lambda>_ s'. shrunk (qdrant_collection st) (revision_ids (V s) st (set revs)) (V s) (V s'))
     (\<lambda>e s'. shrunk (qdrant_collection st) (revision_ids (V s) st (set revs)) (V s) (V s')) s"
  (is "wp _ (\<lambda>_. ?I) _ s")
proof (rule wp_seach [where I = ?I])
  fix x s1 assume x: "x \<in> set revs" and i: "?I s1"
  have step: "?I s2" if "gone \<subseteq> pt_id ` set (matching (V s1) (qdrant_collection st) [(''source_rev'', x)])"
    "updated (qdrant_collection st) (drop_points gone) (V s1) (V s2)" for gone s2
  proof -
    note that(1)
    also have "pt_id ` set (matching (V s1) (qdrant_collection st) [(''source_rev'', x)]) \<subseteq> revision_ids (V s1) st (set revs)"
      unfolding revision_ids_def by (rule image_mono) (use x in \<open>auto simp: matching_def matches_def\<close>)
    also have "\<dots> \<subseteq> revision_ids (V s) st (set revs)" by (rule shrunk_ids(1) [OF wf_V wf_V i refl])
    finally have "shrunk (qdrant_collection st) (revision_ids (V s) st (set revs)) (V s1) (V s2)"
      using that(2) unfolding shrunk_def by blast
    with i show ?thesis by (rule shrunk_trans)
  qed
  show "wp (delete_by_revision C st x) (\<lambda>_. ?I) (\<lambda>e. ?I) s1"
    by (rule wp_conseq [OF wp_delete_by_revision]) (use step in blast)+
qed (rule shrunk_refl)

lemma wp_drop_markers:
  assumes "plain_control (V s) st" "1 \<le> ingest_scan_page_size st"
  shows "wp (sseq (delete_completion C st doc revision) (seach (delete_revision_completions C st) others))
     (\<lambda>_ s'. shrunk (completion_collection_name st) (marker_ids (V s) st doc revision (set others)) (V s) (V s')
        \<and> doomed_markers (V s') st doc revision = {})
     (\<lambda>e s'. shrunk (completion_collection_name st) (marker_ids (V s) st doc revision (set others)) (V s) (V s')) s"
proof -
  define I where "I = (\<lambda>s'. shrunk (completion_collection_name st) (marker_ids (V s) st doc revision (set others)) (V s) (V s'))"
  let ?n = "completion_collection_name st"
  let ?J = "\<lambda>s'. I s' \<and> doomed_markers (V s') st doc revision = {}"
  have step: "I s2" if "I s1" "gone \<subseteq> doomed_markers (V s1) st doc revision \<or> (\<exists>r \<in> set others. gone \<subseteq> doomed_revision (V s1) st r)"
    "updated ?n (drop_points gone) (V s1) (V s2)" for s1 s2 gone
  proof -
    have i: "shrunk ?n (marker_ids (V s) st doc revision (set others)) (V s) (V s1)" using that(1) by (simp add: I_def)
    have "doomed_markers (V s1) st doc revision \<subseteq> doomed_markers (V s) st doc revision"
      by (rule shrunk_ids(2) [OF wf_V wf_V i refl])
    moreover have "doomed_revision (V s1) st r \<subseteq> doomed_revision (V s) st r" for r
      by (rule shrunk_ids(3) [OF wf_V wf_V i refl])
    ultimately have "gone \<subseteq> marker_ids (V s) st doc revision (set others)"
      using that(2) unfolding marker_ids_def by blast
    then have "shrunk ?n (marker_ids (V s) st doc revision (set others)) (V s1) (V s2)"
      using that(3) unfolding shrunk_def by blast
    with i show ?thesis unfolding I_def by (rule shrunk_trans)
  qed
  have start: "I s" by (simp add: I_def shrunk_refl)
  have rest: "wp (seach (delete_revision_completions C st) others) (\<lambda>_. ?J) (\<lambda>e. I) s1" if "?J s1" for s1
  proof (rule wp_seach [where I = ?J])
    fix x s2 assume x: "x \<in> set others" and j: "?J s2"
    then have pc: "plain_control (V s2) st"
      using assms(1) plain_alias [OF alias_shrunk] by (auto simp: I_def)
    have keep: "doomed_markers (V s3) st doc revision = {}" if "updated ?n (drop_points gone) (V s2) (V s3)" for gone s3
      using j shrunk_ids(2) [OF wf_V wf_V _ refl, of _ gone s2 s3] that unfolding shrunk_def by blast
    show "wp (delete_revision_completions C st x) (\<lambda>_. ?J) (\<lambda>e. I) s2"
      by (rule wp_conseq [OF wp_delete_revision_completions [OF pc assms(2)]]) (use x j step keep in blast)+
  qed (rule that)
  have folded: "shrunk ?n (marker_ids (V s) st doc revision (set others)) (V s) (V s') = I s'" for s'
    by (simp add: I_def)
  show ?thesis
    unfolding wp_seq folded
  proof (rule wp_conseq [OF wp_delete_completion [OF assms(1,2)]])
    fix u s1
    assume u: "updated ?n (drop_points (doomed_markers (V s) st doc revision)) (V s) (V s1)"
    have "doomed_markers (V s1) st doc revision = {}"
      unfolding doomed_markers_def set_dropped [OF wf_V wf_V u] by (auto simp: doomed_markers_def)
    moreover have "I s1" by (rule step [OF start _ u]) blast
    ultimately show "wp (seach (delete_revision_completions C st) others) (\<lambda>_. ?J) (\<lambda>e. I) s1"
      by (intro rest) blast
  qed (use step [OF start] in blast)
qed

end

section \<open>The trace of one run\<close>

text \<open>
  What a run can leave behind, as the four writes in their order: markers removed, revisions
  removed, points put, the marker put. Points are touched only when no marker of the revision is
  left, and the marker is written only over verified points.
\<close>

definition marker_point :: "libs \<Rightarrow> settings \<Rightarrow> string \<Rightarrow> parsed_doc \<Rightarrow> string \<Rightarrow> nat \<times> string \<times> string \<Rightarrow> point" where
  "marker_point L st rv parsed labels dig =
     (let m = completion_record L st (pd_doc_id parsed) (pd_sha256 parsed) rv labels (parsed_source_rev parsed)
                (fst dig) (fst (snd dig)) (snd (snd dig))
      in \<lparr>pt_id = completion_point_id L (qdrant_collection st) (pd_doc_id parsed) (Some (parsed_source_rev parsed)) (mk_generation m),
          pt_payload = marker_payload m, pt_vectors = control_vector st\<rparr>)"

definition run_verified :: "libs \<Rightarrow> settings \<Rightarrow> string \<Rightarrow> parsed_doc \<Rightarrow> nat \<times> string \<times> string \<Rightarrow> view \<Rightarrow> bool" where
  "run_verified L st rv parsed dig v \<longleftrightarrow>
     revision_verified L v st (pd_doc_id parsed) (pd_sha256 parsed) rv (parsed_source_rev parsed)
       (int (fst dig)) (fst (snd dig)) (snd (snd dig))"

definition stored_run ::
    "libs \<Rightarrow> settings \<Rightarrow> string \<Rightarrow> parsed_doc \<Rightarrow> string \<Rightarrow> nat \<times> string \<times> string \<Rightarrow> point list \<Rightarrow> bool \<Rightarrow> view \<Rightarrow> view \<Rightarrow> bool" where
  "stored_run L st rv parsed labels dig pts finished v v' \<longleftrightarrow>
     (\<exists>v3 qs ms. wf_view v3
        \<and> updated (qdrant_collection st) (put_points qs) v v3 \<and> set qs \<subseteq> set pts
        \<and> updated (completion_collection_name st) (put_points ms) v3 v' \<and> set ms \<subseteq> {marker_point L st rv parsed labels dig}
        \<and> (ms = [] \<or> run_verified L st rv parsed dig v3)
        \<and> (finished \<longrightarrow> ms = [marker_point L st rv parsed labels dig]))"

definition upsert_run ::
    "libs \<Rightarrow> settings \<Rightarrow> string \<Rightarrow> parsed_doc \<Rightarrow> string \<Rightarrow> nat \<times> string \<times> string \<Rightarrow> point list
       \<Rightarrow> string set \<Rightarrow> string set \<Rightarrow> bool \<Rightarrow> view \<Rightarrow> view \<Rightarrow> bool" where
  "upsert_run L st rv parsed labels dig pts dels others finished v v' \<longleftrightarrow>
     (\<exists>v1 v2. wf_view v1 \<and> wf_view v2
        \<and> shrunk (completion_collection_name st) (marker_ids v st (pd_doc_id parsed) (parsed_source_rev parsed) others) v v1
        \<and> ((v2 = v1 \<and> v' = v1 \<and> \<not> finished)
           \<or> (doomed_markers v1 st (pd_doc_id parsed) (parsed_source_rev parsed) = {}
              \<and> shrunk (qdrant_collection st) (revision_ids v1 st dels) v1 v2
              \<and> stored_run L st rv parsed labels dig pts finished v2 v')))"

context qdrant_missing
begin

lemma stored_run_put:
  assumes "updated (qdrant_collection st) (put_points qs) (V s) (V s')" "set qs \<subseteq> set pts"
  shows "stored_run L st rv parsed labels dig pts False (V s) (V s')"
  unfolding stored_run_def
  by (intro exI [of _ "V s'"] exI [of _ qs] exI [of _ "[]"]) (use assms in \<open>simp add: wf_V updated_refl\<close>)

lemma wp_write_completion:
  fixes L st doc sha rv labels srev n d1 d2
  defines "m \<equiv> completion_record L st doc sha rv labels srev n d1 d2"
  defines "p \<equiv> \<lparr>pt_id = completion_point_id L (qdrant_collection st) doc (Some srev) (mk_generation m),
                 pt_payload = marker_payload m, pt_vectors = control_vector st\<rparr>"
  shows "wp (write_completion L C st doc sha rv labels srev n d1 d2)
     (\<lambda>_ s'. updated (completion_collection_name st) (put_points [p]) (V s) (V s'))
     (\<lambda>e s'. \<exists>ms. set ms \<subseteq> {p} \<and> updated (completion_collection_name st) (put_points ms) (V s) (V s')) s"
proof -
  let ?E = "\<lambda>e s'. \<exists>ms. set ms \<subseteq> {p} \<and> updated (completion_collection_name st) (put_points ms) (V s) (V s')"
  have "?E e s" for e by (rule exI [of _ "[]"]) (simp add: updated_refl)
  moreover have "wp (cl_upsert C (completion_collection_name st) [p])
      (\<lambda>_ s'. updated (completion_collection_name st) (put_points [p]) (V s) (V s')) ?E s"
    by (rule wp_conseq [OF upsert_law]) simp_all
  ultimately show ?thesis
    unfolding write_completion_def Let_def m_def [symmetric] p_def [symmetric] by simp
qed

lemma wp_store_and_certify:
  assumes "1 \<le> batch_size st" "length chunks = length vectors"
  shows "wp (store_and_certify L C st rv parsed chunks vectors cx labels (parsed_source_rev parsed))
     (\<lambda>r s'. r = Upserted \<and> stored_run L st rv parsed labels (expected_digests L chunks)
        (map (chunk_point parsed rv cx) (zip chunks vectors)) True (V s) (V s'))
     (\<lambda>e s'. stored_run L st rv parsed labels (expected_digests L chunks)
        (map (chunk_point parsed rv cx) (zip chunks vectors)) False (V s) (V s')) s"
proof -
  let ?pts = "map (chunk_point parsed rv cx) (zip chunks vectors)"
  obtain n d1 d2 where dig: "expected_digests L chunks = (n, d1, d2)" by (cases "expected_digests L chunks") auto
  let ?run = "\<lambda>b s'. stored_run L st rv parsed labels (n, d1, d2) ?pts b (V s) (V s')"
  show ?thesis
    unfolding store_and_certify_def wp_bind [of "upsert_chunks _ _ _ _ _ _ _"] dig prod.case Let_def
  proof (rule wp_conseq [OF wp_upsert_chunks [OF assms(1)]])
    fix k s1
    assume "length chunks = length vectors \<and> k = length chunks \<and> updated (qdrant_collection st) (put_points ?pts) (V s) (V s1)"
    then have put: "updated (qdrant_collection st) (put_points ?pts) (V s) (V s1)" by blast
    have fail: "?run False s2" if "V s2 = V s1" for s2
      using stored_run_put [of st ?pts s s1 ?pts] put that by (simp add: stored_run_def)
    have certify: "wp (sseq (write_completion L C st (pd_doc_id parsed) (pd_sha256 parsed) rv labels (parsed_source_rev parsed) n d1 d2)
          (sret Upserted)) (\<lambda>r s'. r = Upserted \<and> ?run True s') (\<lambda>e. ?run False) s2"
      if v: "V s2 = V s1" "run_verified L st rv parsed (n, d1, d2) (V s1)" for s2
    proof -
      have done_run: "?run b s3" if "updated (completion_collection_name st) (put_points ms) (V s2) (V s3)"
        "set ms \<subseteq> {marker_point L st rv parsed labels (n, d1, d2)}" "b \<longrightarrow> ms = [marker_point L st rv parsed labels (n, d1, d2)]" for b ms s3
        unfolding stored_run_def
        by (intro exI [of _ "V s1"] exI [of _ ?pts] exI [of _ ms]) (use that v put in \<open>simp add: wf_V\<close>)
      have "run_verified L st rv parsed (n, d1, d2) (V s1) \<Longrightarrow> 1 \<le> n"
        by (auto simp: run_verified_def revision_verified_def)
      then show ?thesis
        unfolding wp_seq
        by (intro wp_conseq [OF wp_write_completion])
           (use done_run v in \<open>auto simp: marker_point_def Let_def\<close>)
    qed
    have "wp (verify_doc_points L C st (pd_doc_id parsed) (pd_sha256 parsed) rv (parsed_source_rev parsed) (int n) d1 d2)
        (\<lambda>ok. wp (if \<not> ok then sraise (Exn RuntimeErr ''upsert_verification'' [JStr (pd_doc_id parsed), JInt (int n)])
            else sseq (write_completion L C st (pd_doc_id parsed) (pd_sha256 parsed) rv labels (parsed_source_rev parsed) n d1 d2)
              (sret Upserted)) (\<lambda>r s'. r = Upserted \<and> ?run True s') (\<lambda>e. ?run False)) (\<lambda>e. ?run False) s1"
      by (rule wp_conseq [OF wp_verify_doc_points])
         (use fail certify in \<open>auto simp: run_verified_def wp_if simp del: wp_seq\<close>)
    then show "wp (if k \<noteq> n then sraise (Exn RuntimeErr ''upsert_count'' [JInt (int k), JStr (pd_doc_id parsed), JInt (int n)])
        else sbind (verify_doc_points L C st (pd_doc_id parsed) (pd_sha256 parsed) rv (parsed_source_rev parsed) (int n) d1 d2) (\<lambda>ok.
          if \<not> ok then sraise (Exn RuntimeErr ''upsert_verification'' [JStr (pd_doc_id parsed), JInt (int n)])
          else sseq (write_completion L C st (pd_doc_id parsed) (pd_sha256 parsed) rv labels (parsed_source_rev parsed) n d1 d2)
              (sret Upserted))) (\<lambda>r s'. r = Upserted \<and> ?run True s') (\<lambda>e. ?run False) s1"
      using fail [OF refl] by (simp add: wp_if del: wp_seq)
  next
    fix e s1
    assume "if length chunks = length vectors
        then \<exists>qs. set qs \<subseteq> set ?pts \<and> updated (qdrant_collection st) (put_points qs) (V s) (V s1) else V s1 = V s"
    then show "?run False s1" using assms(2) stored_run_put by auto
  qed
qed


lemma wp_invalidate:
  assumes "plain_control (V s) st" "1 \<le> ingest_scan_page_size st" "finite others"
  shows "wp (invalidate_markers C st doc revision others)
     (\<lambda>_ s'. shrunk (completion_collection_name st) (marker_ids (V s) st doc revision others) (V s) (V s')
        \<and> doomed_markers (V s') st doc revision = {})
     (\<lambda>e s'. shrunk (completion_collection_name st) (marker_ids (V s) st doc revision others) (V s) (V s')) s"
proof -
  let ?n = "completion_collection_name st"
  let ?body = "sseq (delete_completion C st doc revision) (seach (delete_revision_completions C st) (sorted_list_of_set others))"
  have "wp ?body (\<lambda>_ _. True) (\<lambda>e s'. exn_cls e = StoreStatus 404 \<longrightarrow> absent (V s') ?n) s"
    unfolding wp_seq
  proof (rule wp_conseq)
    show "wp (delete_completion C st doc revision) (\<lambda>_ _. True) (\<lambda>e s'. exn_cls e = StoreStatus 404 \<longrightarrow> absent (V s') ?n) s"
      unfolding delete_completion_def Let_def [of ?n] by (rule delete_selected_404)
  next
    fix u s1
    have "wp (delete_revision_completions C st x) (\<lambda>_ _. True) (\<lambda>e s'. exn_cls e = StoreStatus 404 \<longrightarrow> absent (V s') ?n) s2" for x s2
      unfolding delete_revision_completions_def Let_def [of ?n] by (rule delete_selected_404)
    then show "wp (seach (delete_revision_completions C st) (sorted_list_of_set others)) (\<lambda>_ _. True)
        (\<lambda>e s'. exn_cls e = StoreStatus 404 \<longrightarrow> absent (V s') ?n) s1"
      by (intro wp_seach [where I = "\<lambda>_. True"]) simp_all
  qed blast
  note both = wp_conj [OF wp_drop_markers [OF assms(1,2), of doc revision "sorted_list_of_set others"] this]
  have gone: "doomed_markers (V s1) st doc revision = {}" if "absent (V s1) ?n" for s1
    using that by (simp add: doomed_markers_def points_of_def absent_def)
  show ?thesis
    unfolding invalidate_markers_def wp_catch
    by (rule wp_conseq [OF both]) (use assms(3) gone in \<open>auto simp: wp_if\<close>)
qed

lemma finite_refresh: "finite (refresh_deletes L v st doc srev lineage ancestor)"
  using finite_named by (auto simp: refresh_deletes_def Let_def split: option.split)

lemma finite_others: "finite dels \<Longrightarrow> finite (other_revisions dels revision lineage)"
  by (auto simp: other_revisions_def split: option.split)

lemma upsert_run_steps:
  shows "shrunk (completion_collection_name st) (marker_ids (V s) st (pd_doc_id parsed) (parsed_source_rev parsed) others) (V s) (V s1)
     \<Longrightarrow> upsert_run L st rv parsed labels dig pts dels others False (V s) (V s1)"
    and "shrunk (completion_collection_name st) (marker_ids (V s) st (pd_doc_id parsed) (parsed_source_rev parsed) others) (V s) (V s1)
     \<Longrightarrow> doomed_markers (V s1) st (pd_doc_id parsed) (parsed_source_rev parsed) = {}
     \<Longrightarrow> shrunk (qdrant_collection st) (revision_ids (V s1) st dels) (V s1) (V s2)
     \<Longrightarrow> stored_run L st rv parsed labels dig pts b (V s2) (V s3)
     \<Longrightarrow> upsert_run L st rv parsed labels dig pts dels others b (V s) (V s3)"
  unfolding upsert_run_def using wf_V by blast+

lemma wp_refresh_document:
  fixes s st L parsed lineage ancestor rv cx labels chunks vectors
  assumes "plain_control (V s) st" "settings_valid st" "length chunks = length vectors"
  defines "dels \<equiv> refresh_deletes L (V s) st (pd_doc_id parsed) (parsed_source_rev parsed) lineage ancestor"
  defines "run \<equiv> upsert_run L st rv parsed labels (expected_digests L chunks) (map (chunk_point parsed rv cx) (zip chunks vectors))
             dels (other_revisions dels (parsed_source_rev parsed) lineage)"
  shows "wp (refresh_document L C st rv parsed chunks vectors cx labels lineage ancestor (parsed_source_rev parsed))
     (\<lambda>r s'. r = Upserted \<and> run True (V s) (V s')) (\<lambda>e s'. run False (V s) (V s')) s"
    (is "wp _ ?Q ?E s")
proof -
  let ?doc = "pd_doc_id parsed" and ?rev = "parsed_source_rev parsed"
  let ?others = "other_revisions dels ?rev lineage"
  have page: "1 \<le> ingest_scan_page_size st" and batch: "1 \<le> batch_size st"
    using assms(2) settings_valid_pages settings_valid_batch by blast+
  have fin: "finite dels" unfolding dels_def by (rule finite_refresh)
  have "wp (sseq (invalidate_markers C st ?doc ?rev ?others)
        (sseq (seach (delete_by_revision C st) (sorted_list_of_set dels))
              (store_and_certify L C st rv parsed chunks vectors cx labels ?rev))) ?Q ?E s0" if v: "V s0 = V s" for s0
    unfolding wp_seq
  proof (rule wp_conseq [OF wp_invalidate [OF _ page finite_others [OF fin]]])
    show "plain_control (V s0) st" using assms(1) v by simp
  next
    fix u s1
    assume s1: "shrunk (completion_collection_name st) (marker_ids (V s0) st ?doc ?rev ?others) (V s0) (V s1)
        \<and> doomed_markers (V s1) st ?doc ?rev = {}"
    have late: "shrunk (qdrant_collection st) (revision_ids (V s1) st dels) (V s1) (V s2) \<Longrightarrow>
        stored_run L st rv parsed labels (expected_digests L chunks) (map (chunk_point parsed rv cx) (zip chunks vectors)) b (V s2) (V s3)
        \<Longrightarrow> run b (V s) (V s3)" for b s2 s3
      unfolding run_def by (rule upsert_run_steps(2) [of st s _ _ s1]) (use s1 v in simp_all)
    show "wp (seach (delete_by_revision C st) (sorted_list_of_set dels))
        (\<lambda>_. wp (store_and_certify L C st rv parsed chunks vectors cx labels ?rev) ?Q ?E) ?E s1"
    proof (rule wp_conseq [OF wp_delete_revisions], unfold set_sorted_list_of_set [OF fin])
      fix u s2
      assume "shrunk (qdrant_collection st) (revision_ids (V s1) st dels) (V s1) (V s2)"
      then show "wp (store_and_certify L C st rv parsed chunks vectors cx labels ?rev) ?Q ?E s2"
        by (intro wp_conseq [OF wp_store_and_certify [OF batch assms(3)]]) (use late in auto)
    next
      fix e s2
      assume "shrunk (qdrant_collection st) (revision_ids (V s1) st dels) (V s1) (V s2)"
      then show "run False (V s) (V s2)"
        by (rule late) (rule stored_run_put [of st "[]"], simp_all add: updated_refl)
    qed
  qed (use v in \<open>auto simp: run_def intro: upsert_run_steps(1)\<close>)
  then show ?thesis
    unfolding refresh_document_def wp_bind
    by (intro wp_conseq [OF wp_plan_refresh_deletes [OF assms(1) page]])
       (auto simp: dels_def run_def simp del: wp_seq intro: upsert_run_steps(1) shrunk_refl)
qed

lemma wp_upsert_one:
  fixes s st L parsed lineage ancestor rv cx labels chunks vectors
  assumes "plain_control (V s) st" "settings_valid st"
  defines "dels \<equiv> refresh_deletes L (V s) st (pd_doc_id parsed) (parsed_source_rev parsed) lineage ancestor"
  defines "run \<equiv> upsert_run L st rv parsed labels (expected_digests L chunks) (map (chunk_point parsed rv cx) (zip chunks vectors))
             dels (other_revisions dels (parsed_source_rev parsed) lineage)"
  shows "wp (upsert_one L C st rv parsed chunks vectors cx force labels lineage ancestor)
     (\<lambda>r s'. case r of
          Empty_Doc \<Rightarrow> chunks = [] \<and> V s' = V s
        | Skipped \<Rightarrow> \<not> force \<and> V s' = V s
            \<and> doc_complete L (V s) st (pd_doc_id parsed) (pd_sha256 parsed) rv labels (parsed_source_rev parsed) None
        | Upserted \<Rightarrow> run True (V s) (V s'))
     (\<lambda>e s'. run False (V s) (V s')) s"
    (is "wp _ ?Q ?E s")
proof (cases "walked_source_rev parsed")
  case (Inl e)
  have "run False (V s) (V s)" unfolding run_def by (rule upsert_run_steps(1)) (rule shrunk_refl)
  with Inl show ?thesis by (simp add: upsert_one_def)
next
  case (Inr r)
  let ?rev = "parsed_source_rev parsed"
  from Inr have r: "walked_source_rev parsed = Inr ?rev" by (auto simp: walked_source_rev_def rbind_Inr_iff)
  have page: "1 \<le> ingest_scan_page_size st" using assms(2) by (rule settings_valid_pages)
  have quiet: "run False (V s) (V s1)" if "V s1 = V s" for s1
    unfolding run_def that by (rule upsert_run_steps(1)) (rule shrunk_refl)
  have gate: "wp (if force then sret False
                 else is_doc_complete L C st (pd_doc_id parsed) (pd_sha256 parsed) rv labels ?rev None)
      (\<lambda>complete s'. V s' = V s \<and> (complete \<longrightarrow> \<not> force
         \<and> doc_complete L (V s) st (pd_doc_id parsed) (pd_sha256 parsed) rv labels ?rev None)) ?E s"
    using quiet by (auto simp: wp_if intro!: wp_conseq [OF wp_is_doc_complete [OF assms(1) page]])
  have refresh: "wp (refresh_document L C st rv parsed chunks vectors cx labels lineage ancestor ?rev) ?Q ?E s0"
    if "V s0 = V s" "length chunks = length vectors" for s0
    by (rule wp_conseq [OF wp_refresh_document [OF _ assms(2) that(2)]])
       (use that(1) assms(1) in \<open>auto simp: run_def dels_def\<close>)
  have "wp (sbind (if force then sret False
                 else is_doc_complete L C st (pd_doc_id parsed) (pd_sha256 parsed) rv labels ?rev None) (\<lambda>complete.
         if complete then sret Skipped
         else refresh_document L C st rv parsed chunks vectors cx labels lineage ancestor ?rev)) ?Q ?E s"
    if "length chunks = length vectors"
    unfolding wp_bind by (rule wp_conseq [OF gate]) (use refresh [OF _ that] in \<open>auto simp: wp_if\<close>)
  then show ?thesis
    using quiet by (simp add: upsert_one_def r wp_if del: wp_bind)
qed

end

section \<open>What a run leaves behind\<close>

lemma parse_marker_source_rev: "parse_marker L p = Some m \<Longrightarrow> jget p ''source_rev'' = JStr (mk_source_rev m)"
proof -
  assume "parse_marker L p = Some m"
  then have "field_req p ''source_rev'' as_str = Some (mk_source_rev m)"
    unfolding parse_marker_def bind_eq_Some_conv by (elim exE conjE) (simp only: option.inject, hypsubst, simp only: marker.simps)
  then show ?thesis by (simp add: field_req_def as_str_def split: if_splits json.splits)
qed

lemma find_unique: "m \<in> set xs \<Longrightarrow> P m \<Longrightarrow> (\<And>x. x \<in> set xs \<Longrightarrow> P x \<Longrightarrow> x = m) \<Longrightarrow> find P xs = Some m"
proof (induction xs)
  case (Cons a xs)
  show ?case
  proof (cases "P a")
    case True
    then have "a = m" by (rule Cons.prems(3) [of a, OF list.set_intros(1)])
    with True show ?thesis by simp
  next
    case False
    with Cons.prems(1,2) have "m \<in> set xs" by auto
    then have "find P xs = Some m"
      by (rule Cons.IH [OF _ Cons.prems(2)]) (rule Cons.prems(3), simp_all)
    with False show ?thesis by simp
  qed
qed simp

lemma points_of_apart: "updated n f v v' \<Longrightarrow> apart v n m \<or> apart v m n \<Longrightarrow> points_of v' m = points_of v m"
  using points_of_updated [of n f v v' m] by (auto simp: apart_def)

lemma set_markers_in: "m \<in> set (markers_in L v st doc) \<longleftrightarrow>
    (\<exists>p \<in> set (points_of v (completion_collection_name st)). matches (doc_filter doc) p \<and> parse_marker L (pt_payload p) = Some m)"
  by (force simp: markers_in_def markers_of_def matching_def List.map_filter_def)

lemma doomed_markers_empty: "doomed_markers v st doc revision = {} \<longleftrightarrow>
    (\<forall>p \<in> set (points_of v (completion_collection_name st)). matches (doc_filter doc) p \<longrightarrow> jget (pt_payload p) ''source_rev'' \<noteq> JStr revision)"
  by (auto simp: doomed_markers_def)

lemma run_verified_cong: "points_of v' (qdrant_collection st) = points_of v (qdrant_collection st) \<Longrightarrow>
    run_verified L st rv parsed dig v' = run_verified L st rv parsed dig v"
  by (simp add: run_verified_def revision_verified_def revision_points_def matching_def)

text \<open>The marker that was written is the one the skip gate will find.\<close>

lemma certified:
  assumes "wf_view v" "wf_view v'" "apart v (qdrant_collection st) (completion_collection_name st)"
    and put: "updated (completion_collection_name st) (put_points [marker_point L st rv parsed labels dig]) v v'"
    and none: "doomed_markers v st (pd_doc_id parsed) (parsed_source_rev parsed) = {}"
    and ok: "run_verified L st rv parsed dig v"
  shows "doc_complete L v' st (pd_doc_id parsed) (pd_sha256 parsed) rv labels (parsed_source_rev parsed) None"
proof -
  let ?p = "marker_point L st rv parsed labels dig"
  let ?doc = "pd_doc_id parsed" and ?rev = "parsed_source_rev parsed"
  define m where "m = completion_record L st ?doc (pd_sha256 parsed) rv labels ?rev (fst dig) (fst (snd dig)) (snd (snd dig))"
  have "1 \<le> fst dig" using ok by (auto simp: run_verified_def revision_verified_def)
  then have parse: "parse_marker L (pt_payload ?p) = Some m"
    unfolding marker_point_def Let_def m_def by (simp add: parse_marker_payload completion_record_def)
  have doc: "matches (doc_filter ?doc) ?p"
    by (simp add: matches_def doc_filter_def field_matches_def marker_point_def Let_def marker_payload_def completion_record_def)
  have stored: "?p \<in> set (points_of v' (completion_collection_name st))"
    by (simp add: set_put [OF assms(1,2) put] by_id_def)
  have found: "scoped_marker L v' st ?doc ?rev (doc_generation_id L st (pd_sha256 parsed) rv labels) = Some m"
    unfolding scoped_marker_def
  proof (rule find_unique)
    show "m \<in> set (markers_in L v' st ?doc)" using parse doc stored by (auto simp: set_markers_in)
    show "mk_source_rev m = ?rev \<and> mk_generation m = doc_generation_id L st (pd_sha256 parsed) rv labels \<and> mk_target m = qdrant_collection st"
      by (simp add: m_def completion_record_def)
    fix x
    assume "x \<in> set (markers_in L v' st ?doc)"
      and x: "mk_source_rev x = ?rev \<and> mk_generation x = doc_generation_id L st (pd_sha256 parsed) rv labels \<and> mk_target x = qdrant_collection st"
    then obtain q where q: "q \<in> set (points_of v' (completion_collection_name st))" "matches (doc_filter ?doc) q"
      "parse_marker L (pt_payload q) = Some x" by (auto simp: set_markers_in)
    have "q = ?p \<or> q \<in> set (points_of v (completion_collection_name st))"
      using q(1) by (auto simp: set_put [OF assms(1,2) put] by_id_def split: if_splits)
    moreover have "q \<notin> set (points_of v (completion_collection_name st))"
      using none q(2) parse_marker_source_rev [OF q(3)] x by (auto simp: doomed_markers_empty)
    ultimately show "x = m" using q(3) parse by simp
  qed
  have "points_of v' (qdrant_collection st) = points_of v (qdrant_collection st)"
    using assms(3) by (intro points_of_apart [OF put]) simp
  from run_verified_cong [OF this] have "run_verified L st rv parsed dig v'" using ok by blast
  then show ?thesis
    unfolding doc_complete_def run_verified_def
    by (intro exI [of _ m] conjI) (simp_all only: found, simp_all add: m_def completion_record_def)
qed

text \<open>No write to the data collection brings a marker back.\<close>

lemma no_marker_kept:
  assumes "wf_view v" "wf_view v'" "doomed_markers v st doc revision = {}"
  shows "points_of v' (completion_collection_name st) = points_of v (completion_collection_name st) \<Longrightarrow> doomed_markers v' st doc revision = {}"
    and "updated (completion_collection_name st) (put_points []) v v' \<Longrightarrow> doomed_markers v' st doc revision = {}"
  using assms set_put [OF assms(1,2), of "completion_collection_name st" "[]"]
  by (simp_all add: doomed_markers_empty by_id_def)

lemma apart_sym: "apart v m n = apart v n m"
  by (auto simp: apart_def)

text \<open>A run that touched points left no marker of the revision but over verified points.\<close>

lemma stored_run_outcome:
  assumes "stored_run L st rv parsed labels dig pts b v v'" "wf_view v" "wf_view v'"
    and ap: "apart v (qdrant_collection st) (completion_collection_name st)"
    and none: "doomed_markers v st (pd_doc_id parsed) (parsed_source_rev parsed) = {}"
  shows "b \<Longrightarrow> doc_complete L v' st (pd_doc_id parsed) (pd_sha256 parsed) rv labels (parsed_source_rev parsed) None"
    and "doomed_markers v' st (pd_doc_id parsed) (parsed_source_rev parsed) = {} \<or> run_verified L st rv parsed dig v'"
proof -
  let ?doc = "pd_doc_id parsed" and ?rev = "parsed_source_rev parsed"
  let ?data = "qdrant_collection st" and ?n = "completion_collection_name st"
  let ?p = "marker_point L st rv parsed labels dig"
  from assms(1) obtain v3 qs ms where w: "wf_view v3" and qs: "updated ?data (put_points qs) v v3"
    and ms: "updated ?n (put_points ms) v3 v'" "set ms \<subseteq> {?p}" "ms = [] \<or> run_verified L st rv parsed dig v3" "b \<longrightarrow> ms = [?p]"
    unfolding stored_run_def by blast
  have none3: "doomed_markers v3 st ?doc ?rev = {}"
    using ap by (intro no_marker_kept(1) [OF assms(2) w none] points_of_apart [OF qs]) simp
  have ap3: "apart v3 ?data ?n" using ap apart_alias [OF alias_updated [OF qs]] by simp
  show "doc_complete L v' st ?doc (pd_sha256 parsed) rv labels ?rev None" if b
  proof -
    have m: "ms = [?p]" using ms(4) that by blast
    have "updated ?n (put_points [?p]) v3 v'" using ms(1) unfolding m .
    moreover have "run_verified L st rv parsed dig v3" using ms(3) unfolding m by simp
    ultimately show ?thesis by (rule certified [OF w assms(3) ap3 _ none3])
  qed
  show "doomed_markers v' st ?doc ?rev = {} \<or> run_verified L st rv parsed dig v'"
  proof (cases "ms = []")
    case True
    then show ?thesis using no_marker_kept(2) [OF w assms(3) none3] ms(1) by simp
  next
    case False
    have "points_of v' ?data = points_of v3 ?data"
      using ap3 by (intro points_of_apart [OF ms(1)]) simp
    from run_verified_cong [OF this] False ms(3) show ?thesis by blast
  qed
qed

lemma upsert_run_outcome:
  assumes run: "upsert_run L st rv parsed labels dig pts dels others b v v'" and wf: "wf_view v" "wf_view v'"
    and ap: "apart v (qdrant_collection st) (completion_collection_name st)"
  shows "(b \<longrightarrow> doc_complete L v' st (pd_doc_id parsed) (pd_sha256 parsed) rv labels (parsed_source_rev parsed) None)
      \<and> (points_of v' (qdrant_collection st) = points_of v (qdrant_collection st)
         \<or> doomed_markers v' st (pd_doc_id parsed) (parsed_source_rev parsed) = {}
         \<or> run_verified L st rv parsed dig v')"
proof -
  let ?doc = "pd_doc_id parsed" and ?rev = "parsed_source_rev parsed"
  let ?data = "qdrant_collection st" and ?n = "completion_collection_name st"
  from run obtain v1 v2 where v: "wf_view v1" "wf_view v2" "shrunk ?n (marker_ids v st ?doc ?rev others) v v1"
    and cases: "(v2 = v1 \<and> v' = v1 \<and> \<not> b) \<or> (doomed_markers v1 st ?doc ?rev = {} \<and> shrunk ?data (revision_ids v1 st dels) v1 v2
            \<and> stored_run L st rv parsed labels dig pts b v2 v')"
    unfolding upsert_run_def by blast
  have ap1: "apart v1 ?data ?n" using ap apart_alias [OF alias_shrunk [OF v(3)]] by simp
  show ?thesis
    using cases
  proof
    assume "v2 = v1 \<and> v' = v1 \<and> \<not> b"
    then show ?thesis using points_of_shrunk [OF v(3) ap] by simp
  next
    assume s2: "doomed_markers v1 st ?doc ?rev = {} \<and> shrunk ?data (revision_ids v1 st dels) v1 v2
            \<and> stored_run L st rv parsed labels dig pts b v2 v'"
    then have sh: "shrunk ?data (revision_ids v1 st dels) v1 v2" by blast
    have "points_of v2 ?n = points_of v1 ?n" using ap1 by (intro points_of_shrunk [OF sh]) (simp add: apart_sym)
    then have none: "doomed_markers v2 st ?doc ?rev = {}" using no_marker_kept(1) [OF v(1,2)] s2 by blast
    have ap2: "apart v2 ?data ?n" using ap1 apart_alias [OF alias_shrunk [OF sh]] by simp
    from s2 have "stored_run L st rv parsed labels dig pts b v2 v'" by blast
    from stored_run_outcome [OF this v(2) wf(2) ap2 none] show ?thesis by blast
  qed
qed

text \<open>
  The points and markers of another revision: a run may remove those of the revisions it selects,
  and the points it puts carry its own revision.
\<close>

definition rev_points :: "view \<Rightarrow> string \<Rightarrow> string \<Rightarrow> point set" where
  "rev_points v n r = {p \<in> set (points_of v n). jget (pt_payload p) ''source_rev'' = JStr r}"

definition keeps_revision :: "settings \<Rightarrow> string \<Rightarrow> view \<Rightarrow> view \<Rightarrow> bool" where
  "keeps_revision st r v v' \<longleftrightarrow>
     rev_points v' (qdrant_collection st) r = rev_points v (qdrant_collection st) r
     \<and> rev_points v' (completion_collection_name st) r = rev_points v (completion_collection_name st) r"

lemma rev_points_cong: "points_of v' n = points_of v n \<Longrightarrow> rev_points v' n r = rev_points v n r"
  by (simp add: rev_points_def)

lemma rev_points_shrunk:
  assumes "wf_view v" "wf_view v'" "shrunk n ids v v'" "ids \<inter> pt_id ` rev_points v n r = {}"
  shows "rev_points v' n r = rev_points v n r"
  using set_shrunk [OF assms(1-3)] assms(4) by (auto simp: rev_points_def)

lemma rev_points_put:
  assumes "wf_view v" "wf_view v'" "updated n (put_points ps) v v'"
    and "\<And>p. p \<in> set ps \<Longrightarrow> jget (pt_payload p) ''source_rev'' \<noteq> JStr r"
    and "pt_id ` set ps \<inter> pt_id ` rev_points v n r = {}"
  shows "rev_points v' n r = rev_points v n r"
proof -
  have "by_id (rev ps) (pt_id p) = Some p \<Longrightarrow> p \<in> set ps" for p by (auto dest: by_id_Some)
  with assms(4,5) show ?thesis by (auto simp: rev_points_def set_put [OF assms(1-3)])
qed

lemma same_id: "wf_view v \<Longrightarrow> p \<in> set (points_of v n) \<Longrightarrow> q \<in> set (points_of v n) \<Longrightarrow> pt_id p = pt_id q \<Longrightarrow> p = q"
  by (auto simp: wf_view_def distinct_map inj_on_def)

lemma revision_ids_spare:
  assumes "wf_view v" "r \<notin> revs"
  shows "revision_ids v st revs \<inter> pt_id ` rev_points v (qdrant_collection st) r = {}"
proof -
  have "False" if "p \<in> set (points_of v (qdrant_collection st))" "q \<in> rev_points v (qdrant_collection st) r" "pt_id p = pt_id q"
    "r' \<in> revs" "field_matches r' (jget (pt_payload p) ''source_rev'')" for p q r'
  proof -
    have "p = q" using same_id [OF assms(1) that(1) _ that(3)] that(2) by (simp add: rev_points_def)
    with that(2,5) have "r' = r" by (simp add: rev_points_def field_matches_def)
    with that(4) assms(2) show False by simp
  qed
  then show ?thesis by (auto simp: revision_ids_def)
qed

lemma marker_ids_spare:
  assumes "wf_view v" "r \<notin> others" "r \<noteq> revision"
  shows "marker_ids v st doc revision others \<inter> pt_id ` rev_points v (completion_collection_name st) r = {}"
proof -
  have "False" if "p \<in> set (points_of v (completion_collection_name st))" "q \<in> rev_points v (completion_collection_name st) r"
    "pt_id p = pt_id q" "jget (pt_payload p) ''source_rev'' = JStr r'" "r' \<noteq> r" for p q r'
  proof -
    have "p = q" using same_id [OF assms(1) that(1) _ that(3)] that(2) by (simp add: rev_points_def)
    with that(2,4,5) show False by (simp add: rev_points_def)
  qed
  with assms(2,3) show ?thesis by (fastforce simp: marker_ids_def doomed_markers_def doomed_revision_def)
qed

lemma jget_chunk_rev: "jget (pt_payload (chunk_point parsed rv cx cv)) ''source_rev'' = JStr (parsed_source_rev parsed)"
  by (simp add: chunk_point_def point_payload_def jget_append jhas_def)

lemma jget_marker_rev: "jget (pt_payload (marker_point L st rv parsed labels dig)) ''source_rev'' = JStr (parsed_source_rev parsed)"
  by (simp add: marker_point_def Let_def marker_payload_def completion_record_def)

lemma upsert_run_keeps:
  assumes run: "upsert_run L st rv parsed labels dig pts dels others b v v'" and wf: "wf_view v" "wf_view v'"
    and ap: "apart v (qdrant_collection st) (completion_collection_name st)"
    and r: "r \<notin> dels" "r \<notin> others" "r \<noteq> parsed_source_rev parsed"
    and pts: "\<And>p. p \<in> set pts \<Longrightarrow> jget (pt_payload p) ''source_rev'' = JStr (parsed_source_rev parsed)"
      "pt_id ` set pts \<inter> pt_id ` rev_points v (qdrant_collection st) r = {}"
    and mp: "pt_id (marker_point L st rv parsed labels dig) \<notin> pt_id ` rev_points v (completion_collection_name st) r"
  shows "keeps_revision st r v v'"
proof -
  let ?data = "qdrant_collection st" and ?n = "completion_collection_name st"
  from run obtain v1 v2 where v: "wf_view v1" "wf_view v2"
      and sh1: "shrunk ?n (marker_ids v st (pd_doc_id parsed) (parsed_source_rev parsed) others) v v1"
    and cases: "v' = v1 \<or> (shrunk ?data (revision_ids v1 st dels) v1 v2 \<and> stored_run L st rv parsed labels dig pts b v2 v')"
    unfolding upsert_run_def by blast
  have k1: "keeps_revision st r v v1"
    unfolding keeps_revision_def
    using rev_points_cong [OF points_of_shrunk [OF sh1 ap]]
      rev_points_shrunk [OF wf(1) v(1) sh1 marker_ids_spare [OF wf(1) r(2,3)]] by blast
  have ap1: "apart v1 ?data ?n" using ap apart_alias [OF alias_shrunk [OF sh1]] by simp
  show ?thesis
    using cases
  proof
    assume "v' = v1" with k1 show ?thesis by simp
  next
    assume a: "shrunk ?data (revision_ids v1 st dels) v1 v2 \<and> stored_run L st rv parsed labels dig pts b v2 v'"
    then have sh2: "shrunk ?data (revision_ids v1 st dels) v1 v2" by blast
    have ap2: "apart v2 ?data ?n" using ap1 apart_alias [OF alias_shrunk [OF sh2]] by simp
    have "points_of v2 ?n = points_of v1 ?n" using ap1 by (intro points_of_shrunk [OF sh2]) (simp add: apart_sym)
    then have k2: "keeps_revision st r v1 v2"
      unfolding keeps_revision_def
      using rev_points_cong rev_points_shrunk [OF v(1,2) sh2 revision_ids_spare [OF v(1) r(1)]] by blast
    from a obtain v3 qs ms where w: "wf_view v3" and qs: "updated ?data (put_points qs) v2 v3" "set qs \<subseteq> set pts"
      and ms: "updated ?n (put_points ms) v3 v'" "set ms \<subseteq> {marker_point L st rv parsed labels dig}"
      unfolding stored_run_def by blast
    have ap3: "apart v3 ?data ?n" using ap2 apart_alias [OF alias_updated [OF qs(1)]] by simp
    have n3: "points_of v3 ?n = points_of v2 ?n" using ap2 by (intro points_of_apart [OF qs(1)]) simp
    have d3: "points_of v' ?data = points_of v3 ?data" using ap3 by (intro points_of_apart [OF ms(1)]) simp
    have same: "rev_points v2 ?data r = rev_points v ?data r" "rev_points v3 ?n r = rev_points v ?n r"
      using k1 k2 rev_points_cong [OF n3] by (simp_all add: keeps_revision_def)
    have "jget (pt_payload p) ''source_rev'' \<noteq> JStr r" if "p \<in> set qs" for p
      using pts(1) [OF subsetD [OF qs(2) that]] r(3) by simp
    moreover have "pt_id ` set qs \<inter> pt_id ` rev_points v2 ?data r = {}"
      using image_mono [OF qs(2), of pt_id] pts(2) unfolding same(1) by blast
    ultimately have "rev_points v3 ?data r = rev_points v2 ?data r"
      by (rule rev_points_put [OF v(2) w qs(1)])
    moreover have "rev_points v' ?n r = rev_points v3 ?n r"
      by (rule rev_points_put [OF w wf(2) ms(1)]) (use ms(2) mp r(3) same in \<open>auto simp: jget_marker_rev\<close>)
    ultimately show ?thesis using same rev_points_cong [OF d3] by (simp add: keeps_revision_def)
  qed
qed

section \<open>Properties\<close>



text \<open>A committed sibling survives. A revision of the same document that some marker of this
  target or its ancestor certifies, and that the run does not replace by name, keeps all of its
  points and all of its markers, whatever becomes of the run. Ids of new points must not be taken
  by that revision already; the code derives them from the source revision.\<close>
theorem upsert_one_spares_sibling:
  assumes "qdrant_missing C V" "settings_valid st" "plain_control (V s) st"
    and "apart (V s) (qdrant_collection st) (completion_collection_name st)"
    and sibling: "r \<noteq> parsed_source_rev parsed" "lineage \<noteq> Some r"
      "revision_committed L (V s) st (pd_doc_id parsed) r ancestor"
    and fresh: "ch_id ` set chunks \<inter> pt_id ` rev_points (V s) (qdrant_collection st) r = {}"
      "pt_id (marker_point L st rv parsed labels (expected_digests L chunks))
         \<notin> pt_id ` rev_points (V s) (completion_collection_name st) r"
  shows "wp (upsert_one L C st rv parsed chunks vectors cx force labels lineage ancestor)
     (\<lambda>_ s'. keeps_revision st r (V s) (V s')) (\<lambda>e s'. keeps_revision st r (V s) (V s')) s"
proof -
  define dels where "dels = refresh_deletes L (V s) st (pd_doc_id parsed) (parsed_source_rev parsed) lineage ancestor"
  have r: "r \<notin> dels" "r \<notin> other_revisions dels (parsed_source_rev parsed) lineage"
    using sibling by (auto simp: dels_def refresh_deletes_def other_revisions_def Let_def split: option.splits if_splits)
  have ids: "pt_id ` set (map (chunk_point parsed rv cx) (zip chunks vectors)) \<subseteq> ch_id ` set chunks"
    by (auto simp: chunk_point_def dest: set_zip_leftD)
  note keep = upsert_run_keeps [OF _ qdrant_missing.wf_V [OF assms(1)] qdrant_missing.wf_V [OF assms(1)] assms(4) r sibling(1)
      _ _ fresh(2)]
  have "keeps_revision st r (V s) (V s')" if "upsert_run L st rv parsed labels (expected_digests L chunks)
      (map (chunk_point parsed rv cx) (zip chunks vectors)) dels (other_revisions dels (parsed_source_rev parsed) lineage) b (V s) (V s')" for b s'
    by (rule keep [OF that]) (use ids fresh(1) in \<open>auto simp: jget_chunk_rev\<close>)
  then show ?thesis
    by (intro wp_conseq [OF qdrant_missing.wp_upsert_one [OF assms(1,3,2)]])
       (auto simp: dels_def keeps_revision_def split: doc_status.splits)
qed

text \<open>A store with one committed revision, to be followed by another one of the same document.\<close>

definition sibling_marker :: marker where
  "sibling_marker = completion_record plain_libs (demo_settings ''gen1'') ''C'' ''abc'' ''r1'' ''||'' (parsed_source_rev demo_parsed)
     1 (chunk_ids_text [demo_chunk]) (chunk_content_text [demo_chunk])"

definition sibling_mem :: mem where
  "sibling_mem = verified_mem\<lparr>mem_colls := [(''gen1'', [chunk_point demo_parsed ''r1'' None (demo_chunk, JNull)]),
     (''gen1__completions'', [\<lparr>pt_id = ''m1'', pt_payload = marker_payload sibling_marker, pt_vectors = JNull\<rparr>])]\<rparr>"

definition other_parsed :: parsed_doc where
  "other_parsed = demo_parsed\<lparr>pd_sha256 := ''def''\<rparr>"

lemma sibling_points:
  "points_of (mem_view sibling_mem) ''gen1'' = [chunk_point demo_parsed ''r1'' None (demo_chunk, JNull)]"
  "points_of (mem_view sibling_mem) (completion_collection_name (demo_settings ''gen1''))
     = [\<lparr>pt_id = ''m1'', pt_payload = marker_payload sibling_marker, pt_vectors = JNull\<rparr>]"
  by (simp_all add: points_of_def phys_def mem_view_def sibling_mem_def verified_mem_def completion_collection_name_def
      completion_collection_for_def)

lemma sibling_committed:
  "revision_committed plain_libs (mem_view sibling_mem) (demo_settings ''gen1'') ''C'' (parsed_source_rev demo_parsed) None"
proof -
  let ?st = "demo_settings ''gen1''" and ?rev = "parsed_source_rev demo_parsed"
  have same: "revision_points (mem_view sibling_mem) ?st ''C'' ?rev = revision_points (mem_view verified_mem) ?st ''C'' ?rev"
    by (simp add: revision_points_def matching_def sibling_points)
       (simp add: points_of_def phys_def mem_view_def verified_mem_def)
  have "revision_verified plain_libs (mem_view sibling_mem) ?st ''C'' ''abc'' ''r1'' ?rev (int 1) (chunk_ids_text [demo_chunk]) (chunk_content_text [demo_chunk])"
  proof (rule revision_verified_complete [where chunks = "[demo_chunk]"])
    show "distinct (map pt_id (revision_points (mem_view sibling_mem) ?st ''C'' ?rev))"
      unfolding same verified_mem_points by simp
    show "revision_stored_exactly (mem_view sibling_mem) ?st ''C'' ''abc'' ''r1'' ?rev [demo_chunk]"
      using verified_mem_stored unfolding revision_stored_exactly_def same .
    show "expected_digests plain_libs [demo_chunk] = (1, chunk_ids_text [demo_chunk], chunk_content_text [demo_chunk])"
      by (simp add: expected_digests_conv plain_libs_def)
  qed simp
  moreover have "parse_marker plain_libs (marker_payload sibling_marker) = Some sibling_marker"
    by (rule parse_marker_payload) (simp add: sibling_marker_def completion_record_def)
  then have "sibling_marker \<in> set (markers_in plain_libs (mem_view sibling_mem) ?st ''C'')"
    by (auto simp: set_markers_in sibling_points)
       (simp add: matches_def doc_filter_def field_matches_def marker_payload_def sibling_marker_def completion_record_def)
  ultimately show ?thesis
    unfolding revision_committed_def
    by (intro bexI [of _ sibling_marker]) (simp_all add: sibling_marker_def completion_record_def commit_targets_def)
qed

lemma upsert_one_spares_sibling_witness:
  "wp (upsert_one plain_libs mem_client (demo_settings ''gen1'') ''r1'' other_parsed [demo_chunk\<lparr>ch_id := ''9''\<rparr>] [JNull] None False ''||'' None None)
     (\<lambda>_ s'. keeps_revision (demo_settings ''gen1'') (parsed_source_rev demo_parsed) (mem_view sibling_mem) (mem_view s'))
     (\<lambda>e s'. keeps_revision (demo_settings ''gen1'') (parsed_source_rev demo_parsed) (mem_view sibling_mem) (mem_view s')) sibling_mem"
proof (rule upsert_one_spares_sibling [OF mem404.qdrant_missing_axioms demo_settings_valid])
  show "plain_control (mem_view sibling_mem) (demo_settings ''gen1'')"
    "apart (mem_view sibling_mem) (qdrant_collection (demo_settings ''gen1'')) (completion_collection_name (demo_settings ''gen1''))"
    by (simp_all add: plain_control_def apart_def phys_def mem_view_def sibling_mem_def verified_mem_def completion_collection_name_def
        completion_collection_for_def)
  show "parsed_source_rev demo_parsed \<noteq> parsed_source_rev other_parsed"
    by (simp add: parsed_source_rev_def other_parsed_def source_rev_key_def) (simp add: demo_parsed_def)
  show "revision_committed plain_libs (mem_view sibling_mem) (demo_settings ''gen1'') (pd_doc_id other_parsed) (parsed_source_rev demo_parsed) None"
    using sibling_committed by (simp add: other_parsed_def) (simp add: demo_parsed_def)
  show "ch_id ` set [demo_chunk\<lparr>ch_id := ''9''\<rparr>] \<inter> pt_id ` rev_points (mem_view sibling_mem)
      (qdrant_collection (demo_settings ''gen1'')) (parsed_source_rev demo_parsed) = {}"
    by (auto simp: rev_points_def sibling_points chunk_point_def) (simp add: demo_chunk_def)
  show "pt_id (marker_point plain_libs (demo_settings ''gen1'') ''r1'' other_parsed ''||'' (expected_digests plain_libs [demo_chunk\<lparr>ch_id := ''9''\<rparr>]))
      \<notin> pt_id ` rev_points (mem_view sibling_mem) (completion_collection_name (demo_settings ''gen1'')) (parsed_source_rev demo_parsed)"
    by (auto simp: rev_points_def sibling_points marker_point_def Let_def completion_point_id_def plain_libs_def demo_libs_def)
qed simp

end
