(* ===== verification/Catalog.thy ===== *)
theory Catalog
  imports Upsert "HOL-Library.Product_Lexorder"
begin

text \<open>
  The publish-time source catalog (\<open>mainframe_rag/ingest/catalog.py\<close>): one entry per source
  revision of a build, computed from its stored chunks and checked against its completion
  markers, stored beside the markers, and bound by a summary in the publication receipt. An
  entry is a dict of the code, so it stays a payload here. A scan reads its pages one by one and
  checks each as it comes; the model reads all pages and then checks them in the same order.
\<close>

section \<open>The summary\<close>

definition catalog_schema :: int where "catalog_schema = 1"
definition catalog_record_type :: string where "catalog_record_type = ''source-catalog-entry''"
definition catalog_page_size :: nat where "catalog_page_size = 256"

definition label_fields :: "string list" where
  "label_fields = [''doc_id'', ''sha256'', ''title'', ''product'', ''version'']"

definition data_fields :: "string list" where
  "data_fields = [''source_rev'', ''doc_id'', ''sha256'', ''title'', ''product'', ''version'',
                  ''page_start'', ''page_end'', ''page_label'']"

definition entry_keys :: "string set" where
  "entry_keys = {''source_revision'', ''source_sha256'', ''doc_id'', ''title'', ''product'', ''version'',
                 ''chunk_count'', ''pages'', ''page_labels'', ''indexed_pages''}"

definition catalog_error :: "string \<Rightarrow> exn" where
  "catalog_error tag = Exn SourceCatalogErr tag []"

definition catalog_point_id :: "libs \<Rightarrow> string \<Rightarrow> string \<Rightarrow> string" where
  "catalog_point_id L control source_rev = lib_uuid5 L (''source-catalog|'' @ control @ ''|'' @ source_rev)"

text \<open>\<open>bytes.fromhex\<close>: a digest is its hexadecimal text, two digits to a byte.\<close>

definition hex_value :: "char \<Rightarrow> nat" where
  "hex_value c = (if c \<le> CHR ''9'' then of_char c - 48 else of_char c - 87)"

fun raw_digest :: "string \<Rightarrow> string" where
  "raw_digest (a # b # r) = char_of (16 * hex_value a + hex_value b) # raw_digest r"
| "raw_digest _ = []"

definition entry_rev :: "payload \<Rightarrow> string" where
  "entry_rev e = str_of (jget e ''source_revision'')"

definition catalog_summary :: "libs \<Rightarrow> payload list \<Rightarrow> payload" where
  "catalog_summary L entries =
     [(''schema'', JInt catalog_schema), (''count'', JInt (int (length entries))),
      (''sha256'', JStr (lib_sha256 L
         (json_text (JList [JStr ''source-catalog'', JInt catalog_schema, JInt (int (length entries))])
          @ concat (map (\<lambda>e. raw_digest (lib_sha256 L (json_text (JObj e)))) (sort_key entry_rev entries)))))]"

definition is_hex64 :: "json \<Rightarrow> bool" where
  "is_hex64 v = (case v of JStr s \<Rightarrow> length s = 64 \<and> list_all is_hex_lower s | _ \<Rightarrow> False)"

fun is_int :: "json \<Rightarrow> bool" where
  "is_int (JInt _) = True"
| "is_int _ = False"

fun int_of :: "json \<Rightarrow> int" where
  "int_of (JInt i) = i"
| "int_of _ = 0"

definition has_keys :: "payload \<Rightarrow> string set \<Rightarrow> bool" where
  "has_keys kvs ks \<longleftrightarrow> set (map fst kvs) = ks"

definition decode_catalog_summary :: "json \<Rightarrow> payload res" where
  "decode_catalog_summary value =
     (case value of
        JObj p \<Rightarrow>
          if \<not> has_keys p {''schema'', ''count'', ''sha256''} then raise_exn ValueErr ''invalid_summary'' []
          else if jget p ''schema'' \<noteq> JInt catalog_schema then raise_exn ValueErr ''unsupported_catalog'' []
          else if \<not> is_int (jget p ''count'') \<or> int_of (jget p ''count'') < 1 then raise_exn ValueErr ''invalid_count'' []
          else if \<not> is_hex64 (jget p ''sha256'') then raise_exn ValueErr ''invalid_digest'' []
          else Inr p
      | _ \<Rightarrow> raise_exn ValueErr ''invalid_summary'' [])"

section \<open>Page labels and spans\<close>

text \<open>\<open>label.split(sep)\<close>; the counter skips the rest of a separator. The range dash is U+2013.\<close>

fun split_str :: "string \<Rightarrow> string \<Rightarrow> string \<Rightarrow> nat \<Rightarrow> string list" where
  "split_str sep [] acc k = [rev acc]"
| "split_str sep (c # s) acc (Suc k) = split_str sep s acc k"
| "split_str sep (c # s) acc 0 =
     (if prefix sep (c # s) then rev acc # split_str sep s [] (length sep - 1) else split_str sep s (c # acc) 0)"

definition label_range :: string where "label_range = [CHR 0xE2, CHR 0x80, CHR 0x93]"

datatype edge = First_Edge | Last_Edge

definition edge_label :: "json \<Rightarrow> edge \<Rightarrow> string option" where
  "edge_label label side =
     (case label of
        JStr l \<Rightarrow>
          if l = [] then None
          else let parts = split_str label_range l [] 0
               in if length parts = 1 then Some l
                  else let part = (case side of First_Edge \<Rightarrow> hd parts | Last_Edge \<Rightarrow> last parts)
                       in if length parts = 2 \<and> part \<noteq> [] then Some part else None
      | _ \<Rightarrow> None)"

definition page_step :: "int \<times> int \<Rightarrow> int \<times> int \<Rightarrow> int \<times> int" where
  "page_step span acc =
     (if snd span \<le> snd acc then acc
      else (fst acc + (snd span - max (fst span) (snd acc + 1) + 1), snd span))"

definition indexed_pages :: "(int \<times> int) list \<Rightarrow> int" where
  "indexed_pages spans = fst (fold page_step (sorted_set spans) (0, -1))"

definition pick_edge :: "(int \<times> string option) option \<Rightarrow> int \<times> string option \<Rightarrow> bool \<Rightarrow> int \<times> string option" where
  "pick_edge current candidate lower =
     (case current of
        None \<Rightarrow> candidate
      | Some cur \<Rightarrow>
          if fst candidate \<noteq> fst cur
          then (if (if lower then fst candidate < fst cur else fst cur < fst candidate) then candidate else cur)
          else if snd cur = None \<or> snd candidate = None
          then (fst cur, if snd cur \<noteq> None \<and> snd cur \<noteq> Some [] then snd cur else snd candidate)
          else if snd cur = snd candidate then cur else (fst cur, None))"

section \<open>Building the catalog\<close>

text \<open>The markers that certify this physical collection, by source revision.\<close>

definition bound_step :: "libs \<Rightarrow> string \<Rightarrow> point \<Rightarrow> (string \<times> marker) list \<Rightarrow> (string \<times> marker) list res" where
  "bound_step L physical p ms =
     (if jhas (pt_payload p) ''record_type'' \<or> jget (pt_payload p) ''target_collection'' \<noteq> JStr physical then Inr ms
      else case parse_marker L (pt_payload p) of
             None \<Rightarrow> Inl (catalog_error ''unreadable_marker'')
           | Some m \<Rightarrow> if map_of ms (mk_source_rev m) \<noteq> None then Inl (catalog_error ''two_markers'')
                       else Inr (ms @ [(mk_source_rev m, m)]))"

fun res_fold :: "('a \<Rightarrow> 'b \<Rightarrow> 'b res) \<Rightarrow> 'a list \<Rightarrow> 'b \<Rightarrow> 'b res" where
  "res_fold f [] acc = Inr acc"
| "res_fold f (x # xs) acc = rbind (f x acc) (\<lambda>acc'. res_fold f xs acc')"

definition bound_markers :: "libs \<Rightarrow> 's client \<Rightarrow> string \<Rightarrow> string \<Rightarrow> ('s, (string \<times> marker) list) eff" where
  "bound_markers L C control physical =
     sbind (scroll_all_points C control [] WithAll catalog_page_size) (\<lambda>ps.
     sbind (slift (res_fold (bound_step L physical) ps [])) (\<lambda>ms.
       if ms = [] then sraise (catalog_error ''no_markers'') else sret ms))"

text \<open>What one revision's chunks add up to.\<close>

record rev_acc =
  ra_count :: nat
  ra_labels :: "(string \<times> json list) list"
  ra_spans :: "(int \<times> int) list"
  ra_first :: "(int \<times> string option) option"
  ra_last :: "(int \<times> string option) option"

definition new_acc :: rev_acc where
  "new_acc = \<lparr>ra_count = 0, ra_labels = map (\<lambda>k. (k, [])) label_fields, ra_spans = [], ra_first = None, ra_last = None\<rparr>"

fun is_opt_text :: "json \<Rightarrow> bool" where
  "is_opt_text JNull = True"
| "is_opt_text (JStr _) = True"
| "is_opt_text _ = False"

definition add_chunk :: "payload \<Rightarrow> rev_acc \<Rightarrow> rev_acc" where
  "add_chunk p a =
     (let start = int_of (jget p ''page_start''); stop = int_of (jget p ''page_end'')
      in \<lparr>ra_count = ra_count a + 1,
          ra_labels = map (\<lambda>(k, vs). (k, List.insert (jget p k) vs)) (ra_labels a),
          ra_spans = List.insert (start, stop) (ra_spans a),
          ra_first = Some (pick_edge (ra_first a) (start, edge_label (jget p ''page_label'') First_Edge) True),
          ra_last = Some (pick_edge (ra_last a) (stop, edge_label (jget p ''page_label'') Last_Edge) False)\<rparr>)"

definition chunk_step :: "point \<Rightarrow> (string \<times> rev_acc) list \<Rightarrow> (string \<times> rev_acc) list res" where
  "chunk_step pt accs =
     (let p = pt_payload pt
      in if \<not> is_text (jget p ''source_rev'') then Inl (catalog_error ''no_source_revision'')
         else if \<not> is_int (jget p ''page_start'') \<or> \<not> is_int (jget p ''page_end'')
                 \<or> int_of (jget p ''page_start'') < 0 \<or> int_of (jget p ''page_end'') < int_of (jget p ''page_start'')
         then Inl (catalog_error ''invalid_page_span'')
         else if list_ex (\<lambda>k. \<not> is_opt_text (jget p k)) label_fields then Inl (catalog_error ''non_text_label'')
         else let srev = str_of (jget p ''source_rev'');
                  a = (case map_of accs srev of Some a \<Rightarrow> a | None \<Rightarrow> new_acc)
              in Inr (AList.update srev (add_chunk p a) accs))"

definition page_json :: "int \<times> string option \<Rightarrow> json" where
  "page_json e = jopt (snd e)"

definition catalog_entry :: "string \<Rightarrow> rev_acc \<Rightarrow> marker \<Rightarrow> payload res" where
  "catalog_entry srev a m =
     (if list_ex (\<lambda>(k, vs). length vs \<noteq> 1) (ra_labels a) then Inl (catalog_error ''labels_disagree'')
      else let label = (\<lambda>k. case map_of (ra_labels a) k of Some (v # _) \<Rightarrow> v | _ \<Rightarrow> JNull)
           in if int (ra_count a) \<noteq> mk_expected m \<or> label ''doc_id'' \<noteq> JStr (mk_doc_id m)
                 \<or> label ''sha256'' \<noteq> JStr (mk_sha256 m) \<or> \<not> suffix (CHR ''|'' # mk_sha256 m) srev
              then Inl (catalog_error ''marker_mismatch'')
              else case (ra_first a, ra_last a) of
                     (Some lo, Some hi) \<Rightarrow>
                       Inr [(''source_revision'', JStr srev), (''source_sha256'', JStr (mk_sha256 m)),
                            (''doc_id'', JStr (mk_doc_id m)), (''title'', label ''title''),
                            (''product'', label ''product''), (''version'', label ''version''),
                            (''chunk_count'', JInt (int (ra_count a))),
                            (''pages'', JObj [(''first'', JInt (fst lo)), (''last'', JInt (fst hi))]),
                            (''page_labels'', JObj [(''first'', page_json lo), (''last'', page_json hi)]),
                            (''indexed_pages'', JInt (indexed_pages (ra_spans a)))]
                   | _ \<Rightarrow> Inl (catalog_error ''marker_mismatch''))"

definition build_source_catalog :: "libs \<Rightarrow> 's client \<Rightarrow> string \<Rightarrow> ('s, payload list) eff" where
  "build_source_catalog L C physical =
     sbind (bound_markers L C (physical @ ''__completions'') physical) (\<lambda>ms.
     sbind (scroll_all_points C physical [] (WithFields data_fields) catalog_page_size) (\<lambda>ps.
     sbind (slift (res_fold chunk_step ps [])) (\<lambda>accs.
       if set (map fst accs) \<noteq> set (map fst ms) then sraise (catalog_error ''revisions_disagree'')
       else slift (res_map (\<lambda>(srev, a). case map_of ms srev of
                     Some m \<Rightarrow> catalog_entry srev a m | None \<Rightarrow> Inl (catalog_error ''marker_mismatch''))
                   (sort_key fst accs)))))"

section \<open>Storing and reading the catalog\<close>

definition catalog_point_ids :: "'s client \<Rightarrow> string \<Rightarrow> ('s, string list) eff" where
  "catalog_point_ids C control =
     sbind (scroll_all_points C control [] (WithFields [''record_type'']) catalog_page_size) (\<lambda>ps.
       sret (map pt_id (filter (\<lambda>p. jget (pt_payload p) ''record_type'' = JStr catalog_record_type) ps)))"

definition catalog_vector :: "int \<Rightarrow> json" where
  "catalog_vector vector_size =
     JObj [(''dense'', JList (replicate (nat vector_size) (JFloat ''0.0''))),
           (''bm25'', JObj [(''indices'', JList [JInt 0]), (''values'', JList [JFloat ''1.0''])])]"

definition catalog_point :: "libs \<Rightarrow> string \<Rightarrow> int \<Rightarrow> payload \<Rightarrow> point" where
  "catalog_point L control vector_size entry =
     \<lparr>pt_id = catalog_point_id L control (entry_rev entry),
      pt_payload = [(''record_type'', JStr catalog_record_type), (''catalog_schema'', JInt catalog_schema),
                    (''entry'', JObj entry)],
      pt_vectors = catalog_vector vector_size\<rparr>"

definition write_source_catalog :: "libs \<Rightarrow> 's client \<Rightarrow> string \<Rightarrow> payload list \<Rightarrow> int \<Rightarrow> ('s, unit) eff" where
  "write_source_catalog L C physical entries vector_size =
     (let control = physical @ ''__completions''
      in sbind (catalog_point_ids C control) (\<lambda>stale.
         sseq (if stale \<noteq> [] then cl_delete_ids C control (sort stale) else sret ())
              (seach (cl_upsert C control) (batches catalog_page_size (map (catalog_point L control vector_size) entries)))))"

text \<open>A span of two ends, of integers or of optional text.\<close>

definition span_keys :: "json \<Rightarrow> bool" where
  "span_keys v = (case v of JObj p \<Rightarrow> has_keys p {''first'', ''last''} | _ \<Rightarrow> False)"

definition span_end :: "json \<Rightarrow> string \<Rightarrow> json" where
  "span_end v k = (case v of JObj p \<Rightarrow> jget p k | _ \<Rightarrow> JNull)"

definition span_ok :: "(json \<Rightarrow> bool) \<Rightarrow> json \<Rightarrow> bool" where
  "span_ok kind v \<longleftrightarrow> span_keys v \<and> kind (span_end v ''first'') \<and> kind (span_end v ''last'')"

definition entry_ok :: "payload \<Rightarrow> bool" where
  "entry_ok e \<longleftrightarrow>
     is_text (jget e ''source_revision'') \<and> is_hex64 (jget e ''source_sha256'')
     \<and> suffix (CHR ''|'' # str_of (jget e ''source_sha256'')) (entry_rev e)
     \<and> is_str (jget e ''doc_id'') \<and> is_str (jget e ''title'')
     \<and> is_opt_text (jget e ''product'') \<and> is_opt_text (jget e ''version'')
     \<and> is_int (jget e ''chunk_count'') \<and> 1 \<le> int_of (jget e ''chunk_count'')
     \<and> span_ok is_int (jget e ''pages'') \<and> span_ok is_opt_text (jget e ''page_labels'')
     \<and> is_int (jget e ''indexed_pages'')"

definition pages_ok :: "payload \<Rightarrow> bool" where
  "pages_ok e \<longleftrightarrow>
     (let lo = int_of (span_end (jget e ''pages'') ''first''); hi = int_of (span_end (jget e ''pages'') ''last'');
          indexed = int_of (jget e ''indexed_pages'')
      in 0 \<le> lo \<and> lo \<le> hi \<and> 1 \<le> indexed \<and> indexed \<le> hi - lo + 1)"

definition decode_catalog_point :: "libs \<Rightarrow> string \<Rightarrow> string \<Rightarrow> payload \<Rightarrow> payload res" where
  "decode_catalog_point L control point_id p =
     (if \<not> has_keys p {''record_type'', ''catalog_schema'', ''entry''} then Inl (catalog_error ''malformed_entry'')
      else case jget p ''entry'' of
             JObj e \<Rightarrow>
               if jget p ''record_type'' \<noteq> JStr catalog_record_type \<or> jget p ''catalog_schema'' \<noteq> JInt catalog_schema
                  \<or> \<not> has_keys e entry_keys
               then Inl (catalog_error ''malformed_entry'')
               else if \<not> entry_ok e then Inl (catalog_error ''malformed_entry'')
               else if \<not> pages_ok e then Inl (catalog_error ''malformed_entry'')
               else if point_id \<noteq> catalog_point_id L control (entry_rev e) then Inl (catalog_error ''malformed_entry'')
               else Inr e
           | _ \<Rightarrow> Inl (catalog_error ''malformed_entry''))"

definition read_source_catalog :: "libs \<Rightarrow> 's client \<Rightarrow> string \<Rightarrow> ('s, payload list) eff" where
  "read_source_catalog L C control =
     sbind (scroll_all_points C control [] WithAll catalog_page_size) (\<lambda>ps.
     sbind (slift (res_map (\<lambda>p. decode_catalog_point L control (pt_id p) (pt_payload p))
              (filter (\<lambda>p. jget (pt_payload p) ''record_type'' = JStr catalog_record_type) ps))) (\<lambda>entries.
       sret (sort_key entry_rev entries)))"

definition same_dict :: "payload \<Rightarrow> payload \<Rightarrow> bool" where
  "same_dict p q \<longleftrightarrow> set (map fst p) = set (map fst q) \<and> list_all (\<lambda>k. jget p k = jget q k) (map fst p)"

definition verify_source_catalog :: "libs \<Rightarrow> 's client \<Rightarrow> string \<Rightarrow> json \<Rightarrow> ('s, payload list) eff" where
  "verify_source_catalog L C control summary =
     sbind (slift (decode_catalog_summary summary)) (\<lambda>expected.
     sbind (read_source_catalog L C control) (\<lambda>entries.
       if \<not> same_dict (catalog_summary L entries) expected then sraise (catalog_error ''receipt_mismatch'')
       else sret entries))"

section \<open>Spans and labels\<close>

text \<open>
  The sweep counts pages: \<open>e\<close> is the last page counted, and every page between the starts seen
  and \<open>e\<close> has been.
\<close>

definition span_pages :: "int \<times> int \<Rightarrow> int set" where
  "span_pages s = {fst s..snd s}"

lemma page_step_counts:
  assumes "finite U" "\<forall>x \<in> U. x \<le> e" "\<forall>x. lo \<le> x \<and> x \<le> e \<longrightarrow> x \<in> U" "lo \<le> fst sp" "fst sp \<le> snd sp"
  shows "page_step sp (int (card U), e) = (int (card (U \<union> span_pages sp)), max e (snd sp))"
proof (cases "snd sp \<le> e")
  case True
  then have "span_pages sp \<subseteq> U" using assms(3,4) by (auto simp: span_pages_def)
  then have "U \<union> span_pages sp = U" by blast
  with True show ?thesis by (simp add: page_step_def)
next
  case False
  let ?new = "{max (fst sp) (e + 1)..snd sp}"
  have "U \<union> span_pages sp = U \<union> ?new" using assms(3,4) by (auto simp: span_pages_def not_le)
  moreover have "U \<inter> ?new = {}" using assms(2) by force
  ultimately have "card (U \<union> span_pages sp) = card U + card ?new" using assms(1) by (simp add: card_Un_disjoint)
  moreover have "int (card ?new) = snd sp - max (fst sp) (e + 1) + 1" using False assms(5) by simp
  ultimately show ?thesis using False by (simp add: page_step_def)
qed

lemma page_fold:
  assumes "sorted (map fst xs)" "\<forall>sp \<in> set xs. lo \<le> fst sp \<and> fst sp \<le> snd sp"
    and "finite U" "\<forall>x \<in> U. x \<le> e" "\<forall>x. lo \<le> x \<and> x \<le> e \<longrightarrow> x \<in> U"
  shows "fst (fold page_step xs (int (card U), e)) = int (card (U \<union> (\<Union>sp \<in> set xs. span_pages sp)))"
  using assms
proof (induction xs arbitrary: U e lo)
  case (Cons sp xs)
  have step: "page_step sp (int (card U), e) = (int (card (U \<union> span_pages sp)), max e (snd sp))"
    using Cons.prems by (intro page_step_counts [where lo = lo]) auto
  have "fst (fold page_step xs (int (card (U \<union> span_pages sp)), max e (snd sp)))
      = int (card (U \<union> span_pages sp \<union> (\<Union>sp \<in> set xs. span_pages sp)))"
  proof (rule Cons.IH [where lo = "fst sp"])
    show "\<forall>x \<in> U \<union> span_pages sp. x \<le> max e (snd sp)" using Cons.prems(4) by (auto simp: span_pages_def)
    show "\<forall>x. fst sp \<le> x \<and> x \<le> max e (snd sp) \<longrightarrow> x \<in> U \<union> span_pages sp"
      using Cons.prems(2,5) by (auto simp: span_pages_def)
  qed (use Cons.prems in \<open>auto simp: span_pages_def\<close>)
  with step show ?case by (simp add: Un_assoc)
qed simp

lemma sorted_map_fst: "sorted (xs :: (int \<times> int) list) \<Longrightarrow> sorted (map fst xs)"
  by (induction xs) (auto simp: less_eq_prod_def)

lemma indexed_pages_card:
  assumes "\<forall>sp \<in> set spans. 0 \<le> fst sp \<and> fst sp \<le> snd sp"
  shows "indexed_pages spans = int (card (\<Union>sp \<in> set spans. span_pages sp))"
  using page_fold [of "sorted_set spans" 0 "{}" "-1"] assms
  by (simp add: indexed_pages_def sorted_map_fst)

text \<open>The page of an edge is the extreme one, whatever becomes of its label.\<close>

lemma fst_pick_edge:
  "fst (pick_edge (Some c) d True) = min (fst c) (fst d)"
  "fst (pick_edge (Some c) d False) = max (fst c) (fst d)"
  "pick_edge None d b = d"
  by (auto simp: pick_edge_def min_def max_def)

definition acc_ok :: "rev_acc \<Rightarrow> bool" where
  "acc_ok a \<longleftrightarrow> 1 \<le> ra_count a \<and> map fst (ra_labels a) = label_fields \<and> ra_spans a \<noteq> []
     \<and> (\<forall>kv \<in> set (ra_labels a). list_all is_opt_text (snd kv))
     \<and> (\<forall>sp \<in> set (ra_spans a). 0 \<le> fst sp \<and> fst sp \<le> snd sp)
     \<and> (\<exists>f l. ra_first a = Some f \<and> ra_last a = Some l \<and> 0 \<le> fst f
          \<and> (\<forall>sp \<in> set (ra_spans a). fst f \<le> fst sp \<and> snd sp \<le> fst l))"

lemma add_chunk_labels [simp]: "map fst (ra_labels (add_chunk p a)) = map fst (ra_labels a)"
  by (simp add: add_chunk_def Let_def comp_def case_prod_beta)

lemma add_chunk_ok:
  assumes "acc_ok a \<or> a = new_acc" "0 \<le> int_of (jget p ''page_start'')" "int_of (jget p ''page_start'') \<le> int_of (jget p ''page_end'')"
    and txts: "\<forall>k \<in> set label_fields. is_opt_text (jget p k)"
  shows "acc_ok (add_chunk p a)"
proof -
  have keys: "map fst (ra_labels a) = label_fields" using assms(1) by (auto simp: acc_ok_def new_acc_def comp_def)
  have "\<forall>kv \<in> set (ra_labels a). list_all is_opt_text (snd kv) \<and> is_opt_text (jget p (fst kv))"
  proof
    fix kv assume kv: "kv \<in> set (ra_labels a)"
    then have "fst kv \<in> set label_fields" unfolding keys [symmetric] by simp
    moreover have "list_all is_opt_text (snd kv)" using kv assms(1) by (auto simp: acc_ok_def new_acc_def)
    ultimately show "list_all is_opt_text (snd kv) \<and> is_opt_text (jget p (fst kv))" using txts by blast
  qed
  then have opt: "\<forall>kv \<in> set (ra_labels (add_chunk p a)). list_all is_opt_text (snd kv)"
    by (fastforce simp: add_chunk_def Let_def list_all_iff)
  from assms(1) show ?thesis
  proof
    assume "a = new_acc"
    moreover have "map fst (ra_labels new_acc) = label_fields" by (simp add: new_acc_def comp_def)
    ultimately have "map fst (ra_labels (add_chunk p a)) = label_fields" by simp
    with opt show ?thesis
      using assms(2,3) \<open>a = new_acc\<close> unfolding acc_ok_def by (simp add: add_chunk_def Let_def new_acc_def fst_pick_edge)
  next
    assume a: "acc_ok a"
    then obtain f l where fl: "ra_first a = Some f" "ra_last a = Some l" "0 \<le> fst f"
        "\<forall>sp \<in> set (ra_spans a). fst f \<le> fst sp \<and> snd sp \<le> fst l"
      by (auto simp: acc_ok_def)
    have "0 \<le> fst (the (ra_first (add_chunk p a)))"
      using fl(1,3) assms(2) by (simp add: add_chunk_def Let_def fst_pick_edge)
    moreover have "\<forall>sp \<in> set (ra_spans (add_chunk p a)). fst (the (ra_first (add_chunk p a))) \<le> fst sp
        \<and> snd sp \<le> fst (the (ra_last (add_chunk p a)))"
      using fl by (auto simp: add_chunk_def Let_def fst_pick_edge)
    moreover have "ra_first (add_chunk p a) \<noteq> None" "ra_last (add_chunk p a) \<noteq> None" "ra_spans (add_chunk p a) \<noteq> []"
      by (auto simp: add_chunk_def Let_def List.insert_def)
    moreover have "\<forall>sp \<in> set (ra_spans (add_chunk p a)). 0 \<le> fst sp \<and> fst sp \<le> snd sp" "1 \<le> ra_count (add_chunk p a)"
      using a assms(2,3) by (auto simp: acc_ok_def add_chunk_def Let_def)
    ultimately show ?thesis using a opt unfolding acc_ok_def by auto
  qed
qed

text \<open>The scan: one accumulator per revision seen, counting exactly its chunks.\<close>

lemma res_fold_inv:
  assumes "res_fold f xs a = Inr b" "I [] a" "\<And>ys x c d. I ys c \<Longrightarrow> x \<in> set xs \<Longrightarrow> f x c = Inr d \<Longrightarrow> I (ys @ [x]) d"
  shows "I xs b"
proof -
  have "I (ys @ xs) b" if "I ys c" "res_fold f xs c = Inr b" "\<And>ys x c d. I ys c \<Longrightarrow> x \<in> set xs \<Longrightarrow> f x c = Inr d \<Longrightarrow> I (ys @ [x]) d"
    for ys c xs
    using that
  proof (induction xs arbitrary: ys c)
    case (Cons x xs)
    from Cons.prems(2) obtain d where d: "f x c = Inr d" "res_fold f xs d = Inr b" by (auto simp: rbind_Inr_iff)
    have "I (ys @ [x]) d" by (rule Cons.prems(3) [OF Cons.prems(1) _ d(1)]) simp
    from Cons.IH [OF this d(2)] Cons.prems(3) show ?case by simp
  qed simp
  from this [of "[]" a xs] assms show ?thesis by simp
qed

definition revision_count :: "point list \<Rightarrow> string \<Rightarrow> nat" where
  "revision_count ps r = length (filter (\<lambda>p. jget (pt_payload p) ''source_rev'' = JStr r) ps)"

definition chunk_inv :: "point list \<Rightarrow> (string \<times> rev_acc) list \<Rightarrow> bool" where
  "chunk_inv ps accs \<longleftrightarrow> distinct (map fst accs)
     \<and> (\<forall>r. map_of accs r = None \<longrightarrow> revision_count ps r = 0)
     \<and> (\<forall>r a. map_of accs r = Some a \<longrightarrow> acc_ok a \<and> ra_count a = revision_count ps r \<and> r \<noteq> [])"

lemma chunk_step_inv:
  assumes "chunk_inv ps accs" "chunk_step p accs = Inr accs'"
  shows "chunk_inv (ps @ [p]) accs'"
proof -
  let ?pl = "pt_payload p"
  define r where "r = str_of (jget ?pl ''source_rev'')"
  define a where "a = (case map_of accs r of Some a \<Rightarrow> a | None \<Rightarrow> new_acc)"
  from assms(2) have g: "is_text (jget ?pl ''source_rev'')" "0 \<le> int_of (jget ?pl ''page_start'')"
      "int_of (jget ?pl ''page_start'') \<le> int_of (jget ?pl ''page_end'')" "accs' = AList.update r (add_chunk ?pl a) accs"
      "\<forall>k \<in> set label_fields. is_opt_text (jget ?pl k)"
    by (auto simp: chunk_step_def Let_def r_def a_def list_ex_iff split: if_splits)
  have r: "jget ?pl ''source_rev'' = JStr r" "r \<noteq> []" using g(1) by (auto simp: r_def is_text_iff)
  have old: "(acc_ok a \<or> a = new_acc) \<and> ra_count a = revision_count ps r"
    using assms(1) unfolding chunk_inv_def a_def by (cases "map_of accs r") (simp_all add: new_acc_def)
  then have "acc_ok (add_chunk ?pl a)" using g(2,3,5) by (intro add_chunk_ok) blast+
  moreover have "ra_count (add_chunk ?pl a) = revision_count (ps @ [p]) r"
    using old r by (simp add: add_chunk_def Let_def revision_count_def)
  moreover have "revision_count (ps @ [p]) r' = revision_count ps r'" if "r' \<noteq> r" for r'
    using that r by (simp add: revision_count_def)
  moreover have "distinct (map fst accs')" using assms(1) by (simp add: g(4) chunk_inv_def distinct_update)
  ultimately show ?thesis
    using assms(1) r(2) unfolding chunk_inv_def g(4) by (simp add: update_conv')
qed

lemma chunk_scan:
  assumes "res_fold chunk_step ps [] = Inr accs"
  shows "chunk_inv ps accs"
  by (rule res_fold_inv [OF assms, where I = chunk_inv])
     (simp add: chunk_inv_def revision_count_def, erule chunk_step_inv)

text \<open>An entry is what the reader accepts, once its title and its content hash have the right form.\<close>

definition readable_entry :: "payload \<Rightarrow> bool" where
  "readable_entry e \<longleftrightarrow> is_str (jget e ''title'') \<and> is_hex64 (jget e ''source_sha256'')"

lemma span_pages_union:
  assumes "\<forall>sp \<in> set spans. 0 \<le> fst sp \<and> fst sp \<le> snd sp" "\<forall>sp \<in> set spans. f \<le> fst sp \<and> snd sp \<le> l" "spans \<noteq> []"
  shows "1 \<le> indexed_pages spans \<and> indexed_pages spans \<le> l - f + 1 \<and> f \<le> l"
proof -
  let ?U = "\<Union>sp \<in> set spans. span_pages sp"
  obtain sp where sp: "sp \<in> set spans" using assms(3) by (cases spans) auto
  have fl: "f \<le> l" using assms(1,2) sp by force
  have "?U \<subseteq> {f..l}" using assms(2) by (force simp: span_pages_def)
  then have "card ?U \<le> card {f..l}" by (rule card_mono [rotated]) simp
  moreover have "fst sp \<in> ?U" using sp assms(1) by (force simp: span_pages_def)
  then have "1 \<le> card ?U" by (metis One_nat_def Suc_leI card_gt_0_iff empty_iff finite_UN finite_atLeastAtMost_int finite_set span_pages_def)
  ultimately show ?thesis using fl by (simp add: indexed_pages_card [OF assms(1)])
qed

lemma catalog_entry_ok:
  assumes "acc_ok a" "srev \<noteq> []" "catalog_entry srev a m = Inr e"
  shows "entry_rev e = srev" "jget e ''chunk_count'' = JInt (int (ra_count a))" "has_keys e entry_keys" "0 \<le> int_of (span_end (jget e ''pages'') ''first'')"
    and "readable_entry e \<Longrightarrow> entry_ok e \<and> pages_ok e"
proof -
  define label where "label = (\<lambda>k. case map_of (ra_labels a) k of Some (v # _) \<Rightarrow> v | _ \<Rightarrow> JNull)"
  obtain f l where fl: "ra_first a = Some f" "ra_last a = Some l" "\<forall>sp \<in> set (ra_spans a). fst f \<le> fst sp \<and> snd sp \<le> fst l"
      and f0: "0 \<le> fst f"
    using assms(1) by (auto simp: acc_ok_def)
  have checks: "label ''doc_id'' = JStr (mk_doc_id m)" "suffix (CHR ''|'' # mk_sha256 m) srev" "1 \<le> ra_count a"
    and e: "e = [(''source_revision'', JStr srev), (''source_sha256'', JStr (mk_sha256 m)),
                            (''doc_id'', JStr (mk_doc_id m)), (''title'', label ''title''),
                            (''product'', label ''product''), (''version'', label ''version''),
                            (''chunk_count'', JInt (int (ra_count a))),
                            (''pages'', JObj [(''first'', JInt (fst f)), (''last'', JInt (fst l))]),
                            (''page_labels'', JObj [(''first'', page_json f), (''last'', page_json l)]),
                            (''indexed_pages'', JInt (indexed_pages (ra_spans a)))]"
    using assms(1,3) fl(1,2) by (auto simp: catalog_entry_def Let_def label_def [symmetric] acc_ok_def split: if_splits)
  have opt: "is_opt_text (label k)" for k
  proof -
    have "is_opt_text v" if "map_of (ra_labels a) k = Some (v # vs)" for v vs
      using map_of_SomeD [OF that] assms(1) by (force simp: acc_ok_def)
    then show ?thesis by (auto simp: label_def split: option.split list.split)
  qed
  show "entry_rev e = srev" "jget e ''chunk_count'' = JInt (int (ra_count a))" "has_keys e entry_keys"
    by (simp_all add: e entry_rev_def has_keys_def entry_keys_def)
  show "0 \<le> int_of (span_end (jget e ''pages'') ''first'')" using f0 by (simp add: e span_end_def)
  have pages: "1 \<le> indexed_pages (ra_spans a) \<and> indexed_pages (ra_spans a) \<le> fst l - fst f + 1 \<and> fst f \<le> fst l"
    using assms(1) fl(3) by (intro span_pages_union) (auto simp: acc_ok_def)
  have page_opt: "is_opt_text (page_json x)" for x by (cases "snd x") (simp_all add: page_json_def)
  show "entry_ok e \<and> pages_ok e" if "readable_entry e"
    using that checks opt page_opt pages f0 assms(2)
    by (simp add: e entry_ok_def pages_ok_def readable_entry_def entry_rev_def span_ok_def span_keys_def span_end_def has_keys_def Let_def)
qed

lemma res_map_project: "res_map f (map g xs) = res_map (f \<circ> g) xs"
  by (induction xs) simp_all

lemma decode_written:
  assumes "has_keys e entry_keys" "entry_ok e" "pages_ok e"
  shows "decode_catalog_point L control (catalog_point_id L control (entry_rev e)) (pt_payload (catalog_point L control vs e)) = Inr e"
  using assms by (simp add: decode_catalog_point_def catalog_point_def has_keys_def)

text \<open>The revisions stored in a collection.\<close>

definition stored_revisions :: "point list \<Rightarrow> string list" where
  "stored_revisions ps = sorted_set (map (\<lambda>p. str_of (jget (pt_payload p) ''source_rev'')) ps)"

lemma set_keys_update: "fst ` set (AList.update k v al) = insert k (fst ` set al)"
  by (induction al) auto

lemma chunk_step_keys:
  assumes "chunk_step p c = Inr d"
  shows "fst ` set d = insert (str_of (jget (pt_payload p) ''source_rev'')) (fst ` set c)"
proof -
  from assms obtain a where "d = AList.update (str_of (jget (pt_payload p) ''source_rev'')) a c"
    by (auto simp: chunk_step_def Let_def split: if_splits)
  then show ?thesis by (simp add: set_keys_update)
qed

lemma chunk_scan_revisions:
  assumes "res_fold chunk_step ps [] = Inr accs"
  shows "fst ` set accs = (\<lambda>p. str_of (jget (pt_payload p) ''source_rev'')) ` set ps"
  by (rule res_fold_inv [OF assms, where I = "\<lambda>ps accs. fst ` set accs = (\<lambda>p. str_of (jget (pt_payload p) ''source_rev'')) ` set ps"])
     (simp_all add: chunk_step_keys)

lemma project_revisions [simp]:
  "revision_count (map (project (WithFields data_fields) vec) ps) r = revision_count ps r"
  "stored_revisions (map (project (WithFields data_fields) vec) ps) = stored_revisions ps"
proof -
  have f: "jget (pt_payload (project (WithFields data_fields) vec p)) ''source_rev'' = jget (pt_payload p) ''source_rev''" for p
    by (rule jget_project) (simp add: data_fields_def)
  show "revision_count (map (project (WithFields data_fields) vec) ps) r = revision_count ps r"
    by (simp add: revision_count_def f filter_map comp_def)
  show "stored_revisions (map (project (WithFields data_fields) vec) ps) = stored_revisions ps"
    by (simp add: stored_revisions_def f comp_def)
qed

text \<open>What a successful build reports, on the stored points.\<close>

definition catalog_of :: "point list \<Rightarrow> payload list \<Rightarrow> bool" where
  "catalog_of ps es \<longleftrightarrow>
     map entry_rev es = stored_revisions ps
     \<and> (\<forall>e \<in> set es. jget e ''chunk_count'' = JInt (int (revision_count ps (entry_rev e)))
          \<and> has_keys e entry_keys \<and> (readable_entry e \<longrightarrow> entry_ok e \<and> pages_ok e))"

lemma entries_catalog:
  assumes "res_fold chunk_step ps [] = Inr accs"
    and "res_map (\<lambda>(srev, a). case map_of ms srev of
           Some m \<Rightarrow> catalog_entry srev a m | None \<Rightarrow> Inl (catalog_error ''marker_mismatch'')) (sort_key fst accs) = Inr es"
  shows "catalog_of ps es"
proof -
  have inv: "chunk_inv ps accs" by (rule chunk_scan [OF assms(1)])
  have entry: "entry_rev e = srev \<and> jget e ''chunk_count'' = JInt (int (revision_count ps srev))
      \<and> has_keys e entry_keys \<and> (readable_entry e \<longrightarrow> entry_ok e \<and> pages_ok e)"
    if "(srev, a) \<in> set accs" "catalog_entry srev a m = Inr e" for srev a m e
  proof -
    have "map_of accs srev = Some a" using that(1) inv by (simp add: chunk_inv_def)
    then have "acc_ok a" "ra_count a = revision_count ps srev" "srev \<noteq> []" using inv by (auto simp: chunk_inv_def)
    with catalog_entry_ok [OF _ _ that(2)] show ?thesis by simp
  qed
  have l: "list_all2 (\<lambda>x y. (case x of (srev, a) \<Rightarrow> case map_of ms srev of
           Some m \<Rightarrow> catalog_entry srev a m | None \<Rightarrow> Inl (catalog_error ''marker_mismatch'')) = Inr y) (sort_key fst accs) es"
    using assms(2) unfolding res_map_Inr_iff .
  have len: "length (sort_key fst accs) = length es" using l by (rule list_all2_lengthD)
  have pt: "entry_rev e = srev \<and> jget e ''chunk_count'' = JInt (int (revision_count ps srev))
      \<and> has_keys e entry_keys \<and> (readable_entry e \<longrightarrow> entry_ok e \<and> pages_ok e)"
    if i: "i < length es" and e: "e = es ! i" "srev = fst (sort_key fst accs ! i)" for i e srev
  proof -
    obtain a where a: "sort_key fst accs ! i = (srev, a)" using e(2) by (metis prod.collapse)
    have "sort_key fst accs ! i \<in> set (sort_key fst accs)" using i len by (intro nth_mem) simp
    then have "(srev, a) \<in> set accs" unfolding a set_sort .
    moreover obtain m where "catalog_entry srev a m = Inr e"
      using list_all2_nthD2 [OF l i] unfolding a e(1) by (auto split: option.splits)
    ultimately show ?thesis by (rule entry)
  qed
  have "map entry_rev es = map fst (sort_key fst accs)"
    by (rule nth_equalityI) (use len pt in simp_all)
  moreover have "\<dots> = stored_revisions ps"
    unfolding map_fst_sort_key stored_revisions_def sorted_set_def
    using inv chunk_scan_revisions [OF assms(1)]
    by (intro sorted_distinct_set_unique) (simp_all add: chunk_inv_def)
  moreover have "jget e ''chunk_count'' = JInt (int (revision_count ps (entry_rev e)))
          \<and> has_keys e entry_keys \<and> (readable_entry e \<longrightarrow> entry_ok e \<and> pages_ok e)" if "e \<in> set es" for e
    using that pt unfolding in_set_conv_nth by (metis (no_types, lifting))
  ultimately show ?thesis by (simp add: catalog_of_def)
qed

context qdrant_reader
begin

lemma wp_bound_markers: "wp (bound_markers L C control physical) (\<lambda>_ s'. V s' = V s) (\<lambda>e s'. V s' = V s) s"
  unfolding bound_markers_def wp_bind
  by (rule wp_conseq [OF wp_scroll_all]) (auto simp: catalog_page_size_def wp_if split: sum.split)

lemma wp_build_source_catalog:
  "wp (build_source_catalog L C physical)
     (\<lambda>es s'. V s' = V s \<and> catalog_of (points_of (V s) physical) es) (\<lambda>e s'. V s' = V s) s"
  unfolding build_source_catalog_def wp_bind [of "bound_markers _ _ _ _"]
proof (rule wp_conseq [OF wp_bound_markers])
  let ?Q = "\<lambda>es s'. V s' = V s \<and> catalog_of (points_of (V s) physical) es" and ?E = "\<lambda>e s'. V s' = V s"
  fix ms s1 assume v: "V s1 = V s"
  show "wp (sbind (scroll_all_points C physical [] (WithFields data_fields) catalog_page_size) (\<lambda>ps.
     sbind (slift (res_fold chunk_step ps [])) (\<lambda>accs.
       if set (map fst accs) \<noteq> set (map fst ms) then sraise (catalog_error ''revisions_disagree'')
       else slift (res_map (\<lambda>(srev, a). case map_of ms srev of
                     Some m \<Rightarrow> catalog_entry srev a m | None \<Rightarrow> Inl (catalog_error ''marker_mismatch''))
                   (sort_key fst accs))))) ?Q ?E s1"
    unfolding wp_bind
  proof (rule wp_conseq [OF wp_scroll_all])
    fix ps s2
    assume "V s2 = V s1 \<and> ps = map (project (WithFields data_fields) False) (matching (V s1) physical [])"
    then have ps: "V s2 = V s" "ps = map (project (WithFields data_fields) False) (points_of (V s) physical)"
      using v by (simp_all add: matching_def matches_def)
    have cat: "catalog_of ps es \<Longrightarrow> catalog_of (points_of (V s) physical) es" for es by (simp add: catalog_of_def ps(2))
    show "wp (slift (res_fold chunk_step ps [])) (\<lambda>accs. wp (
       if set (map fst accs) \<noteq> set (map fst ms) then sraise (catalog_error ''revisions_disagree'')
       else slift (res_map (\<lambda>(srev, a). case map_of ms srev of
                     Some m \<Rightarrow> catalog_entry srev a m | None \<Rightarrow> Inl (catalog_error ''marker_mismatch''))
                   (sort_key fst accs))) ?Q ?E) ?E s2"
      using ps(1) cat entries_catalog by (auto simp: wp_if split: sum.split)
  qed (use v in \<open>simp_all add: catalog_page_size_def\<close>)
qed simp

end

section \<open>Writing and reading back\<close>

text \<open>The client raises its own exceptions only, never one of the catalog.\<close>

locale qdrant_raises = qdrant_store C V for C :: "'s client" and V :: "'s \<Rightarrow> view" +
  assumes scroll_raises: "wp (cl_scroll C n f lim pr vec off) (\<lambda>_ _. True) (\<lambda>e s'. exn_cls e \<noteq> SourceCatalogErr) s"

interpretation mem_raises: qdrant_raises mem_client mem_view
proof
  fix n f lim pr vec off s
  show "wp (cl_scroll mem_client n f lim pr vec off) (\<lambda>_ _. True) (\<lambda>e s'. exn_cls e \<noteq> SourceCatalogErr) s"
    by (simp add: wp_def mem_client_def mem_scroll_def mem_with_def not_found_def split: option.split)
qed

definition is_catalog_point :: "point \<Rightarrow> bool" where
  "is_catalog_point p \<longleftrightarrow> jget (pt_payload p) ''record_type'' = JStr catalog_record_type"

definition catalog_stored :: "libs \<Rightarrow> string \<Rightarrow> int \<Rightarrow> payload list \<Rightarrow> view \<Rightarrow> bool" where
  "catalog_stored L control vsz es v \<longleftrightarrow>
     {p \<in> set (points_of v control). is_catalog_point p} = set (map (catalog_point L control vsz) es)"

definition writable :: "libs \<Rightarrow> string \<Rightarrow> payload list \<Rightarrow> bool" where
  "writable L control es \<longleftrightarrow> es \<noteq> [] \<and> distinct (map entry_rev es) \<and> inj_on (catalog_point_id L control) (entry_rev ` set es)
     \<and> (\<forall>e \<in> set es. has_keys e entry_keys \<and> entry_ok e \<and> pages_ok e)"

lemma writable_ids: "writable L control es \<Longrightarrow> distinct (map (\<lambda>e. pt_id (catalog_point L control vsz e)) es)"
  by (auto simp: writable_def catalog_point_def distinct_map comp_inj_on_iff [symmetric] comp_def inj_on_def)

lemma catalog_point_is: "is_catalog_point (catalog_point L control vsz e)"
  by (simp add: is_catalog_point_def catalog_point_def)

context qdrant_raises
begin

lemma wf_view_V: "wf_view (V s)"
  by (simp add: wf_view_def wf)

lemma scan_raises: "wp (scroll_all_points C n f pr k) (\<lambda>_ _. True) (\<lambda>e s'. exn_cls e \<noteq> SourceCatalogErr) s"
proof -
  have "wp (scan_pages b C n f pr k off got) (\<lambda>_ _. True) (\<lambda>e s'. exn_cls e \<noteq> SourceCatalogErr) s" for b off got s
  proof (induction b arbitrary: off got s)
    case (Suc b)
    show ?case
      unfolding scan_pages.simps wp_bind
      by (rule wp_conseq [OF scroll_raises]) (auto simp: wp_if Suc.IH split: prod.split)
  qed simp
  then show ?thesis by (simp add: wp_def scroll_all_points_def)
qed

lemma wp_write_source_catalog:
  assumes "writable L (physical @ ''__completions'') es"
  shows "wp (write_source_catalog L C physical es vsz)
     (\<lambda>_ s'. catalog_stored L (physical @ ''__completions'') vsz es (V s')) (\<lambda>e s'. True) s"
proof -
  let ?n = "physical @ ''__completions''"
  let ?pts = "map (catalog_point L ?n vsz) es"
  have put: "catalog_stored L ?n vsz es (V s2)"
    if u: "updated ?n (put_points ?pts) (V s1) (V s2)" and none: "\<forall>p \<in> set (points_of (V s1) ?n). \<not> is_catalog_point p" for s1 s2
  proof -
    have "distinct (map pt_id ?pts)" using writable_ids [OF assms] by (simp add: comp_def)
    then have d: "by_id (rev ?pts) (pt_id p) = Some p \<longleftrightarrow> p \<in> set ?pts" for p
      by (subst by_id_in) (auto simp: rev_map [symmetric] distinct_map)
    have "p \<in> set (points_of (V s2) ?n) \<and> is_catalog_point p \<longleftrightarrow> p \<in> set ?pts" for p
      unfolding set_put [OF wf_view_V wf_view_V u] d using none by (auto simp: catalog_point_is)
    then show ?thesis unfolding catalog_stored_def by blast
  qed
  have fill: "wp (seach (cl_upsert C ?n) (batches catalog_page_size ?pts)) (\<lambda>_ s'. catalog_stored L ?n vsz es (V s')) (\<lambda>e s'. True) s1"
    if "\<forall>p \<in> set (points_of (V s1) ?n). \<not> is_catalog_point p" for s1
    by (rule wp_conseq [OF wp_upsert_batches])
       (use put that in \<open>simp_all add: concat_batches catalog_page_size_def\<close>)
  show ?thesis
    unfolding write_source_catalog_def catalog_point_ids_def Let_def wp_bind
  proof (rule wp_conseq [OF wp_scroll_all])
    fix ps s1
    assume "V s1 = V s \<and> ps = map (project (WithFields [''record_type'']) False) (matching (V s) ?n [])"
    then have v: "V s1 = V s" and ps: "ps = map (project (WithFields [''record_type'']) False) (points_of (V s) ?n)"
      by (simp_all add: matching_def matches_def)
    let ?stale = "map pt_id (filter (\<lambda>p. jget (pt_payload p) ''record_type'' = JStr catalog_record_type) ps)"
    have stale: "set ?stale = pt_id ` {p \<in> set (points_of (V s1) ?n). is_catalog_point p}"
    proof -
      have "?stale = map pt_id (filter is_catalog_point (points_of (V s) ?n))"
        by (simp add: ps filter_map comp_def jget_project is_catalog_point_def [abs_def])
      then show ?thesis by (simp add: v)
    qed
    have "wp (if ?stale \<noteq> [] then cl_delete_ids C ?n (sort ?stale) else sret ())
        (\<lambda>_. wp (seach (cl_upsert C ?n) (batches catalog_page_size ?pts)) (\<lambda>_ s'. catalog_stored L ?n vsz es (V s')) (\<lambda>e s'. True))
        (\<lambda>e s'. True) s1"
    proof (cases "?stale = []")
      case True
      then have "set ?stale = {}" by simp
      then have "\<forall>p \<in> set (points_of (V s1) ?n). \<not> is_catalog_point p" unfolding stale by blast
      then show ?thesis using fill by (simp only: True simp_thms if_False wp_ret not_True_eq_False)
    next
      case False
      have gone: "\<forall>p \<in> set (points_of (V s2) ?n). \<not> is_catalog_point p"
        if u: "updated ?n (drop_points (set (sort ?stale))) (V s1) (V s2)" for s2
        unfolding set_dropped [OF wf_view_V wf_view_V u] set_sort stale by blast
      show ?thesis
        unfolding if_P [OF False]
        by (rule wp_delete_ids) (use fill gone in blast)+
    qed
    then show "wp (sret ?stale) (\<lambda>stale. wp (sseq (if stale \<noteq> [] then cl_delete_ids C ?n (sort stale) else sret ())
          (seach (cl_upsert C ?n) (batches catalog_page_size ?pts)))
        (\<lambda>_ s'. catalog_stored L ?n vsz es (V s')) (\<lambda>e s'. True)) (\<lambda>e s'. True) s1"
      by (simp only: wp_ret wp_seq)
  qed (simp_all add: catalog_page_size_def)
qed

end

lemma same_dict_refl: "same_dict p p"
  by (simp add: same_dict_def list_all_iff)

lemma sort_entries:
  assumes "mset (map entry_rev xs) = mset (map entry_rev ys)" "set xs = set ys" "distinct (map entry_rev ys)"
  shows "sort_key entry_rev xs = sort_key entry_rev ys"
proof -
  have d: "distinct (map entry_rev xs)" using assms(1,3) by (metis mset_eq_imp_distinct_iff)
  have "inj_on entry_rev (set ys)" using assms(3) by (simp add: distinct_map)
  moreover have "mset xs = mset ys"
    using assms(2,3) d by (metis distinct_map set_eq_iff_mset_eq_distinct)
  ultimately show ?thesis
    using assms(2) by (intro sort_key_inj_key_eq) simp_all
qed

context qdrant_raises
begin

lemma wp_read_source_catalog:
  assumes "catalog_stored L control vsz es (V s)" "writable L control es"
  shows "wp (read_source_catalog L C control)
     (\<lambda>r s'. V s' = V s \<and> r = sort_key entry_rev es) (\<lambda>e s'. V s' = V s \<and> exn_cls e \<noteq> SourceCatalogErr) s"
  unfolding read_source_catalog_def wp_bind
proof (rule wp_conseq [OF wp_conj [OF wp_scroll_all scan_raises]])
  fix ps s1
  assume "(V s1 = V s \<and> ps = map (project WithAll False) (matching (V s) control [])) \<and> True"
  then have v: "V s1 = V s" and ps: "ps = map (project WithAll False) (points_of (V s) control)"
    by (simp_all add: matching_def matches_def)
  let ?ents = "filter is_catalog_point (points_of (V s) control)"
  define g :: "point \<Rightarrow> payload" where "g = (\<lambda>p. case jget (pt_payload p) ''entry'' of JObj e \<Rightarrow> e | _ \<Rightarrow> [])"
  have stored: "set ?ents = set (map (catalog_point L control vsz) es)"
    using assms(1) by (simp add: catalog_stored_def)
  have dec: "decode_catalog_point L control (pt_id p) (pt_payload p) = Inr (g p)" if "p \<in> set ?ents" for p
  proof -
    from that obtain e where e: "e \<in> set es" "p = catalog_point L control vsz e" unfolding stored by auto
    have "has_keys e entry_keys" "entry_ok e" "pages_ok e" using assms(2) e(1) by (auto simp: writable_def)
    from decode_written [OF this] show ?thesis by (simp add: e(2) g_def catalog_point_def)
  qed
  have "filter (\<lambda>p. jget (pt_payload p) ''record_type'' = JStr catalog_record_type) ps = map (project WithAll False) ?ents"
    by (simp add: ps filter_map comp_def jget_project is_catalog_point_def [abs_def])
  then have "res_map (\<lambda>p. decode_catalog_point L control (pt_id p) (pt_payload p))
      (filter (\<lambda>p. jget (pt_payload p) ''record_type'' = JStr catalog_record_type) ps)
      = res_map (\<lambda>p. decode_catalog_point L control (pt_id p) (pt_payload p)) ?ents"
    by (simp add: res_map_project project_def project_payload_def comp_def)
  also have "\<dots> = Inr (map g ?ents)" by (rule res_map_total) (rule dec)
  finally have read: "res_map (\<lambda>p. decode_catalog_point L control (pt_id p) (pt_payload p))
      (filter (\<lambda>p. jget (pt_payload p) ''record_type'' = JStr catalog_record_type) ps) = Inr (map g ?ents)" .
  have "mset ?ents = mset (map (catalog_point L control vsz) es)"
  proof -
    have "distinct ?ents" using wf [of s control] by (simp add: distinct_map)
    moreover have "distinct (map (catalog_point L control vsz) es)"
      using writable_ids [OF assms(2), of vsz] by (simp add: distinct_map inj_on_def)
    ultimately show ?thesis using stored by (metis set_eq_iff_mset_eq_distinct)
  qed
  then have "mset (map g ?ents) = mset (map (g \<circ> catalog_point L control vsz) es)"
    by (metis map_map mset_map)
  also have "map (g \<circ> catalog_point L control vsz) es = es" by (simp add: g_def catalog_point_def comp_def)
  finally have m: "mset (map g ?ents) = mset es" .
  then have "sort_key entry_rev (map g ?ents) = sort_key entry_rev es"
    using assms(2) by (intro sort_entries) (metis mset_map, metis set_mset_mset, simp add: writable_def)
  then show "wp (slift (res_map (\<lambda>p. decode_catalog_point L control (pt_id p) (pt_payload p))
         (filter (\<lambda>p. jget (pt_payload p) ''record_type'' = JStr catalog_record_type) ps)))
      (\<lambda>entries. wp (sret (sort_key entry_rev entries)) (\<lambda>r s'. V s' = V s \<and> r = sort_key entry_rev es)
         (\<lambda>e s'. V s' = V s \<and> exn_cls e \<noteq> SourceCatalogErr)) (\<lambda>e s'. V s' = V s \<and> exn_cls e \<noteq> SourceCatalogErr) s1"
    unfolding read by (simp add: v)
qed (simp_all add: catalog_page_size_def)

lemma wp_verify_source_catalog:
  assumes "catalog_stored L control vsz es (V s)" "writable L control es" "\<And>t. is_hex64 (JStr (lib_sha256 L t))"
  shows "wp (verify_source_catalog L C control (JObj (catalog_summary L es)))
     (\<lambda>r s'. V s' = V s \<and> r = sort_key entry_rev es) (\<lambda>e s'. V s' = V s \<and> exn_cls e \<noteq> SourceCatalogErr) s"
proof -
  have "es \<noteq> []" using assms(2) by (simp add: writable_def)
  then have dec: "decode_catalog_summary (JObj (catalog_summary L es)) = Inr (catalog_summary L es)"
    using assms(3) by (simp add: decode_catalog_summary_def catalog_summary_def has_keys_def Suc_le_eq insert_commute)
  have same: "catalog_summary L (sort_key entry_rev es) = catalog_summary L es"
    by (simp add: catalog_summary_def sort_key_id_if_sorted del: json_text.simps)
  show ?thesis
    unfolding verify_source_catalog_def dec sbind_slift wp_bind
    by (rule wp_conseq [OF wp_read_source_catalog [OF assms(1,2)]]) (auto simp: same same_dict_refl)
qed

end

section \<open>The receipt binds the entries\<close>

text \<open>No two of these entries have the same digest, and digests have 32 bytes.\<close>

definition entries_apart :: "libs \<Rightarrow> payload list \<Rightarrow> payload list \<Rightarrow> bool" where
  "entries_apart L es es' \<longleftrightarrow>
     (\<forall>e \<in> set es. \<forall>e' \<in> set es'. raw_digest (lib_sha256 L (json_text (JObj e))) = raw_digest (lib_sha256 L (json_text (JObj e'))) \<longrightarrow> e = e')
     \<and> (\<forall>t. length (raw_digest (lib_sha256 L t)) = 32)"

lemma map_inj_on2: "length xs = length ys \<Longrightarrow> map f xs = map f ys \<Longrightarrow> (\<forall>x \<in> set xs. \<forall>y \<in> set ys. f x = f y \<longrightarrow> x = y) \<Longrightarrow> xs = ys"
  by (induction xs ys rule: list_induct2) auto

definition summary_text :: "libs \<Rightarrow> payload list \<Rightarrow> string" where
  "summary_text L es =
     json_text (JList [JStr ''source-catalog'', JInt catalog_schema, JInt (int (length es))])
       @ concat (map (\<lambda>e. raw_digest (lib_sha256 L (json_text (JObj e)))) (sort_key entry_rev es))"

lemma catalog_summary_conv:
  "catalog_summary L es = [(''schema'', JInt catalog_schema), (''count'', JInt (int (length es))),
     (''sha256'', JStr (lib_sha256 L (summary_text L es)))]"
  by (simp only: catalog_summary_def summary_text_def)

lemma summary_text_binds:
  assumes "length es = length es'" "summary_text L es = summary_text L es'" "entries_apart L es es'"
  shows "sort_key entry_rev es = sort_key entry_rev es'"
proof -
  let ?f = "\<lambda>e. raw_digest (lib_sha256 L (json_text (JObj e)))"
  have "concat (map ?f (sort_key entry_rev es)) = concat (map ?f (sort_key entry_rev es'))"
    using assms(2) unfolding summary_text_def assms(1) by (simp only: same_append_eq)
  moreover have "length (map ?f (sort_key entry_rev es)) = length (map ?f (sort_key entry_rev es'))" using assms(1) by simp
  moreover have "\<forall>(x, y) \<in> set (zip (map ?f (sort_key entry_rev es)) (map ?f (sort_key entry_rev es'))). length x = length y"
  proof
    fix p assume "p \<in> set (zip (map ?f (sort_key entry_rev es)) (map ?f (sort_key entry_rev es')))"
    then have "fst p \<in> set (map ?f (sort_key entry_rev es))" "snd p \<in> set (map ?f (sort_key entry_rev es'))"
      by (metis prod.collapse set_zip_leftD, metis prod.collapse set_zip_rightD)
    moreover have "length z = 32" if "z \<in> set (map ?f l)" for z l
      using that assms(3) by (auto simp: entries_apart_def simp del: json_text.simps)
    ultimately have "length (fst p) = 32" "length (snd p) = 32" by blast+
    then show "case p of (x, y) \<Rightarrow> length x = length y" by (simp add: case_prod_beta)
  qed
  ultimately have "map ?f (sort_key entry_rev es) = map ?f (sort_key entry_rev es')"
    by (simp only: concat_eq_concat_iff)
  then show ?thesis
    by (rule map_inj_on2 [rotated]) (use assms(1,3) in \<open>simp_all add: entries_apart_def del: json_text.simps\<close>)
qed

section \<open>Properties\<close>

text \<open>The page count of a catalog entry is the number of distinct pages its chunks cover,
  however their spans overlap.\<close>
theorem indexed_pages_distinct:
  assumes "\<forall>sp \<in> set spans. 0 \<le> fst sp \<and> fst sp \<le> snd sp"
  shows "indexed_pages spans = int (card (\<Union>sp \<in> set spans. {fst sp..snd sp}))"
  using indexed_pages_card [OF assms] by (simp add: span_pages_def)

lemma indexed_pages_distinct_witness: "indexed_pages [(5, 9), (0, 2), (2, 6)] = 10"
proof -
  have "(\<Union>sp \<in> set [(5, 9), (0, 2), (2, 6)]. {fst sp..snd sp}) = {0..9::int}" by auto
  with indexed_pages_distinct [of "[(5, 9), (0, 2), (2, 6)]"] show ?thesis by simp
qed


definition catalog_mem :: mem where
  "catalog_mem = \<lparr>mem_colls = [(''gen1'', []), (''gen1__completions'', [])], mem_alias = [], mem_info = [], mem_schema = []\<rparr>"


text \<open>C16: a stored catalog reads back. Writing replaces every catalog entry of the control
  collection, inherited ones too, and verification against the summary then returns exactly the
  entries written, in order; it can fail only when the store does.\<close>
theorem catalog_reads_back:
  assumes "qdrant_raises C V" "writable L (physical @ ''__completions'') es" "\<And>t. is_hex64 (JStr (lib_sha256 L t))"
  shows "wp (write_source_catalog L C physical es vsz)
     (\<lambda>_. wp (verify_source_catalog L C (physical @ ''__completions'') (JObj (catalog_summary L es)))
            (\<lambda>r s'. r = sort_key entry_rev es) (\<lambda>e s'. exn_cls e \<noteq> SourceCatalogErr))
     (\<lambda>e s'. True) s"
  by (rule wp_conseq [OF qdrant_raises.wp_write_source_catalog [OF assms(1,2)]])
     (rule wp_conseq [OF qdrant_raises.wp_verify_source_catalog [OF assms(1) _ assms(2,3)]], simp_all)

definition hex_libs :: libs where
  "hex_libs = demo_libs\<lparr>lib_sha256 := (\<lambda>t. replicate 64 (CHR ''0''))\<rparr>"

definition demo_entry :: payload where
  "demo_entry = [(''source_revision'', JStr (''ibm|'' @ replicate 64 (CHR ''0''))), (''source_sha256'', JStr (replicate 64 (CHR ''0''))),
     (''doc_id'', JStr ''C''), (''title'', JStr ''T''), (''product'', JNull), (''version'', JNull), (''chunk_count'', JInt 1),
     (''pages'', JObj [(''first'', JInt 0), (''last'', JInt 2)]), (''page_labels'', JObj [(''first'', JNull), (''last'', JStr ''iii'')]),
     (''indexed_pages'', JInt 2)]"

lemma hex64_zero: "is_hex64 (JStr (lib_sha256 hex_libs t))"
  by (simp add: is_hex64_def hex_libs_def is_hex_lower_def list_all_iff)

lemma demo_writable: "writable hex_libs control [demo_entry]"
  by (simp add: writable_def has_keys_def entry_keys_def entry_ok_def pages_ok_def demo_entry_def entry_rev_def span_ok_def
      span_keys_def span_end_def is_hex64_def is_hex_lower_def list_all_iff insert_commute suffix_def)

lemma catalog_reads_back_witness:
  "wp (write_source_catalog hex_libs mem_client ''gen1'' [demo_entry] 1)
     (\<lambda>_. wp (verify_source_catalog hex_libs mem_client (''gen1'' @ ''__completions'') (JObj (catalog_summary hex_libs [demo_entry])))
            (\<lambda>r s'. r = [demo_entry]) (\<lambda>e s'. exn_cls e \<noteq> SourceCatalogErr))
     (\<lambda>e s'. True) catalog_mem"
  using catalog_reads_back [OF mem_raises.qdrant_raises_axioms demo_writable hex64_zero, where physical = "''gen1''" and vsz = 1 and s = catalog_mem]
  by (simp only: sort_key_simps insort_key.simps)

text \<open>A receipt binds its catalog: two entry lists with one summary are the same entries, for a
  hash that tells their texts apart.\<close>
theorem catalog_summary_binds:
  assumes "catalog_summary L es = catalog_summary L es'" "entries_apart L es es'"
    and "tells_apart L (summary_text L es) (summary_text L es')"
  shows "sort_key entry_rev es = sort_key entry_rev es'"
proof -
  have "length es = length es'" "lib_sha256 L (summary_text L es) = lib_sha256 L (summary_text L es')"
    using assms(1) by (simp_all add: catalog_summary_conv)
  with assms(2,3) show ?thesis by (intro summary_text_binds) (simp_all add: tells_apart_def)
qed

lemma catalog_summary_binds_witness:
  "sort_key entry_rev [demo_entry] = sort_key entry_rev [demo_entry] \<and> catalog_summary hex_libs [demo_entry] = catalog_summary hex_libs [demo_entry]"
proof -
  have "entries_apart hex_libs [demo_entry] [demo_entry]"
  proof -
    have "length (raw_digest (replicate 64 c)) = 32" for c by (simp add: numeral_eq_Suc)
    then show ?thesis by (simp add: entries_apart_def hex_libs_def del: json_text.simps)
  qed
  from catalog_summary_binds [OF refl this] show ?thesis by (simp add: tells_apart_def)
qed

text \<open>The printed label of an edge page depends on the order of the chunks. Three chunks that
  share a page and print two labels for it agree on nothing, but the second of two equal labels
  overrides the disagreement.\<close>
theorem pick_edge_forgets_disagreement:
  "fold (\<lambda>c cur. Some (pick_edge cur c True)) [(0, Some ''1''), (0, Some ''2''), (0, Some ''1'')] None = Some (0, Some ''1'')
   \<and> fold (\<lambda>c cur. Some (pick_edge cur c True)) [(0, Some ''1''), (0, Some ''1''), (0, Some ''2'')] None = Some (0, None)"
  by (simp_all add: pick_edge_def)

end
