(* ===== verification/Seal.thy ===== *)
theory Seal
  imports Catalog
begin

text \<open>
  The content seal of a build (\<open>mainframe_rag/ingest/seal.py\<close>): a certificate over every stored
  point of the data and the control collection, except the receipt that carries it. The scan
  reads a page of ids and retrieves their full points; the certificate does not depend on the
  pages. The standard JSON text refuses NaN and infinities.
\<close>

definition seal_schema :: int where "seal_schema = 1"
definition seal_page_size :: nat where "seal_page_size = 256"

definition seal_error :: "string \<Rightarrow> exn" where
  "seal_error tag = Exn ValueErr tag []"

definition decode_seal_member :: "json \<Rightarrow> unit res" where
  "decode_seal_member part =
     (case part of
        JObj p \<Rightarrow>
          if \<not> has_keys p {''count'', ''sha256''} then Inl (seal_error ''invalid_seal_member'')
          else if \<not> is_int (jget p ''count'') \<or> int_of (jget p ''count'') < 0 then Inl (seal_error ''invalid_seal_count'')
          else if \<not> is_hex64 (jget p ''sha256'') then Inl (seal_error ''invalid_seal_digest'')
          else Inr ()
      | _ \<Rightarrow> Inl (seal_error ''invalid_seal_member''))"

definition decode_content_seal :: "json \<Rightarrow> payload res" where
  "decode_content_seal value =
     (case value of
        JObj p \<Rightarrow>
          if \<not> has_keys p {''schema'', ''data'', ''control''} then Inl (seal_error ''invalid_seal'')
          else if jget p ''schema'' \<noteq> JInt seal_schema then Inl (seal_error ''unsupported_seal'')
          else rbind (decode_seal_member (jget p ''data'')) (\<lambda>_.
               rbind (decode_seal_member (jget p ''control'')) (\<lambda>_. Inr p))
      | _ \<Rightarrow> Inl (seal_error ''invalid_seal''))"

text \<open>\<open>allow_nan=False\<close>: no NaN or infinity anywhere in the value.\<close>

definition is_nan_text :: "string \<Rightarrow> bool" where
  "is_nan_text r \<longleftrightarrow> r \<in> {''nan'', ''inf'', ''-inf''}"

fun all_finite :: "json \<Rightarrow> bool" where
  "all_finite (JFloat r) = (\<not> is_nan_text r)"
| "all_finite (JList xs) = list_all all_finite xs"
| "all_finite (JObj kvs) = list_all (\<lambda>kv. all_finite (snd kv)) kvs"
| "all_finite _ = True"

definition point_json :: "point \<Rightarrow> json" where
  "point_json p = JList [JStr (pt_id p), JObj (pt_payload p), pt_vectors p]"

definition point_digest :: "libs \<Rightarrow> point \<Rightarrow> string res" where
  "point_digest L p =
     (case pt_vectors p of
        JObj kvs \<Rightarrow>
          if kvs = [] then Inl (seal_error ''partial_projection'')
          else if \<not> all_finite (point_json p) then Inl (seal_error ''out_of_range_float'')
          else Inr (raw_digest (lib_sha256 L (json_text (point_json p))))
      | _ \<Rightarrow> Inl (seal_error ''partial_projection''))"

text \<open>The leaves of a page, by the JSON text of the id.\<close>

definition leaf_key :: "point \<Rightarrow> string" where
  "leaf_key p = json_text (JStr (pt_id p))"

definition add_leaf :: "libs \<Rightarrow> string option \<Rightarrow> point \<Rightarrow> (string \<times> string) list \<Rightarrow> (string \<times> string) list res" where
  "add_leaf L excluded p leaves =
     (if Some (pt_id p) = excluded then Inr leaves
      else if map_of leaves (leaf_key p) \<noteq> None then Inl (seal_error ''duplicate_point'')
      else rbind (point_digest L p) (\<lambda>d. Inr (leaves @ [(leaf_key p, d)])))"

fun seal_pages ::
    "nat \<Rightarrow> libs \<Rightarrow> 's client \<Rightarrow> string \<Rightarrow> string option \<Rightarrow> string option \<Rightarrow> string list \<Rightarrow> (string \<times> string) list
       \<Rightarrow> ('s, (string \<times> string) list) eff" where
  "seal_pages 0 L C n excluded offset offsets leaves = sraise (Exn Unfinished ''seal'' [])"
| "seal_pages (Suc b) L C n excluded offset offsets leaves =
     sbind (cl_scroll C n [] seal_page_size WithNone False offset) (\<lambda>(records, next_page).
     let ids = map pt_id records
     in sbind (if ids \<noteq> [] then cl_retrieve C n ids WithAll True else sret []) (\<lambda>points.
        if \<not> distinct ids \<or> sort (map pt_id points) \<noteq> sort ids then sraise (seal_error ''incomplete_projection'')
        else sbind (slift (res_fold (add_leaf L excluded) points leaves)) (\<lambda>leaves'.
          case next_page of
            None \<Rightarrow> sret leaves'
          | Some o' \<Rightarrow>
              if records = [] \<or> json_text (JStr o') \<in> set offsets then sraise (seal_error ''stalled_scan'')
              else seal_pages b L C n excluded (Some o') (json_text (JStr o') # offsets) leaves')))"

definition seal_root :: "libs \<Rightarrow> string list \<Rightarrow> string \<Rightarrow> (string \<times> string) list \<Rightarrow> payload" where
  "seal_root L binding role leaves =
     [(''count'', JInt (int (length leaves))),
      (''sha256'', JStr (lib_sha256 L
         (json_text (JList [JStr ''build-content-seal'', JInt seal_schema, strs_json binding, JStr role, JInt (int (length leaves))])
          @ concat (map snd (sort_key fst leaves)))))]"

definition collection_digest ::
    "libs \<Rightarrow> 's client \<Rightarrow> string \<Rightarrow> string list \<Rightarrow> string \<Rightarrow> string option \<Rightarrow> ('s, payload) eff" where
  "collection_digest L C n binding role excluded s =
     sbind (seal_pages (cl_budget C s) L C n excluded None [] []) (\<lambda>leaves. sret (seal_root L binding role leaves)) s"

definition capture_content_seal ::
    "libs \<Rightarrow> 's client \<Rightarrow> string \<Rightarrow> string \<Rightarrow> string \<Rightarrow> string \<Rightarrow> string \<Rightarrow> string \<Rightarrow> ('s, payload) eff" where
  "capture_content_seal L C build_id alias physical gen_fp corpus_fp receipt_id =
     (let binding = [build_id, alias, physical, gen_fp, corpus_fp]
      in sbind (collection_digest L C physical binding ''data'' None) (\<lambda>data.
         sbind (collection_digest L C (physical @ ''__completions'') binding ''control'' (Some receipt_id)) (\<lambda>control.
           sret [(''schema'', JInt seal_schema), (''data'', JObj data), (''control'', JObj control)])))"

section \<open>The certificate of a set of points\<close>

definition leaf_digest :: "libs \<Rightarrow> point \<Rightarrow> string" where
  "leaf_digest L p = raw_digest (lib_sha256 L (json_text (point_json p)))"

definition sealable :: "point \<Rightarrow> bool" where
  "sealable p \<longleftrightarrow> (\<exists>kvs. pt_vectors p = JObj kvs \<and> kvs \<noteq> []) \<and> all_finite (point_json p)"

definition sealed :: "string option \<Rightarrow> point list \<Rightarrow> point list" where
  "sealed excluded ps = filter (\<lambda>p. Some (pt_id p) \<noteq> excluded) ps"

definition leaves_of :: "libs \<Rightarrow> string option \<Rightarrow> point list \<Rightarrow> (string \<times> string) list" where
  "leaves_of L excluded ps = map (\<lambda>p. (leaf_key p, leaf_digest L p)) (sealed excluded ps)"

definition seal_of :: "libs \<Rightarrow> string list \<Rightarrow> string \<Rightarrow> string option \<Rightarrow> point list \<Rightarrow> payload" where
  "seal_of L binding role excluded ps = seal_root L binding role (leaves_of L excluded ps)"

lemma point_digest_Inr: "point_digest L p = Inr d \<longleftrightarrow> sealable p \<and> d = leaf_digest L p"
  by (auto simp: point_digest_def sealable_def leaf_digest_def split: json.splits if_splits)

lemma leaf_key_inject: "leaf_key p = leaf_key q \<longleftrightarrow> pt_id p = pt_id q"
  using json_string_prefix [of "pt_id p" "[]" "pt_id q" "[]"] by (auto simp: leaf_key_def)

lemma leaves_of_append: "leaves_of L x (ps @ qs) = leaves_of L x ps @ leaves_of L x qs"
  by (simp add: leaves_of_def sealed_def)

lemma leaves_of_cong: "set ps = set qs \<Longrightarrow> set (leaves_of L x ps) = set (leaves_of L x qs)"
  by (simp add: leaves_of_def sealed_def)

lemma distinct_leaves: "distinct (map pt_id ps) \<Longrightarrow> distinct (map fst (leaves_of L x ps))"
  by (induction ps) (auto simp: leaves_of_def sealed_def leaf_key_inject)

text \<open>Of the leaves only the set matters.\<close>

lemma seal_root_cong:
  assumes "set l = set l'" "distinct (map fst l)" "distinct (map fst l')"
  shows "seal_root L binding role l = seal_root L binding role l'"
proof -
  have m: "mset l = mset l'" using assms by (metis distinct_map set_eq_iff_mset_eq_distinct)
  have "sort_key fst l = sort_key fst l'"
    using assms m by (intro sort_key_inj_key_eq) (simp_all add: distinct_map)
  then show ?thesis using mset_eq_length [OF m] by (simp add: seal_root_def del: json_text.simps)
qed

lemma add_leaves:
  assumes "res_fold (add_leaf L x) pts leaves = Inr r"
  shows "set r = set leaves \<union> set (leaves_of L x pts) \<and> (distinct (map fst leaves) \<longrightarrow> distinct (map fst r))
     \<and> list_all sealable (sealed x pts)"
  using assms
proof (induction pts arbitrary: leaves)
  case (Cons p pts)
  then obtain l where l: "add_leaf L x p leaves = Inr l" "res_fold (add_leaf L x) pts l = Inr r" by (auto simp: rbind_Inr_iff)
  note rest = Cons.IH [OF l(2)]
  show ?case
  proof (cases "Some (pt_id p) = x")
    case True
    then have "l = leaves" using l(1) by (simp add: add_leaf_def)
    with True rest show ?thesis by (simp add: leaves_of_def sealed_def)
  next
    case False
    then have "map_of leaves (leaf_key p) = None" "sealable p" "l = leaves @ [(leaf_key p, leaf_digest L p)]"
      using l(1) by (auto simp: add_leaf_def rbind_Inr_iff point_digest_Inr split: if_splits)
    with False rest show ?thesis by (auto simp: leaves_of_def sealed_def map_of_eq_None_iff)
  qed
qed (simp add: leaves_of_def sealed_def)

lemma add_leaves_Inl: "res_fold (add_leaf L x) pts leaves = Inl e \<Longrightarrow> exn_cls e = ValueErr"
  by (induction pts arbitrary: leaves)
     (auto simp: rbind_Inl_iff add_leaf_def point_digest_def seal_error_def split: if_splits json.splits)

definition leaves_cover :: "libs \<Rightarrow> string option \<Rightarrow> point list \<Rightarrow> (string \<times> string) list \<Rightarrow> bool" where
  "leaves_cover L x ps leaves \<longleftrightarrow>
     set leaves = set (leaves_of L x ps) \<and> distinct (map fst leaves) \<and> list_all sealable (sealed x ps)"

lemma leaves_cover_Nil: "leaves_cover L x [] []"
  by (simp add: leaves_cover_def leaves_of_def sealed_def)

lemma leaves_cover_page:
  assumes "leaves_cover L x before leaves" "res_fold (add_leaf L x) pts leaves = Inr r" "set pts = set page"
  shows "leaves_cover L x (before @ page) r"
proof -
  have "set (leaves_of L x pts) = set (leaves_of L x page)" "list_all sealable (sealed x pts) = list_all sealable (sealed x page)"
    by (rule leaves_of_cong [OF assms(3)]) (simp add: sealed_def list_all_iff assms(3))
  with add_leaves [OF assms(2)] assms(1) show ?thesis
    by (auto simp: leaves_cover_def leaves_of_append) (auto simp: sealed_def list_all_iff)
qed

lemma seal_covered:
  "leaves_cover L x ps leaves \<Longrightarrow> distinct (map pt_id ps) \<Longrightarrow> seal_root L binding role leaves = seal_of L binding role x ps"
  unfolding leaves_cover_def seal_of_def by (intro seal_root_cong distinct_leaves) auto

section \<open>The scan computes it\<close>

text \<open>What a read of the client raises is the client's: a transport error or an HTTP status.\<close>

definition store_exn :: "exn \<Rightarrow> bool" where
  "store_exn e \<longleftrightarrow> exn_cls e = StoreErr \<or> (\<exists>code. exn_cls e = StoreStatus code)"

lemma store_exn_finishes: "store_exn e \<Longrightarrow> exn_cls e \<noteq> Unfinished"
  by (auto simp: store_exn_def)

locale qdrant_finishes = qdrant_reader C V for C :: "'s client" and V :: "'s \<Rightarrow> view" +
  assumes exists_raises: "wp (cl_exists C n) (\<lambda>_ _. True) (\<lambda>e s'. store_exn e) s"
    and scroll_raises: "wp (cl_scroll C n f lim pr vec off) (\<lambda>_ _. True) (\<lambda>e s'. store_exn e) s"
    and retrieve_raises: "wp (cl_retrieve C n ids pr vec) (\<lambda>_ _. True) (\<lambda>e s'. store_exn e) s"

interpretation mem_finishes: qdrant_finishes mem_client mem_view
  by unfold_locales
     (simp_all add: wp_def mem_client_def mem_scroll_def mem_retrieve_def mem_with_def not_found_def store_exn_def
        split: option.split)

lemma matching_all: "matching v n [] = points_of v n"
  by (simp add: matching_def matches_def)

lemma project_full: "project WithAll True p = p"
  by (simp add: project_def project_payload_def)

lemma page_by_id:
  assumes "distinct (map pt_id ps)" "set page \<subseteq> set ps"
  shows "{p \<in> set ps. pt_id p \<in> set (map pt_id page)} = set page"
proof -
  have "p \<in> set page" if "p \<in> set ps" "q \<in> set page" "pt_id p = pt_id q" for p q
    using that assms by (metis (no_types, lifting) distinct_map inj_onD subsetD)
  with assms(2) show ?thesis by auto
qed

lemma page_ids_agree:
  assumes "distinct (map pt_id pts)" "set pts = set page" "distinct (map pt_id page)"
  shows "sort (map pt_id pts) = sort (map pt_id page)"
proof -
  have "set (map pt_id pts) = set (map pt_id page)" using assms(2) by simp
  then have "mset (map pt_id pts) = mset (map pt_id page)" using assms(1,3) by (metis set_eq_iff_mset_eq_distinct)
  then show ?thesis by (metis sorted_list_of_multiset_mset)
qed

lemma distinct_page:
  assumes "distinct (map f (before @ todo))"
  shows "distinct (map f (take k todo)) \<and> f ` set before \<inter> f ` set (take k todo) = {}"
proof -
  have "distinct (take k (map f todo))" using assms by (intro distinct_take) simp
  then have "distinct (map f (take k todo))" by (simp add: take_map)
  moreover have "f ` set before \<inter> f ` set (take k todo) = {}" using assms by (auto dest: in_set_takeD)
  ultimately show ?thesis ..
qed

lemma add_leaves_fail:
  assumes "res_fold (add_leaf L x) pts leaves = Inl e" "distinct (map pt_id pts)"
    and "\<forall>p \<in> set pts. leaf_key p \<notin> fst ` set leaves"
  shows "exn_cls e = ValueErr \<and> \<not> list_all sealable (sealed x pts)"
  using assms
proof (induction pts arbitrary: leaves)
  case (Cons p pts)
  have new: "map_of leaves (leaf_key p) = None" using Cons.prems(3) by (simp add: map_of_eq_None_iff)
  show ?case
  proof (cases "add_leaf L x p leaves")
    case (Inl e')
    then show ?thesis
      using Cons.prems(1) new
      by (auto simp: add_leaf_def rbind_Inl_iff point_digest_def sealable_def sealed_def seal_error_def
        split: if_splits json.splits)
  next
    case (Inr l)
    then have l: "l = leaves \<or> l = leaves @ [(leaf_key p, leaf_digest L p)]"
      by (auto simp: add_leaf_def rbind_Inr_iff point_digest_Inr split: if_splits)
    have "leaf_key q \<notin> fst ` set l" if q: "q \<in> set pts" for q
    proof -
      have "pt_id q \<noteq> pt_id p" using Cons.prems(2) imageI [OF q, of pt_id] by auto
      then have "leaf_key q \<noteq> leaf_key p" by (simp add: leaf_key_inject)
      moreover have "leaf_key q \<notin> fst ` set leaves" using Cons.prems(3) q by simp
      ultimately show ?thesis using l by (elim disjE) simp_all
    qed
    then have "exn_cls e = ValueErr \<and> \<not> list_all sealable (sealed x pts)"
      using Cons.prems(1,2) Inr by (intro Cons.IH) auto
    then show ?thesis by (auto simp: sealed_def)
  qed
qed simp

lemma leaves_cover_keys: "leaves_cover L x ps leaves \<Longrightarrow> fst ` set leaves \<subseteq> leaf_key ` set ps"
  by (auto simp: leaves_cover_def leaves_of_def sealed_def)

text \<open>The state of a scan: the points read, the rest, and the offsets used so far.\<close>

definition scan_at :: "point list \<Rightarrow> point list \<Rightarrow> string option \<Rightarrow> string list \<Rightarrow> bool" where
  "scan_at ps before off offs \<longleftrightarrow> ps = before @ from_offset off ps
     \<and> set offs \<subseteq> leaf_key ` set (before @ take 1 (from_offset off ps))"

lemma scan_at_next:
  assumes "scan_at ps before off offs" "distinct (map pt_id ps)" "next_offset seal_page_size (from_offset off ps) = Some o'"
  defines "page \<equiv> take seal_page_size (from_offset off ps)"
  shows "scan_at ps (before @ page) (Some o') (json_text (JStr o') # offs)" "page \<noteq> []" "json_text (JStr o') \<notin> set offs"
    "from_offset (Some o') ps = drop seal_page_size (from_offset off ps)"
proof -
  let ?todo = "from_offset off ps"
  have split: "ps = before @ ?todo" and offs: "set offs \<subseteq> leaf_key ` set (before @ take 1 ?todo)"
    using assms(1) by (simp_all add: scan_at_def)
  show r: "from_offset (Some o') ps = drop seal_page_size ?todo" by (rule next_offset_resume [OF assms(2) split assms(3)])
  obtain p rest where p: "drop seal_page_size ?todo = p # rest" "pt_id p = o'"
    using assms(3) by (cases "drop seal_page_size ?todo") (auto simp: next_offset_def)
  have whole: "ps = before @ page @ p # rest"
  proof -
    have "ps = before @ (take seal_page_size ?todo @ drop seal_page_size ?todo)"
      unfolding append_take_drop_id by (rule split)
    then show ?thesis unfolding p(1) page_def .
  qed
  have key: "json_text (JStr o') = leaf_key p" by (simp add: leaf_key_def p(2))
  have one: "take 1 ?todo = take 1 page" by (simp add: page_def seal_page_size_def)
  have sub: "set offs \<subseteq> leaf_key ` set (before @ page)"
  proof -
    have "leaf_key ` set (before @ take 1 page) \<subseteq> leaf_key ` set (before @ page)"
      unfolding set_append by (intro image_mono Un_mono order_refl set_take_subset)
    with offs show ?thesis unfolding one by (rule order_trans)
  qed
  have "pt_id q \<noteq> pt_id p" if "q \<in> set (before @ page)" for q
  proof -
    have "distinct (map pt_id (before @ page @ p # rest))" using assms(2) whole by argo
    then show ?thesis using that by (auto simp: image_iff)
  qed
  then have "leaf_key p \<notin> leaf_key ` set (before @ page)" unfolding image_iff leaf_key_inject by metis
  then show "json_text (JStr o') \<notin> set offs" using sub unfolding key by blast
  show "page \<noteq> []" using p(1) unfolding page_def by (metis drop_Nil list.distinct(1) take_eq_Nil2 drop_eq_Nil2 take_eq_Nil
      append_take_drop_id append_Nil seal_page_size_def zero_neq_numeral)
  show "scan_at ps (before @ page) (Some o') (json_text (JStr o') # offs)"
    unfolding scan_at_def r p(1) key using sub whole by auto
qed

text \<open>A capture fails only with the store, or over a point that cannot be sealed.\<close>

definition capture_fails :: "string option \<Rightarrow> point list \<Rightarrow> exn \<Rightarrow> bool" where
  "capture_fails x ps e \<longleftrightarrow> store_exn e \<or> (exn_cls e = ValueErr \<and> \<not> list_all sealable (sealed x ps))"

context qdrant_finishes
begin

lemma wp_full_page:
  assumes "V s1 = V s" "set page \<subseteq> set (points_of (V s) n)" "distinct (map pt_id page)"
  shows "wp (if map pt_id page \<noteq> [] then cl_retrieve C n (map pt_id page) WithAll True else sret [])
      (\<lambda>pts s'. V s' = V s \<and> set pts = set page \<and> distinct (map pt_id pts) \<and> sort (map pt_id pts) = sort (map pt_id page))
      (\<lambda>e s'. V s' = V s \<and> store_exn e) s1"
proof -
  have page: "{p \<in> set (points_of (V s) n). pt_id p \<in> set (map pt_id page)} = set page"
    by (rule page_by_id [OF wf assms(2)])
  have "wp (cl_retrieve C n (map pt_id page) WithAll True)
      (\<lambda>pts s'. V s' = V s \<and> set pts = set page \<and> distinct (map pt_id pts) \<and> sort (map pt_id pts) = sort (map pt_id page))
      (\<lambda>e s'. V s' = V s \<and> store_exn e) s1"
  proof (rule wp_conseq [OF wp_conj [OF retrieve_law retrieve_raises]])
    fix pts s'
    assume "(V s' = V s1 \<and> distinct (map pt_id pts) \<and>
      set pts = project WithAll True ` {p \<in> set (points_of (V s1) n). pt_id p \<in> set (map pt_id page)}) \<and> True"
    then have "V s' = V s" "distinct (map pt_id pts)" "set pts = set page"
      unfolding assms(1) page by (simp_all add: project_full)
    then show "V s' = V s \<and> set pts = set page \<and> distinct (map pt_id pts) \<and> sort (map pt_id pts) = sort (map pt_id page)"
      using page_ids_agree [OF _ _ assms(3)] by blast
  qed (simp add: assms(1))
  then show ?thesis using assms(1) by (simp add: wp_if)
qed

lemma wp_seal_pages:
  assumes "scan_at (points_of (V s) n) before off offs" "length (from_offset off (points_of (V s) n)) < b"
    and "leaves_cover L x before leaves"
  shows "wp (seal_pages b L C n x off offs leaves)
     (\<lambda>r s'. V s' = V s \<and> leaves_cover L x (points_of (V s) n) r)
     (\<lambda>e s'. V s' = V s \<and> capture_fails x (points_of (V s) n) e) s"
  using assms
proof (induction b arbitrary: off before offs leaves s)
  case (Suc b)
  let ?ps = "points_of (V s) n"
  let ?Q = "\<lambda>r s'. V s' = V s \<and> leaves_cover L x ?ps r" and ?E = "\<lambda>e s'. V s' = V s \<and> capture_fails x ?ps e"
  let ?todo = "from_offset off ?ps"
  let ?page = "take seal_page_size ?todo" and ?next = "next_offset seal_page_size ?todo"
  let ?go = "\<lambda>leaves'. case ?next of None \<Rightarrow> sret leaves'
          | Some o' \<Rightarrow> if map (project WithNone False) ?page = [] \<or> json_text (JStr o') \<in> set offs then sraise (seal_error ''stalled_scan'')
              else seal_pages b L C n x (Some o') (json_text (JStr o') # offs) leaves'"
  have split: "?ps = before @ ?todo" using Suc.prems(1) by (simp add: scan_at_def)
  have sub: "set ?page \<subseteq> set ?ps" by (subst split) (simp add: set_take_subset le_supI2)
  have d: "distinct (map pt_id ?page)" "pt_id ` set before \<inter> pt_id ` set ?page = {}"
  proof -
    have "distinct (map pt_id (before @ ?todo))" unfolding split [symmetric] by (rule wf)
    then show "distinct (map pt_id ?page)" "pt_id ` set before \<inter> pt_id ` set ?page = {}"
      using distinct_page by blast+
  qed
  have go: "wp (?go leaves') ?Q ?E s2" if v: "V s2 = V s" and l: "leaves_cover L x (before @ ?page) leaves'" for leaves' s2
  proof (cases ?next)
    case None
    then have "?page = ?todo" by (simp add: next_offset_None)
    with l split None v show ?thesis by simp
  next
    case (Some o')
    note nx = scan_at_next [OF Suc.prems(1) wf Some]
    have "0 < length ?todo" using nx(2) by auto
    then have "length (from_offset (Some o') (points_of (V s2) n)) < b"
      unfolding v nx(4) length_drop seal_page_size_def using Suc.prems(2) by linarith
    then have "wp (seal_pages b L C n x (Some o') (json_text (JStr o') # offs) leaves') ?Q ?E s2"
      using Suc.IH [of s2 "before @ ?page" "Some o'"] nx(1) l v by simp
    then show ?thesis using Some nx(2,3) by (simp add: wp_if del: json_text.simps)
  qed
  show ?case
    unfolding seal_pages.simps wp_bind [of "cl_scroll _ _ _ _ _ _ _"]
  proof (rule wp_conseq [OF wp_conj [OF scroll_law scroll_raises]])
    fix r s1
    assume "(V s1 = V s \<and> fst r = map (project WithNone False) (take seal_page_size (from_offset off (matching (V s) n [])))
        \<and> snd r = next_offset seal_page_size (from_offset off (matching (V s) n []))) \<and> True"
    then have v: "V s1 = V s" and r: "r = (map (project WithNone False) ?page, ?next)"
      by (cases r; simp add: matching_all)+
    have ids: "map pt_id (map (project WithNone False) ?page) = map pt_id ?page" by (simp add: project_def)
    show "wp (case r of (records, next_page) \<Rightarrow> let ids = map pt_id records
     in sbind (if ids \<noteq> [] then cl_retrieve C n ids WithAll True else sret []) (\<lambda>points.
        if \<not> distinct ids \<or> sort (map pt_id points) \<noteq> sort ids then sraise (seal_error ''incomplete_projection'')
        else sbind (slift (res_fold (add_leaf L x) points leaves)) (\<lambda>leaves'.
          case next_page of None \<Rightarrow> sret leaves'
          | Some o' \<Rightarrow> if records = [] \<or> json_text (JStr o') \<in> set offs then sraise (seal_error ''stalled_scan'')
              else seal_pages b L C n x (Some o') (json_text (JStr o') # offs) leaves'))) ?Q ?E s1"
      unfolding r prod.case Let_def ids wp_bind [of "if map pt_id ?page \<noteq> [] then _ else _"]
    proof (rule wp_conseq [OF wp_full_page [OF v sub d(1)]])
      fix pts s2
      assume p: "V s2 = V s \<and> set pts = set ?page \<and> distinct (map pt_id pts) \<and> sort (map pt_id pts) = sort (map pt_id ?page)"
      have "wp (sbind (slift (res_fold (add_leaf L x) pts leaves)) ?go) ?Q ?E s2"
      proof (cases "res_fold (add_leaf L x) pts leaves")
        case (Inl e)
        have "leaf_key q \<notin> fst ` set leaves" if q: "q \<in> set pts" for q
        proof
          assume "leaf_key q \<in> fst ` set leaves"
          then have "leaf_key q \<in> leaf_key ` set before" using leaves_cover_keys [OF Suc.prems(3)] by blast
          then have "pt_id q \<in> pt_id ` set before" by (auto simp: leaf_key_inject)
          moreover have "pt_id q \<in> pt_id ` set ?page" using p q by blast
          ultimately show False using d(2) by blast
        qed
        then have "exn_cls e = ValueErr \<and> \<not> list_all sealable (sealed x pts)" using p by (intro add_leaves_fail [OF Inl]) auto
        then have "capture_fails x ?ps e" using p sub by (auto simp: capture_fails_def sealed_def list_all_iff)
        with Inl p show ?thesis by simp
      next
        case (Inr leaves')
        have "leaves_cover L x (before @ ?page) leaves'" by (rule leaves_cover_page [OF Suc.prems(3) Inr]) (use p in blast)
        with go [of s2 leaves'] Inr p show ?thesis by simp
      qed
      then show "wp (if \<not> distinct (map pt_id ?page) \<or> sort (map pt_id pts) \<noteq> sort (map pt_id ?page) then sraise (seal_error ''incomplete_projection'')
        else sbind (slift (res_fold (add_leaf L x) pts leaves)) ?go) ?Q ?E s2"
        using p d(1) by (simp add: wp_if del: wp_bind)
    qed (simp add: capture_fails_def)
  qed (simp_all add: seal_page_size_def capture_fails_def)
qed simp

end

definition content_seal :: "libs \<Rightarrow> string list \<Rightarrow> string \<Rightarrow> point list \<Rightarrow> point list \<Rightarrow> payload" where
  "content_seal L binding receipt_id data control =
     [(''schema'', JInt seal_schema), (''data'', JObj (seal_of L binding ''data'' None data)),
      (''control'', JObj (seal_of L binding ''control'' (Some receipt_id) control))]"

context qdrant_finishes
begin

lemma wp_collection_digest:
  "wp (collection_digest L C n binding role x)
     (\<lambda>r s'. V s' = V s \<and> list_all sealable (sealed x (points_of (V s) n)) \<and> r = seal_of L binding role x (points_of (V s) n))
     (\<lambda>e s'. V s' = V s \<and> capture_fails x (points_of (V s) n) e) s"
proof -
  have "wp (seal_pages (cl_budget C s) L C n x None [] [])
     (\<lambda>r s'. V s' = V s \<and> leaves_cover L x (points_of (V s) n) r) (\<lambda>e s'. V s' = V s \<and> capture_fails x (points_of (V s) n) e) s"
    by (rule wp_seal_pages [where before = "[]"]) (use budget [of s n] in \<open>simp_all add: leaves_cover_Nil scan_at_def\<close>)
  then have "wp (sbind (seal_pages (cl_budget C s) L C n x None [] []) (\<lambda>leaves. sret (seal_root L binding role leaves)))
     (\<lambda>r s'. V s' = V s \<and> list_all sealable (sealed x (points_of (V s) n)) \<and> r = seal_of L binding role x (points_of (V s) n))
     (\<lambda>e s'. V s' = V s \<and> capture_fails x (points_of (V s) n) e) s"
    unfolding wp_bind
    by (rule wp_conseq) (use wf [of s n] in \<open>auto simp: seal_covered\<close>, auto simp: leaves_cover_def)
  then show ?thesis by (simp only: wp_def collection_digest_def)
qed

lemma wp_capture_content_seal:
  "wp (capture_content_seal L C build_id alias physical gen_fp corpus_fp receipt_id)
     (\<lambda>r s'. V s' = V s \<and> r = content_seal L [build_id, alias, physical, gen_fp, corpus_fp] receipt_id
        (points_of (V s) physical) (points_of (V s) (physical @ ''__completions''))
        \<and> list_all sealable (points_of (V s) physical)
        \<and> list_all sealable (sealed (Some receipt_id) (points_of (V s) (physical @ ''__completions''))))
     (\<lambda>e s'. V s' = V s \<and> (capture_fails None (points_of (V s) physical) e
        \<or> capture_fails (Some receipt_id) (points_of (V s) (physical @ ''__completions'')) e)) s"
  unfolding capture_content_seal_def Let_def wp_bind
  by (rule wp_conseq [OF wp_collection_digest], rule wp_conseq [OF wp_collection_digest])
     (auto simp: content_seal_def sealed_def)

end

text \<open>Equal certificates mean equal content, for a hash that tells the points apart.\<close>

definition points_apart :: "libs \<Rightarrow> point list \<Rightarrow> point list \<Rightarrow> bool" where
  "points_apart L ps qs \<longleftrightarrow> (\<forall>p \<in> set ps. \<forall>q \<in> set qs. leaf_digest L p = leaf_digest L q \<longrightarrow> p = q)
     \<and> (\<forall>t. length (raw_digest (lib_sha256 L t)) = 32)"

definition root_text :: "libs \<Rightarrow> string list \<Rightarrow> string \<Rightarrow> string option \<Rightarrow> point list \<Rightarrow> string" where
  "root_text L binding role x ps =
     json_text (JList [JStr ''build-content-seal'', JInt seal_schema, strs_json binding, JStr role, JInt (int (length (leaves_of L x ps)))])
       @ concat (map snd (sort_key fst (leaves_of L x ps)))"

lemma seal_of_conv: "seal_of L binding role x ps =
    [(''count'', JInt (int (length (leaves_of L x ps)))), (''sha256'', JStr (lib_sha256 L (root_text L binding role x ps)))]"
  by (simp only: seal_of_def seal_root_def root_text_def)

lemma concat_fixed:
  assumes "concat xs = concat ys" "length xs = length ys" "\<And>z. z \<in> set xs \<union> set ys \<Longrightarrow> length z = k"
  shows "xs = ys"
proof -
  have "\<forall>(x, y) \<in> set (zip xs ys). length x = length y"
  proof (intro ballI)
    fix p assume "p \<in> set (zip xs ys)"
    then have "fst p \<in> set xs" "snd p \<in> set ys"
      by (metis prod.collapse set_zip_leftD, metis prod.collapse set_zip_rightD)
    then show "case p of (x, y) \<Rightarrow> length x = length y"
      using assms(3) by (simp add: case_prod_beta)
  qed
  then show ?thesis using assms(1,2) concat_eq_concat_iff by blast
qed

lemma sealed_leaves: "leaf_digest L ` set (sealed x ps) = set (map snd (leaves_of L x ps))"
  by (simp add: leaves_of_def image_image)

lemma seal_of_binds:
  assumes "seal_of L binding role x ps = seal_of L binding role x qs" "points_apart L ps qs"
    and "tells_apart L (root_text L binding role x ps) (root_text L binding role x qs)"
  shows "set (sealed x ps) = set (sealed x qs)"
proof -
  let ?l = "leaves_of L x ps" and ?m = "leaves_of L x qs"
  have len: "length ?l = length ?m" and "root_text L binding role x ps = root_text L binding role x qs"
    using assms(1,3) by (simp_all add: seal_of_conv tells_apart_def)
  then have c: "concat (map snd (sort_key fst ?l)) = concat (map snd (sort_key fst ?m))"
    unfolding root_text_def len by (simp only: same_append_eq)
  have "length z = 32" if "z \<in> set (map snd (sort_key fst ?l)) \<union> set (map snd (sort_key fst ?m))" for z
    using that assms(2) by (auto simp: leaves_of_def leaf_digest_def points_apart_def simp del: json_text.simps)
  then have "map snd (sort_key fst ?l) = map snd (sort_key fst ?m)"
    by (intro concat_fixed [OF c]) (simp_all add: len)
  then have "set (map snd (sort_key fst ?l)) = set (map snd (sort_key fst ?m))" by (rule arg_cong)
  then have same: "leaf_digest L ` set (sealed x ps) = leaf_digest L ` set (sealed x qs)"
    unfolding sealed_leaves set_map set_sort .
  have sub: "set (sealed x ps) \<subseteq> set ps" "set (sealed x qs) \<subseteq> set qs" by (auto simp: sealed_def)
  have inj: "p = q" if "p \<in> set (sealed x ps)" "q \<in> set (sealed x qs)" "leaf_digest L p = leaf_digest L q" for p q
    using assms(2) that sub by (auto simp: points_apart_def)
  show ?thesis
  proof
    show "set (sealed x ps) \<subseteq> set (sealed x qs)"
    proof
      fix p assume p: "p \<in> set (sealed x ps)"
      then have "leaf_digest L p \<in> leaf_digest L ` set (sealed x qs)" unfolding same [symmetric] by (rule imageI)
      with inj [OF p] show "p \<in> set (sealed x qs)" by auto
    qed
    show "set (sealed x qs) \<subseteq> set (sealed x ps)"
    proof
      fix q assume q: "q \<in> set (sealed x qs)"
      then have "leaf_digest L q \<in> leaf_digest L ` set (sealed x ps)" unfolding same by (rule imageI)
      then obtain p where p: "leaf_digest L q = leaf_digest L p" "p \<in> set (sealed x ps)" by (rule imageE)
      from inj [OF p(2) q p(1) [symmetric]] p(2) show "q \<in> set (sealed x ps)" by simp
    qed
  qed
qed

lemma seal_binds_content':
  assumes "content_seal L binding receipt_id data control = content_seal L binding receipt_id data' control'"
    and "points_apart L data data'" "points_apart L control control'"
    and "tells_apart L (root_text L binding ''data'' None data) (root_text L binding ''data'' None data')"
    and "tells_apart L (root_text L binding ''control'' (Some receipt_id) control) (root_text L binding ''control'' (Some receipt_id) control')"
  shows "set data = set data'
     \<and> {p \<in> set control. pt_id p \<noteq> receipt_id} = {p \<in> set control'. pt_id p \<noteq> receipt_id}"
proof -
  have "seal_of L binding ''data'' None data = seal_of L binding ''data'' None data'"
    "seal_of L binding ''control'' (Some receipt_id) control = seal_of L binding ''control'' (Some receipt_id) control'"
    using assms(1) by (simp_all add: content_seal_def)
  from seal_of_binds [OF this(1) assms(2,4)] seal_of_binds [OF this(2) assms(3,5)]
  show ?thesis by (simp add: sealed_def)
qed

section \<open>Properties\<close>

text \<open>C17: the seal is a certificate of content, not of the scan. Capturing it only reads, and
  gives the canonical certificate of the stored data points and of the control points except the
  receipt, whatever pages the scan came in. It always ends, and it fails only with the store or
  over a point that has no named vectors or holds a number that is not finite.\<close>
theorem seal_is_canonical:
  assumes "qdrant_finishes C V"
  shows "wp (capture_content_seal L C build_id alias physical gen_fp corpus_fp receipt_id)
     (\<lambda>r s'. V s' = V s \<and> r = content_seal L [build_id, alias, physical, gen_fp, corpus_fp] receipt_id
        (points_of (V s) physical) (points_of (V s) (physical @ ''__completions''))
        \<and> list_all sealable (points_of (V s) physical)
        \<and> list_all sealable (sealed (Some receipt_id) (points_of (V s) (physical @ ''__completions''))))
     (\<lambda>e s'. V s' = V s \<and> (capture_fails None (points_of (V s) physical) e
        \<or> capture_fails (Some receipt_id) (points_of (V s) (physical @ ''__completions'')) e)) s"
  by (rule qdrant_finishes.wp_capture_content_seal [OF assms])

lemma seal_is_canonical_witness:
  "wp (capture_content_seal plain_libs mem_client ''b'' ''live'' ''gen1'' ''g'' ''c'' ''r'')
     (\<lambda>r s'. r = content_seal plain_libs [''b'', ''live'', ''gen1'', ''g'', ''c''] ''r'' [] []) (\<lambda>e s'. store_exn e) catalog_mem"
proof -
  have "points_of (mem_view catalog_mem) ''gen1'' = []" "points_of (mem_view catalog_mem) (''gen1'' @ ''__completions'') = []"
    by (simp_all add: points_of_def phys_def mem_view_def catalog_mem_def)
  then show ?thesis
    by (intro wp_conseq [OF seal_is_canonical [OF mem_finishes.qdrant_finishes_axioms]])
       (simp_all add: capture_fails_def sealed_def)
qed

text \<open>A seal binds its build. Two states with one seal hold the same data points, payloads and
  vectors included, and the same control points but for the receipt.\<close>
theorem seal_binds_content:
  assumes "content_seal L binding receipt_id data control = content_seal L binding receipt_id data' control'"
    and "points_apart L data data'" "points_apart L control control'"
    and "tells_apart L (root_text L binding ''data'' None data) (root_text L binding ''data'' None data')"
    and "tells_apart L (root_text L binding ''control'' (Some receipt_id) control) (root_text L binding ''control'' (Some receipt_id) control')"
  shows "set data = set data'
     \<and> {p \<in> set control. pt_id p \<noteq> receipt_id} = {p \<in> set control'. pt_id p \<noteq> receipt_id}"
  by (rule seal_binds_content' [OF assms])

lemma seal_binds_content_witness:
  "set [demo_point ''1'' ''A'' ''r1''] = set [demo_point ''1'' ''A'' ''r1'']
   \<and> {p \<in> set ([] :: point list). pt_id p \<noteq> ''r''} = {p \<in> set []. pt_id p \<noteq> ''r''}"
proof -
  have "points_apart hex_libs [demo_point ''1'' ''A'' ''r1''] [demo_point ''1'' ''A'' ''r1'']" "points_apart hex_libs [] []"
  proof -
    have "length (raw_digest (replicate 64 c)) = 32" for c by (simp add: numeral_eq_Suc)
    then show "points_apart hex_libs [demo_point ''1'' ''A'' ''r1''] [demo_point ''1'' ''A'' ''r1'']" "points_apart hex_libs [] []"
      by (simp_all add: points_apart_def hex_libs_def)
  qed
  from seal_binds_content [OF refl this] show ?thesis by (simp add: tells_apart_def)
qed

end
