(* ===== verification/Build.thy ===== *)
theory Build
  imports Seal
begin

text \<open>
  The immutable build binding (\<open>mainframe_rag/ingest/build.py\<close>): the names of the build
  aliases, the binding a control record carries, the phase of a build under the current aliases,
  and the gate in front of serving. The last section follows the aliases over any sequence of
  publications and rollbacks.
\<close>

section \<open>Build alias names\<close>

text \<open>\<open>s.rpartition(sep)\<close> for a separator that is not empty: the last occurrence.\<close>

fun rpartition :: "string \<Rightarrow> string \<Rightarrow> (string \<times> string) option" where
  "rpartition sep [] = None"
| "rpartition sep (c # cs) =
     (case rpartition sep cs of
        Some (h, t) \<Rightarrow> Some (c # h, t)
      | None \<Rightarrow> if prefix sep (c # cs) then Some ([], drop (length sep) (c # cs)) else None)"

definition removesuffix :: "string \<Rightarrow> string \<Rightarrow> string" where
  "removesuffix suf s = (if suf \<noteq> [] \<and> suffix suf s then take (length s - length suf) s else s)"

definition is_build_alias :: "string \<Rightarrow> bool" where
  "is_build_alias name =
     (case rpartition ''__build_'' name of
        None \<Rightarrow> False
      | Some (logical, identity) \<Rightarrow>
          logical \<noteq> [] \<and> is_canonical_uuid (casefold (removesuffix ''__completions'' identity)))"

section \<open>The binding of a control record\<close>

definition build_schema :: int where "build_schema = 3"

definition supported_schemas :: "int list" where "supported_schemas = [1, 2, build_schema]"

record build_binding =
  bb_build_id :: string
  bb_alias :: string
  bb_physical :: string
  bb_gen_fp :: string
  bb_corpus_fp :: string

definition binding_error :: "string \<Rightarrow> 'a res" where
  "binding_error tag = raise_exn ValueErr tag []"

definition build_fields :: "string list" where
  "build_fields = [''build_schema'', ''build_id'', ''logical_alias'', ''data_collection'']"

text \<open>The checks before the parts of the record are decoded.\<close>

definition check_build_record :: "payload \<Rightarrow> string \<Rightarrow> unit res" where
  "check_build_record p control =
     (let schema = jget p ''build_schema'' in
      if \<not> list_ex (jhas p) build_fields
      then if jhas p ''content_seal'' then binding_error ''seal_without_build''
           else raise_exn UnboundGenerationErr ''no_build_binding'' []
      else if \<not> is_int schema \<or> int_of schema \<notin> set supported_schemas then binding_error ''unsupported_build_schema''
      else if jget p ''record_type'' \<noteq> JStr ''publication-metadata'' \<or> jget p ''target_collection'' \<noteq> JStr control
      then binding_error ''invalid_build_control_binding''
      else if \<not> list_all (\<lambda>k. is_str (jget p k) \<and> strip (str_of (jget p k)) \<noteq> [])
                [''logical_alias'', ''data_collection'', ''gen_fp'', ''corpus_fp'']
      then binding_error ''invalid_build_control_fields''
      else if str_of (jget p ''data_collection'') @ ''__completions'' \<noteq> control
      then binding_error ''invalid_build_control_pair''
      else if 2 \<le> int_of schema \<and> \<not> jhas p ''content_seal'' then binding_error ''build_lacks_seal''
      else Inr ())"

definition decode_build_binding :: "payload \<Rightarrow> string \<Rightarrow> build_binding res" where
  "decode_build_binding p control =
     rbind (check_build_record p control) (\<lambda>_.
     rbind (if jhas p ''content_seal'' then rbind (decode_content_seal (jget p ''content_seal'')) (\<lambda>_. Inr ()) else Inr ()) (\<lambda>_.
     rbind (if 3 \<le> int_of (jget p ''build_schema'')
            then rbind (decode_catalog_summary (jget p ''source_catalog'')) (\<lambda>_. Inr ())
            else if jhas p ''source_catalog'' then binding_error ''catalog_requires_schema_3'' else Inr ()) (\<lambda>_.
     rbind (canonical_build_id (jget p ''build_id'')) (\<lambda>build_id.
       Inr \<lparr>bb_build_id = build_id, bb_alias = str_of (jget p ''logical_alias''),
            bb_physical = str_of (jget p ''data_collection''), bb_gen_fp = str_of (jget p ''gen_fp''),
            bb_corpus_fp = str_of (jget p ''corpus_fp'')\<rparr>))))"

section \<open>The phase of a build\<close>

datatype build_status = Sealed_Build | Published_Build | Retained_Build

definition build_phase :: "build_binding \<Rightarrow> (string \<times> string) list \<Rightarrow> build_status res" where
  "build_phase b as =
     rbind (build_aliases (bb_alias b) (bb_build_id b)) (\<lambda>(data, control).
       if map_of as data = None \<and> map_of as control = None
       then if map_of as (bb_alias b) = Some (bb_physical b) then binding_error ''serving_build_lacks_aliases''
            else Inr Sealed_Build
       else if map_of as data \<noteq> Some (bb_physical b)
               \<or> map_of as control \<noteq> Some (bb_physical b @ ''__completions'')
       then binding_error ''inconsistent_build_aliases''
       else Inr (if map_of as (bb_alias b) = Some (bb_physical b) then Published_Build else Retained_Build))"

definition require_published_binding ::
    "build_binding option \<Rightarrow> string \<Rightarrow> string \<Rightarrow> (string \<times> string) list \<Rightarrow> unit res" where
  "require_published_binding binding configured physical as =
     (case binding of
        None \<Rightarrow>
          if list_ex (\<lambda>(n, t). is_build_alias n \<and> (t = physical \<or> t = physical @ ''__completions'')) as
          then binding_error ''build_aliases_lack_record''
          else raise_exn UnboundGenerationErr ''generation_has_no_binding'' []
      | Some b \<Rightarrow>
          if bb_physical b \<noteq> physical \<or> (configured \<noteq> bb_alias b \<and> configured \<noteq> physical)
          then binding_error ''build_names_another_corpus''
          else rbind (build_phase b as) (\<lambda>ph.
            if ph \<notin> {Published_Build, Retained_Build} then binding_error ''unpublished_build'' else Inr ()))"

section \<open>Alias names\<close>

lemma canonical_uuid_chars:
  assumes "is_canonical_uuid v" "c \<in> set v"
  shows "c = CHR ''-'' \<or> is_hex_lower c"
proof -
  obtain i where i: "i < length v" "c = v ! i" using assms(2) by (auto simp: in_set_conv_nth)
  then have "(i, c) \<in> set (enumerate 0 v)" by (auto simp: in_set_enumerate_eq)
  then show ?thesis using assms(1) by (auto simp: is_canonical_uuid_def list_all_iff split: if_splits)
qed

lemma hex_lower_char: "c = CHR ''-'' \<or> is_hex_lower c \<Longrightarrow> lower_char c = c \<and> c \<noteq> CHR ''_'' \<and> c \<noteq> CHR ''s''"
  by (auto simp: is_hex_lower_def lower_char_def less_eq_char_def)

lemma casefold_uuid: "is_canonical_uuid v \<Longrightarrow> casefold v = v"
  unfolding casefold_def by (rule map_idI) (use canonical_uuid_chars hex_lower_char in blast)

lemma uuid_no_underscore: "is_canonical_uuid v \<Longrightarrow> CHR ''_'' \<notin> set v"
  using canonical_uuid_chars hex_lower_char by blast

lemma rpartition_skip:
  assumes "x \<notin> set u"
  shows "rpartition (x # sep) w = None \<Longrightarrow> rpartition (x # sep) (u @ w) = None"
  using assms by (induction u) auto

lemma rpartition_prefix:
  assumes "rpartition sep (tl sep @ w) = None" "sep \<noteq> []"
  shows "rpartition sep (u @ sep @ w) = Some (u, w)"
proof (induction u)
  case Nil
  obtain x xs where "sep = x # xs" using assms(2) by (cases sep) auto
  then show ?case using assms(1) by simp
next
  case (Cons c u)
  then show ?case by simp
qed

lemma rpartition_build:
  assumes "CHR ''_'' \<notin> set i" "i \<noteq> []" "rest \<in> {[], ''__completions''}"
  shows "rpartition ''__build_'' (alias @ ''__build_'' @ i @ rest) = Some (alias, i @ rest)"
proof (rule rpartition_prefix)
  have "rpartition ''__build_'' rest = None" using assms(3) by auto
  then have "rpartition ''__build_'' (i @ rest) = None" by (rule rpartition_skip [OF assms(1)])
  then show "rpartition ''__build_'' (tl ''__build_'' @ i @ rest) = None"
    using assms(1,2) by (cases i) auto
qed simp

lemma suffix_in_set: "suffix (x # xs) s \<Longrightarrow> x \<in> set s"
  by (auto simp: suffix_def)

lemma removesuffix_build:
  assumes "CHR ''_'' \<notin> set i"
  shows "removesuffix ''__completions'' i = i" "removesuffix ''__completions'' (i @ ''__completions'') = i"
  using assms suffix_in_set by (fastforce simp: removesuffix_def suffix_def)+

lemma canonical_build_id_Inr: "canonical_build_id (JStr v) = Inr w \<longleftrightarrow> w = v \<and> is_canonical_uuid v \<and> \<not> is_nil_uuid v"
  by (auto simp: canonical_build_id_def)

lemma build_aliases_Inr:
  "build_aliases alias b = Inr (a, c) \<longleftrightarrow> is_canonical_uuid b \<and> \<not> is_nil_uuid b
     \<and> a = alias @ ''__build_'' @ b \<and> c = a @ ''__completions''"
  by (auto simp: build_aliases_def canonical_build_id_def)

lemma build_names_recognised:
  assumes "build_aliases alias b = Inr (a, c)" "alias \<noteq> []"
  shows "is_build_alias a" "is_build_alias c"
proof -
  have u: "is_canonical_uuid b" "a = alias @ ''__build_'' @ b @ []" "c = alias @ ''__build_'' @ b @ ''__completions''"
    using assms(1) by (auto simp: build_aliases_Inr)
  have no: "CHR ''_'' \<notin> set b" "b \<noteq> []" using u(1) uuid_no_underscore by (auto simp: is_canonical_uuid_def)
  show "is_build_alias a"
    unfolding is_build_alias_def u(2) rpartition_build [OF no insertI1]
    using u(1) assms(2) by (simp add: removesuffix_build [OF no(1)] casefold_uuid)
  have "rpartition ''__build_'' c = Some (alias, b @ ''__completions'')"
    unfolding u(3) by (rule rpartition_build [OF no]) simp
  then show "is_build_alias c"
    using u(1) assms(2) by (simp add: is_build_alias_def removesuffix_build [OF no(1)] casefold_uuid)
qed

text \<open>Different builds have different names.\<close>

lemma build_names_inject:
  assumes "build_aliases x b = Inr (a, c)" "build_aliases x' b' = Inr (a', c')" "{a, c} \<inter> {a', c'} \<noteq> {}"
  shows "x = x' \<and> b = b'"
proof -
  have u: "is_canonical_uuid b" "is_canonical_uuid b'" and
    n: "a = x @ ''__build_'' @ b @ []" "c = x @ ''__build_'' @ b @ ''__completions''"
       "a' = x' @ ''__build_'' @ b' @ []" "c' = x' @ ''__build_'' @ b' @ ''__completions''"
    using assms(1,2) by (auto simp: build_aliases_Inr)
  have no: "CHR ''_'' \<notin> set b" "b \<noteq> []" "CHR ''_'' \<notin> set b'" "b' \<noteq> []"
    using u uuid_no_underscore by (auto simp: is_canonical_uuid_def)
  have part: "rpartition ''__build_'' a = Some (x, b)" "rpartition ''__build_'' c = Some (x, b @ ''__completions'')"
    "rpartition ''__build_'' a' = Some (x', b')" "rpartition ''__build_'' c' = Some (x', b' @ ''__completions'')"
    unfolding n using rpartition_build [OF no(1,2), of "[]"] rpartition_build [OF no(1,2), of "''__completions''"]
      rpartition_build [OF no(3,4), of "[]"] rpartition_build [OF no(3,4), of "''__completions''"] by simp_all
  have mixed: "b \<noteq> b' @ ''__completions''" "b' \<noteq> b @ ''__completions''" using no by auto
  from assms(3) consider "a = a'" | "a = c'" | "c = a'" | "c = c'" by auto
  then show ?thesis using part mixed by cases auto
qed

section \<open>The aliases over publications and rollbacks\<close>

text \<open>
  A history of the server: publications of builds by \<open>swap_alias_to\<close>, rollbacks that only
  repoint a logical alias, and any change that leaves the aliases alone. Logical aliases are not
  themselves build aliases. The list holds the published builds, the last one first.
\<close>

inductive publications :: "view \<Rightarrow> build_binding list \<Rightarrow> view \<Rightarrow> bool" for v0 where
  start: "publications v0 [] v0"
| data_change: "publications v0 bs v \<Longrightarrow> v_alias v' = v_alias v \<Longrightarrow> publications v0 bs v'"
| publish: "publications v0 bs v \<Longrightarrow> bb_alias b \<noteq> [] \<Longrightarrow> \<not> is_build_alias (bb_alias b) \<Longrightarrow>
     swapped (bb_alias b) (bb_physical b) (Some (bb_build_id b)) v v' \<Longrightarrow> publications v0 (b # bs) v'"
| rollback: "publications v0 bs v \<Longrightarrow> \<not> is_build_alias alias \<Longrightarrow> swapped alias target None v v' \<Longrightarrow>
     publications v0 bs v'"

lemma map_of_apply_alias_op:
  "map_of (apply_alias_op (CreateAlias t n) as) = (map_of as)(n \<mapsto> t)"
  "map_of (apply_alias_op (DeleteAlias n) as) = (map_of as)(n := None)"
proof -
  have f: "map_of (filter (\<lambda>(a', c'). a' \<noteq> n) as) = (map_of as)(n := None)"
    by (induction as) (auto simp: fun_eq_iff)
  show "map_of (apply_alias_op (CreateAlias t n) as) = (map_of as)(n \<mapsto> t)"
    by (simp add: apply_alias_op_def f)
  show "map_of (apply_alias_op (DeleteAlias n) as) = (map_of as)(n := None)"
    by (simp add: apply_alias_op_def f)
qed

lemma swapped_publish:
  assumes "swapped alias new (Some b) v v'"
  obtains a c where "build_aliases alias b = Inr (a, c)" "map_of (v_alias v) a = None" "map_of (v_alias v) c = None"
    "map_of (v_alias v') = (map_of (v_alias v))(alias \<mapsto> new, a \<mapsto> new, c \<mapsto> new @ ''__completions'')"
proof -
  obtain imm where imm: "immutable_aliases alias (Some b) = Inr imm" and free: "free_names (v_alias v) imm"
    and v': "v' = v\<lparr>v_alias := fold apply_alias_op (swap_ops alias new (map_of (v_alias v) alias \<noteq> None) imm) (v_alias v)\<rparr>"
    using assms unfolding swapped_def by auto
  obtain ac where b: "build_aliases alias b = Inr ac" and i: "imm = Some ac"
    using imm by (cases "build_aliases alias b") (auto simp: immutable_aliases_def)
  obtain a c where ac: "ac = (a, c)" by (cases ac)
  show thesis
    by (rule that [of a c])
       (use b free in \<open>simp_all add: v' i ac free_names_def swap_ops_def map_of_apply_alias_op fun_eq_iff\<close>)
qed

lemma swapped_rollback:
  "swapped alias new None v v' \<Longrightarrow> map_of (v_alias v') = (map_of (v_alias v))(alias \<mapsto> new)"
  by (auto simp: swapped_def immutable_aliases_def swap_ops_def map_of_apply_alias_op)

text \<open>The build aliases of a set of published builds.\<close>

definition names_of :: "build_binding \<Rightarrow> (string \<times> string) set" where
  "names_of b = (case build_aliases (bb_alias b) (bb_build_id b) of Inl e \<Rightarrow> {}
     | Inr (a, c) \<Rightarrow> {(a, bb_physical b), (c, bb_physical b @ ''__completions'')})"

definition built :: "build_binding list \<Rightarrow> string \<Rightarrow> string option \<Rightarrow> bool" where
  "built bs n target \<longleftrightarrow> (\<forall>t. target = Some t \<longleftrightarrow> (n, t) \<in> \<Union> (names_of ` set bs))"

lemma names_of_recognised: "(n, t) \<in> names_of b \<Longrightarrow> bb_alias b \<noteq> [] \<Longrightarrow> is_build_alias n"
  using build_names_recognised by (auto simp: names_of_def split: sum.splits)

lemma publications_names:
  assumes "publications v0 bs v" "\<And>n. is_build_alias n \<Longrightarrow> map_of (v_alias v0) n = None"
  shows "\<forall>n. is_build_alias n \<longrightarrow> built bs n (map_of (v_alias v) n)"
  using assms
proof (induction rule: publications.induct)
  case start
  then show ?case by (auto simp: built_def)
next
  case (data_change bs v v')
  then show ?case by simp
next
  case (publish bs v b v')
  obtain a c where b: "build_aliases (bb_alias b) (bb_build_id b) = Inr (a, c)"
    and new: "map_of (v_alias v) a = None" "map_of (v_alias v) c = None"
    and m: "map_of (v_alias v') = (map_of (v_alias v))(bb_alias b \<mapsto> bb_physical b, a \<mapsto> bb_physical b,
      c \<mapsto> bb_physical b @ ''__completions'')"
    by (rule swapped_publish [OF publish.hyps(4)])
  have names: "names_of b = {(a, bb_physical b), (c, bb_physical b @ ''__completions'')}" by (simp add: names_of_def b)
  have ac: "a \<noteq> c" "is_build_alias a" "is_build_alias c"
    using b build_names_recognised [OF b publish.hyps(2)] by (auto simp: build_aliases_Inr)
  then have free: "(a, t) \<notin> \<Union> (names_of ` set bs)" "(c, t) \<notin> \<Union> (names_of ` set bs)" for t
    using publish.IH [OF publish.prems] new by (auto simp: built_def)
  show ?case
  proof (intro allI impI)
    fix n assume n: "is_build_alias n"
    then have old: "built bs n (map_of (v_alias v) n)" and "n \<noteq> bb_alias b"
      using publish.IH [OF publish.prems] publish.hyps(3) by auto
    then show "built (b # bs) n (map_of (v_alias v') n)"
      using ac(1) free by (auto simp: built_def m names)
  qed
next
  case (rollback bs v al target v')
  then show ?case by (auto simp: swapped_rollback)
qed

lemma publications_named:
  "publications v0 bs v \<Longrightarrow> b \<in> set bs \<Longrightarrow> bb_alias b \<noteq> [] \<and> (\<exists>ac. build_aliases (bb_alias b) (bb_build_id b) = Inr ac)"
  by (induction rule: publications.induct) (auto elim: swapped_publish)

lemma published_phase:
  assumes "publications v0 bs v" "\<And>n. is_build_alias n \<Longrightarrow> map_of (v_alias v0) n = None" "b \<in> set bs"
  shows "build_phase b (v_alias v) =
    Inr (if map_of (v_alias v) (bb_alias b) = Some (bb_physical b) then Published_Build else Retained_Build)"
proof -
  obtain a c where ac: "build_aliases (bb_alias b) (bb_build_id b) = Inr (a, c)" and ne: "bb_alias b \<noteq> []"
    using publications_named [OF assms(1,3)] by auto
  have names: "(a, bb_physical b) \<in> names_of b" "(c, bb_physical b @ ''__completions'') \<in> names_of b"
    by (simp_all add: names_of_def ac)
  have "map_of (v_alias v) a = Some (bb_physical b)" "map_of (v_alias v) c = Some (bb_physical b @ ''__completions'')"
    using names assms(3) publications_names [OF assms(1,2)] names_of_recognised [OF _ ne]
    by (auto simp: built_def)
  then show ?thesis by (simp add: build_phase_def ac)
qed

lemma named_once:
  assumes "(a, t) \<in> names_of b'" "build_aliases (bb_alias b) (bb_build_id b) = Inr (a, c)"
  shows "bb_alias b' = bb_alias b \<and> bb_build_id b' = bb_build_id b \<and> bb_physical b' = t"
proof -
  obtain a' c' where ac: "build_aliases (bb_alias b') (bb_build_id b') = Inr (a', c')"
    using assms(1) by (auto simp: names_of_def split: sum.splits)
  then have t: "(a, t) \<in> {(a', bb_physical b'), (c', bb_physical b' @ ''__completions'')}"
    using assms(1) by (simp add: names_of_def)
  then have same: "bb_alias b' = bb_alias b \<and> bb_build_id b' = bb_build_id b"
    by (intro build_names_inject [OF ac assms(2)]) auto
  then have "a' = a \<and> c' = c" "a \<noteq> c" using ac assms(2) by (auto simp: build_aliases_Inr)
  then show ?thesis using t same by auto
qed

text \<open>C18: exactly the published builds serve, and publication is for ever. Over any sequence of
  publications, rollbacks and other writes, starting from a server without build aliases, the
  serving gate accepts a binding for a physical collection if and only if that build was
  published there and is configured by its logical alias or its own name; a build that was only
  sealed is refused, and no later publication takes a published build out of service.\<close>
theorem exactly_published_serve:
  assumes "publications v0 bs v" "\<And>n. is_build_alias n \<Longrightarrow> map_of (v_alias v0) n = None" "bb_alias b \<noteq> []"
  shows "require_published_binding (Some b) configured physical (v_alias v) = Inr () \<longleftrightarrow>
    physical = bb_physical b \<and> configured \<in> {bb_alias b, bb_physical b}
    \<and> (\<exists>b' \<in> set bs. bb_alias b' = bb_alias b \<and> bb_build_id b' = bb_build_id b \<and> bb_physical b' = bb_physical b)"
    (is "?serve \<longleftrightarrow> ?named \<and> ?conf \<and> ?built")
proof
  assume s: ?serve
  then have n: ?named ?conf by (auto simp: require_published_binding_def binding_error_def split: if_splits)
  have phase: "build_phase b (v_alias v) \<in> {Inr Published_Build, Inr Retained_Build}"
    using s by (auto simp: require_published_binding_def rbind_def binding_error_def split: if_splits sum.splits)
  then obtain a c where ac: "build_aliases (bb_alias b) (bb_build_id b) = Inr (a, c)"
    by (cases "build_aliases (bb_alias b) (bb_build_id b)") (auto simp: build_phase_def)
  then have "map_of (v_alias v) a = Some (bb_physical b)"
    using phase by (auto simp: build_phase_def binding_error_def split: if_splits)
  moreover have "is_build_alias a" by (rule build_names_recognised [OF ac assms(3)])
  ultimately obtain b' where "b' \<in> set bs" "(a, bb_physical b) \<in> names_of b'"
    using publications_names [OF assms(1,2)] by (auto simp: built_def)
  then show "?named \<and> ?conf \<and> ?built" using n named_once [OF _ ac] by blast
next
  assume r: "?named \<and> ?conf \<and> ?built"
  then obtain b' where b': "b' \<in> set bs" "bb_alias b' = bb_alias b" "bb_build_id b' = bb_build_id b" "bb_physical b' = bb_physical b"
    by blast
  have "build_phase b (v_alias v) = build_phase b' (v_alias v)" unfolding build_phase_def b'(2,3,4) ..
  then show ?serve using r published_phase [OF assms(1,2) b'(1)] by (auto simp: require_published_binding_def)
qed

definition demo_build :: "string \<Rightarrow> build_binding" where
  "demo_build physical = \<lparr>bb_build_id = ''0123abcd-0000-4000-8000-00000000000f'', bb_alias = ''live'',
     bb_physical = physical, bb_gen_fp = ''g'', bb_corpus_fp = ''c''\<rparr>"

lemma demo_publication:
  defines "v \<equiv> mem_view demo_mem"
  shows "publications v [demo_build ''gen2'']
    (v\<lparr>v_alias := fold apply_alias_op (swap_ops ''live'' ''gen2'' True
       (Some (''live__build_0123abcd-0000-4000-8000-00000000000f'',
              ''live__build_0123abcd-0000-4000-8000-00000000000f__completions''))) (v_alias v)\<rparr>)"
proof (rule publications.publish [OF publications.start])
  show "swapped (bb_alias (demo_build ''gen2'')) (bb_physical (demo_build ''gen2'')) (Some (bb_build_id (demo_build ''gen2''))) v
    (v\<lparr>v_alias := fold apply_alias_op (swap_ops ''live'' ''gen2'' True
       (Some (''live__build_0123abcd-0000-4000-8000-00000000000f'',
              ''live__build_0123abcd-0000-4000-8000-00000000000f__completions''))) (v_alias v)\<rparr>)"
    by (simp add: swapped_def demo_build_def immutable_aliases_def build_aliases_def canonical_build_id_def
      is_canonical_uuid_def is_hex_lower_def is_nil_uuid_def free_names_def v_def demo_aliases)
qed (simp_all add: demo_build_def is_build_alias_def)

lemma exactly_published_serve_witness:
  "\<exists>as. require_published_binding (Some (demo_build ''gen2'')) ''live'' ''gen2'' as = Inr ()
    \<and> require_published_binding (Some (demo_build ''gen1'')) ''live'' ''gen1'' as \<noteq> Inr ()"
proof -
  have none: "map_of (v_alias (mem_view demo_mem)) n = None" if "is_build_alias n" for n
    using that by (auto simp: demo_aliases is_build_alias_def)
  have ne: "bb_alias (demo_build p) \<noteq> []" for p by (simp add: demo_build_def)
  show ?thesis
    by (intro exI conjI; (subst exactly_published_serve [OF demo_publication none ne])?) (auto simp: demo_build_def)
qed

end
