(* ===== verification/Receipt.thy ===== *)
theory Receipt
  imports Build
begin

text \<open>
  The publication receipt (\<open>mainframe_rag/ingest/publish.py\<close>, from
  \<open>publication_metadata_point_id\<close> to \<open>delete_publication_metadata\<close>): one control point that
  binds a build to its catalog and its content seal, its writing, reading and verification, and
  the removal of receipts a clone inherited.
\<close>

section \<open>Definitions\<close>

definition publication_record_type :: string where "publication_record_type = ''publication-metadata''"

definition publication_point_id :: "libs \<Rightarrow> string \<Rightarrow> string" where
  "publication_point_id L control = lib_uuid5 L (publication_record_type @ ''|'' @ control)"

definition receipt_payload ::
    "string \<Rightarrow> settings \<Rightarrow> string \<Rightarrow> string \<Rightarrow> string \<Rightarrow> string \<Rightarrow> payload \<Rightarrow> payload \<Rightarrow> payload" where
  "receipt_payload control s gen_fp corpus_fp build_id logical_alias catalog seal =
     [(''record_type'', JStr publication_record_type),
      (''target_collection'', JStr control),
      (''gen_fp'', JStr gen_fp),
      (''corpus_fp'', JStr corpus_fp),
      (''build_schema'', JInt build_schema),
      (''build_id'', JStr build_id),
      (''logical_alias'', JStr logical_alias),
      (''data_collection'', JStr (qdrant_collection s)),
      (''source_catalog'', JObj catalog),
      (''content_seal'', JObj seal)]"

definition write_publication_metadata ::
    "libs \<Rightarrow> 's client \<Rightarrow> string \<Rightarrow> settings \<Rightarrow> string \<Rightarrow> string \<Rightarrow> string \<Rightarrow> string \<Rightarrow> json \<Rightarrow> ('s, unit) eff" where
  "write_publication_metadata L C control s gen_fp corpus_fp build_id logical_alias source_catalog =
     (if logical_alias = [] then sraise (Exn ValueErr ''missing_logical_alias'' [])
      else sbind (slift (canonical_build_id (JStr build_id))) (\<lambda>bid.
           sbind (slift (decode_catalog_summary source_catalog)) (\<lambda>catalog.
           sbind (capture_content_seal L C build_id logical_alias (qdrant_collection s) gen_fp corpus_fp
                    (publication_point_id L control)) (\<lambda>seal.
             cl_upsert C control
               [\<lparr>pt_id = publication_point_id L control,
                 pt_payload = receipt_payload control s gen_fp corpus_fp bid logical_alias catalog seal,
                 pt_vectors = control_vector s\<rparr>]))))"

definition decode_publication_record :: "payload \<Rightarrow> string \<Rightarrow> payload res" where
  "decode_publication_record p control =
     (if jget p ''record_type'' \<noteq> JStr publication_record_type then raise_exn RuntimeErr ''invalid_publication_record'' []
      else case decode_build_binding p control of
        Inr _ \<Rightarrow> Inr p
      | Inl e \<Rightarrow>
          if exn_cls e = UnboundGenerationErr then raise_exn RuntimeErr ''pre_build_publication'' [JStr control]
          else if exn_cls e \<in> {ValueErr, TypeErr} then raise_exn RuntimeErr ''unsupported_build_record'' []
          else Inl e)"

definition read_publication_record :: "libs \<Rightarrow> 's client \<Rightarrow> string \<Rightarrow> ('s, payload option) eff" where
  "read_publication_record L C control =
     sbind (cl_exists C control) (\<lambda>ex.
     if \<not> ex then sret None
     else sbind (cl_retrieve C control [publication_point_id L control] WithAll False) (\<lambda>points.
       case points of
         [] \<Rightarrow> sret None
       | p # _ \<Rightarrow> sbind (slift (decode_publication_record (pt_payload p) control)) (\<lambda>r. sret (Some r))))"

definition read_build_binding :: "libs \<Rightarrow> 's client \<Rightarrow> string \<Rightarrow> ('s, build_binding option) eff" where
  "read_build_binding L C control =
     sbind (read_publication_record L C control) (\<lambda>r.
       case r of None \<Rightarrow> sret None
       | Some p \<Rightarrow> sbind (slift (decode_build_binding p control)) (\<lambda>b. sret (Some b)))"

definition read_publication_metadata :: "libs \<Rightarrow> 's client \<Rightarrow> string \<Rightarrow> ('s, (string \<times> string) option) eff" where
  "read_publication_metadata L C control =
     sbind (read_publication_record L C control) (\<lambda>r.
       case r of None \<Rightarrow> sret None
       | Some p \<Rightarrow>
           if is_str (jget p ''gen_fp'') \<and> is_str (jget p ''corpus_fp'')
           then sret (Some (str_of (jget p ''gen_fp''), str_of (jget p ''corpus_fp'')))
           else sret None)"

text \<open>Equality of dicts does not see the order of the keys, nested dicts included.\<close>

definition same_member :: "json \<Rightarrow> json \<Rightarrow> bool" where
  "same_member a b = (case (a, b) of (JObj p, JObj q) \<Rightarrow> same_dict p q | _ \<Rightarrow> a = b)"

definition same_seal :: "payload \<Rightarrow> json \<Rightarrow> bool" where
  "same_seal p j =
     (case j of
        JObj q \<Rightarrow> set (map fst p) = set (map fst q) \<and> list_all (\<lambda>k. same_member (jget p k) (jget q k)) (map fst p)
      | _ \<Rightarrow> False)"

definition verify_publication_seal :: "libs \<Rightarrow> 's client \<Rightarrow> string \<Rightarrow> ('s, bool) eff" where
  "verify_publication_seal L C control =
     sbind (read_publication_record L C control) (\<lambda>r.
       case r of None \<Rightarrow> sret False
       | Some p \<Rightarrow>
           if \<not> jhas p ''content_seal'' then sret False
           else sbind (slift (decode_build_binding p control)) (\<lambda>b.
                sbind (capture_content_seal L C (bb_build_id b) (bb_alias b) (bb_physical b) (bb_gen_fp b) (bb_corpus_fp b)
                         (publication_point_id L control)) (\<lambda>observed.
                  if \<not> same_seal observed (jget p ''content_seal'')
                  then sraise (Exn RuntimeErr ''seal_mismatch'' []) else sret True)))"

definition verify_build_catalog :: "libs \<Rightarrow> 's client \<Rightarrow> string \<Rightarrow> ('s, bool) eff" where
  "verify_build_catalog L C control =
     sbind (read_publication_record L C control) (\<lambda>r.
       case r of None \<Rightarrow> sret False
       | Some p \<Rightarrow>
           if \<not> jhas p ''source_catalog'' then sret False
           else sbind (verify_source_catalog L C control (jget p ''source_catalog'')) (\<lambda>_. sret True))"

text \<open>
  The scroll that looks for inherited receipts; an exception of it is swallowed, and the ids
  found until then are kept.
\<close>

fun receipt_pages :: "nat \<Rightarrow> 's client \<Rightarrow> string \<Rightarrow> string option \<Rightarrow> string set \<Rightarrow> ('s, string set) eff" where
  "receipt_pages 0 C control offset ids = sraise (Exn Unfinished ''receipts'' [])"
| "receipt_pages (Suc b) C control offset ids =
     sbind (scatch (sbind (cl_scroll C control [] 100 WithAll False offset) (\<lambda>r. sret (Some r))) (\<lambda>e. sret None)) (\<lambda>r.
       case r of None \<Rightarrow> sret ids
       | Some (records, next_page) \<Rightarrow>
           let ids' = ids \<union> pt_id ` {p \<in> set records. jget (pt_payload p) ''record_type'' = JStr publication_record_type}
           in (case next_page of None \<Rightarrow> sret ids' | Some o' \<Rightarrow> receipt_pages b C control (Some o') ids'))"

definition delete_publication_metadata :: "libs \<Rightarrow> 's client \<Rightarrow> string \<Rightarrow> string option \<Rightarrow> ('s, unit) eff" where
  "delete_publication_metadata L C control ancestor =
     sbind (cl_exists C control) (\<lambda>ex.
     if \<not> ex then sret ()
     else let own = {publication_point_id L control}
                \<union> (case ancestor of None \<Rightarrow> {} | Some a \<Rightarrow> if a = [] then {} else {publication_point_id L a})
          in sbind (\<lambda>st. receipt_pages (cl_budget C st) C control None own st) (\<lambda>ids.
               cl_delete_ids C control (sorted_list_of_set ids)))"

section \<open>Reading the receipt\<close>

definition receipt_of :: "libs \<Rightarrow> view \<Rightarrow> string \<Rightarrow> payload option" where
  "receipt_of L v control = map_option pt_payload (by_id (points_of v control) (publication_point_id L control))"

lemma project_whole: "project WithAll vec p = \<lparr>pt_id = pt_id p, pt_payload = pt_payload p, pt_vectors = (if vec then pt_vectors p else JNull)\<rparr>"
  by (simp add: project_def project_payload_def)

lemma retrieved_one:
  assumes "distinct (map pt_id ps)" "set ps = project WithAll False ` {p \<in> set qs. pt_id p \<in> set [i]}" "distinct (map pt_id qs)"
  shows "(case ps of [] \<Rightarrow> None | p # _ \<Rightarrow> Some (pt_payload p)) = map_option pt_payload (by_id qs i)"
proof (cases "by_id qs i")
  case None
  then have "\<forall>p \<in> set qs. pt_id p \<noteq> i" by (auto simp: by_id_None)
  then have none: "{p \<in> set qs. pt_id p \<in> set [i]} = {}" by auto
  have "set ps = {}" unfolding assms(2) none by (rule image_empty)
  then show ?thesis using None by simp
next
  case (Some q)
  then have q: "q \<in> set qs" "pt_id q = i" using by_id_Some by metis+
  have "{p \<in> set qs. pt_id p \<in> set [i]} = {q}" using q assms(3) by (auto simp: distinct_map inj_on_def)
  then have "set ps = {project WithAll False q}" using assms(2) by simp
  then show ?thesis using Some by (cases ps) (auto simp: project_whole)
qed

context qdrant_finishes
begin

lemma decode_publication_record_id: "decode_publication_record p control = Inr q \<Longrightarrow> q = p"
  by (auto simp: decode_publication_record_def split: sum.splits if_splits)

lemma wp_exists_only:
  assumes "map_of (v_alias (V s)) n = None"
  shows "wp (cl_exists C n) (\<lambda>b s'. V s' = V s \<and> b = (v_points (V s) n \<noteq> None)) (\<lambda>e s'. V s' = V s \<and> store_exn e) s"
  by (rule wp_conseq [OF wp_conj [OF exists_law exists_raises]]) (use assms in auto)

lemma wp_retrieve_one:
  "wp (cl_retrieve C n [i] WithAll False)
     (\<lambda>ps s'. V s' = V s \<and> (case ps of [] \<Rightarrow> None | p # _ \<Rightarrow> Some (pt_payload p)) = map_option pt_payload (by_id (points_of (V s) n) i))
     (\<lambda>e s'. V s' = V s \<and> store_exn e) s"
  by (rule wp_conseq [OF wp_conj [OF retrieve_law retrieve_raises]]) (use retrieved_one [OF _ _ wf] in auto)

lemma wp_read_publication_record:
  assumes "map_of (v_alias (V s)) control = None"
  shows "wp (read_publication_record L C control)
    (\<lambda>r s'. V s' = V s \<and> r = receipt_of L (V s) control \<and> (\<forall>p. r = Some p \<longrightarrow> decode_publication_record p control = Inr p))
    (\<lambda>e s'. V s' = V s \<and> (store_exn e \<or> (\<exists>p. receipt_of L (V s) control = Some p \<and> decode_publication_record p control = Inl e))) s"
    (is "wp _ ?Q ?E s")
  unfolding read_publication_record_def wp_bind
proof (rule wp_conseq [OF wp_exists_only [OF assms]])
  fix ex s1 assume e: "V s1 = V s \<and> ex = (v_points (V s) control \<noteq> None)"
  have absent: "receipt_of L (V s) control = None" if "\<not> ex"
    using that e assms by (simp add: receipt_of_def by_id_def points_of_def phys_def)
  have "wp (sbind (cl_retrieve C control [publication_point_id L control] WithAll False) (\<lambda>points.
       case points of
         [] \<Rightarrow> sret None
       | p # _ \<Rightarrow> sbind (slift (decode_publication_record (pt_payload p) control)) (\<lambda>r. sret (Some r)))) ?Q ?E s1"
    unfolding wp_bind
  proof (rule wp_conseq [OF wp_retrieve_one])
    fix ps s2
    assume "V s2 = V s1 \<and> (case ps of [] \<Rightarrow> None | p # _ \<Rightarrow> Some (pt_payload p))
      = map_option pt_payload (by_id (points_of (V s1) control) (publication_point_id L control))"
    then have v2: "V s2 = V s" and found: "(case ps of [] \<Rightarrow> None | p # _ \<Rightarrow> Some (pt_payload p)) = receipt_of L (V s) control"
      using e by (simp_all add: receipt_of_def)
    then show "wp (case ps of [] \<Rightarrow> sret None
         | p # _ \<Rightarrow> sbind (slift (decode_publication_record (pt_payload p) control)) (\<lambda>r. sret (Some r))) ?Q ?E s2"
    proof (cases ps)
      case Nil
      then show ?thesis using v2 found by simp
    next
      case (Cons p rest)
      then have p: "receipt_of L (V s) control = Some (pt_payload p)" using found by simp
      show ?thesis
        using decode_publication_record_id [of "pt_payload p" control]
        by (cases "decode_publication_record (pt_payload p) control") (simp_all add: Cons p v2)
    qed
  qed (use e in simp)
  moreover have "?Q None s1" if "\<not> ex" using absent [OF that] e by simp
  ultimately show "wp (if \<not> ex then sret None
     else sbind (cl_retrieve C control [publication_point_id L control] WithAll False) (\<lambda>points.
       case points of
         [] \<Rightarrow> sret None
       | p # _ \<Rightarrow> sbind (slift (decode_publication_record (pt_payload p) control)) (\<lambda>r. sret (Some r)))) ?Q ?E s1"
    by (rule wp_unless)
qed simp

end

section \<open>Writing the receipt\<close>

lemma decode_catalog_summary_id: "decode_catalog_summary j = Inr c \<Longrightarrow> j = JObj c"
  by (auto simp: decode_catalog_summary_def split: json.splits if_splits)

lemma content_seal_decodes:
  assumes "\<And>t. is_hex64 (JStr (lib_sha256 L t))"
  shows "decode_content_seal (JObj (content_seal L binding rid data control)) = Inr (content_seal L binding rid data control)"
  using assms
  by (auto simp: decode_content_seal_def content_seal_def decode_seal_member_def seal_of_conv has_keys_def)

lemma same_content_seal:
  "same_seal (content_seal L binding rid d c) (JObj (content_seal L binding rid d' c')) \<longleftrightarrow>
   content_seal L binding rid d c = content_seal L binding rid d' c'"
  by (auto simp: same_seal_def content_seal_def same_member_def same_dict_def seal_of_conv)

definition binding_ok :: "settings \<Rightarrow> string \<Rightarrow> string \<Rightarrow> string \<Rightarrow> string \<Rightarrow> bool" where
  "binding_ok s control gen_fp corpus_fp logical_alias \<longleftrightarrow> control = qdrant_collection s @ ''__completions''
     \<and> strip (qdrant_collection s) \<noteq> [] \<and> strip gen_fp \<noteq> [] \<and> strip corpus_fp \<noteq> [] \<and> strip logical_alias \<noteq> []"

lemma decode_receipt:
  assumes "binding_ok st control gen corpus alias" "canonical_build_id (JStr bid) = Inr bid"
    and "decode_catalog_summary (JObj cat) = Inr cat" "\<And>t. is_hex64 (JStr (lib_sha256 L t))"
    and "seal = content_seal L binding rid data ctrl"
  shows "decode_build_binding (receipt_payload control st gen corpus bid alias cat seal) control =
    Inr \<lparr>bb_build_id = bid, bb_alias = alias, bb_physical = qdrant_collection st, bb_gen_fp = gen, bb_corpus_fp = corpus\<rparr>"
  and "decode_publication_record (receipt_payload control st gen corpus bid alias cat seal) control =
    Inr (receipt_payload control st gen corpus bid alias cat seal)"
proof -
  have seal: "decode_content_seal (JObj seal) = Inr seal" unfolding assms(5) by (rule content_seal_decodes [OF assms(4)])
  show b: "decode_build_binding (receipt_payload control st gen corpus bid alias cat seal) control =
    Inr \<lparr>bb_build_id = bid, bb_alias = alias, bb_physical = qdrant_collection st, bb_gen_fp = gen, bb_corpus_fp = corpus\<rparr>"
    using assms(1-3) seal
    by (simp add: decode_build_binding_def check_build_record_def receipt_payload_def build_fields_def build_schema_def
      supported_schemas_def publication_record_type_def binding_ok_def)
  show "decode_publication_record (receipt_payload control st gen corpus bid alias cat seal) control =
    Inr (receipt_payload control st gen corpus bid alias cat seal)"
    using b by (simp add: decode_publication_record_def) (simp add: receipt_payload_def)
qed

locale qdrant_publisher = qdrant_store C V + qdrant_finishes C V for C :: "'s client" and V :: "'s \<Rightarrow> view"

interpretation mem_publisher: qdrant_publisher mem_client mem_view ..

text \<open>The seal the writer captures is over what the reader finds: the receipt itself is left out.\<close>

definition sealed_receipt :: "libs \<Rightarrow> string \<Rightarrow> settings \<Rightarrow> string \<Rightarrow> string \<Rightarrow> string \<Rightarrow> string \<Rightarrow> payload \<Rightarrow> view \<Rightarrow> payload" where
  "sealed_receipt L control st gen corpus bid alias cat v =
     receipt_payload control st gen corpus bid alias cat
       (content_seal L [bid, alias, qdrant_collection st, gen, corpus] (publication_point_id L control)
          (points_of v (qdrant_collection st)) (points_of v (qdrant_collection st @ ''__completions'')))"

definition all_sealable :: "libs \<Rightarrow> string \<Rightarrow> settings \<Rightarrow> view \<Rightarrow> bool" where
  "all_sealable L control st v \<longleftrightarrow> list_all sealable (points_of v (qdrant_collection st))
     \<and> list_all sealable (sealed (Some (publication_point_id L control)) (points_of v (qdrant_collection st @ ''__completions'')))"

definition receipt_point :: "libs \<Rightarrow> string \<Rightarrow> settings \<Rightarrow> payload \<Rightarrow> point" where
  "receipt_point L control st p = \<lparr>pt_id = publication_point_id L control, pt_payload = p, pt_vectors = control_vector st\<rparr>"

context qdrant_publisher
begin

lemma wp_write_publication_metadata:
  "wp (write_publication_metadata L C control st gen corpus bid alias cat)
     (\<lambda>_ s'. \<exists>c. cat = JObj c \<and> decode_catalog_summary cat = Inr c \<and> canonical_build_id (JStr bid) = Inr bid \<and> alias \<noteq> []
        \<and> all_sealable L control st (V s)
        \<and> updated control (put_points [receipt_point L control st (sealed_receipt L control st gen corpus bid alias c (V s))]) (V s) (V s'))
     (\<lambda>e s'. \<exists>qs p. set qs \<subseteq> {receipt_point L control st p} \<and> updated control (put_points qs) (V s) (V s')) s"
    (is "wp _ ?Q ?E s")
proof -
  have same: "?E e s'" if "V s' = V s" for e s'
    using that updated_refl(2) by (intro exI [of _ "[]"]) simp
  show ?thesis
  proof (cases "alias = []")
    case True
    then show ?thesis using same by (simp add: write_publication_metadata_def)
  next
    case False
    show ?thesis
    proof (cases "canonical_build_id (JStr bid)")
      case (Inl e)
      then show ?thesis using False same by (simp add: write_publication_metadata_def)
    next
      case (Inr b)
      then have b: "b = bid" by (simp add: canonical_build_id_Inr)
      show ?thesis
      proof (cases "decode_catalog_summary cat")
        case (Inl e)
        then show ?thesis using False Inr same by (simp add: write_publication_metadata_def)
      next
        case (Inr c)
        have "wp (sbind (capture_content_seal L C bid alias (qdrant_collection st) gen corpus (publication_point_id L control)) (\<lambda>seal.
             cl_upsert C control [receipt_point L control st (receipt_payload control st gen corpus bid alias c seal)])) ?Q ?E s"
          unfolding wp_bind
        proof (rule wp_conseq [OF wp_capture_content_seal])
          fix r s1
          assume "V s1 = V s \<and> r = content_seal L [bid, alias, qdrant_collection st, gen, corpus] (publication_point_id L control)
            (points_of (V s) (qdrant_collection st)) (points_of (V s) (qdrant_collection st @ ''__completions''))
            \<and> list_all sealable (points_of (V s) (qdrant_collection st))
            \<and> list_all sealable (sealed (Some (publication_point_id L control)) (points_of (V s) (qdrant_collection st @ ''__completions'')))"
          then have a: "V s1 = V s" "r = content_seal L [bid, alias, qdrant_collection st, gen, corpus] (publication_point_id L control)
            (points_of (V s) (qdrant_collection st)) (points_of (V s) (qdrant_collection st @ ''__completions''))"
            "all_sealable L control st (V s)" by (simp_all add: all_sealable_def)
          then have p: "receipt_payload control st gen corpus bid alias c r = sealed_receipt L control st gen corpus bid alias c (V s)"
            by (simp add: sealed_receipt_def)
          show "wp (cl_upsert C control [receipt_point L control st (receipt_payload control st gen corpus bid alias c r)]) ?Q ?E s1"
            unfolding p
          proof (rule wp_upsert)
            fix s2 assume "updated control (put_points [receipt_point L control st (sealed_receipt L control st gen corpus bid alias c (V s))]) (V s1) (V s2)"
            then show "?Q () s2"
              using a False Inr \<open>canonical_build_id (JStr bid) = Inr b\<close> b decode_catalog_summary_id [OF Inr] by simp
          next
            fix e s2 qs
            assume "set qs \<subseteq> set [receipt_point L control st (sealed_receipt L control st gen corpus bid alias c (V s))]"
              "updated control (put_points qs) (V s1) (V s2)"
            then show "?E e s2" using a by auto
          qed
        qed (use same in blast)
        then show ?thesis using False Inr \<open>canonical_build_id (JStr bid) = Inr b\<close> b
          by (simp add: write_publication_metadata_def receipt_point_def)
      qed
    qed
  qed
qed

end

section \<open>Verifying the seal\<close>

lemma seal_of_same:
  assumes "set (sealed x ps) = set (sealed x qs)" "distinct (map pt_id ps)" "distinct (map pt_id qs)"
  shows "seal_of L binding role x ps = seal_of L binding role x qs"
proof -
  have "set (leaves_of L x ps) = set (leaves_of L x qs)" by (simp add: leaves_of_def assms(1))
  then show ?thesis
    unfolding seal_of_def by (rule seal_root_cong [OF _ distinct_leaves [OF assms(2)] distinct_leaves [OF assms(3)]])
qed

lemma sealed_put:
  assumes "wf_view v" "wf_view v'" "updated n (put_points [r]) v v'"
  shows "set (sealed (Some (pt_id r)) (points_of v' n)) = set (sealed (Some (pt_id r)) (points_of v n))"
proof -
  have "p \<in> set (points_of v' n) \<longleftrightarrow> p \<in> set (points_of v n)" if "pt_id p \<noteq> pt_id r" for p
    unfolding set_put [OF assms] using that by (simp add: by_id_def)
  then show ?thesis by (auto simp: sealed_def)
qed

lemma content_seal_put:
  assumes "wf_view v" "wf_view v'" "updated control (put_points [r]) v v'" "phys v physical \<noteq> phys v control"
    and "control = physical @ ''__completions''"
  shows "content_seal L binding (pt_id r) (points_of v' physical) (points_of v' control)
       = content_seal L binding (pt_id r) (points_of v physical) (points_of v control)"
proof -
  have d: "points_of v' physical = points_of v physical" by (rule points_of_updated [OF assms(3,4)])
  have "seal_of L binding ''control'' (Some (pt_id r)) (points_of v' control)
      = seal_of L binding ''control'' (Some (pt_id r)) (points_of v control)"
    by (rule seal_of_same [OF sealed_put [OF assms(1-3)]]) (use assms(1,2) in \<open>simp_all add: wf_view_def\<close>)
  then show ?thesis by (simp add: content_seal_def d)
qed

lemma receipt_put:
  assumes "updated control (put_points [receipt_point L control st p]) v v'"
  shows "receipt_of L v' control = Some p"
  using by_id_points_updated [OF assms refl]
  by (simp add: receipt_of_def put_points_def receipt_point_def by_id_def)

text \<open>Over a receipt the writer made for \<open>v\<close>, the check compares the content with that of \<open>v\<close>.\<close>

definition seal_now :: "libs \<Rightarrow> string \<Rightarrow> settings \<Rightarrow> string \<Rightarrow> string \<Rightarrow> string \<Rightarrow> string \<Rightarrow> view \<Rightarrow> payload" where
  "seal_now L control st gen corpus bid alias v =
     content_seal L [bid, alias, qdrant_collection st, gen, corpus] (publication_point_id L control)
       (points_of v (qdrant_collection st)) (points_of v (qdrant_collection st @ ''__completions''))"

definition stored_receipt :: "libs \<Rightarrow> string \<Rightarrow> settings \<Rightarrow> string \<Rightarrow> string \<Rightarrow> string \<Rightarrow> string \<Rightarrow> payload \<Rightarrow> view \<Rightarrow> view \<Rightarrow> bool" where
  "stored_receipt L control st gen corpus bid alias cat v0 v \<longleftrightarrow>
     map_of (v_alias v) control = None \<and> receipt_of L v control = Some (sealed_receipt L control st gen corpus bid alias cat v0)
     \<and> binding_ok st control gen corpus alias \<and> canonical_build_id (JStr bid) = Inr bid
     \<and> decode_catalog_summary (JObj cat) = Inr cat \<and> (\<forall>t. is_hex64 (JStr (lib_sha256 L t)))"

definition binding_of :: "settings \<Rightarrow> string \<Rightarrow> string \<Rightarrow> string \<Rightarrow> string \<Rightarrow> build_binding" where
  "binding_of st gen corpus bid alias = \<lparr>bb_build_id = bid, bb_alias = alias, bb_physical = qdrant_collection st,
     bb_gen_fp = gen, bb_corpus_fp = corpus\<rparr>"

lemma stored_receipt_decodes:
  assumes "stored_receipt L control st gen corpus bid alias cat v0 v"
  shows "decode_build_binding (sealed_receipt L control st gen corpus bid alias cat v0) control = Inr (binding_of st gen corpus bid alias)"
    and "decode_publication_record (sealed_receipt L control st gen corpus bid alias cat v0) control
       = Inr (sealed_receipt L control st gen corpus bid alias cat v0)"
  using assms unfolding stored_receipt_def sealed_receipt_def binding_of_def
  by (intro decode_receipt [OF _ _ _ _ refl]; simp)+

context qdrant_finishes
begin

lemma wp_read_stored:
  assumes "stored_receipt L control st gen corpus bid alias cat v0 (V s)"
  shows "wp (read_publication_record L C control)
    (\<lambda>r s'. V s' = V s \<and> r = Some (sealed_receipt L control st gen corpus bid alias cat v0))
    (\<lambda>e s'. V s' = V s \<and> store_exn e) s"
  using assms stored_receipt_decodes(2) [OF assms] unfolding stored_receipt_def
  by (intro wp_conseq [OF wp_read_publication_record]) auto

lemma wp_read_build_binding:
  assumes "stored_receipt L control st gen corpus bid alias cat v0 (V s)"
  shows "wp (read_build_binding L C control)
    (\<lambda>r s'. V s' = V s \<and> r = Some (binding_of st gen corpus bid alias)) (\<lambda>e s'. V s' = V s \<and> store_exn e) s"
  unfolding read_build_binding_def wp_bind
  by (rule wp_conseq [OF wp_read_stored [OF assms]]) (simp_all add: stored_receipt_decodes(1) [OF assms])

lemma wp_verify_publication_seal:
  assumes "stored_receipt L control st gen corpus bid alias cat v0 (V s)"
  shows "wp (verify_publication_seal L C control)
     (\<lambda>ok s'. V s' = V s \<and> ok \<and> seal_now L control st gen corpus bid alias (V s) = seal_now L control st gen corpus bid alias v0)
     (\<lambda>e s'. V s' = V s \<and> (capture_fails None (points_of (V s) (qdrant_collection st)) e
        \<or> capture_fails (Some (publication_point_id L control)) (points_of (V s) control) e
        \<or> seal_now L control st gen corpus bid alias (V s) \<noteq> seal_now L control st gen corpus bid alias v0)) s"
    (is "wp _ ?Q ?E s")
proof -
  let ?rec = "sealed_receipt L control st gen corpus bid alias cat v0" and ?seal = "seal_now L control st gen corpus bid alias"
  have ctrl: "qdrant_collection st @ ''__completions'' = control" using assms by (simp add: stored_receipt_def binding_ok_def)
  have has: "jhas ?rec ''content_seal''" "jget ?rec ''content_seal'' = JObj (?seal v0)"
    by (simp_all add: sealed_receipt_def receipt_payload_def seal_now_def jhas_def jget_def)
  have same: "same_seal (?seal (V s)) (JObj (?seal v0)) \<longleftrightarrow> ?seal (V s) = ?seal v0"
    unfolding seal_now_def by (rule same_content_seal)
  show ?thesis
    unfolding verify_publication_seal_def wp_bind
  proof (rule wp_conseq [OF wp_read_stored [OF assms]])
    fix r s1 assume r: "V s1 = V s \<and> r = Some ?rec"
    have "wp (sbind (capture_content_seal L C bid alias (qdrant_collection st) gen corpus (publication_point_id L control))
        (\<lambda>observed. if \<not> same_seal observed (JObj (?seal v0)) then sraise (Exn RuntimeErr ''seal_mismatch'' []) else sret True)) ?Q ?E s1"
      unfolding wp_bind
    proof (rule wp_conseq [OF wp_capture_content_seal])
      fix o' s2
      assume "V s2 = V s1 \<and> o' = content_seal L [bid, alias, qdrant_collection st, gen, corpus] (publication_point_id L control)
        (points_of (V s1) (qdrant_collection st)) (points_of (V s1) (qdrant_collection st @ ''__completions''))
        \<and> list_all sealable (points_of (V s1) (qdrant_collection st))
        \<and> list_all sealable (sealed (Some (publication_point_id L control)) (points_of (V s1) (qdrant_collection st @ ''__completions'')))"
      then have "V s2 = V s" "o' = ?seal (V s)" using r by (simp_all add: seal_now_def)
      then show "wp (if \<not> same_seal o' (JObj (?seal v0)) then sraise (Exn RuntimeErr ''seal_mismatch'' []) else sret True) ?Q ?E s2"
        using same by (simp add: wp_if)
    qed (use r ctrl in auto)
    then show "wp (case r of None \<Rightarrow> sret False
       | Some p \<Rightarrow>
           if \<not> jhas p ''content_seal'' then sret False
           else sbind (slift (decode_build_binding p control)) (\<lambda>b.
                sbind (capture_content_seal L C (bb_build_id b) (bb_alias b) (bb_physical b) (bb_gen_fp b) (bb_corpus_fp b)
                         (publication_point_id L control)) (\<lambda>observed.
                  if \<not> same_seal observed (jget p ''content_seal'')
                  then sraise (Exn RuntimeErr ''seal_mismatch'' []) else sret True))) ?Q ?E s1"
      using r by (simp only: option.case has stored_receipt_decodes(1) [OF assms] binding_of_def sbind_slift simp_thms
        if_False build_binding.simps)
  qed (simp add: capture_fails_def)
qed

end

section \<open>Removing inherited receipts\<close>

definition is_receipt :: "point \<Rightarrow> bool" where
  "is_receipt p \<longleftrightarrow> jget (pt_payload p) ''record_type'' = JStr publication_record_type"

definition own_ids :: "libs \<Rightarrow> string \<Rightarrow> string option \<Rightarrow> string set" where
  "own_ids L control ancestor = {publication_point_id L control}
     \<union> (case ancestor of None \<Rightarrow> {} | Some a \<Rightarrow> if a = [] then {} else {publication_point_id L a})"

definition receipt_ids :: "view \<Rightarrow> string \<Rightarrow> string set" where
  "receipt_ids v control = pt_id ` {p \<in> set (points_of v control). is_receipt p}"

lemma shrunk_keeps:
  assumes "wf_view v" "wf_view v'" "shrunk control (own \<union> receipt_ids v control) v v'"
    and "\<not> is_receipt p" "pt_id p \<notin> own"
  shows "p \<in> set (points_of v' control) \<longleftrightarrow> p \<in> set (points_of v control)"
proof -
  have "p \<in> set (points_of v control) \<Longrightarrow> pt_id p \<notin> receipt_ids v control"
    using assms(1,4) by (auto simp: receipt_ids_def wf_view_def distinct_map inj_on_def)
  then show ?thesis using set_shrunk [OF assms(1-3)] assms(5) by blast
qed

context qdrant_reader
begin

lemma wp_receipt_pages:
  assumes "points_of (V s) control = before @ from_offset off (points_of (V s) control)"
    and "length (from_offset off (points_of (V s) control)) < b"
    and "own \<subseteq> ids" "ids \<subseteq> own \<union> receipt_ids (V s) control"
  shows "wp (receipt_pages b C control off ids)
     (\<lambda>r s'. V s' = V s \<and> own \<subseteq> r \<and> r \<subseteq> own \<union> receipt_ids (V s) control) (\<lambda>e s'. False) s"
  using assms
proof (induction b arbitrary: off before ids s)
  case (Suc b)
  let ?todo = "from_offset off (points_of (V s) control)"
  let ?Q = "\<lambda>r s'. V s' = V s \<and> own \<subseteq> r \<and> r \<subseteq> own \<union> receipt_ids (V s) control"
  let ?ids = "ids \<union> pt_id ` {p \<in> set (map (project WithAll False) (take 100 ?todo)). is_receipt p}"
  have sub: "set (take 100 ?todo) \<subseteq> set (points_of (V s) control)"
    by (subst Suc.prems(1)) (simp add: set_take_subset le_supI2)
  then have ids: "own \<subseteq> ?ids" "?ids \<subseteq> own \<union> receipt_ids (V s) control"
    using Suc.prems(3,4) by (auto simp: receipt_ids_def is_receipt_def project_whole)
  have go: "wp (case next_offset 100 ?todo of None \<Rightarrow> sret ?ids | Some o' \<Rightarrow> receipt_pages b C control (Some o') ?ids)
      ?Q (\<lambda>e s'. False) s1" if v: "V s1 = V s" for s1
  proof (cases "next_offset 100 ?todo")
    case (Some o')
    have r: "from_offset (Some o') (points_of (V s) control) = drop 100 ?todo"
      by (rule next_offset_resume [OF wf Suc.prems(1) Some])
    have pre: "points_of (V s) control = (before @ take 100 ?todo) @ drop 100 ?todo"
      unfolding append.assoc append_take_drop_id by (rule Suc.prems(1))
    have "0 < length ?todo" using Some by (cases ?todo) (simp_all add: next_offset_def)
    then have "length (drop 100 ?todo) < b" unfolding length_drop using Suc.prems(2) by linarith
    then show ?thesis
      using Suc.IH [of s1 "before @ take 100 ?todo" "Some o'" ?ids] pre ids unfolding v r by (simp only: Some option.case)
  qed (use ids v in simp)
  show ?case
    unfolding receipt_pages.simps wp_bind wp_catch
  proof (rule wp_conseq [OF scroll_law])
    fix r s1
    assume "V s1 = V s \<and> fst r = map (project WithAll False) (take 100 (from_offset off (matching (V s) control [])))
        \<and> snd r = next_offset 100 (from_offset off (matching (V s) control []))"
    then have "V s1 = V s" "r = (map (project WithAll False) (take 100 ?todo), next_offset 100 ?todo)"
      by (cases r; simp add: matching_all)+
    then show "wp (sret (Some r)) (\<lambda>x. wp (case x of None \<Rightarrow> sret ids
       | Some (records, next_page) \<Rightarrow>
           let ids' = ids \<union> pt_id ` {p \<in> set records. jget (pt_payload p) ''record_type'' = JStr publication_record_type}
           in (case next_page of None \<Rightarrow> sret ids' | Some o' \<Rightarrow> receipt_pages b C control (Some o') ids')) ?Q (\<lambda>e s'. False))
       (\<lambda>e. wp (sret None) (\<lambda>x. wp (case x of None \<Rightarrow> sret ids
       | Some (records, next_page) \<Rightarrow>
           let ids' = ids \<union> pt_id ` {p \<in> set records. jget (pt_payload p) ''record_type'' = JStr publication_record_type}
           in (case next_page of None \<Rightarrow> sret ids' | Some o' \<Rightarrow> receipt_pages b C control (Some o') ids')) ?Q (\<lambda>e s'. False)) (\<lambda>e s'. False)) s1"
      using go by (simp only: wp_ret option.case prod.case Let_def is_receipt_def)
  qed (use Suc.prems in simp_all)
qed simp

end

lemma own_ids_finite: "finite (own_ids L control ancestor)"
  by (simp add: own_ids_def split: option.split)

context qdrant_store
begin

lemma wp_delete_publication_metadata:
  assumes "map_of (v_alias (V s)) control = None"
  shows "wp (delete_publication_metadata L C control ancestor)
     (\<lambda>_ s'. shrunk control (own_ids L control ancestor \<union> receipt_ids (V s) control) (V s) (V s')
        \<and> (\<forall>p \<in> set (points_of (V s') control). pt_id p \<notin> own_ids L control ancestor))
     (\<lambda>e s'. shrunk control (own_ids L control ancestor \<union> receipt_ids (V s) control) (V s) (V s')) s"
    (is "wp _ ?Q ?E s")
  unfolding delete_publication_metadata_def wp_bind
proof (rule wp_exists)
  fix ex s1 assume e: "V s1 = V s" "map_of (v_alias (V s)) control = None \<longrightarrow> ex = (v_points (V s) control \<noteq> None)"
  let ?own = "own_ids L control ancestor"
  let ?m = "sbind (\<lambda>st. receipt_pages (cl_budget C st) C control None ?own st) (\<lambda>ids. cl_delete_ids C control (sorted_list_of_set ids))"
  have "wp (receipt_pages (cl_budget C s1) C control None ?own)
      (\<lambda>ids s'. V s' = V s1 \<and> ?own \<subseteq> ids \<and> ids \<subseteq> ?own \<union> receipt_ids (V s1) control) (\<lambda>e s'. False) s1"
    by (rule wp_receipt_pages [where before = "[]"]) (use budget [of s1 control] in simp_all)
  then have scan: "wp (\<lambda>st. receipt_pages (cl_budget C st) C control None ?own st)
      (\<lambda>ids s'. V s' = V s \<and> ?own \<subseteq> ids \<and> ids \<subseteq> ?own \<union> receipt_ids (V s) control) (\<lambda>e s'. False) s1"
    by (simp add: wp_def e)
  have run: "wp ?m ?Q ?E s1"
    unfolding wp_bind
  proof (rule wp_conseq [OF scan])
    fix ids s2 assume i: "V s2 = V s \<and> ?own \<subseteq> ids \<and> ids \<subseteq> ?own \<union> receipt_ids (V s) control"
    have "finite (?own \<union> receipt_ids (V s) control)" by (simp add: own_ids_finite receipt_ids_def)
    then have ids: "set (sorted_list_of_set ids) = ids" using i by (meson finite_subset set_sorted_list_of_set)
    show "wp (cl_delete_ids C control (sorted_list_of_set ids)) ?Q ?E s2"
    proof (rule wp_delete_ids)
      fix s3 assume u: "updated control (drop_points (set (sorted_list_of_set ids))) (V s2) (V s3)"
      have "wf_view (V s')" for s' by (simp add: wf_view_def wf)
      from set_dropped [OF this this u] have "\<forall>p \<in> set (points_of (V s3) control). pt_id p \<notin> ?own" using i ids by auto
      then show "?Q () s3" using i u unfolding shrunk_def ids by auto
    next
      fix e s3 gone assume "gone \<subseteq> set (sorted_list_of_set ids)" "updated control (drop_points gone) (V s2) (V s3)"
      then show "?E e s3" using i unfolding shrunk_def ids by auto
    qed
  qed simp
  have none: "?Q () s1" if "\<not> ex"
  proof -
    have "points_of (V s1) control = []" using that e assms by (simp add: points_of_def phys_def)
    then show ?thesis by (simp add: e(1) shrunk_refl)
  qed
  show "wp (if \<not> ex then sret () else
      let own = {publication_point_id L control} \<union> (case ancestor of None \<Rightarrow> {} | Some a \<Rightarrow> if a = [] then {} else {publication_point_id L a})
      in sbind (\<lambda>st. receipt_pages (cl_budget C st) C control None own st) (\<lambda>ids. cl_delete_ids C control (sorted_list_of_set ids))) ?Q ?E s1"
    unfolding own_ids_def [symmetric] Let_def using run none by (rule wp_unless)
qed (simp add: shrunk_refl)

end

context qdrant_publisher
begin

lemma view_wf: "wf_view (V s)"
  by (simp add: wf_view_def wf)

lemma receipt_only:
  assumes "updated control (put_points qs) (V s) (V s')" "set qs \<subseteq> {receipt_point L control st p}"
    and "pt_id q \<noteq> publication_point_id L control"
  shows "q \<in> set (points_of (V s') control) \<longleftrightarrow> q \<in> set (points_of (V s) control)"
proof -
  have i: "pt_id r = publication_point_id L control" if "r \<in> set qs" for r
    using assms(2) that by (auto simp: receipt_point_def)
  have "pt_id q \<notin> pt_id ` set qs" using i assms(3) by auto
  moreover from this have "by_id (rev qs) (pt_id q) = None" by (simp add: by_id_None)
  ultimately show ?thesis unfolding set_put [OF view_wf view_wf assms(1)] by simp
qed

lemma stored_after_write:
  assumes "map_of (v_alias (V s)) control = None" "binding_ok st control gen corpus alias" "\<forall>t. is_hex64 (JStr (lib_sha256 L t))"
    and "decode_catalog_summary (JObj c) = Inr c" "canonical_build_id (JStr bid) = Inr bid"
    and u: "updated control (put_points [receipt_point L control st (sealed_receipt L control st gen corpus bid alias c (V s))]) (V s) (V s')"
  shows "stored_receipt L control st gen corpus bid alias c (V s) (V s')"
  using assms receipt_put [OF u] by (simp add: stored_receipt_def updated_def)

lemma seal_after_write:
  assumes "binding_ok st control gen corpus alias" "phys (V s) (qdrant_collection st) \<noteq> phys (V s) control"
    and u: "updated control (put_points [receipt_point L control st p]) (V s) (V s')"
  shows "seal_now L control st gen corpus bid alias (V s') = seal_now L control st gen corpus bid alias (V s)"
    and "all_sealable L control st (V s) \<Longrightarrow> all_sealable L control st (V s')"
proof -
  let ?r = "receipt_point L control st p"
  have id: "pt_id ?r = publication_point_id L control" by (simp add: receipt_point_def)
  have ctrl: "control = qdrant_collection st @ ''__completions''" using assms(1) by (simp add: binding_ok_def)
  show "seal_now L control st gen corpus bid alias (V s') = seal_now L control st gen corpus bid alias (V s)"
    unfolding seal_now_def ctrl [symmetric] id [symmetric] by (rule content_seal_put [OF view_wf view_wf u assms(2) ctrl])
  show "all_sealable L control st (V s')" if "all_sealable L control st (V s)"
    using that sealed_put [OF view_wf view_wf u] points_of_updated [OF u assms(2)]
    unfolding all_sealable_def ctrl [symmetric] id list_all_iff by simp
qed

lemma wp_verify_and_read:
  assumes stored: "stored_receipt L control st gen corpus bid alias c v0 (V s1)" and "all_sealable L control st (V s1)"
    and "seal_now L control st gen corpus bid alias (V s1) = seal_now L control st gen corpus bid alias v0"
  shows "wp (sbind (verify_publication_seal L C control) (\<lambda>ok. sbind (read_build_binding L C control) (\<lambda>b. sret (ok, b))))
    (\<lambda>r s'. V s' = V s1 \<and> r = (True, Some (binding_of st gen corpus bid alias))) (\<lambda>e s'. V s' = V s1 \<and> store_exn e) s1"
  unfolding wp_bind
proof (rule wp_conseq [OF wp_verify_publication_seal [OF stored]])
  fix ok s2 assume ok: "V s2 = V s1 \<and> ok \<and> seal_now L control st gen corpus bid alias (V s1) = seal_now L control st gen corpus bid alias v0"
  then have st2: "stored_receipt L control st gen corpus bid alias c v0 (V s2)" using stored by simp
  show "wp (read_build_binding L C control) (\<lambda>b. wp (sret (ok, b)) (\<lambda>r s'. V s' = V s1 \<and> r = (True, Some (binding_of st gen corpus bid alias)))
      (\<lambda>e s'. V s' = V s1 \<and> store_exn e)) (\<lambda>e s'. V s' = V s1 \<and> store_exn e) s2"
    by (rule wp_conseq [OF wp_read_build_binding [OF st2]]) (use ok in auto)
next
  fix e s2
  have "qdrant_collection st @ ''__completions'' = control" using stored by (simp add: stored_receipt_def binding_ok_def)
  then have "\<not> (exn_cls e = ValueErr \<and> \<not> list_all sealable (sealed None (points_of (V s1) (qdrant_collection st))))"
    "\<not> (exn_cls e = ValueErr \<and> \<not> list_all sealable (sealed (Some (publication_point_id L control)) (points_of (V s1) control)))"
    using assms(2) by (simp_all add: all_sealable_def sealed_def)
  moreover assume "V s2 = V s1 \<and> (capture_fails None (points_of (V s1) (qdrant_collection st)) e
        \<or> capture_fails (Some (publication_point_id L control)) (points_of (V s1) control) e
        \<or> seal_now L control st gen corpus bid alias (V s1) \<noteq> seal_now L control st gen corpus bid alias v0)"
  ultimately show "V s2 = V s1 \<and> store_exn e" using assms(3) unfolding capture_fails_def by blast
qed

end

section \<open>Properties\<close>

text \<open>What writing the receipt leaves alone: the data, and every other control point.\<close>

definition only_receipt :: "libs \<Rightarrow> string \<Rightarrow> settings \<Rightarrow> view \<Rightarrow> view \<Rightarrow> bool" where
  "only_receipt L control st v v' \<longleftrightarrow> points_of v' (qdrant_collection st) = points_of v (qdrant_collection st)
     \<and> (\<forall>q. pt_id q \<noteq> publication_point_id L control \<longrightarrow> (q \<in> set (points_of v' control) \<longleftrightarrow> q \<in> set (points_of v control)))"

text \<open>C19: a receipt certifies its own build. Once the receipt is written, and the store answers, the
  build verifies against its seal at once, although the receipt lies in the sealed control
  collection, and the binding reads back as it was written; no check of the program refuses it.
  Writing changes nothing but the one receipt point, also when it fails.\<close>
theorem receipt_certifies_build:
  assumes "qdrant_publisher C V" "map_of (v_alias (V s)) control = None"
    and "phys (V s) (qdrant_collection st) \<noteq> phys (V s) control" "binding_ok st control gen corpus alias"
    and "\<forall>t. is_hex64 (JStr (lib_sha256 L t))"
  shows "wp (write_publication_metadata L C control st gen corpus bid alias cat)
     (\<lambda>_ s1. only_receipt L control st (V s) (V s1)
        \<and> wp (sbind (verify_publication_seal L C control) (\<lambda>ok. sbind (read_build_binding L C control) (\<lambda>b. sret (ok, b))))
            (\<lambda>r s'. V s' = V s1 \<and> r = (True, Some (binding_of st gen corpus bid alias)))
            (\<lambda>e s'. V s' = V s1 \<and> store_exn e) s1)
     (\<lambda>e s'. only_receipt L control st (V s) (V s')) s"
proof (rule wp_conseq [OF qdrant_publisher.wp_write_publication_metadata [OF assms(1)]])
  fix u s1
  assume "\<exists>c. cat = JObj c \<and> decode_catalog_summary cat = Inr c \<and> canonical_build_id (JStr bid) = Inr bid \<and> alias \<noteq> []
    \<and> all_sealable L control st (V s)
    \<and> updated control (put_points [receipt_point L control st (sealed_receipt L control st gen corpus bid alias c (V s))]) (V s) (V s1)"
  then obtain c where c: "decode_catalog_summary (JObj c) = Inr c" "canonical_build_id (JStr bid) = Inr bid"
      "all_sealable L control st (V s)"
    and u: "updated control (put_points [receipt_point L control st (sealed_receipt L control st gen corpus bid alias c (V s))]) (V s) (V s1)"
    by auto
  have "only_receipt L control st (V s) (V s1)"
    using qdrant_publisher.receipt_only [OF assms(1) u] points_of_updated [OF u assms(3)] by (simp add: only_receipt_def)
  moreover have "stored_receipt L control st gen corpus bid alias c (V s) (V s1)"
    by (rule qdrant_publisher.stored_after_write [OF assms(1,2,4,5) c(1,2) u])
  ultimately show "only_receipt L control st (V s) (V s1)
    \<and> wp (sbind (verify_publication_seal L C control) (\<lambda>ok. sbind (read_build_binding L C control) (\<lambda>b. sret (ok, b))))
            (\<lambda>r s'. V s' = V s1 \<and> r = (True, Some (binding_of st gen corpus bid alias)))
            (\<lambda>e s'. V s' = V s1 \<and> store_exn e) s1"
    using qdrant_publisher.wp_verify_and_read [OF assms(1)] qdrant_publisher.seal_after_write [OF assms(1,4,3) u] c(3) by blast
next
  fix e s'
  assume "\<exists>qs p. set qs \<subseteq> {receipt_point L control st p} \<and> updated control (put_points qs) (V s) (V s')"
  then show "only_receipt L control st (V s) (V s')"
    using qdrant_publisher.receipt_only [OF assms(1)] points_of_updated [OF _ assms(3)] by (auto simp: only_receipt_def)
qed

definition demo_summary :: payload where
  "demo_summary = [(''schema'', JInt 1), (''count'', JInt 1), (''sha256'', JStr (replicate 64 (CHR ''0'')))]"

lemma demo_receipt_facts:
  "decode_catalog_summary (JObj demo_summary) = Inr demo_summary"
  "canonical_build_id (JStr ''0123abcd-0000-4000-8000-00000000000f'') = Inr ''0123abcd-0000-4000-8000-00000000000f''"
  "binding_ok (demo_settings ''gen1'') ''gen1__completions'' ''g'' ''c'' ''live''"
  by (simp_all add: decode_catalog_summary_def demo_summary_def has_keys_def is_hex64_def is_hex_lower_def list_all_iff
      catalog_schema_def insert_commute canonical_build_id_def is_canonical_uuid_def is_nil_uuid_def
      binding_ok_def strip_def lstrip_def rstrip_def is_space_def)

lemma receipt_certifies_build_witness:
  "wp (write_publication_metadata hex_libs mem_client ''gen1__completions'' (demo_settings ''gen1'') ''g'' ''c''
         ''0123abcd-0000-4000-8000-00000000000f'' ''live'' (JObj demo_summary))
     (\<lambda>_. wp (sbind (verify_publication_seal hex_libs mem_client ''gen1__completions'')
                (\<lambda>ok. sbind (read_build_binding hex_libs mem_client ''gen1__completions'') (\<lambda>b. sret (ok, b))))
            (\<lambda>r s'. r = (True, Some (binding_of (demo_settings ''gen1'') ''g'' ''c'' ''0123abcd-0000-4000-8000-00000000000f'' ''live'')))
            (\<lambda>e s'. store_exn e))
     (\<lambda>e s'. True) catalog_mem"
proof -
  let ?v = "mem_view catalog_mem" and ?c = "''gen1__completions''"
  have al: "map_of (v_alias ?v) ?c = None" and ph: "phys ?v (qdrant_collection (demo_settings ''gen1'')) \<noteq> phys ?v ?c"
    by (simp_all add: mem_view_def catalog_mem_def phys_def)
  have hex: "\<forall>t. is_hex64 (JStr (lib_sha256 hex_libs t))" by (simp add: hex64_zero)
  show ?thesis
    by (rule wp_conseq [OF receipt_certifies_build [OF mem_publisher.qdrant_publisher_axioms al ph demo_receipt_facts(3) hex]])
       (auto elim: wp_conseq)
qed

text \<open>A verified build is the build that was sealed. When the seal of a stored receipt verifies,
  the build holds exactly the data points, and the control points apart from the receipt, that it
  held when the receipt was written, for a hash that tells the texts apart; the check only reads.\<close>
theorem verified_build_unchanged:
  assumes "qdrant_finishes C V" "stored_receipt L control st gen corpus bid alias cat v0 (V s)"
    and "points_apart L (points_of (V s) (qdrant_collection st)) (points_of v0 (qdrant_collection st))"
    and "points_apart L (points_of (V s) control) (points_of v0 control)"
    and "tells_apart L (root_text L [bid, alias, qdrant_collection st, gen, corpus] ''data'' None (points_of (V s) (qdrant_collection st)))
        (root_text L [bid, alias, qdrant_collection st, gen, corpus] ''data'' None (points_of v0 (qdrant_collection st)))"
    and "tells_apart L (root_text L [bid, alias, qdrant_collection st, gen, corpus] ''control'' (Some (publication_point_id L control)) (points_of (V s) control))
        (root_text L [bid, alias, qdrant_collection st, gen, corpus] ''control'' (Some (publication_point_id L control)) (points_of v0 control))"
  shows "wp (verify_publication_seal L C control)
     (\<lambda>ok s'. V s' = V s \<and> ok
        \<and> set (points_of (V s) (qdrant_collection st)) = set (points_of v0 (qdrant_collection st))
        \<and> {p \<in> set (points_of (V s) control). pt_id p \<noteq> publication_point_id L control}
          = {p \<in> set (points_of v0 control). pt_id p \<noteq> publication_point_id L control})
     (\<lambda>e s'. V s' = V s) s"
proof (rule wp_conseq [OF qdrant_finishes.wp_verify_publication_seal [OF assms(1,2)]])
  fix ok s'
  have ctrl: "qdrant_collection st @ ''__completions'' = control" using assms(2) by (simp add: stored_receipt_def binding_ok_def)
  assume "V s' = V s \<and> ok \<and> seal_now L control st gen corpus bid alias (V s) = seal_now L control st gen corpus bid alias v0"
  then have "V s' = V s \<and> ok" and same: "seal_now L control st gen corpus bid alias (V s) = seal_now L control st gen corpus bid alias v0"
    by blast+
  moreover note seal_binds_content' [OF same [unfolded seal_now_def ctrl] assms(3-6)]
  ultimately show "V s' = V s \<and> ok
      \<and> set (points_of (V s) (qdrant_collection st)) = set (points_of v0 (qdrant_collection st))
      \<and> {p \<in> set (points_of (V s) control). pt_id p \<noteq> publication_point_id L control}
        = {p \<in> set (points_of v0 control). pt_id p \<noteq> publication_point_id L control}" by blast
qed blast

definition sealed_mem :: mem where
  "sealed_mem = catalog_mem\<lparr>mem_colls := [(''gen1'', []), (''gen1__completions'',
     [receipt_point hex_libs ''gen1__completions'' (demo_settings ''gen1'')
       (sealed_receipt hex_libs ''gen1__completions'' (demo_settings ''gen1'') ''g'' ''c'' ''0123abcd-0000-4000-8000-00000000000f'' ''live''
          demo_summary (mem_view catalog_mem))])]\<rparr>"

lemma sealed_mem_facts:
  "leaves_of hex_libs (Some (publication_point_id hex_libs ''gen1__completions'')) (points_of (mem_view sealed_mem) ''gen1__completions'') = []"
  "points_of (mem_view sealed_mem) ''gen1'' = []" "points_of (mem_view catalog_mem) n = []"
  "stored_receipt hex_libs ''gen1__completions'' (demo_settings ''gen1'') ''g'' ''c'' ''0123abcd-0000-4000-8000-00000000000f'' ''live''
     demo_summary (mem_view catalog_mem) (mem_view sealed_mem)"
proof -
  show "points_of (mem_view sealed_mem) ''gen1'' = []" "points_of (mem_view catalog_mem) n = []"
    by (simp_all add: points_of_def phys_def mem_view_def sealed_mem_def catalog_mem_def)
  have pts: "points_of (mem_view sealed_mem) ''gen1__completions'' =
    [receipt_point hex_libs ''gen1__completions'' (demo_settings ''gen1'')
       (sealed_receipt hex_libs ''gen1__completions'' (demo_settings ''gen1'') ''g'' ''c'' ''0123abcd-0000-4000-8000-00000000000f'' ''live''
          demo_summary (mem_view catalog_mem))]"
    by (simp add: points_of_def phys_def mem_view_def sealed_mem_def catalog_mem_def)
  then show "leaves_of hex_libs (Some (publication_point_id hex_libs ''gen1__completions'')) (points_of (mem_view sealed_mem) ''gen1__completions'') = []"
    by (simp add: leaves_of_def sealed_def receipt_point_def)
  from pts have "receipt_of hex_libs (mem_view sealed_mem) ''gen1__completions'' =
    Some (sealed_receipt hex_libs ''gen1__completions'' (demo_settings ''gen1'') ''g'' ''c'' ''0123abcd-0000-4000-8000-00000000000f'' ''live''
          demo_summary (mem_view catalog_mem))"
    by (simp add: receipt_of_def by_id_def receipt_point_def)
  moreover have "v_alias (mem_view sealed_mem) = []" by (simp add: mem_view_def sealed_mem_def catalog_mem_def)
  ultimately show "stored_receipt hex_libs ''gen1__completions'' (demo_settings ''gen1'') ''g'' ''c'' ''0123abcd-0000-4000-8000-00000000000f'' ''live''
     demo_summary (mem_view catalog_mem) (mem_view sealed_mem)"
    using demo_receipt_facts hex64_zero by (simp add: stored_receipt_def)
qed

lemma verified_build_unchanged_witness:
  "wp (verify_publication_seal hex_libs mem_client ''gen1__completions'') (\<lambda>ok s'. ok) (\<lambda>e s'. mem_view s' = mem_view sealed_mem) sealed_mem"
proof -
  have len: "length (raw_digest (lib_sha256 hex_libs t)) = 32" for t by (simp add: hex_libs_def numeral_eq_Suc)
  have none: "leaves_of L x [] = []" for L x by (simp add: leaves_of_def sealed_def)
  show ?thesis
    by (rule wp_conseq [OF verified_build_unchanged [OF mem_finishes.qdrant_finishes_axioms sealed_mem_facts(4)]])
       (auto simp: points_apart_def sealed_mem_facts len tells_apart_def root_text_def none)
qed

text \<open>Preparing a staging build removes receipts and nothing else. Of the control points, only
  publication receipts and the points with the receipt ids of this build and its ancestor can go,
  even when the call fails halfway; markers and the manifest stay. When it succeeds, no point with
  those two ids is left, so the build reads as unsealed.\<close>
theorem receipts_removed_only:
  assumes "qdrant_store C V" "map_of (v_alias (V s)) control = None"
  shows "wp (delete_publication_metadata L C control ancestor)
     (\<lambda>_ s'. receipt_of L (V s') control = None
        \<and> (\<forall>p. \<not> is_receipt p \<and> pt_id p \<notin> own_ids L control ancestor \<longrightarrow>
              (p \<in> set (points_of (V s') control) \<longleftrightarrow> p \<in> set (points_of (V s) control))))
     (\<lambda>e s'. \<forall>p. \<not> is_receipt p \<and> pt_id p \<notin> own_ids L control ancestor \<longrightarrow>
              (p \<in> set (points_of (V s') control) \<longleftrightarrow> p \<in> set (points_of (V s) control))) s"
proof -
  have wfv: "wf_view (V s')" for s'
    using qdrant_reader.wf [OF qdrant_store.axioms(1) [OF assms(1)]] by (simp add: wf_view_def)
  have own: "publication_point_id L control \<in> own_ids L control ancestor" by (simp add: own_ids_def)
  show ?thesis
    by (rule wp_conseq [OF qdrant_store.wp_delete_publication_metadata [OF assms]])
       (use own shrunk_keeps [OF wfv wfv] in \<open>auto simp: receipt_of_def by_id_None\<close>)
qed

lemma receipts_removed_only_witness:
  "wp (delete_publication_metadata hex_libs mem_client ''gen1__completions'' None)
     (\<lambda>_ s'. receipt_of hex_libs (mem_view s') ''gen1__completions'' = None) (\<lambda>e s'. True) sealed_mem"
proof -
  have "map_of (v_alias (mem_view sealed_mem)) ''gen1__completions'' = None"
    by (simp add: mem_view_def sealed_mem_def catalog_mem_def)
  then show ?thesis by (intro wp_conseq [OF receipts_removed_only [OF mem.qdrant_store_axioms]]) auto
qed

end
