(* ===== verification/Inventory.thy ===== *)
theory Inventory
  imports Identity "HOL-Library.AList"
begin

text \<open>
  The progress log (\<open>mainframe_rag/ingest/inventory.py\<close>), one JSON object per line, and the
  opt-in size bounds (\<open>mainframe_rag/ingest/bounds.py\<close>). The pydantic codec of a record is a
  pair of parameters: \<open>dump\<close> writes a record, \<open>parse\<close> reads a line or rejects it.
\<close>

section \<open>The progress log\<close>

record inv_record =
  inv_path :: string
  inv_sha256 :: string
  inv_doc_id :: "string option"
  inv_pages :: int
  inv_chunks :: int
  inv_status :: string
  inv_seconds :: string
  inv_error :: "string option"
  inv_error_type :: "string option"
  inv_rules_version :: "string option"
  inv_generation_id :: "string option"
  inv_chunk_ids_digest :: "string option"
  inv_content_digest :: "string option"
  inv_manifest_digest :: "string option"
  inv_source_rev :: "string option"
  inv_finished_at :: string

type_synonym inventory = "(string \<times> inv_record) list"

text \<open>
  \<open>str.splitlines\<close> on the UTF-8 bytes: the length of the line boundary a text starts with, and
  the lines. The boundaries are LF, VT, FF, CR, CR LF, FS, GS, RS, NEL, and the two Unicode
  separators.
\<close>

definition break_len :: "string \<Rightarrow> nat" where
  "break_len s =
     (case s of
        [] \<Rightarrow> 0
      | c # r \<Rightarrow>
          if c = CHR 0x0D \<and> take 1 r = [CHR 0x0A] then 2
          else if c \<in> {CHR 0x0A, CHR 0x0B, CHR 0x0C, CHR 0x0D, CHR 0x1C, CHR 0x1D, CHR 0x1E} then 1
          else if c = CHR 0xC2 \<and> take 1 r = [CHR 0x85] then 2
          else if c = CHR 0xE2 \<and> (take 2 r = [CHR 0x80, CHR 0xA8] \<or> take 2 r = [CHR 0x80, CHR 0xA9]) then 3
          else 0)"

function splitlines_acc :: "string \<Rightarrow> string \<Rightarrow> string list" where
  "splitlines_acc acc [] = (if acc = [] then [] else [rev acc])"
| "splitlines_acc acc (c # s) =
     (case break_len (c # s) of
        0 \<Rightarrow> splitlines_acc (c # acc) s
      | Suc k \<Rightarrow> rev acc # splitlines_acc [] (drop k s))"
  by pat_completeness auto
termination by (relation "measure (\<lambda>(acc, s). length s)") auto

definition splitlines :: "string \<Rightarrow> string list" where
  "splitlines s = splitlines_acc [] s"

definition load_line :: "(string \<Rightarrow> inv_record option) \<Rightarrow> string \<Rightarrow> inventory \<Rightarrow> inventory" where
  "load_line parse line latest =
     (if strip line = [] then latest
      else case parse (strip line) of None \<Rightarrow> latest | Some r \<Rightarrow> AList.update (inv_path r) r latest)"

text \<open>\<open>read_text(encoding="utf-8")\<close> raises on bytes that are not UTF-8.\<close>

definition cont_byte :: "char \<Rightarrow> bool" where
  "cont_byte c \<longleftrightarrow> CHR 0x80 \<le> c \<and> c \<le> CHR 0xBF"

text \<open>What follows the first encoded character, and the decoding of a whole text.\<close>

definition utf8_tail :: "string \<Rightarrow> string option" where
  "utf8_tail t =
     (case t of
        a # s \<Rightarrow>
          if a \<le> CHR 0x7F then Some s
          else (case s of
            b # s1 \<Rightarrow>
              if \<not> cont_byte b then None
              else if CHR 0xC2 \<le> a \<and> a \<le> CHR 0xDF then Some s1
              else (case s1 of
                c # s2 \<Rightarrow>
                  if \<not> cont_byte c then None
                  else if CHR 0xE0 \<le> a \<and> a \<le> CHR 0xEF
                  then (if (a = CHR 0xE0 \<longrightarrow> CHR 0xA0 \<le> b) \<and> (a = CHR 0xED \<longrightarrow> b \<le> CHR 0x9F) then Some s2 else None)
                  else (case s2 of
                    d # s3 \<Rightarrow>
                      if cont_byte d \<and> CHR 0xF0 \<le> a \<and> a \<le> CHR 0xF4 \<and> (a = CHR 0xF0 \<longrightarrow> CHR 0x90 \<le> b)
                         \<and> (a = CHR 0xF4 \<longrightarrow> b \<le> CHR 0x8F)
                      then Some s3 else None
                  | [] \<Rightarrow> None)
              | [] \<Rightarrow> None)
          | [] \<Rightarrow> None)
      | [] \<Rightarrow> None)"

lemma utf8_tail_shape:
  obtains "t = []" | a where "t = [a]" | a b where "t = [a, b]" | a b c where "t = [a, b, c]" | a b c d y where "t = a # b # c # d # y"
  by (metis list.exhaust)

lemma utf8_tail_append: "utf8_tail t = Some r \<Longrightarrow> utf8_tail (t @ u) = Some (r @ u)"
  by (rule utf8_tail_shape [of t]) (auto simp: utf8_tail_def split: if_splits)

lemma utf8_tail_shorter: "utf8_tail t = Some r \<Longrightarrow> length r < length t"
  by (rule utf8_tail_shape [of t]) (auto simp: utf8_tail_def split: if_splits)

function utf8_ok :: "string \<Rightarrow> bool" where
  "utf8_ok t = (if t = [] then True else case utf8_tail t of None \<Rightarrow> False | Some r \<Rightarrow> utf8_ok r)"
  by pat_completeness auto
termination by (relation "measure length") (auto dest: utf8_tail_shorter)

declare utf8_ok.simps [simp del]

definition load_inventory :: "(string \<Rightarrow> inv_record option) \<Rightarrow> string option \<Rightarrow> inventory res" where
  "load_inventory parse file =
     (case file of
        None \<Rightarrow> Inr []
      | Some t \<Rightarrow> if \<not> utf8_ok t then raise_exn ValueErr ''invalid_utf8'' []
                  else Inr (fold (load_line parse) (splitlines t) []))"

definition append_record :: "(inv_record \<Rightarrow> string) \<Rightarrow> string option \<Rightarrow> inv_record \<Rightarrow> string option" where
  "append_record dump file r = Some ((case file of None \<Rightarrow> [] | Some t \<Rightarrow> t) @ dump r @ [CHR 0x0A])"

definition should_skip :: "inv_record option \<Rightarrow> string \<Rightarrow> bool \<Rightarrow> string option \<Rightarrow> bool \<Rightarrow> bool" where
  "should_skip r sha256 allow_dry rules_version force_reingest =
     (if force_reingest then False
      else case r of
        None \<Rightarrow> False
      | Some r \<Rightarrow>
          if inv_sha256 r \<noteq> sha256 then False
          else if inv_rules_version r \<noteq> rules_version then False
          else inv_status r = ''upserted'' \<or> (allow_dry \<and> inv_status r = ''dry''))"

section \<open>Size bounds\<close>

text \<open>The loop keeps the largest size and counts those over the limit; sizes count characters.\<close>

definition embed_bound_step :: "int \<Rightarrow> int \<Rightarrow> int \<times> nat \<Rightarrow> int \<times> nat" where
  "embed_bound_step limit len' acc = (max (fst acc) len', if limit < len' then Suc (snd acc) else snd acc)"

definition require_embed_inputs_within :: "int list \<Rightarrow> int \<Rightarrow> int \<Rightarrow> unit res" where
  "require_embed_inputs_within lens limit extra =
     (if limit \<le> 0 then Inr ()
      else let (largest, over) = fold (\<lambda>n. embed_bound_step limit (n + extra)) lens (0, 0)
           in if over \<noteq> 0 then raise_exn BoundErr ''embed_input_too_large'' [JInt limit, JInt largest, JInt (int over)]
              else Inr ())"

definition require_document_within :: "string \<Rightarrow> int \<Rightarrow> int \<Rightarrow> unit res" where
  "require_document_within dimension actual limit =
     (if 0 < limit \<and> limit < actual then raise_exn BoundErr ''document_too_large'' [JStr dimension, JInt limit, JInt actual]
      else Inr ())"

section \<open>Lines\<close>

lemma break_len_local: "break_len (x @ CHR 0x0A # u) = break_len (x @ [CHR 0x0A])"
proof -
  consider "x = []" | a where "x = [a]" | a b where "x = [a, b]" | a b c y where "x = a # b # c # y"
    by (metis list.exhaust)
  then show ?thesis by cases (simp_all add: break_len_def)
qed

lemma break_len_le: "break_len s \<le> length s"
proof -
  consider "s = []" | a where "s = [a]" | a b where "s = [a, b]" | a b c y where "s = a # b # c # y"
    by (metis list.exhaust)
  then show ?thesis by cases (auto simp: break_len_def)
qed

lemma splitlines_newline:
  "splitlines_acc acc (t @ CHR 0x0A # u) = splitlines_acc acc (t @ [CHR 0x0A]) @ splitlines u"
proof (induction "length t" arbitrary: acc t rule: less_induct)
  case less
  show ?case
  proof (cases t)
    case Nil
    then show ?thesis by (simp add: break_len_def splitlines_def)
  next
    case (Cons c t')
    have b: "break_len (c # t' @ CHR 0x0A # u) = break_len (c # t' @ [CHR 0x0A])"
      using break_len_local [of "c # t'" u] by simp
    show ?thesis
    proof (cases "break_len (c # t' @ [CHR 0x0A])")
      case 0
      then show ?thesis using less [of t' "c # acc"] b by (simp add: Cons)
    next
      case (Suc k)
      then have "k \<le> Suc (length t')" using break_len_le [of "c # t' @ [CHR 0x0A]"] by simp
      then consider "k \<le> length t'" | "k = Suc (length t')" by linarith
      then show ?thesis
      proof cases
        case 1
        then show ?thesis using less [of "drop k t'" "[]"] b Suc by (simp add: Cons)
      next
        case 2
        then show ?thesis using b Suc by (simp add: Cons splitlines_def)
      qed
    qed
  qed
qed

text \<open>A text without line boundaries, also when its last bytes meet a line feed.\<close>

definition one_line :: "string \<Rightarrow> bool" where
  "one_line s \<longleftrightarrow> splitlines (s @ [CHR 0x0A]) = [s] \<and> splitlines s = (if s = [] then [] else [s])"

definition closed_log :: "string \<Rightarrow> bool" where
  "closed_log t \<longleftrightarrow> t = [] \<or> last t = CHR 0x0A"

lemma splitlines_closed:
  assumes "closed_log t"
  shows "splitlines (t @ u) = splitlines t @ splitlines u"
proof (cases "t = []")
  case True
  then show ?thesis by (simp add: splitlines_def)
next
  case False
  then obtain t' where "t = t' @ [CHR 0x0A]"
    using assms by (metis append_butlast_last_id closed_log_def)
  then show ?thesis using splitlines_newline [of "[]" t' u] by (simp add: splitlines_def)
qed

lemma utf8_ok_append: "utf8_ok t \<Longrightarrow> utf8_ok (t @ u) \<longleftrightarrow> utf8_ok u"
proof (induction t rule: utf8_ok.induct)
  case (1 t)
  show ?case
  proof (cases "t = []")
    case False
    then obtain r where r: "utf8_tail t = Some r" "utf8_ok r"
      using "1.prems" by (subst (asm) utf8_ok.simps) (auto split: option.splits)
    then show ?thesis
      using "1.IH" [OF False r(1)] False utf8_tail_append [OF r(1)] by (subst utf8_ok.simps) simp
  qed simp
qed

lemma utf8_ok_ascii: "\<forall>c \<in> set t. c \<le> CHR 0x7F \<Longrightarrow> utf8_ok t"
  by (induction t) (subst utf8_ok.simps; simp add: utf8_tail_def)+

lemma load_closed:
  assumes "closed_log t" "utf8_ok t"
  shows "load_inventory parse (Some (t @ u)) =
    (if utf8_ok u then Inr (fold (load_line parse) (splitlines u) (fold (load_line parse) (splitlines t) []))
     else raise_exn ValueErr ''invalid_utf8'' [])"
  using assms by (simp add: load_inventory_def utf8_ok_append splitlines_closed)

section \<open>Properties\<close>

lemma inventory_log_parts:
  assumes log: "closed_log t" "utf8_ok t" "load_inventory parse (Some t) = Inr old"
    and r: "parse (dump r) = Some r" "strip (dump r) = dump r" "dump r \<noteq> []" "one_line (dump r)" "utf8_ok (dump r)"
    and torn: "one_line torn" "utf8_ok torn" "parse (strip torn) = None"
    and joined: "one_line (torn @ dump r)" "parse (strip (torn @ dump r)) = None"
    and halved: "\<not> utf8_ok half"
  shows "load_inventory parse (append_record dump (Some t) r) = Inr (AList.update (inv_path r) r old)"
    and "load_inventory parse (Some (t @ torn)) = Inr old"
    and "load_inventory parse (Some (t @ half)) = raise_exn ValueErr ''invalid_utf8'' []"
    and "load_inventory parse (append_record dump (Some (t @ torn)) r) = Inr old"
proof -
  have old: "old = fold (load_line parse) (splitlines t) []" using log by (simp add: load_inventory_def)
  have lf: "utf8_ok [CHR 0x0A]" by (rule utf8_ok_ascii) (simp add: less_eq_char_def)
  have "utf8_ok (dump r @ [CHR 0x0A])" using r(5) lf by (simp only: utf8_ok_append)
  moreover have "fold (load_line parse) (splitlines (dump r @ [CHR 0x0A])) old = AList.update (inv_path r) r old"
    using r by (simp add: one_line_def load_line_def)
  ultimately show "load_inventory parse (append_record dump (Some t) r) = Inr (AList.update (inv_path r) r old)"
    by (simp add: append_record_def load_closed [OF log(1,2)] old [symmetric])
  show "load_inventory parse (Some (t @ torn)) = Inr old"
    using torn by (auto simp: load_closed [OF log(1,2)] old [symmetric] one_line_def load_line_def)
  show "load_inventory parse (Some (t @ half)) = raise_exn ValueErr ''invalid_utf8'' []"
    using halved by (simp add: load_closed [OF log(1,2)])
  have "utf8_ok (torn @ dump r @ [CHR 0x0A])" using torn(2) r(5) lf by (simp only: utf8_ok_append)
  moreover have "fold (load_line parse) (splitlines (torn @ dump r @ [CHR 0x0A])) old = old"
    using joined by (simp add: one_line_def load_line_def)
  ultimately show "load_inventory parse (append_record dump (Some (t @ torn)) r) = Inr old"
    by (simp add: append_record_def load_closed [OF log(1,2)] old [symmetric])
qed


definition demo_record :: inv_record where
  "demo_record = \<lparr>inv_path = ''a.pdf'', inv_sha256 = ''abc'', inv_doc_id = Some ''C'', inv_pages = 1, inv_chunks = 1,
     inv_status = ''upserted'', inv_seconds = ''0.1'', inv_error = None, inv_error_type = None, inv_rules_version = Some ''r1'',
     inv_generation_id = None, inv_chunk_ids_digest = None, inv_content_digest = None, inv_manifest_digest = None,
     inv_source_rev = Some ''rev'', inv_finished_at = ''1.0''\<rparr>"

definition demo_parse :: "string \<Rightarrow> inv_record option" where
  "demo_parse t = (if t = ''{1}'' then Some demo_record else None)"


text \<open>The size bound refuses exactly the batches with an input over it, and reports the largest.\<close>
theorem embed_bound_exact:
  "require_embed_inputs_within lens limit extra =
     (if 0 < limit \<and> (\<exists>n \<in> set lens. limit < n + extra)
      then raise_exn BoundErr ''embed_input_too_large''
        [JInt limit, JInt (Max (insert 0 ((\<lambda>n. n + extra) ` set lens))), JInt (int (length (filter (\<lambda>n. limit < n + extra) lens)))]
      else Inr ())"
proof -
  have "Max (insert (max m a) A) = Max (insert m (insert a A))" if "finite A" for m a and A :: "int set"
    using that by (cases "A = {}") (simp_all add: max.assoc)
  then have f: "fold (\<lambda>n. embed_bound_step limit (n + extra)) lens (m, k) =
    (Max (insert m ((\<lambda>n. n + extra) ` set lens)), k + length (filter (\<lambda>n. limit < n + extra) lens))" for m k
    by (induction lens arbitrary: m k) (simp_all add: embed_bound_step_def del: Max_insert)
  have "length (filter (\<lambda>n. limit < n + extra) lens) = 0 \<longleftrightarrow> \<not> (\<exists>n \<in> set lens. limit < n + extra)"
    by (auto simp: filter_empty_conv)
  then show ?thesis by (simp add: require_embed_inputs_within_def f)
qed

end
