(* ===== verification/Coverage.thy ===== *)
theory Coverage
  imports Receipt Inventory
begin

text \<open>
  The gate in front of the alias swap (\<open>verify_searchable_coverage\<close>, \<open>verify_all_complete\<close>
  and \<open>audit_unmarked_residue\<close> of \<open>mainframe_rag/ingest/publish.py\<close>): every walked document
  verifies, and every searchable point belongs to a verified walked revision.
\<close>

section \<open>Walked revisions\<close>

text \<open>\<open>if not value\<close> of an optional text.\<close>

definition opt_text :: "string option \<Rightarrow> string option" where
  "opt_text v = (case v of None \<Rightarrow> None | Some t \<Rightarrow> if t = [] then None else Some t)"

definition inv_finished :: "inv_record \<Rightarrow> bool" where
  "inv_finished r \<longleftrightarrow> inv_status r \<in> {''upserted'', ''skipped''}"

text \<open>The document and revision an entry of the walk is recorded under, if its record is current.\<close>

definition walked_revision :: "inventory \<Rightarrow> string \<Rightarrow> string \<times> string \<Rightarrow> (string \<times> string) option" where
  "walked_revision inventory rules_v entry =
     (case map_of inventory (fst entry) of
        None \<Rightarrow> None
      | Some r \<Rightarrow>
          if inv_sha256 r \<noteq> snd entry \<or> inv_rules_version r \<noteq> Some rules_v \<or> \<not> inv_finished r then None
          else (case (opt_text (inv_doc_id r), opt_text (inv_source_rev r)) of
            (Some d, Some v) \<Rightarrow> Some (d, v)
          | _ \<Rightarrow> None))"

definition valid_pairs :: "(string \<times> string) list \<Rightarrow> inventory \<Rightarrow> string \<Rightarrow> (string \<times> string) set" where
  "valid_pairs walked inventory rules_v = set (List.map_filter (walked_revision inventory rules_v) walked)"

section \<open>The audit of the stored points\<close>

definition is_point_retired :: "json \<Rightarrow> json \<Rightarrow> string set \<Rightarrow> retire_plan option \<Rightarrow> bool" where
  "is_point_retired doc source_rev retired plan =
     (case doc of
        JStr d \<Rightarrow>
          if d = [] \<or> d \<notin> retired then False
          else (case (case plan of None \<Rightarrow> None | Some pl \<Rightarrow> map_of pl d) of
                  None \<Rightarrow> True
                | Some entry \<Rightarrow>
                    if re_whole entry then True
                    else (case source_rev of JStr r \<Rightarrow> r \<in> re_revs entry | _ \<Rightarrow> False))
      | _ \<Rightarrow> False)"

definition retired_still_present :: "'s client \<Rightarrow> settings \<Rightarrow> string \<Rightarrow> (string \<times> string) set \<Rightarrow> ('s, remark) eff" where
  "retired_still_present C s doc valid =
     sbind (stored_doc_revisions C s doc) (\<lambda>remaining.
       let named = sorted_list_of_set {r \<in> named_revisions remaining. (doc, r) \<notin> valid}
       in sret (if named \<noteq> []
          then Remark ''retired_still_present'' [JStr (qdrant_collection s), JStr doc, JList (map JStr named)]
          else Remark ''retired_without_revision'' [JStr (qdrant_collection s), JStr doc]))"

text \<open>Membership in a set of pairs hashes the pair: a list or dict in it is a TypeError.\<close>

fun hashable :: "json \<Rightarrow> bool" where
  "hashable (JList _) = False"
| "hashable (JObj _) = False"
| "hashable _ = True"

definition pair_in :: "json \<Rightarrow> json \<Rightarrow> (string \<times> string) set \<Rightarrow> bool" where
  "pair_in doc source_rev valid = (case (doc, source_rev) of (JStr d, JStr r) \<Rightarrow> (d, r) \<in> valid | _ \<Rightarrow> False)"

definition doc_in :: "json \<Rightarrow> string set \<Rightarrow> bool" where
  "doc_in doc retired = (case doc of JStr d \<Rightarrow> d \<in> retired | _ \<Rightarrow> False)"

fun audit_points ::
    "'s client \<Rightarrow> settings \<Rightarrow> (string \<times> string) set \<Rightarrow> string set \<Rightarrow> string set \<Rightarrow> retire_plan option
       \<Rightarrow> point list \<Rightarrow> nat \<Rightarrow> string list \<Rightarrow> ('s, remark list) eff" where
  "audit_points C s valid retired pending plan [] residue sample =
     sret (if residue \<noteq> 0
           then [Remark ''unmarked_residue'' [JStr (qdrant_collection s), JInt (int residue), JList (map JStr sample)]]
           else [])"
| "audit_points C s valid retired pending plan (p # ps) residue sample =
     (let doc = jget (pt_payload p) ''doc_id''; source_rev = jget (pt_payload p) ''source_rev''
      in if \<not> hashable doc \<or> \<not> hashable source_rev then sraise (Exn TypeErr ''unhashable'' [])
         else if pair_in doc source_rev valid then audit_points C s valid retired pending plan ps residue sample
         else if doc_in doc retired then sbind (retired_still_present C s (str_of doc) valid) (\<lambda>r. sret [r])
         else if is_point_retired doc source_rev pending plan then audit_points C s valid retired pending plan ps residue sample
         else audit_points C s valid retired pending plan ps (Suc residue)
                (if length sample < 3 then sample @ [pt_id p] else sample))"

definition audit_unmarked_residue ::
    "'s client \<Rightarrow> settings \<Rightarrow> (string \<times> string) list \<Rightarrow> inventory \<Rightarrow> string \<Rightarrow> string set \<Rightarrow> retire_plan option
       \<Rightarrow> string set \<Rightarrow> ('s, remark list) eff" where
  "audit_unmarked_residue C s walked inventory rules_v retired plan pending =
     sbind (cl_exists C (qdrant_collection s)) (\<lambda>ex.
     if \<not> ex then sret []
     else sbind (scroll_all_points C (qdrant_collection s) [] (WithFields [''doc_id'', ''source_rev'', ''sha256''])
                   (ingest_scan_page_size s)) (\<lambda>ps.
       audit_points C s (valid_pairs walked inventory rules_v) retired pending plan ps 0 []))"

section \<open>The gate\<close>

definition check_walked ::
    "libs \<Rightarrow> 's client \<Rightarrow> settings \<Rightarrow> inventory \<Rightarrow> string \<Rightarrow> string \<Rightarrow> string \<times> string \<Rightarrow> remark list \<Rightarrow> ('s, remark list) eff" where
  "check_walked L C s inventory rules_v src_labels entry problems =
     (let problem = problems @ [Remark ''path'' [JStr (fst entry)]]
      in case walked_revision inventory rules_v entry of
        None \<Rightarrow> sret problem
      | Some (doc, rev') \<Rightarrow>
          sbind (is_doc_complete L C s doc (snd entry) rules_v src_labels rev' None) (\<lambda>ok.
            sret (if ok then problems else problem)))"

definition verify_searchable_coverage ::
    "libs \<Rightarrow> 's client \<Rightarrow> settings \<Rightarrow> (string \<times> string) list \<Rightarrow> inventory \<Rightarrow> string \<Rightarrow> string \<Rightarrow> string set
       \<Rightarrow> retire_plan option \<Rightarrow> string set \<Rightarrow> ('s, remark list) eff" where
  "verify_searchable_coverage L C s walked inventory rules_v src_labels retired plan pending =
     sbind (sfold (check_walked L C s inventory rules_v src_labels) walked []) (\<lambda>problems.
     sbind (audit_unmarked_residue C s walked inventory rules_v retired plan pending) (\<lambda>residue.
       sret (problems @ residue)))"

definition contract_problems :: "settings \<Rightarrow> string \<Rightarrow> (string \<times> string) list \<Rightarrow> stored_manifest option \<Rightarrow> remark list" where
  "contract_problems s rules_v walked r =
     (case r of
        None \<Rightarrow> if walked \<noteq> [] then [Remark ''missing_manifest'' [JStr (qdrant_collection s)]] else []
      | Some m \<Rightarrow>
          if sm_state m \<noteq> state_committed then [Remark ''contract_state'' [JStr (qdrant_collection s), JStr (sm_state m)]]
          else (case compare_manifests (sm_manifest m) (build_manifest s rules_v) of (outcome, fs) \<Rightarrow>
            if outcome \<notin> {Compatible, Record_Only_Drift}
            then [Remark ''representation_drift'' [JStr (qdrant_collection s), JList (map JStr fs)]] else []))"

definition verify_all_complete ::
    "libs \<Rightarrow> 's client \<Rightarrow> settings \<Rightarrow> (string \<times> string) list \<Rightarrow> inventory \<Rightarrow> string \<Rightarrow> string \<Rightarrow> string set
       \<Rightarrow> retire_plan option \<Rightarrow> ('s, remark list) eff" where
  "verify_all_complete L C s walked inventory rules_v src_labels retired plan =
     sbind (read_manifest_record L C (completion_collection_name s) False) (\<lambda>r.
     sbind (verify_searchable_coverage L C s walked inventory rules_v src_labels retired plan {}) (\<lambda>coverage.
       sret (contract_problems s rules_v walked r @ coverage)))"

section \<open>What an empty report means\<close>

definition excused :: "(string \<times> string) set \<Rightarrow> string set \<Rightarrow> string set \<Rightarrow> retire_plan option \<Rightarrow> point \<Rightarrow> bool" where
  "excused valid retired pending plan p \<longleftrightarrow>
     (let doc = jget (pt_payload p) ''doc_id''; source_rev = jget (pt_payload p) ''source_rev''
      in pair_in doc source_rev valid \<or> (\<not> doc_in doc retired \<and> is_point_retired doc source_rev pending plan))"

definition walk_verified :: "libs \<Rightarrow> view \<Rightarrow> settings \<Rightarrow> inventory \<Rightarrow> string \<Rightarrow> string \<Rightarrow> string \<times> string \<Rightarrow> bool" where
  "walk_verified L v st inventory rv labels entry \<longleftrightarrow>
     (case walked_revision inventory rv entry of None \<Rightarrow> False
      | Some (d, r) \<Rightarrow> doc_complete L v st d (snd entry) rv labels r None)"

context qdrant_reader
begin

lemma wp_retired_still_present:
  assumes "1 \<le> ingest_scan_page_size st"
  shows "wp (retired_still_present C st doc valid) (\<lambda>r s'. V s' = V s) (\<lambda>e s'. V s' = V s) s"
  unfolding retired_still_present_def wp_bind Let_def
  by (rule wp_conseq [OF wp_stored_doc_revisions [OF assms]]) simp_all

lemma wp_audit_points:
  assumes "1 \<le> ingest_scan_page_size st"
  shows "wp (audit_points C st valid retired pending plan ps k sample)
     (\<lambda>r s'. V s' = V s \<and> (r = [] \<longleftrightarrow> k = 0 \<and> (\<forall>p \<in> set ps. excused valid retired pending plan p)))
     (\<lambda>e s'. V s' = V s) s"
proof (induction ps arbitrary: k sample s)
  case (Cons p ps)
  have retired: "wp (retired_still_present C st d valid)
      (\<lambda>r s'. V s' = V s \<and> ([r] = [] \<longleftrightarrow> k = 0 \<and> (\<forall>p \<in> set (p # ps). excused valid retired pending plan p)))
      (\<lambda>e s'. V s' = V s) s"
    if "\<not> excused valid retired pending plan p" for d
    by (rule wp_conseq [OF wp_retired_still_present [OF assms]]) (use that in auto)
  note rest = Cons.IH [of k sample s] Cons.IH [of "Suc k" "if length sample < 3 then sample @ [pt_id p] else sample" s]
  show ?case
    using retired rest by (auto simp: excused_def Let_def wp_if)
qed simp

lemma wp_audit:
  assumes "1 \<le> ingest_scan_page_size st" "map_of (v_alias (V s)) (qdrant_collection st) = None"
  shows "wp (audit_unmarked_residue C st walked inventory rv retired plan pending)
     (\<lambda>r s'. V s' = V s \<and> (r = [] \<longleftrightarrow>
        (\<forall>p \<in> set (points_of (V s) (qdrant_collection st)). excused (valid_pairs walked inventory rv) retired pending plan p)))
     (\<lambda>e s'. V s' = V s) s" (is "wp _ ?Q ?E s")
  unfolding audit_unmarked_residue_def wp_bind
proof (rule wp_exists)
  let ?n = "qdrant_collection st" and ?pr = "WithFields [''doc_id'', ''source_rev'', ''sha256'']"
  let ?scan = "sbind (scroll_all_points C ?n [] ?pr (ingest_scan_page_size st)) (\<lambda>ps.
       audit_points C st (valid_pairs walked inventory rv) retired pending plan ps 0 [])"
  fix ex s1 assume e: "V s1 = V s" "map_of (v_alias (V s)) ?n = None \<longrightarrow> ex = (v_points (V s) ?n \<noteq> None)"
  have "wp ?scan ?Q ?E s1"
    unfolding wp_bind
  proof (rule wp_conseq [OF wp_scroll_all [OF assms(1)]])
    fix ps s2 assume a: "V s2 = V s1 \<and> ps = map (project ?pr False) (matching (V s1) ?n [])"
    then have ps: "ps = map (project ?pr False) (points_of (V s) ?n)" by (simp add: matching_all e)
    have "excused w r pe pl (project ?pr False p) = excused w r pe pl p" for w r pe pl p
      by (simp add: excused_def jget_project)
    then have all: "(\<forall>p \<in> set ps. excused w r pe pl p) \<longleftrightarrow> (\<forall>p \<in> set (points_of (V s) ?n). excused w r pe pl p)" for w r pe pl
      by (simp add: ps)
    show "wp (audit_points C st (valid_pairs walked inventory rv) retired pending plan ps 0 []) ?Q ?E s2"
    proof (rule wp_conseq [OF wp_audit_points [OF assms(1)]])
      have v2: "V s2 = V s" using a e by simp
      show "?Q r s'" if "V s' = V s2 \<and> (r = [] \<longleftrightarrow> 0 = (0 :: nat)
          \<and> (\<forall>p \<in> set ps. excused (valid_pairs walked inventory rv) retired pending plan p))" for r s'
        using that unfolding all v2 by simp
      show "?E e s'" if "V s' = V s2" for e s' using that v2 by simp
    qed
  qed (simp add: e)
  moreover have "?Q [] s1" if "\<not> ex"
  proof -
    have "points_of (V s) ?n = []" using that e(2) assms(2) by (simp add: points_of_def phys_def)
    then show ?thesis by (simp add: e(1))
  qed
  ultimately show "wp (if \<not> ex then sret [] else ?scan) ?Q ?E s1" by (rule wp_unless)
qed simp

lemma wp_check_walked:
  assumes "plain_control (V s) st" "1 \<le> ingest_scan_page_size st"
  shows "wp (check_walked L C st inventory rv labels entry problems)
     (\<lambda>r s'. V s' = V s \<and> r = (if walk_verified L (V s) st inventory rv labels entry then problems
        else problems @ [Remark ''path'' [JStr (fst entry)]]))
     (\<lambda>e s'. V s' = V s) s"
proof (cases "walked_revision inventory rv entry")
  case (Some dr)
  obtain d r where "dr = (d, r)" by (cases dr)
  then show ?thesis
    using Some by (auto simp: check_walked_def Let_def walk_verified_def intro!: wp_conseq [OF wp_is_doc_complete [OF assms]])
qed (simp add: check_walked_def walk_verified_def)

lemma wp_walk:
  assumes "plain_control (V s) st" "1 \<le> ingest_scan_page_size st"
  shows "wp (sfold (check_walked L C st inventory rv labels) walked problems)
     (\<lambda>r s'. V s' = V s \<and> (r = [] \<longleftrightarrow> problems = [] \<and> (\<forall>e \<in> set walked. walk_verified L (V s) st inventory rv labels e)))
     (\<lambda>e s'. V s' = V s) s"
  using assms(1)
proof (induction walked arbitrary: problems s)
  case (Cons w walked)
  show ?case
    unfolding sfold.simps wp_bind
  proof (rule wp_conseq [OF wp_check_walked [OF Cons.prems assms(2)]])
    fix r s1
    assume r: "V s1 = V s \<and> r = (if walk_verified L (V s) st inventory rv labels w then problems
        else problems @ [Remark ''path'' [JStr (fst w)]])"
    then have "plain_control (V s1) st" using Cons.prems by simp
    then show "wp (sfold (check_walked L C st inventory rv labels) walked r)
      (\<lambda>r s'. V s' = V s \<and> (r = [] \<longleftrightarrow> problems = [] \<and> (\<forall>e \<in> set (w # walked). walk_verified L (V s) st inventory rv labels e)))
      (\<lambda>e s'. V s' = V s) s1"
      using r by (intro wp_conseq [OF Cons.IH]) auto
  qed simp
qed simp

lemma wp_coverage:
  assumes "plain_control (V s) st" "1 \<le> ingest_scan_page_size st" "map_of (v_alias (V s)) (qdrant_collection st) = None"
  shows "wp (verify_searchable_coverage L C st walked inventory rv labels retired plan pending)
     (\<lambda>r s'. V s' = V s \<and> (r = [] \<longleftrightarrow> (\<forall>e \<in> set walked. walk_verified L (V s) st inventory rv labels e)
        \<and> (\<forall>p \<in> set (points_of (V s) (qdrant_collection st)). excused (valid_pairs walked inventory rv) retired pending plan p)))
     (\<lambda>e s'. V s' = V s) s"
  unfolding verify_searchable_coverage_def wp_bind
proof (rule wp_conseq [OF wp_walk [OF assms(1,2)]])
  fix problems :: "remark list" and s1
  assume p: "V s1 = V s \<and> (problems = [] \<longleftrightarrow> [] = ([] :: remark list) \<and> (\<forall>e \<in> set walked. walk_verified L (V s) st inventory rv labels e))"
  then have "map_of (v_alias (V s1)) (qdrant_collection st) = None" using assms(3) by simp
  then show "wp (audit_unmarked_residue C st walked inventory rv retired plan pending)
    (\<lambda>residue. wp (sret (problems @ residue))
       (\<lambda>r s'. V s' = V s \<and> (r = [] \<longleftrightarrow> (\<forall>e \<in> set walked. walk_verified L (V s) st inventory rv labels e)
          \<and> (\<forall>p \<in> set (points_of (V s) (qdrant_collection st)). excused (valid_pairs walked inventory rv) retired pending plan p)))
       (\<lambda>e s'. V s' = V s)) (\<lambda>e s'. V s' = V s) s1"
    using p by (intro wp_conseq [OF wp_audit [OF assms(2)]]) auto
qed simp

lemma wp_verify_all_complete:
  assumes "plain_control (V s) st" "1 \<le> ingest_scan_page_size st" "map_of (v_alias (V s)) (qdrant_collection st) = None"
  shows "wp (verify_all_complete L C st walked inventory rv labels retired plan)
     (\<lambda>r s'. V s' = V s \<and> (r = [] \<longrightarrow>
        (walked = [] \<or> (\<exists>m. contract_in L (V s) (completion_collection_name st) = Some m \<and> sm_state m = state_committed
           \<and> same_vectors (sm_manifest m) (build_manifest st rv)))
        \<and> (\<forall>e \<in> set walked. walk_verified L (V s) st inventory rv labels e)
        \<and> (\<forall>p \<in> set (points_of (V s) (qdrant_collection st)). excused (valid_pairs walked inventory rv) retired {} plan p)))
     (\<lambda>e s'. V s' = V s) s"
  unfolding verify_all_complete_def wp_bind
proof (rule wp_conseq [OF wp_read_manifest_record])
  let ?cc = "completion_collection_name st"
  fix r s1 assume r: "V s1 = V s \<and> (r = None \<or> r = contract_in L (V s) ?cc)"
  have contract: "walked = [] \<or> (\<exists>m. contract_in L (V s) ?cc = Some m \<and> sm_state m = state_committed
      \<and> same_vectors (sm_manifest m) (build_manifest st rv))" if "contract_problems st rv walked r = []"
    using that r by (cases r) (auto simp: contract_problems_def compare_cases split: if_splits)
  have pre: "plain_control (V s1) st" "map_of (v_alias (V s1)) (qdrant_collection st) = None" using assms r by simp_all
  show "wp (verify_searchable_coverage L C st walked inventory rv labels retired plan {})
    (\<lambda>coverage. wp (sret (contract_problems st rv walked r @ coverage))
      (\<lambda>r s'. V s' = V s \<and> (r = [] \<longrightarrow>
        (walked = [] \<or> (\<exists>m. contract_in L (V s) ?cc = Some m \<and> sm_state m = state_committed
           \<and> same_vectors (sm_manifest m) (build_manifest st rv)))
        \<and> (\<forall>e \<in> set walked. walk_verified L (V s) st inventory rv labels e)
        \<and> (\<forall>p \<in> set (points_of (V s) (qdrant_collection st)). excused (valid_pairs walked inventory rv) retired {} plan p)))
      (\<lambda>e s'. V s' = V s)) (\<lambda>e s'. V s' = V s) s1"
    by (rule wp_conseq [OF wp_coverage [OF pre(1) assms(2) pre(2)]]) (use r contract in auto)
qed simp

end

lemma excused_covered:
  assumes "excused (valid_pairs walked inventory rv) retired {} plan p"
  shows "\<exists>e \<in> set walked. \<exists>d v. walked_revision inventory rv e = Some (d, v)
    \<and> jget (pt_payload p) ''doc_id'' = JStr d \<and> jget (pt_payload p) ''source_rev'' = JStr v"
proof -
  have "\<not> is_point_retired doc srev {} plan" for doc srev by (simp add: is_point_retired_def split: json.split)
  then have "pair_in (jget (pt_payload p) ''doc_id'') (jget (pt_payload p) ''source_rev'') (valid_pairs walked inventory rv)"
    using assms by (simp add: excused_def Let_def)
  then show ?thesis
    by (auto simp: pair_in_def valid_pairs_def List.map_filter_def split: json.splits)
qed

section \<open>Properties\<close>

text \<open>C23: the coverage report is exact. It only reads, and it is empty if and only if every walked
  file has a current record whose revision passes the skip gate, and every stored point either
  belongs to such a recorded revision, or is covered by a pending approved removal and not by one
  that should already have been applied.\<close>
theorem coverage_exact:
  assumes "qdrant_reader C V" "settings_valid st" "plain_control (V s) st" "map_of (v_alias (V s)) (qdrant_collection st) = None"
  shows "wp (verify_searchable_coverage L C st walked inventory rv labels retired plan pending)
     (\<lambda>r s'. V s' = V s \<and> (r = [] \<longleftrightarrow> (\<forall>e \<in> set walked. walk_verified L (V s) st inventory rv labels e)
        \<and> (\<forall>p \<in> set (points_of (V s) (qdrant_collection st)). excused (valid_pairs walked inventory rv) retired pending plan p)))
     (\<lambda>e s'. V s' = V s) s"
  by (rule qdrant_reader.wp_coverage [OF assms(1,3) settings_valid_pages [OF assms(2)] assms(4)])

lemma verified_mem_stored_point:
  "\<exists>p \<in> set (points_of (mem_view verified_mem) ''gen1''). jget (pt_payload p) ''doc_id'' = JStr ''C''"
  by (simp add: points_of_def phys_def mem_view_def verified_mem_def chunk_point_def) (simp add: demo_chunk_def)

lemma verified_mem_aliases: "map_of (v_alias (mem_view verified_mem)) (qdrant_collection (demo_settings ''gen1'')) = None"
  by (simp add: verified_mem_def mem_view_def)

lemma coverage_exact_witness:
  "wp (verify_searchable_coverage plain_libs mem_client (demo_settings ''gen1'') [] [] ''r1'' ''||'' {} None {''Z''})
     (\<lambda>r s'. r \<noteq> []) (\<lambda>e s'. mem_view s' = mem_view verified_mem) verified_mem"
proof -
  obtain p where p: "p \<in> set (points_of (mem_view verified_mem) ''gen1'')" "jget (pt_payload p) ''doc_id'' = JStr ''C''"
    using verified_mem_stored_point by blast
  then have "\<not> excused (valid_pairs [] [] ''r1'') {} {''Z''} None p"
    by (simp add: excused_def Let_def pair_in_def valid_pairs_def is_point_retired_def List.map_filter_def split: json.split)
  with p(1) show ?thesis
    by (intro wp_conseq [OF coverage_exact [OF mem.qdrant_reader_axioms demo_settings_valid verified_mem_plain verified_mem_aliases]]) auto
qed

text \<open>C24: nothing unverified is published. When the swap gate reports no problem, every searchable
  point of the candidate carries the document and revision of a walked file whose record is current
  and whose stored revision passes the skip gate; every walked file is such a file; and unless the
  walk is empty the candidate holds a committed contract that produces the same vectors.\<close>
theorem publishable_covers:
  assumes "qdrant_reader C V" "settings_valid st" "plain_control (V s) st" "map_of (v_alias (V s)) (qdrant_collection st) = None"
  shows "wp (verify_all_complete L C st walked inventory rv labels retired plan)
     (\<lambda>r s'. V s' = V s \<and> (r = [] \<longrightarrow>
        (walked = [] \<or> (\<exists>m. contract_in L (V s) (completion_collection_name st) = Some m \<and> sm_state m = state_committed
           \<and> same_vectors (sm_manifest m) (build_manifest st rv)))
        \<and> (\<forall>e \<in> set walked. walk_verified L (V s) st inventory rv labels e)
        \<and> (\<forall>p \<in> set (points_of (V s) (qdrant_collection st)).
             \<exists>(path, sha) \<in> set walked. \<exists>d v. walked_revision inventory rv (path, sha) = Some (d, v)
               \<and> jget (pt_payload p) ''doc_id'' = JStr d \<and> jget (pt_payload p) ''source_rev'' = JStr v
               \<and> doc_complete L (V s) st d sha rv labels v None)))
     (\<lambda>e s'. V s' = V s) s"
proof (rule wp_conseq [OF qdrant_reader.wp_verify_all_complete [OF assms(1,3) settings_valid_pages [OF assms(2)] assms(4)]], goal_cases)
  case (1 r s')
  have "\<exists>(path, sha) \<in> set walked. \<exists>d v. walked_revision inventory rv (path, sha) = Some (d, v)
        \<and> jget (pt_payload p) ''doc_id'' = JStr d \<and> jget (pt_payload p) ''source_rev'' = JStr v
        \<and> doc_complete L (V s) st d sha rv labels v None"
    if "r = []" "p \<in> set (points_of (V s) (qdrant_collection st))" for p
  proof -
    have "excused (valid_pairs walked inventory rv) retired {} plan p" using 1 that by blast
    then obtain e d v where e: "e \<in> set walked" "walked_revision inventory rv e = Some (d, v)"
        "jget (pt_payload p) ''doc_id'' = JStr d" "jget (pt_payload p) ''source_rev'' = JStr v"
      using excused_covered by blast
    moreover have "walk_verified L (V s) st inventory rv labels e" using 1 that e(1) by blast
    ultimately show ?thesis by (intro bexI [of _ e]) (auto simp: walk_verified_def split: prod.split)
  qed
  with 1 show ?case by blast
qed

lemma publishable_covers_witness:
  "wp (verify_all_complete plain_libs mem_client (demo_settings ''gen1'') [] [] ''r1'' ''||'' {} None)
     (\<lambda>r s'. r \<noteq> []) (\<lambda>e s'. mem_view s' = mem_view verified_mem) verified_mem"
proof -
  obtain p where "p \<in> set (points_of (mem_view verified_mem) ''gen1'')" using verified_mem_stored_point by blast
  then show ?thesis
    by (intro wp_conseq [OF publishable_covers [OF mem.qdrant_reader_axioms demo_settings_valid verified_mem_plain verified_mem_aliases]]) auto
qed

end
