(* ===== verification/Frame.thy ===== *)
theory Frame
  imports Receipt
begin

text \<open>
  What a computation leaves alone. \<open>keeps I m\<close> says that every run of \<open>m\<close>, also one that raises,
  stays inside \<open>I\<close>; it is proved along the structure of \<open>m\<close> by the rules \<open>keeps_rules\<close>. With
  \<open>I\<close> the states whose view agrees with a given one outside some collections, this is the frame
  of the administrative operations.
\<close>

section \<open>Computations that stay inside a set of states\<close>

definition keeps :: "('s \<Rightarrow> bool) \<Rightarrow> ('s, 'a) eff \<Rightarrow> bool" where
  "keeps I m \<longleftrightarrow> (\<forall>s. I s \<longrightarrow> wp m (\<lambda>_. I) (\<lambda>_. I) s)"

named_theorems keeps_rules "introduction rules for keeps, along the structure of a computation"

lemma keepsI: "(\<And>s. I s \<Longrightarrow> wp m (\<lambda>_. I) (\<lambda>_. I) s) \<Longrightarrow> keeps I m"
  by (simp add: keeps_def)

lemma keepsD: "keeps I m \<Longrightarrow> I s \<Longrightarrow> wp m (\<lambda>_. I) (\<lambda>_. I) s"
  by (simp add: keeps_def)

lemma keeps_ret [keeps_rules]: "keeps I (sret x)"
  by (simp add: keeps_def)

lemma keeps_raise [keeps_rules]: "keeps I (sraise e)"
  by (simp add: keeps_def)

lemma keeps_lift [keeps_rules]: "keeps I (slift r)"
  by (simp add: keeps_def split: sum.split)

lemma keeps_ensure [keeps_rules]: "keeps I (sensure b e)"
  by (simp add: keeps_def)

lemma keeps_bind [keeps_rules]:
  assumes "keeps I m" "\<And>x. keeps I (f x)"
  shows "keeps I (sbind m f)"
proof (rule keepsI)
  fix s assume "I s"
  then show "wp (sbind m f) (\<lambda>_. I) (\<lambda>_. I) s"
    unfolding wp_bind by (rule wp_conseq [OF keepsD [OF assms(1)]]) (use assms(2) in \<open>auto dest: keepsD\<close>)
qed

lemma keeps_seq [keeps_rules]: "keeps I m \<Longrightarrow> keeps I n \<Longrightarrow> keeps I (sseq m n)"
  unfolding sseq_def by (rule keeps_bind)

lemma keeps_catch [keeps_rules]:
  assumes "keeps I m" "\<And>e. keeps I (h e)"
  shows "keeps I (scatch m h)"
proof (rule keepsI)
  fix s assume "I s"
  then show "wp (scatch m h) (\<lambda>_. I) (\<lambda>_. I) s"
    unfolding wp_catch by (rule wp_conseq [OF keepsD [OF assms(1)]]) (use assms(2) in \<open>auto dest: keepsD\<close>)
qed

lemma keeps_if [keeps_rules]: "(b \<Longrightarrow> keeps I m) \<Longrightarrow> (\<not> b \<Longrightarrow> keeps I n) \<Longrightarrow> keeps I (if b then m else n)"
  by simp

lemma keeps_option [keeps_rules]:
  "(x = None \<Longrightarrow> keeps I m) \<Longrightarrow> (\<And>y. x = Some y \<Longrightarrow> keeps I (f y)) \<Longrightarrow> keeps I (case x of None \<Rightarrow> m | Some y \<Rightarrow> f y)"
  by (cases x) simp_all

lemma keeps_list [keeps_rules]:
  "(xs = [] \<Longrightarrow> keeps I m) \<Longrightarrow> (\<And>y ys. xs = y # ys \<Longrightarrow> keeps I (f y ys)) \<Longrightarrow> keeps I (case xs of [] \<Rightarrow> m | y # ys \<Rightarrow> f y ys)"
  by (cases xs) simp_all

lemma keeps_prod [keeps_rules]: "(\<And>a b. keeps I (f a b)) \<Longrightarrow> keeps I (case p of (a, b) \<Rightarrow> f a b)"
  by (cases p) simp

lemma keeps_let [keeps_rules]: "keeps I (f x) \<Longrightarrow> keeps I (let y = x in f y)"
  by simp

text \<open>A computation that looks at the state first: the page budget of a scan.\<close>

lemma keeps_state: "(\<And>b. keeps I (f b)) \<Longrightarrow> keeps I (\<lambda>st. f (g st) st)"
  by (simp add: keeps_def wp_def)

lemma keeps_seach [keeps_rules]: "(\<And>x. x \<in> set xs \<Longrightarrow> keeps I (f x)) \<Longrightarrow> keeps I (seach f xs)"
  by (induction xs) (auto intro!: keeps_rules)

text \<open>What a computation establishes, and what it keeps.\<close>

lemma wp_keeps:
  assumes "wp m Q E s" "keeps I m" "I s"
  shows "wp m (\<lambda>x s'. Q x s' \<and> I s') (\<lambda>e s'. E e s' \<and> I s') s"
  by (rule wp_conj [OF assms(1) keepsD [OF assms(2,3)]])

section \<open>Changes of a few collections only\<close>

text \<open>Outside the named physical collections the two views hold the same, and the aliases are the same.\<close>

definition only :: "string set \<Rightarrow> view \<Rightarrow> view \<Rightarrow> bool" where
  "only ns v v' \<longleftrightarrow> v_alias v' = v_alias v \<and> (\<forall>m. m \<notin> ns \<longrightarrow> v_points v' m = v_points v m)"

lemma only_refl [simp]: "only ns v v"
  by (simp add: only_def)

lemma only_trans: "only ns v v' \<Longrightarrow> only ns v' v'' \<Longrightarrow> only ns v v''"
  by (simp add: only_def)

lemma only_mono: "only ns v v' \<Longrightarrow> ns \<subseteq> ns' \<Longrightarrow> only ns' v v'"
  by (auto simp: only_def)

lemma only_phys: "only ns v v' \<Longrightarrow> phys v' n = phys v n"
  by (simp add: only_def phys_def)

lemma only_points_of: "only ns v v' \<Longrightarrow> phys v n \<notin> ns \<Longrightarrow> points_of v' n = points_of v n"
  by (simp add: points_of_def only_phys) (simp add: only_def)

lemma only_updated: "updated n f v v' \<Longrightarrow> phys v n \<in> ns \<Longrightarrow> only ns v v'"
  by (metis only_def updated_def)

abbreviation stays :: "('s \<Rightarrow> view) \<Rightarrow> string set \<Rightarrow> view \<Rightarrow> ('s, 'a) eff \<Rightarrow> bool" where
  "stays V ns v m \<equiv> keeps (\<lambda>s. only ns v (V s)) m"

context qdrant_reader
begin

text \<open>Reads keep every property of the view.\<close>

lemma keeps_reads [keeps_rules]:
  "keeps (\<lambda>s. P (V s)) (cl_exists C n)" "keeps (\<lambda>s. P (V s)) (cl_info C n)"
  "keeps (\<lambda>s. P (V s)) (cl_schema C n)" "keeps (\<lambda>s. P (V s)) (cl_aliases C)"
  "keeps (\<lambda>s. P (V s)) (cl_retrieve C n ids pr vec)"
  by (rule keepsI, rule wp_conseq [OF exists_law], simp_all)
    (rule keepsI, rule wp_conseq [OF info_law] wp_conseq [OF schema_law] wp_conseq [OF aliases_law] wp_conseq [OF retrieve_law], simp_all)+

lemma keeps_scroll [keeps_rules]:
  "1 \<le> lim \<Longrightarrow> keeps (\<lambda>s. P (V s)) (cl_scroll C n f lim pr vec off)"
  by (rule keepsI, rule wp_conseq [OF scroll_law]) simp_all

lemma keeps_scan [keeps_rules]:
  assumes "1 \<le> page_size"
  shows "keeps (\<lambda>s. P (V s)) (scroll_all_points C n f pr page_size)"
  by (rule keepsI, rule wp_conseq [OF wp_scroll_all [OF assms]]) simp_all

lemma keeps_read_manifest_record [keeps_rules]: "keeps (\<lambda>s. P (V s)) (read_manifest_record L C cc b)"
  unfolding read_manifest_record_def by (intro keeps_rules)

lemma keeps_read_manifest [keeps_rules]: "keeps (\<lambda>s. P (V s)) (read_manifest L C cc)"
  unfolding read_manifest_def by (intro keeps_rules)

lemma keeps_read_publication [keeps_rules]:
  "keeps (\<lambda>s. P (V s)) (read_publication_record L C control)"
  unfolding read_publication_record_def by (intro keeps_rules)

lemma keeps_read_binding [keeps_rules]: "keeps (\<lambda>s. P (V s)) (read_build_binding L C control)"
  unfolding read_build_binding_def by (intro keeps_rules)

lemma keeps_read_fingerprints [keeps_rules]: "keeps (\<lambda>s. P (V s)) (read_publication_metadata L C control)"
  unfolding read_publication_metadata_def by (intro keeps_rules)

end

context qdrant_store
begin

text \<open>Writes on a collection of the set stay inside it.\<close>

lemma stays_writes [keeps_rules]:
  assumes "phys v n \<in> ns"
  shows "stays V ns v (cl_upsert C n ps)" "stays V ns v (cl_delete_ids C n ids)"
proof -
  have step: "only ns v (V s')" if "only ns v (V s)" "updated n f (V s) (V s')" for f s s'
    using only_trans [OF that(1) only_updated [OF that(2)]] only_phys [OF that(1)] assms by simp
  show "stays V ns v (cl_upsert C n ps)" by (rule keepsI, rule wp_conseq [OF upsert_law]) (use step in blast)+
  show "stays V ns v (cl_delete_ids C n ids)" by (rule keepsI, rule wp_conseq [OF delete_ids_law]) (use step in blast)+
qed

lemma stays_create [keeps_rules]: "n \<in> ns \<Longrightarrow> stays V ns v (cl_create C n vc kw)"
  by (rule keepsI, rule wp_conseq [OF create_law]) (auto simp: only_def)

lemma stays_drop [keeps_rules]: "n \<in> ns \<Longrightarrow> stays V ns v (cl_drop C n)"
  by (rule keepsI, rule wp_conseq [OF drop_law]) (auto simp: only_def)

lemma stays_index [keeps_rules]: "stays V ns v (cl_index C n fld ty)"
  by (rule keepsI, rule wp_conseq [OF index_law]) (auto simp: only_def)

lemma stays_copy_pages [keeps_rules]:
  "1 \<le> page_size \<Longrightarrow> phys v dst \<in> ns \<Longrightarrow> stays V ns v (copy_pages b C src dst page_size off)"
  by (induction b arbitrary: off) (simp_all only: copy_pages.simps, (intro keeps_rules; simp?)+)

lemma stays_copy_all [keeps_rules]:
  "1 \<le> page_size \<Longrightarrow> phys v dst \<in> ns \<Longrightarrow> stays V ns v (\<lambda>st. copy_pages (cl_budget C st) C src dst page_size off st)"
  by (rule keeps_state [where g = "cl_budget C"]) (rule stays_copy_pages)

lemma stays_clone [keeps_rules]:
  assumes "1 \<le> ingest_scan_page_size st" "dst \<in> ns" "map_of (v_alias v) dst = None"
  shows "stays V ns v (clone_collection C st src dst)"
proof -
  have "phys v dst \<in> ns" using assms by (simp add: phys_def)
  then show ?thesis
    unfolding clone_collection_def point_ids_def using assms(1,2) by (intro keeps_rules)
qed

lemma stays_rekey [keeps_rules]:
  "phys v dst \<in> ns \<Longrightarrow> stays V ns v (rekey_manifest L C src dst)"
  unfolding rekey_manifest_def by (intro keeps_rules)

lemma stays_receipt_pages [keeps_rules]: "stays V ns v (receipt_pages b C control off ids)"
  by (induction b arbitrary: off ids) (simp_all only: receipt_pages.simps, (intro keeps_rules; simp?)+)

lemma stays_receipt_scan [keeps_rules]: "stays V ns v (\<lambda>st. receipt_pages (cl_budget C st) C control off ids st)"
  by (rule keeps_state [where g = "cl_budget C"]) (rule stays_receipt_pages)

lemma stays_delete_metadata [keeps_rules]:
  "phys v control \<in> ns \<Longrightarrow> stays V ns v (delete_publication_metadata L C control ancestor)"
  unfolding delete_publication_metadata_def by (intro keeps_rules)

end

end
