(* ===== verification/Staging.thy ===== *)
theory Staging
  imports Frame "HOL-Library.Product_Lexorder"
begin

text \<open>
  Where a build is prepared (\<open>mainframe_rag/ingest/publish.py\<close>): the fingerprints that name a
  staging collection, its selection (\<open>resolve_publish_staging\<close>) and its preparation from the
  serving generation (\<open>ensure_staging\<close>).
\<close>

section \<open>Addresses\<close>

definition nul :: string where "nul = [CHR 0x00]"

definition generation_fingerprint :: "libs \<Rightarrow> settings \<Rightarrow> string \<Rightarrow> string \<Rightarrow> string" where
  "generation_fingerprint L s rules_v cli_triple =
     take 16 (lib_sha256 L (representation_fingerprint L s rules_v @ nul @ cli_triple))"

text \<open>The bytes the digest is fed with: sorted pairs, each part closed by a zero byte.\<close>

definition corpus_text :: "(string \<times> string) list \<Rightarrow> string" where
  "corpus_text entries = concat (map (\<lambda>(path, sha). path @ nul @ sha @ nul) (sort entries))"

definition corpus_fingerprint :: "libs \<Rightarrow> (string \<times> string) list \<Rightarrow> string" where
  "corpus_fingerprint L entries = take 12 (lib_sha256 L (corpus_text entries))"

definition staging_name_for :: "string \<Rightarrow> string \<Rightarrow> string \<Rightarrow> string" where
  "staging_name_for collection gen_fp corpus_fp = collection @ ''__gen'' @ gen_fp @ corpus_fp"

section \<open>Selection\<close>

definition max_staging_attempts :: nat where "max_staging_attempts = 64"

definition suffixed :: "string \<Rightarrow> nat \<Rightarrow> string" where
  "suffixed base attempt = base @ ''_'' @ string_of_nat attempt"

fun try_candidates :: "'s client \<Rightarrow> string \<Rightarrow> string option \<Rightarrow> string set \<Rightarrow> nat list \<Rightarrow> ('s, string) eff" where
  "try_candidates C base live skip [] =
     sraise (Exn RuntimeErr ''no_free_candidate'' [JStr base, JInt (int max_staging_attempts)])"
| "try_candidates C base live skip (attempt # rest) =
     (let candidate = suffixed base attempt
      in if Some candidate = live \<or> candidate \<in> skip then try_candidates C base live skip rest
         else sbind (cl_exists C candidate) (\<lambda>taken.
              if taken then try_candidates C base live skip rest
              else sbind (cl_exists C (completion_collection_for candidate)) (\<lambda>marked.
                   if marked then try_candidates C base live skip rest else sret candidate)))"

definition fresh_staging_candidate :: "'s client \<Rightarrow> string \<Rightarrow> string option \<Rightarrow> string set \<Rightarrow> ('s, string) eff" where
  "fresh_staging_candidate C base live skip = try_candidates C base live skip [1..<Suc max_staging_attempts]"

text \<open>The recorded state is the decoded sidecar, a JSON object.\<close>

definition state_matches :: "payload \<Rightarrow> string \<Rightarrow> string \<Rightarrow> bool" where
  "state_matches st gen_fp corpus_fp \<longleftrightarrow> jget st ''gen_fp'' = JStr gen_fp \<and> jget st ''corpus_fp'' = JStr corpus_fp"

definition resolve_publish_staging ::
    "libs \<Rightarrow> 's client \<Rightarrow> settings \<Rightarrow> string \<Rightarrow> string \<Rightarrow> string option \<Rightarrow> bool \<Rightarrow> bool \<Rightarrow> payload option
       \<Rightarrow> ('s, string \<times> bool) eff" where
  "resolve_publish_staging L C s gen_fp corpus_fp live force_reingest has_retirements state =
     (let base = staging_name_for (qdrant_collection s) gen_fp corpus_fp
      in case state of
        Some st \<Rightarrow>
          if \<not> state_matches st gen_fp corpus_fp
          then sraise (Exn RuntimeErr ''foreign_publish_state'' [jget st ''staging'', jget st ''gen_fp'', jget st ''corpus_fp''])
          else if \<not> is_text (jget st ''staging'') then sraise (Exn RuntimeErr ''state_names_no_staging'' [])
          else let recorded = str_of (jget st ''staging'')
               in if Some recorded = live then sret (recorded, True)
                  else sbind (cl_exists C recorded) (\<lambda>ex. sret (recorded, ex))
      | None \<Rightarrow>
          sbind (case live of
              None \<Rightarrow> sret None
            | Some l \<Rightarrow>
                sbind (read_publication_metadata L C (completion_collection_for l)) (\<lambda>meta.
                if meta = Some (gen_fp, corpus_fp) \<or> l = base
                then if \<not> force_reingest \<and> \<not> has_retirements then sret (Some (l, False))
                     else sbind (fresh_staging_candidate C base live {}) (\<lambda>c. sret (Some (c, False)))
                else sret None)) (\<lambda>settled.
          case settled of
            Some r \<Rightarrow> sret r
          | None \<Rightarrow>
              sbind (cl_exists C base) (\<lambda>ex.
              sbind (if ex then sret True else cl_exists C (completion_collection_for base)) (\<lambda>taken.
              if taken
              then sbind (read_manifest_record L C (completion_collection_name (s\<lparr>qdrant_collection := base\<rparr>)) False) (\<lambda>r.
                   if (case r of None \<Rightarrow> False | Some m \<Rightarrow> sm_state m = state_committed)
                   then sbind (fresh_staging_candidate C base live {}) (\<lambda>c. sret (c, False))
                   else sraise (Exn RuntimeErr ''unrecorded_build'' [JStr base]))
              else sret (base, False)))))"

section \<open>Preparation\<close>

datatype preparation = Sealed_Build | Reused | Repaired | Cloned | Fresh_Build

definition transfer_staging_metadata :: "libs \<Rightarrow> 's client \<Rightarrow> settings \<Rightarrow> settings \<Rightarrow> string \<Rightarrow> ('s, unit) eff" where
  "transfer_staging_metadata L C s staging_s live =
     (let live_completions = completion_collection_for live;
          staging_completions = completion_collection_name staging_s
      in sbind (read_manifest_record L C live_completions False) (\<lambda>live_record.
         case live_record of
           None \<Rightarrow> sret ()
         | Some _ \<Rightarrow>
             sbind (cl_exists C staging_completions) (\<lambda>ex.
             sseq (if ex then cl_drop C staging_completions else sret ())
            (sseq (clone_collection C s live_completions staging_completions)
            (sbind (rekey_manifest L C live_completions staging_completions) (\<lambda>carried.
             if \<not> carried
             then sraise (Exn RuntimeErr ''transfer_failed'' [JStr live_completions, JStr staging_completions])
             else sseq (delete_publication_metadata L C staging_completions (Some live_completions))
                 (sbind (read_manifest_record L C staging_completions False) (\<lambda>now.
                  if now \<noteq> live_record
                  then sraise (Exn RuntimeErr ''contract_mismatch'' [JStr staging_completions])
                  else sret ()))))))))"

definition ensure_staging :: "libs \<Rightarrow> 's client \<Rightarrow> settings \<Rightarrow> settings \<Rightarrow> string option \<Rightarrow> ('s, preparation) eff" where
  "ensure_staging L C s staging_s live =
     (let staging = qdrant_collection staging_s
      in sbind (read_build_binding L C (completion_collection_for staging)) (\<lambda>b.
         if b \<noteq> None then sret Sealed_Build
         else sbind (cl_exists C staging) (\<lambda>ex.
         if ex
         then sbind (read_manifest L C (completion_collection_name staging_s)) (\<lambda>m.
              if m \<noteq> None then sret Reused
              else case live of
                None \<Rightarrow> sret Reused
              | Some l \<Rightarrow>
                  sbind (read_manifest L C (completion_collection_for l)) (\<lambda>lm.
                  if lm \<noteq> None
                  then sseq (transfer_staging_metadata L C s staging_s l) (sret Repaired)
                  else sret Reused))
         else case live of
            None \<Rightarrow> sret Fresh_Build
          | Some l \<Rightarrow>
              sseq (clone_collection C s l staging)
             (sseq (transfer_staging_metadata L C s staging_s l) (sret Cloned)))))"

section \<open>What a selected name stands for\<close>

text \<open>A name no alias uses, for its data and its markers; and one with neither collection.\<close>

definition unaliased :: "view \<Rightarrow> string \<Rightarrow> bool" where
  "unaliased v n \<longleftrightarrow> map_of (v_alias v) n = None \<and> map_of (v_alias v) (completion_collection_for n) = None"

definition unbuilt :: "view \<Rightarrow> string \<Rightarrow> bool" where
  "unbuilt v n \<longleftrightarrow> v_points v n = None \<and> v_points v (completion_collection_for n) = None"

definition published_fps :: "libs \<Rightarrow> view \<Rightarrow> string \<Rightarrow> (string \<times> string) option" where
  "published_fps L v n =
     (case receipt_of L v (completion_collection_for n) of
        None \<Rightarrow> None
      | Some p \<Rightarrow> if is_str (jget p ''gen_fp'') \<and> is_str (jget p ''corpus_fp'')
                  then Some (str_of (jget p ''gen_fp''), str_of (jget p ''corpus_fp'')) else None)"

definition candidates :: "string \<Rightarrow> string set" where
  "candidates base = suffixed base ` {1..max_staging_attempts}"

context qdrant_finishes
begin

lemma wp_try_candidates:
  assumes "\<forall>k \<in> set ks. unaliased (V s) (suffixed base k)"
  shows "wp (try_candidates C base live skip ks)
     (\<lambda>c s'. V s' = V s \<and> c \<in> suffixed base ` set ks \<and> Some c \<noteq> live \<and> c \<notin> skip \<and> unbuilt (V s) c)
     (\<lambda>e s'. V s' = V s \<and> (exn_tag e = ''no_free_candidate'' \<and> exn_cls e = RuntimeErr
         \<and> (\<forall>k \<in> set ks. Some (suffixed base k) = live \<or> suffixed base k \<in> skip \<or> \<not> unbuilt (V s) (suffixed base k)) \<or> store_exn e)) s"
    (is "wp _ (?Q ks) (?E ks) s")
  using assms
proof (induction ks arbitrary: s)
  case (Cons k ks)
  let ?c = "suffixed base k"
  let ?Q = "\<lambda>c s'. V s' = V s \<and> c \<in> suffixed base ` set (k # ks) \<and> Some c \<noteq> live \<and> c \<notin> skip \<and> unbuilt (V s) c"
  let ?E = "\<lambda>e s'. V s' = V s \<and> (exn_tag e = ''no_free_candidate'' \<and> exn_cls e = RuntimeErr
         \<and> (\<forall>k \<in> set (k # ks). Some (suffixed base k) = live \<or> suffixed base k \<in> skip \<or> \<not> unbuilt (V s) (suffixed base k)) \<or> store_exn e)"
  have plain: "map_of (v_alias (V s)) ?c = None" "map_of (v_alias (V s)) (completion_collection_for ?c) = None"
    using Cons.prems by (simp_all add: unaliased_def)
  have rest: "wp (try_candidates C base live skip ks) ?Q ?E s'"
    if "V s' = V s" "Some ?c = live \<or> ?c \<in> skip \<or> \<not> unbuilt (V s) ?c" for s'
    by (rule wp_conseq [OF Cons.IH]) (use that Cons.prems in auto)
  show ?case
  proof (cases "Some ?c = live \<or> ?c \<in> skip")
    case True
    then have skip: "Some ?c = live \<or> ?c \<in> skip \<or> \<not> unbuilt (V s) ?c" by blast
    show ?thesis unfolding try_candidates.simps Let_def if_P [OF True] by (rule rest [OF refl skip])
  next
    case False
    have "wp (sbind (cl_exists C ?c) (\<lambda>taken.
              if taken then try_candidates C base live skip ks
              else sbind (cl_exists C (completion_collection_for ?c)) (\<lambda>marked.
                   if marked then try_candidates C base live skip ks else sret ?c))) ?Q ?E s"
      unfolding wp_bind
    proof (rule wp_conseq [OF wp_exists_only [OF plain(1)]])
      fix taken s1 assume t: "V s1 = V s \<and> taken = (v_points (V s) ?c \<noteq> None)"
      have "wp (sbind (cl_exists C (completion_collection_for ?c)) (\<lambda>marked.
                   if marked then try_candidates C base live skip ks else sret ?c)) ?Q ?E s1" if "\<not> taken"
        unfolding wp_bind
      proof (rule wp_conseq [OF wp_exists_only])
        fix marked s2 assume m: "V s2 = V s1 \<and> marked = (v_points (V s1) (completion_collection_for ?c) \<noteq> None)"
        show "wp (if marked then try_candidates C base live skip ks else sret ?c) ?Q ?E s2"
        proof (cases marked)
          case True
          then show ?thesis unfolding if_P [OF True] by (intro rest) (use t m in \<open>simp_all add: unbuilt_def\<close>)
        next
          case no: False
          then have "V s2 = V s" "unbuilt (V s) ?c" using t m that by (simp_all add: unbuilt_def)
          then show ?thesis unfolding if_not_P [OF no] using False by simp
        qed
      qed (use t plain in auto)
      then show "wp (if taken then try_candidates C base live skip ks
              else sbind (cl_exists C (completion_collection_for ?c)) (\<lambda>marked.
                   if marked then try_candidates C base live skip ks else sret ?c)) ?Q ?E s1"
      proof (cases taken)
        case True
        then show ?thesis unfolding if_P [OF True] by (intro rest) (use t in \<open>simp_all add: unbuilt_def\<close>)
      qed (simp only: if_False not_False_eq_True True_implies_equals)
    qed simp
    then show ?thesis unfolding try_candidates.simps Let_def if_not_P [OF False] .
  qed
qed simp

lemma wp_fresh_candidate:
  assumes "\<forall>c \<in> candidates base. unaliased (V s) c"
  shows "wp (fresh_staging_candidate C base live skip)
     (\<lambda>c s'. V s' = V s \<and> c \<in> candidates base \<and> Some c \<noteq> live \<and> c \<notin> skip \<and> unbuilt (V s) c)
     (\<lambda>e s'. V s' = V s \<and> (exn_tag e = ''no_free_candidate''
         \<and> (\<forall>c \<in> candidates base. Some c = live \<or> c \<in> skip \<or> \<not> unbuilt (V s) c) \<or> store_exn e)) s"
proof -
  have r: "set [1..<Suc max_staging_attempts] = {1..max_staging_attempts}" by auto
  show ?thesis
    unfolding fresh_staging_candidate_def
    by (rule wp_conseq [OF wp_try_candidates]) (use assms in \<open>unfold candidates_def r, blast+\<close>)
qed

lemma wp_read_fingerprints:
  assumes "map_of (v_alias (V s)) (completion_collection_for n) = None"
  shows "wp (read_publication_metadata L C (completion_collection_for n))
     (\<lambda>r s'. V s' = V s \<and> r = published_fps L (V s) n) (\<lambda>e s'. V s' = V s) s"
  unfolding read_publication_metadata_def wp_bind
proof (rule wp_conseq [OF wp_read_publication_record [OF assms]])
  fix r s'
  assume "V s' = V s \<and> r = receipt_of L (V s) (completion_collection_for n)
    \<and> (\<forall>p. r = Some p \<longrightarrow> decode_publication_record p (completion_collection_for n) = Inr p)"
  then show "wp (case r of None \<Rightarrow> sret None
       | Some p \<Rightarrow> if is_str (jget p ''gen_fp'') \<and> is_str (jget p ''corpus_fp'')
           then sret (Some (str_of (jget p ''gen_fp''), str_of (jget p ''corpus_fp''))) else sret None)
     (\<lambda>r s'. V s' = V s \<and> r = published_fps L (V s) n) (\<lambda>e s'. V s' = V s) s'"
    by (cases "receipt_of L (V s) (completion_collection_for n)") (auto simp: published_fps_def)
qed simp

end

text \<open>The answer of the selection.\<close>

definition selected ::
    "libs \<Rightarrow> view \<Rightarrow> string \<Rightarrow> string \<Rightarrow> string \<Rightarrow> string option \<Rightarrow> bool \<Rightarrow> payload option \<Rightarrow> string \<times> bool \<Rightarrow> bool" where
  "selected L v base gen corpus live rebuild state r \<longleftrightarrow>
     (case state of
        Some st \<Rightarrow> state_matches st gen corpus \<and> jget st ''staging'' = JStr (fst r) \<and> fst r \<noteq> []
          \<and> (snd r \<longleftrightarrow> Some (fst r) = live \<or> v_points v (fst r) \<noteq> None)
      | None \<Rightarrow> \<not> snd r
          \<and> (if Some (fst r) = live
             then \<not> rebuild \<and> (fst r = base \<or> published_fps L v (fst r) = Some (gen, corpus))
             else (fst r = base \<or> fst r \<in> candidates base) \<and> unbuilt v (fst r)))"

definition selectable :: "view \<Rightarrow> string \<Rightarrow> string option \<Rightarrow> payload option \<Rightarrow> bool" where
  "selectable v base live state \<longleftrightarrow> (\<forall>n \<in> insert base (candidates base). unaliased v n)
     \<and> (\<forall>l. live = Some l \<longrightarrow> unaliased v l)
     \<and> (\<forall>st. state = Some st \<longrightarrow> map_of (v_alias v) (str_of (jget st ''staging'')) = None)"

context qdrant_finishes
begin

lemma wp_resolve_recorded:
  assumes "map_of (v_alias (V s)) (str_of (jget st ''staging'')) = None"
  shows "wp (resolve_publish_staging L C conf gen corpus live force retire (Some st))
     (\<lambda>r s'. V s' = V s \<and> selected L (V s) base gen corpus live (force \<or> retire) (Some st) r) (\<lambda>e s'. V s' = V s) s"
proof (cases "state_matches st gen corpus \<and> is_text (jget st ''staging'')")
  case False
  then show ?thesis by (auto simp: resolve_publish_staging_def)
next
  case True
  then obtain n where n: "jget st ''staging'' = JStr n" "n \<noteq> []" by (auto simp: is_text_iff)
  have "wp (sbind (cl_exists C n) (\<lambda>ex. sret (n, ex)))
     (\<lambda>r s'. V s' = V s \<and> selected L (V s) base gen corpus live (force \<or> retire) (Some st) r) (\<lambda>e s'. V s' = V s) s"
    if "Some n \<noteq> live"
    unfolding wp_bind by (rule wp_conseq [OF wp_exists_only]) (use assms True n that in \<open>simp_all add: selected_def\<close>)
  with True n show ?thesis
    by (simp add: resolve_publish_staging_def) (auto simp: selected_def)
qed

lemma wp_resolve_settled:
  assumes "\<forall>c \<in> candidates base. unaliased (V s) c" "\<forall>l. live = Some l \<longrightarrow> unaliased (V s) l"
  shows "wp (case live of
              None \<Rightarrow> sret None
            | Some l \<Rightarrow>
                sbind (read_publication_metadata L C (completion_collection_for l)) (\<lambda>meta.
                if meta = Some (gen, corpus) \<or> l = base
                then if \<not> force \<and> \<not> retire then sret (Some (l, False))
                     else sbind (fresh_staging_candidate C base live {}) (\<lambda>c. sret (Some (c, False)))
                else sret None))
     (\<lambda>r s'. V s' = V s \<and> (case r of
          None \<Rightarrow> Some base \<noteq> live
        | Some r \<Rightarrow> selected L (V s) base gen corpus live (force \<or> retire) None r)) (\<lambda>e s'. V s' = V s) s"
    (is "wp _ ?Q ?E s")
proof (cases live)
  case (Some l)
  have "wp (sbind (read_publication_metadata L C (completion_collection_for l)) (\<lambda>meta.
                if meta = Some (gen, corpus) \<or> l = base
                then if \<not> force \<and> \<not> retire then sret (Some (l, False))
                     else sbind (fresh_staging_candidate C base live {}) (\<lambda>c. sret (Some (c, False)))
                else sret None)) ?Q ?E s"
    unfolding wp_bind
  proof (rule wp_conseq [OF wp_read_fingerprints])
    fix meta s1 assume m: "V s1 = V s \<and> meta = published_fps L (V s) l"
    have fresh: "wp (sbind (fresh_staging_candidate C base live {}) (\<lambda>c. sret (Some (c, False)))) ?Q ?E s1"
      unfolding wp_bind by (rule wp_conseq [OF wp_fresh_candidate]) (use assms m in \<open>auto simp: selected_def\<close>)
    show "wp (if meta = Some (gen, corpus) \<or> l = base
                then if \<not> force \<and> \<not> retire then sret (Some (l, False))
                     else sbind (fresh_staging_candidate C base live {}) (\<lambda>c. sret (Some (c, False)))
                else sret None) ?Q ?E s1"
    proof (cases "(meta = Some (gen, corpus) \<or> l = base) \<and> (force \<or> retire)")
      case True
      then have "meta = Some (gen, corpus) \<or> l = base" "\<not> (\<not> force \<and> \<not> retire)" by auto
      then show ?thesis by (simp only: if_True if_False fresh)
    next
      case False
      then show ?thesis using m Some by (auto simp: selected_def)
    qed
  qed (use assms(2) Some in \<open>simp_all add: unaliased_def\<close>)
  then show ?thesis unfolding Some option.case .
qed simp

lemma wp_resolve_staging:
  assumes "selectable (V s) base live state" "base = staging_name_for (qdrant_collection conf) gen corpus"
  shows "wp (resolve_publish_staging L C conf gen corpus live force retire state)
     (\<lambda>r s'. V s' = V s \<and> selected L (V s) base gen corpus live (force \<or> retire) state r) (\<lambda>e s'. V s' = V s) s"
    (is "wp _ ?Q ?E s")
proof (cases state)
  case (Some st)
  then show ?thesis using wp_resolve_recorded assms(1) by (simp add: selectable_def)
next
  case None
  have plain: "\<forall>c \<in> candidates base. unaliased (V s) c" "\<forall>l. live = Some l \<longrightarrow> unaliased (V s) l" "unaliased (V s) base"
    using assms(1) by (simp_all add: selectable_def)
  let ?rest = "sbind (cl_exists C base) (\<lambda>ex.
              sbind (if ex then sret True else cl_exists C (completion_collection_for base)) (\<lambda>taken.
              if taken
              then sbind (read_manifest_record L C (completion_collection_name (conf\<lparr>qdrant_collection := base\<rparr>)) False) (\<lambda>r.
                   if (case r of None \<Rightarrow> False | Some m \<Rightarrow> sm_state m = state_committed)
                   then sbind (fresh_staging_candidate C base live {}) (\<lambda>c. sret (c, False))
                   else sraise (Exn RuntimeErr ''unrecorded_build'' [JStr base]))
              else sret (base, False)))"
  have build: "wp ?rest ?Q ?E s1" if v: "V s1 = V s" and other: "Some base \<noteq> live" for s1
    unfolding wp_bind
  proof (rule wp_conseq [OF wp_exists_only])
    fix ex s2 assume e: "V s2 = V s1 \<and> ex = (v_points (V s1) base \<noteq> None)"
    have "wp (if ex then sret True else cl_exists C (completion_collection_for base))
       (\<lambda>taken s'. V s' = V s \<and> taken = (\<not> unbuilt (V s) base)) ?E s2"
    proof (cases ex)
      case False
      have "wp (cl_exists C (completion_collection_for base))
       (\<lambda>taken s'. V s' = V s \<and> taken = (\<not> unbuilt (V s) base)) ?E s2"
        by (rule wp_conseq [OF wp_exists_only]) (use e v False plain(3) in \<open>auto simp: unaliased_def unbuilt_def\<close>)
      then show ?thesis using False by simp
    qed (use e v in \<open>simp add: unbuilt_def\<close>)
    then show "wp (if ex then sret True else cl_exists C (completion_collection_for base)) (\<lambda>taken. wp (if taken
              then sbind (read_manifest_record L C (completion_collection_name (conf\<lparr>qdrant_collection := base\<rparr>)) False) (\<lambda>r.
                   if (case r of None \<Rightarrow> False | Some m \<Rightarrow> sm_state m = state_committed)
                   then sbind (fresh_staging_candidate C base live {}) (\<lambda>c. sret (c, False))
                   else sraise (Exn RuntimeErr ''unrecorded_build'' [JStr base]))
              else sret (base, False)) ?Q ?E) ?E s2"
    proof (rule wp_conseq)
      fix taken s3 assume t: "V s3 = V s \<and> taken = (\<not> unbuilt (V s) base)"
      have fresh: "wp (sbind (fresh_staging_candidate C base live {}) (\<lambda>c. sret (c, False))) ?Q ?E s4" if "V s4 = V s" for s4
        unfolding wp_bind by (rule wp_conseq [OF wp_fresh_candidate]) (use that plain(1) None in \<open>auto simp: selected_def\<close>)
      have "wp (sbind (read_manifest_record L C (completion_collection_name (conf\<lparr>qdrant_collection := base\<rparr>)) False) (\<lambda>r.
                   if (case r of None \<Rightarrow> False | Some m \<Rightarrow> sm_state m = state_committed)
                   then sbind (fresh_staging_candidate C base live {}) (\<lambda>c. sret (c, False))
                   else sraise (Exn RuntimeErr ''unrecorded_build'' [JStr base]))) ?Q ?E s3"
        unfolding wp_bind
        by (rule wp_conseq [OF wp_read_manifest_record]) (use fresh [unfolded wp_bind] t in auto)
      then show "wp (if taken
              then sbind (read_manifest_record L C (completion_collection_name (conf\<lparr>qdrant_collection := base\<rparr>)) False) (\<lambda>r.
                   if (case r of None \<Rightarrow> False | Some m \<Rightarrow> sm_state m = state_committed)
                   then sbind (fresh_staging_candidate C base live {}) (\<lambda>c. sret (c, False))
                   else sraise (Exn RuntimeErr ''unrecorded_build'' [JStr base]))
              else sret (base, False)) ?Q ?E s3"
        using t other None by (cases taken) (auto simp: selected_def)
    qed
  qed (use v plain(3) in \<open>simp_all add: unaliased_def\<close>)
  show ?thesis
    unfolding resolve_publish_staging_def Let_def None option.case assms(2) [symmetric] wp_bind [where m = "case live of None \<Rightarrow> _ | Some l \<Rightarrow> _ l"]
  proof (rule wp_conseq [OF wp_resolve_settled [OF plain(1,2)]])
    fix r s1 assume "V s1 = V s \<and> (case r of None \<Rightarrow> Some base \<noteq> live
        | Some r \<Rightarrow> selected L (V s) base gen corpus live (force \<or> retire) None r)"
    then show "wp (case r of None \<Rightarrow> ?rest | Some r \<Rightarrow> sret r)
       (\<lambda>r s'. V s' = V s \<and> selected L (V s) base gen corpus live (force \<or> retire) None r) ?E s1"
      using build None by (cases r) simp_all
  qed
qed

end

section \<open>What preparation leaves behind\<close>

text \<open>
  The control collection of the staging build carries the live contract and every live marker,
  and no receipt: it reads as unpublished.
\<close>

definition transferred :: "libs \<Rightarrow> view \<Rightarrow> string \<Rightarrow> string \<Rightarrow> view \<Rightarrow> bool" where
  "transferred L v live_control control v' \<longleftrightarrow>
     contract_in L v live_control \<noteq> None \<and> contract_in L v' control = contract_in L v live_control
     \<and> receipt_of L v' control = None
     \<and> (\<forall>p. \<not> is_receipt p \<and> pt_id p \<notin> own_ids L control (Some live_control) \<and> pt_id p \<noteq> manifest_point_id L control \<longrightarrow>
          (p \<in> set (points_of v' control) \<longleftrightarrow> p \<in> set (points_of v live_control)))"

definition prepared :: "libs \<Rightarrow> view \<Rightarrow> string \<Rightarrow> string option \<Rightarrow> preparation \<Rightarrow> view \<Rightarrow> bool" where
  "prepared L v staging live r v' \<longleftrightarrow>
     (let control = completion_collection_for staging in
      case r of
        Sealed_Build \<Rightarrow> v' = v \<and> receipt_of L v control \<noteq> None
      | Reused \<Rightarrow> v' = v \<and> v_points v staging \<noteq> None
          \<and> (contract_in L v control \<noteq> None \<or> (\<forall>l. live = Some l \<longrightarrow> contract_in L v (completion_collection_for l) = None))
      | Repaired \<Rightarrow> v_points v staging \<noteq> None \<and> points_of v' staging = points_of v staging
          \<and> (\<exists>l. live = Some l \<and> transferred L v (completion_collection_for l) control v')
      | Cloned \<Rightarrow> v_points v staging = None
          \<and> (\<exists>l. live = Some l \<and> by_id (points_of v' staging) = by_id (points_of v l)
               \<and> (contract_in L v (completion_collection_for l) = None \<or> transferred L v (completion_collection_for l) control v'))
      | Fresh_Build \<Rightarrow> v' = v \<and> v_points v staging = None \<and> live = None)"

context qdrant_publisher
begin

lemma wp_rekey_update:
  "wp (rekey_manifest L C src dst)
     (\<lambda>carried s'. carried \<longrightarrow> (\<exists>q. pt_id q = manifest_point_id L dst \<and> updated dst (put_points [q]) (V s) (V s')))
     (\<lambda>e s'. True) s"
    (is "wp _ ?Q ?E s")
  unfolding rekey_manifest_def wp_bind
proof (rule wp_exists)
  fix ex s1 assume v: "V s1 = V s"
  have "wp (sbind (cl_retrieve C src [manifest_point_id L src] WithAll True) (\<lambda>ps. case ps of
         [] \<Rightarrow> sret False
       | p # _ \<Rightarrow>
           (case record_from_payload L (pt_payload p) of
              None \<Rightarrow> sret False
            | Some r \<Rightarrow>
                if pt_vectors p = JNull then sret False
                else sseq (cl_upsert C dst [\<lparr>pt_id = manifest_point_id L dst,
                        pt_payload = manifest_payload L dst (sm_manifest r) (sm_state r), pt_vectors = pt_vectors p\<rparr>])
                      (sret True)))) ?Q ?E s1"
    unfolding wp_bind
  proof (rule wp_retrieve)
    fix ps s2 assume w: "V s2 = V s1"
    show "wp (case ps of
         [] \<Rightarrow> sret False
       | p # _ \<Rightarrow>
           (case record_from_payload L (pt_payload p) of
              None \<Rightarrow> sret False
            | Some r \<Rightarrow>
                if pt_vectors p = JNull then sret False
                else sseq (cl_upsert C dst [\<lparr>pt_id = manifest_point_id L dst,
                        pt_payload = manifest_payload L dst (sm_manifest r) (sm_state r), pt_vectors = pt_vectors p\<rparr>])
                      (sret True))) ?Q ?E s2"
      using v w by (cases ps) (auto intro!: wp_upsert exI split: option.split)
  qed simp
  then show "wp (if \<not> ex then sret False else sbind (cl_retrieve C src [manifest_point_id L src] WithAll True) (\<lambda>ps. case ps of
         [] \<Rightarrow> sret False
       | p # _ \<Rightarrow>
           (case record_from_payload L (pt_payload p) of
              None \<Rightarrow> sret False
            | Some r \<Rightarrow>
                if pt_vectors p = JNull then sret False
                else sseq (cl_upsert C dst [\<lparr>pt_id = manifest_point_id L dst,
                        pt_payload = manifest_payload L dst (sm_manifest r) (sm_state r), pt_vectors = pt_vectors p\<rparr>])
                      (sret True)))) ?Q ?E s1"
    by (rule wp_unless) simp
qed simp

lemma stays_transfer [keeps_rules]:
  assumes "1 \<le> ingest_scan_page_size conf" "completion_collection_name st \<in> ns"
    and "map_of (v_alias v) (completion_collection_name st) = None"
  shows "stays V ns v (transfer_staging_metadata L C conf st live)"
proof -
  have "phys v (completion_collection_name st) \<in> ns" using assms(2,3) by (simp add: phys_def)
  then show ?thesis
    unfolding transfer_staging_metadata_def Let_def using assms by (intro keeps_rules)
qed

lemma stays_ensure_staging:
  assumes "1 \<le> ingest_scan_page_size conf" "unaliased v (qdrant_collection st)"
  shows "stays V {qdrant_collection st, completion_collection_for (qdrant_collection st)} v (ensure_staging L C conf st live)"
  unfolding ensure_staging_def Let_def
  by (intro keeps_rules) (use assms in \<open>simp_all add: unaliased_def completion_collection_name_def\<close>)

text \<open>The points of the staging control collection after the copy, the re-keying and the removal of receipts.\<close>

lemma transferred_markers:
  assumes "by_id (points_of (V s1) control) = by_id (points_of (V s) lc)"
    and "updated control (put_points [q]) (V s1) (V s2)" "pt_id q = manifest_point_id L control"
    and "shrunk control (own \<union> receipt_ids (V s2) control) (V s2) (V s3)"
    and "\<not> is_receipt p" "pt_id p \<notin> own" "pt_id p \<noteq> manifest_point_id L control"
  shows "p \<in> set (points_of (V s3) control) \<longleftrightarrow> p \<in> set (points_of (V s) lc)"
proof -
  have "p \<in> set (points_of (V s3) control) \<longleftrightarrow> p \<in> set (points_of (V s2) control)"
    by (rule shrunk_keeps [OF view_wf view_wf assms(4-6)])
  also have "\<dots> \<longleftrightarrow> p \<in> set (points_of (V s1) control)"
    using set_put [OF view_wf view_wf assms(2)] assms(3,7) by (auto simp: by_id_def)
  also have "\<dots> \<longleftrightarrow> by_id (points_of (V s1) control) (pt_id p) = Some p" using by_id_in [OF wf] by blast
  also have "\<dots> \<longleftrightarrow> p \<in> set (points_of (V s) lc)" unfolding assms(1) using by_id_in [OF wf] by blast
  finally show ?thesis .
qed

end

context qdrant_publisher
begin

lemma wp_transfer_staging_metadata:
  assumes "retrieve_answers C V" "1 \<le> ingest_scan_page_size conf"
    and al: "map_of (v_alias (V s)) lc = None" "map_of (v_alias (V s)) sc = None" and "lc \<noteq> sc"
    and names: "lc = completion_collection_for live" "sc = completion_collection_name st"
  shows "wp (transfer_staging_metadata L C conf st live)
     (\<lambda>_ s'. (contract_in L (V s) lc = None \<or> transferred L (V s) lc sc (V s')) \<and> only {sc} (V s) (V s'))
     (\<lambda>_ s'. only {sc} (V s) (V s')) s"
proof -
  let ?I = "\<lambda>s'. only {sc} (V s) (V s')"
  have ph: "phys (V s) lc \<notin> {sc}" "phys (V s) sc \<in> {sc}" using al assms(5) by (simp_all add: phys_def)
  let ?Q = "\<lambda>_ s'. contract_in L (V s) lc = None \<or> transferred L (V s) lc sc (V s')"
  let ?E = "\<lambda>(_ :: exn) (_ :: 's). True"
  have check: "wp (sbind (read_manifest_record L C sc False) (\<lambda>now.
                  if now \<noteq> Some c then sraise (Exn RuntimeErr ''contract_mismatch'' [JStr sc]) else sret ())) ?Q ?E s3"
    if c: "contract_in L (V s) lc = Some c" and none: "receipt_of L (V s3) sc = None"
      and same: "\<And>p. \<not> is_receipt p \<Longrightarrow> pt_id p \<notin> own_ids L sc (Some lc) \<Longrightarrow> pt_id p \<noteq> manifest_point_id L sc \<Longrightarrow>
          (p \<in> set (points_of (V s3) sc) \<longleftrightarrow> p \<in> set (points_of (V s) lc))" for c s3
    unfolding wp_bind
  proof (rule wp_conseq [OF wp_read_manifest_record])
    fix now s4 assume n: "V s4 = V s3 \<and> (now = None \<or> now = contract_in L (V s3) sc)"
    show "wp (if now \<noteq> Some c then sraise (Exn RuntimeErr ''contract_mismatch'' [JStr sc]) else sret ()) ?Q ?E s4"
    proof (cases "now = Some c")
      case True
      then have "contract_in L (V s3) sc = Some c" using n by auto
      then show ?thesis using n c none same True by (simp add: transferred_def)
    qed simp
  qed simp
  have tail: "wp (sbind (rekey_manifest L C lc sc) (\<lambda>carried.
             if \<not> carried then sraise (Exn RuntimeErr ''transfer_failed'' [JStr lc, JStr sc])
             else sseq (delete_publication_metadata L C sc (Some lc))
                 (sbind (read_manifest_record L C sc False) (\<lambda>now.
                  if now \<noteq> Some c then sraise (Exn RuntimeErr ''contract_mismatch'' [JStr sc]) else sret ())))) ?Q ?E s1"
    if c: "contract_in L (V s) lc = Some c" and copy: "by_id (points_of (V s1) sc) = by_id (points_of (V s) lc)"
      and i: "?I s1" for c s1
    unfolding wp_bind
  proof (rule wp_conseq [OF wp_keeps [OF wp_rekey_update stays_rekey [OF ph(2)] i]])
    fix carried s2
    assume a: "(carried \<longrightarrow> (\<exists>q. pt_id q = manifest_point_id L sc \<and> updated sc (put_points [q]) (V s1) (V s2))) \<and> ?I s2"
    show "wp (if \<not> carried then sraise (Exn RuntimeErr ''transfer_failed'' [JStr lc, JStr sc])
             else sseq (delete_publication_metadata L C sc (Some lc))
                 (sbind (read_manifest_record L C sc False) (\<lambda>now.
                  if now \<noteq> Some c then sraise (Exn RuntimeErr ''contract_mismatch'' [JStr sc]) else sret ()))) ?Q ?E s2"
    proof (cases carried)
      case True
      then obtain q where q: "pt_id q = manifest_point_id L sc" "updated sc (put_points [q]) (V s1) (V s2)" using a by blast
      have "map_of (v_alias (V s2)) sc = None" using a al by (simp add: only_def)
      have "wp (sseq (delete_publication_metadata L C sc (Some lc))
                 (sbind (read_manifest_record L C sc False) (\<lambda>now.
                  if now \<noteq> Some c then sraise (Exn RuntimeErr ''contract_mismatch'' [JStr sc]) else sret ()))) ?Q ?E s2"
        unfolding wp_seq
      proof (rule wp_conseq [OF wp_delete_publication_metadata])
        show "map_of (v_alias (V s2)) sc = None" by fact
        fix u s3
        assume d: "shrunk sc (own_ids L sc (Some lc) \<union> receipt_ids (V s2) sc) (V s2) (V s3)
          \<and> (\<forall>p \<in> set (points_of (V s3) sc). pt_id p \<notin> own_ids L sc (Some lc))"
        then have "receipt_of L (V s3) sc = None" by (auto simp: receipt_of_def own_ids_def by_id_None)
        then show "wp (sbind (read_manifest_record L C sc False) (\<lambda>now.
                  if now \<noteq> Some c then sraise (Exn RuntimeErr ''contract_mismatch'' [JStr sc]) else sret ())) ?Q ?E s3"
          using transferred_markers [OF copy q(2,1)] d by (intro check [OF c]) blast+
      qed simp
      then show ?thesis unfolding if_not_P [OF not_not [THEN iffD2, OF True]] .
    qed simp
  qed simp
  have main: "wp (sbind (cl_exists C sc) (\<lambda>ex.
             sseq (if ex then cl_drop C sc else sret ())
            (sseq (clone_collection C conf lc sc)
            (sbind (rekey_manifest L C lc sc) (\<lambda>carried.
             if \<not> carried then sraise (Exn RuntimeErr ''transfer_failed'' [JStr lc, JStr sc])
             else sseq (delete_publication_metadata L C sc (Some lc))
                 (sbind (read_manifest_record L C sc False) (\<lambda>now.
                  if now \<noteq> Some c then sraise (Exn RuntimeErr ''contract_mismatch'' [JStr sc]) else sret ()))))))) ?Q ?E s0"
    if c: "contract_in L (V s) lc = Some c" and v: "V s0 = V s" for c s0
    unfolding wp_bind [where m = "cl_exists C sc"]
  proof (rule wp_exists)
    fix ex s1 assume e: "V s1 = V s0"
    have i1: "?I s1" using e v by simp
    have "stays V {sc} (V s) (if ex then cl_drop C sc else sret ())" by (intro keeps_rules) simp
    from keepsD [OF this i1] show "wp (sseq (if ex then cl_drop C sc else sret ())
            (sseq (clone_collection C conf lc sc)
            (sbind (rekey_manifest L C lc sc) (\<lambda>carried.
             if \<not> carried then sraise (Exn RuntimeErr ''transfer_failed'' [JStr lc, JStr sc])
             else sseq (delete_publication_metadata L C sc (Some lc))
                 (sbind (read_manifest_record L C sc False) (\<lambda>now.
                  if now \<noteq> Some c then sraise (Exn RuntimeErr ''contract_mismatch'' [JStr sc]) else sret ())))))) ?Q ?E s1"
      unfolding wp_seq [where m = "if ex then cl_drop C sc else sret ()"]
    proof (rule wp_conseq)
      fix u s2 assume i2: "?I s2"
      then have al2: "map_of (v_alias (V s2)) sc = None" using al by (simp add: only_def)
      have src: "points_of (V s2) lc = points_of (V s) lc" by (rule only_points_of [OF i2 ph(1)])
      show "wp (sseq (clone_collection C conf lc sc)
            (sbind (rekey_manifest L C lc sc) (\<lambda>carried.
             if \<not> carried then sraise (Exn RuntimeErr ''transfer_failed'' [JStr lc, JStr sc])
             else sseq (delete_publication_metadata L C sc (Some lc))
                 (sbind (read_manifest_record L C sc False) (\<lambda>now.
                  if now \<noteq> Some c then sraise (Exn RuntimeErr ''contract_mismatch'' [JStr sc]) else sret ()))))) ?Q ?E s2"
        unfolding wp_seq [where m = "clone_collection C conf lc sc"]
        by (rule wp_conseq [OF wp_keeps [OF wp_clone [OF assms(2) al2] stays_clone [OF assms(2) insertI1 al(2)] i2]])
           (use tail [OF c] src in auto)
    qed simp
  qed simp
  have "wp (transfer_staging_metadata L C conf st live) ?Q ?E s"
    unfolding transfer_staging_metadata_def Let_def names [symmetric] wp_bind [where m = "read_manifest_record L C lc False"]
  proof (rule wp_conseq [OF wp_read_manifest_sure [OF assms(1) al(1)]])
    fix r s0 assume r: "V s0 = V s \<and> r = contract_in L (V s) lc"
    show "wp (case r of None \<Rightarrow> sret () | Some _ \<Rightarrow> sbind (cl_exists C sc) (\<lambda>ex.
             sseq (if ex then cl_drop C sc else sret ())
            (sseq (clone_collection C conf lc sc)
            (sbind (rekey_manifest L C lc sc) (\<lambda>carried.
             if \<not> carried then sraise (Exn RuntimeErr ''transfer_failed'' [JStr lc, JStr sc])
             else sseq (delete_publication_metadata L C sc (Some lc))
                 (sbind (read_manifest_record L C sc False) (\<lambda>now.
                  if now \<noteq> r then sraise (Exn RuntimeErr ''contract_mismatch'' [JStr sc]) else sret ()))))))) ?Q ?E s0"
    proof (cases r)
      case (Some c)
      show ?thesis unfolding Some option.case by (rule main) (use r Some in simp_all)
    qed (use r in simp)
  qed simp
  moreover have "stays V {sc} (V s) (transfer_staging_metadata L C conf st live)"
    using stays_transfer [OF assms(2) _ al(2) [unfolded names(2)]] names(2) by simp
  ultimately have "wp (transfer_staging_metadata L C conf st live) (\<lambda>x s'. ?Q x s' \<and> ?I s') (\<lambda>e s'. ?E e s' \<and> ?I s') s"
    by (rule wp_keeps) simp
  then show ?thesis by simp
qed

end

text \<open>The names preparation works with: the serving generation and the staging build are different collections.\<close>

definition stageable :: "view \<Rightarrow> string \<Rightarrow> string option \<Rightarrow> bool" where
  "stageable v staging live \<longleftrightarrow> unaliased v staging \<and> (\<forall>l. live = Some l \<longrightarrow> unaliased v l \<and> l \<noteq> staging
     \<and> l \<noteq> completion_collection_for staging \<and> completion_collection_for l \<noteq> staging)"

context qdrant_publisher
begin

lemma wp_binding_present:
  assumes "map_of (v_alias (V s)) control = None"
  shows "wp (read_build_binding L C control)
     (\<lambda>b s'. V s' = V s \<and> (b \<noteq> None \<longrightarrow> receipt_of L (V s) control \<noteq> None)) (\<lambda>e s'. V s' = V s) s"
  unfolding read_build_binding_def wp_bind
proof (rule wp_conseq [OF wp_read_publication_record [OF assms]])
  fix r s'
  assume r: "V s' = V s \<and> r = receipt_of L (V s) control
    \<and> (\<forall>p. r = Some p \<longrightarrow> decode_publication_record p control = Inr p)"
  show "wp (case r of None \<Rightarrow> sret None | Some p \<Rightarrow> sbind (slift (decode_build_binding p control)) (\<lambda>b. sret (Some b)))
     (\<lambda>b s'. V s' = V s \<and> (b \<noteq> None \<longrightarrow> receipt_of L (V s) control \<noteq> None)) (\<lambda>e s'. V s' = V s) s'"
  proof (cases r)
    case (Some p)
    have "V s' = V s" "receipt_of L (V s) control = Some p" using r Some by simp_all
    then show ?thesis unfolding Some option.case by (cases "decode_build_binding p control") simp_all
  qed (use r in simp)
qed simp

lemma wp_clone_and_transfer:
  assumes "retrieve_answers C V" "1 \<le> ingest_scan_page_size conf" "stageable (V s) (qdrant_collection st) (Some l)"
    and "v_points (V s) (qdrant_collection st) = None" "V s1 = V s"
  shows "wp (sseq (clone_collection C conf l (qdrant_collection st)) (sseq (transfer_staging_metadata L C conf st l) (sret Cloned)))
     (\<lambda>r s'. prepared L (V s) (qdrant_collection st) (Some l) r (V s')) (\<lambda>_ _. True) s1"
proof -
  let ?n = "qdrant_collection st"
  let ?c = "completion_collection_for ?n"
  let ?lc = "completion_collection_for l"
  have al: "map_of (v_alias (V s)) ?n = None" "map_of (v_alias (V s)) ?c = None" "map_of (v_alias (V s)) l = None"
      "map_of (v_alias (V s)) ?lc = None"
    and names: "l \<noteq> ?n" "l \<noteq> ?c" "?lc \<noteq> ?n" "?lc \<noteq> ?c"
    using assms(3) by (auto simp: stageable_def unaliased_def completion_collection_for_def)
  have ph: "phys (V s) ?lc \<notin> {?n}" "phys (V s) ?n \<notin> {?c}"
    using al names by (auto simp: phys_def completion_collection_for_def)
  note clone = wp_keeps [OF wp_clone [OF assms(2), of s1 ?n l] stays_clone [OF assms(2) insertI1, where v = "V s1"]]
  show ?thesis
    unfolding wp_seq
  proof (rule wp_conseq [OF clone])
    fix u s2
    assume a: "(by_id (points_of (V s2) ?n) = by_id (points_of (V s1) l) \<and> points_of (V s2) l = points_of (V s1) l
        \<and> v_alias (V s2) = v_alias (V s1)) \<and> only {?n} (V s1) (V s2)"
    then have o1: "only {?n} (V s) (V s2)" using assms(5) by simp
    then have lc: "points_of (V s2) ?lc = points_of (V s) ?lc" using only_points_of ph(1) by blast
    then have ctr: "contract_in L (V s2) ?lc = contract_in L (V s) ?lc" by (simp add: contract_in_def)
    have al2: "map_of (v_alias (V s2)) ?lc = None" "map_of (v_alias (V s2)) ?c = None" using o1 al by (simp_all add: only_def)
    show "wp (transfer_staging_metadata L C conf st l) (\<lambda>_. wp (sret Cloned)
        (\<lambda>r s'. prepared L (V s) ?n (Some l) r (V s')) (\<lambda>_ _. True)) (\<lambda>_ _. True) s2"
    proof (rule wp_conseq [OF wp_transfer_staging_metadata [OF assms(1,2) al2 names(4) refl]])
      show "?c = completion_collection_name st" by (simp add: completion_collection_name_def)
      fix v s3
      assume t: "(contract_in L (V s2) ?lc = None \<or> transferred L (V s2) ?lc ?c (V s3)) \<and> only {?c} (V s2) (V s3)"
      have "points_of (V s3) ?n = points_of (V s2) ?n"
        using only_points_of [of "{?c}" "V s2" "V s3" ?n] t ph(2) only_phys [OF o1] by simp
      moreover have "transferred L (V s) ?lc ?c (V s3)" if "transferred L (V s2) ?lc ?c (V s3)"
        using that lc ctr by (simp add: transferred_def)
      ultimately show "wp (sret Cloned) (\<lambda>r s'. prepared L (V s) ?n (Some l) r (V s')) (\<lambda>_ _. True) s3"
        using t a assms(4,5) ctr by (auto simp: prepared_def)
    qed simp
  qed (use al assms(5) in simp_all)
qed

lemma wp_ensure_staging:
  assumes "retrieve_answers C V" "1 \<le> ingest_scan_page_size conf" "stageable (V s) (qdrant_collection st) live"
  shows "wp (ensure_staging L C conf st live)
     (\<lambda>r s'. prepared L (V s) (qdrant_collection st) live r (V s')) (\<lambda>_ _. True) s"
    (is "wp _ ?Q ?E s")
proof -
  let ?n = "qdrant_collection st"
  let ?c = "completion_collection_for ?n"
  have name: "completion_collection_name st = ?c" by (simp add: completion_collection_name_def)
  have al: "map_of (v_alias (V s)) ?n = None" "map_of (v_alias (V s)) ?c = None"
    using assms(3) by (auto simp: stageable_def unaliased_def)
  have live: "map_of (v_alias (V s)) (completion_collection_for l) = None" "completion_collection_for l \<noteq> ?c" if "live = Some l" for l
    using assms(3) that by (auto simp: stageable_def unaliased_def completion_collection_for_def)
  have repair: "wp (sseq (transfer_staging_metadata L C conf st l) (sret Repaired)) ?Q ?E s1"
    if v: "V s1 = V s" and l: "live = Some l" and ex: "v_points (V s) ?n \<noteq> None"
      and c: "contract_in L (V s) (completion_collection_for l) \<noteq> None" for s1 l
    unfolding wp_seq
  proof (rule wp_conseq [OF wp_transfer_staging_metadata [OF assms(1,2) _ _ live(2) [OF l] refl name [symmetric]]])
    fix u s2
    assume t: "(contract_in L (V s1) (completion_collection_for l) = None \<or> transferred L (V s1) (completion_collection_for l) ?c (V s2))
      \<and> only {?c} (V s1) (V s2)"
    moreover have "phys (V s) ?n \<notin> {?c}" using al by (simp add: phys_def completion_collection_for_def)
    ultimately have "points_of (V s2) ?n = points_of (V s) ?n" using only_points_of v by metis
    then show "wp (sret Repaired) ?Q ?E s2" using t c v l ex by (simp add: prepared_def)
  qed (use v live(1) [OF l] al in simp_all)
  have existing: "wp (sbind (read_manifest L C (completion_collection_name st)) (\<lambda>m.
              if m \<noteq> None then sret Reused
              else case live of
                None \<Rightarrow> sret Reused
              | Some l \<Rightarrow>
                  sbind (read_manifest L C (completion_collection_for l)) (\<lambda>lm.
                  if lm \<noteq> None
                  then sseq (transfer_staging_metadata L C conf st l) (sret Repaired)
                  else sret Reused))) ?Q ?E s1" if v: "V s1 = V s" and ex: "v_points (V s) ?n \<noteq> None" for s1
    unfolding read_manifest_def wp_bind name wp_ret
  proof (rule wp_conseq [OF wp_read_manifest_sure [OF assms(1)]])
    fix r s2 assume r: "V s2 = V s1 \<and> r = contract_in L (V s1) ?c"
    show "wp (if map_option sm_manifest r \<noteq> None then sret Reused
              else case live of
                None \<Rightarrow> sret Reused
              | Some l \<Rightarrow>
                  sbind (sbind (read_manifest_record L C (completion_collection_for l) False) (\<lambda>r. sret (map_option sm_manifest r))) (\<lambda>lm.
                  if lm \<noteq> None
                  then sseq (transfer_staging_metadata L C conf st l) (sret Repaired)
                  else sret Reused)) ?Q ?E s2"
    proof (cases "map_option sm_manifest r \<noteq> None")
      case False
      then have none: "contract_in L (V s) ?c = None" using r v by simp
      show ?thesis
      proof (cases live)
        case None
        then show ?thesis using False r v ex by (simp add: prepared_def)
      next
        case (Some l)
        have "wp (sbind (sbind (read_manifest_record L C (completion_collection_for l) False) (\<lambda>r. sret (map_option sm_manifest r))) (\<lambda>lm.
                  if lm \<noteq> None
                  then sseq (transfer_staging_metadata L C conf st l) (sret Repaired)
                  else sret Reused)) ?Q ?E s2"
          unfolding wp_bind wp_ret
        proof (rule wp_conseq [OF wp_read_manifest_sure [OF assms(1)]])
          fix lr s3 assume "V s3 = V s2 \<and> lr = contract_in L (V s2) (completion_collection_for l)"
          then have lr: "V s3 = V s" "lr = contract_in L (V s) (completion_collection_for l)" using r v by simp_all
          show "wp (if map_option sm_manifest lr \<noteq> None
                  then sseq (transfer_staging_metadata L C conf st l) (sret Repaired) else sret Reused) ?Q ?E s3"
          proof (cases "map_option sm_manifest lr \<noteq> None")
            case True
            show ?thesis unfolding if_P [OF True] by (rule repair [OF lr(1) Some ex]) (use True lr(2) in simp)
          next
            case no: False
            show ?thesis unfolding if_not_P [OF no] using no lr ex Some by (auto simp: prepared_def)
          qed
        qed (use r v live(1) [OF Some] in simp_all)
        then show ?thesis unfolding if_not_P [OF False] Some option.case .
      qed
    qed (use r v ex in \<open>auto simp: prepared_def\<close>)
  qed (use v al in simp_all)
  show ?thesis
    unfolding ensure_staging_def Let_def wp_bind [where m = "read_build_binding L C ?c"]
  proof (rule wp_conseq [OF wp_binding_present [OF al(2)]])
    fix b s1 assume b: "V s1 = V s \<and> (b \<noteq> None \<longrightarrow> receipt_of L (V s) ?c \<noteq> None)"
    have go: "wp (sbind (cl_exists C ?n) (\<lambda>ex.
         if ex
         then sbind (read_manifest L C (completion_collection_name st)) (\<lambda>m.
              if m \<noteq> None then sret Reused
              else case live of
                None \<Rightarrow> sret Reused
              | Some l \<Rightarrow>
                  sbind (read_manifest L C (completion_collection_for l)) (\<lambda>lm.
                  if lm \<noteq> None
                  then sseq (transfer_staging_metadata L C conf st l) (sret Repaired)
                  else sret Reused))
         else case live of
            None \<Rightarrow> sret Fresh_Build
          | Some l \<Rightarrow>
              sseq (clone_collection C conf l ?n) (sseq (transfer_staging_metadata L C conf st l) (sret Cloned)))) ?Q ?E s1"
      unfolding wp_bind [where m = "cl_exists C ?n"]
    proof (rule wp_exists)
      fix ex s2 assume e: "V s2 = V s1" "map_of (v_alias (V s1)) ?n = None \<longrightarrow> ex = (v_points (V s1) ?n \<noteq> None)"
      have "wp (case live of None \<Rightarrow> sret Fresh_Build
          | Some l \<Rightarrow> sseq (clone_collection C conf l ?n) (sseq (transfer_staging_metadata L C conf st l) (sret Cloned))) ?Q ?E s2"
        if no: "v_points (V s) ?n = None"
      proof (cases live)
        case (Some l)
        show ?thesis
          unfolding Some option.case
          by (rule wp_clone_and_transfer [OF assms(1,2) _ no]) (use assms(3) Some e b in simp_all)
      qed (use no e b in \<open>simp add: prepared_def\<close>)
      then show "wp (if ex
         then sbind (read_manifest L C (completion_collection_name st)) (\<lambda>m.
              if m \<noteq> None then sret Reused
              else case live of
                None \<Rightarrow> sret Reused
              | Some l \<Rightarrow>
                  sbind (read_manifest L C (completion_collection_for l)) (\<lambda>lm.
                  if lm \<noteq> None
                  then sseq (transfer_staging_metadata L C conf st l) (sret Repaired)
                  else sret Reused))
         else case live of None \<Rightarrow> sret Fresh_Build
          | Some l \<Rightarrow> sseq (clone_collection C conf l ?n) (sseq (transfer_staging_metadata L C conf st l) (sret Cloned))) ?Q ?E s2"
        using existing [of s2] e b al by (cases ex) (simp_all only: if_True if_False, simp_all)
    qed simp
    show "wp (if b \<noteq> None then sret Sealed_Build else sbind (cl_exists C ?n) (\<lambda>ex.
         if ex
         then sbind (read_manifest L C (completion_collection_name st)) (\<lambda>m.
              if m \<noteq> None then sret Reused
              else case live of
                None \<Rightarrow> sret Reused
              | Some l \<Rightarrow>
                  sbind (read_manifest L C (completion_collection_for l)) (\<lambda>lm.
                  if lm \<noteq> None
                  then sseq (transfer_staging_metadata L C conf st l) (sret Repaired)
                  else sret Reused))
         else case live of None \<Rightarrow> sret Fresh_Build
          | Some l \<Rightarrow> sseq (clone_collection C conf l ?n) (sseq (transfer_staging_metadata L C conf st l) (sret Cloned)))) ?Q ?E s1"
    proof (cases "b \<noteq> None")
      case True
      then show ?thesis using b by (simp add: prepared_def)
    next
      case False
      show ?thesis unfolding if_not_P [OF False] by (rule go)
    qed
  qed simp
qed

end

section \<open>The address of a build\<close>

lemma nul_prefix: "CHR 0x00 \<notin> set a \<Longrightarrow> CHR 0x00 \<notin> set b \<Longrightarrow> a @ nul @ r = b @ nul @ r' \<Longrightarrow> a = b \<and> r = r'"
  using prefix_before [of a "\<lambda>c. c = CHR 0x00" b "CHR 0x00" "CHR 0x00" r r'] by (auto simp: nul_def)

definition no_nul :: "(string \<times> string) list \<Rightarrow> bool" where
  "no_nul es \<longleftrightarrow> list_all (\<lambda>(path, sha). CHR 0x00 \<notin> set path \<and> CHR 0x00 \<notin> set sha) es"

lemma entries_text_inject:
  assumes "no_nul es" "no_nul es'"
    and "concat (map (\<lambda>(path, sha). path @ nul @ sha @ nul) es) = concat (map (\<lambda>(path, sha). path @ nul @ sha @ nul) es')"
  shows "es = es'"
  using assms
proof (induction es arbitrary: es')
  case Nil
  then show ?case by (cases es') (auto simp: nul_def)
next
  case (Cons e es)
  obtain path sha where e: "e = (path, sha)" by (cases e)
  from Cons.prems(3) obtain path' sha' es'' where es': "es' = (path', sha') # es''"
    by (cases es') (auto simp: nul_def e)
  let ?t = "\<lambda>es. concat (map (\<lambda>(path, sha). path @ nul @ sha @ nul) es)"
  have "path @ nul @ sha @ nul @ ?t es = path' @ nul @ sha' @ nul @ ?t es''" using Cons.prems(3) by (simp add: e es')
  then have "path = path' \<and> sha @ nul @ ?t es = sha' @ nul @ ?t es''"
    using Cons.prems(1,2) by (intro nul_prefix) (simp_all add: no_nul_def e es')
  moreover from this have "sha = sha' \<and> ?t es = ?t es''"
    using Cons.prems(1,2) by (intro nul_prefix) (simp_all add: no_nul_def e es')
  ultimately show ?case using Cons.IH [of es''] Cons.prems(1,2) by (simp add: no_nul_def e es')
qed

lemma corpus_text_inject:
  assumes "no_nul es" "no_nul es'"
  shows "corpus_text es = corpus_text es' \<longleftrightarrow> mset es = mset es'"
proof -
  have "no_nul (sort es)" "no_nul (sort es')" using assms by (simp_all add: no_nul_def list_all_iff)
  then have "corpus_text es = corpus_text es' \<longleftrightarrow> sort es = sort es'"
    unfolding corpus_text_def using entries_text_inject by metis
  also have "\<dots> \<longleftrightarrow> mset es = mset es'" by (metis mset_sort properties_for_sort sorted_sort)
  finally show ?thesis .
qed

text \<open>A truncated hash tells two texts apart, as a hypothesis for the texts at hand.\<close>

definition short_apart :: "libs \<Rightarrow> nat \<Rightarrow> string \<Rightarrow> string \<Rightarrow> bool" where
  "short_apart L n a b \<longleftrightarrow> (take n (lib_sha256 L a) = take n (lib_sha256 L b) \<longrightarrow> a = b)"

lemma short_apart_iff: "short_apart L n a b \<Longrightarrow> take n (lib_sha256 L a) = take n (lib_sha256 L b) \<longleftrightarrow> a = b"
  by (auto simp: short_apart_def)

definition representation_text :: "settings \<Rightarrow> string \<Rightarrow> string" where
  "representation_text st rv = json_text (JObj (representation_projection (build_manifest st rv)))"

definition generation_text :: "libs \<Rightarrow> settings \<Rightarrow> string \<Rightarrow> string \<Rightarrow> string" where
  "generation_text L st rv triple = representation_fingerprint L st rv @ nul @ triple"

lemma representation_fingerprint_inject:
  assumes "short_apart L 16 (representation_text st rv) (representation_text st' rv')"
  shows "representation_fingerprint L st rv = representation_fingerprint L st' rv' \<longleftrightarrow>
    same_vectors (build_manifest st rv) (build_manifest st' rv')"
  unfolding representation_fingerprint_def representation_text_def [symmetric] same_append_eq short_apart_iff [OF assms]
  unfolding representation_text_def by (rule projection_text_inject)

section \<open>Properties\<close>





text \<open>The name of a staging build addresses its inputs. Two runs derive one name exactly when they
  publish to the same collection, with settings that give the same stored vectors and payloads,
  under the same labels, over the same files with the same bytes, in whatever order the walk
  lists them; provided the three truncated hashes do not collide on the texts at hand, and no
  path holds a zero byte.\<close>
theorem staging_address_exact:
  assumes "\<forall>t. 16 \<le> length (lib_sha256 L t) \<and> CHR 0x00 \<notin> set (lib_sha256 L t)" "no_nul es" "no_nul es'"
    and "short_apart L 16 (representation_text st rv) (representation_text st' rv')"
    and "short_apart L 16 (generation_text L st rv triple) (generation_text L st' rv' triple')"
    and "short_apart L 12 (corpus_text es) (corpus_text es')"
  shows "staging_name_for (qdrant_collection st) (generation_fingerprint L st rv triple) (corpus_fingerprint L es)
      = staging_name_for (qdrant_collection st') (generation_fingerprint L st' rv' triple') (corpus_fingerprint L es')
    \<longleftrightarrow> qdrant_collection st = qdrant_collection st' \<and> same_vectors (build_manifest st rv) (build_manifest st' rv')
        \<and> triple = triple' \<and> mset es = mset es'"
proof -
  have long: "16 \<le> length (lib_sha256 L t)" "12 \<le> length (lib_sha256 L t)" for t
    using assms(1) [rule_format, of t] by simp_all
  have len: "length (generation_fingerprint L st rv t) = 16" "length (corpus_fingerprint L es) = 12" for st rv t es
    using long by (simp_all add: generation_fingerprint_def corpus_fingerprint_def)
  have free: "CHR 0x00 \<notin> set (representation_fingerprint L st rv)" for st rv
    using assms(1) by (auto simp: representation_fingerprint_def representation_fingerprint_version_def dest!: in_set_takeD)
  have "generation_fingerprint L st rv triple = generation_fingerprint L st' rv' triple'
      \<longleftrightarrow> generation_text L st rv triple = generation_text L st' rv' triple'"
    using short_apart_iff [OF assms(5)] by (simp add: generation_fingerprint_def generation_text_def)
  also have "\<dots> \<longleftrightarrow> representation_fingerprint L st rv = representation_fingerprint L st' rv' \<and> triple = triple'"
    unfolding generation_text_def using nul_prefix [OF free free] by blast
  finally have gen: "generation_fingerprint L st rv triple = generation_fingerprint L st' rv' triple'
      \<longleftrightarrow> same_vectors (build_manifest st rv) (build_manifest st' rv') \<and> triple = triple'"
    unfolding representation_fingerprint_inject [OF assms(4)] .
  have corpus: "corpus_fingerprint L es = corpus_fingerprint L es' \<longleftrightarrow> mset es = mset es'"
    using short_apart_iff [OF assms(6)] corpus_text_inject [OF assms(2,3)] by (simp add: corpus_fingerprint_def)
  have "staging_name_for (qdrant_collection st) (generation_fingerprint L st rv triple) (corpus_fingerprint L es)
      = staging_name_for (qdrant_collection st') (generation_fingerprint L st' rv' triple') (corpus_fingerprint L es')
    \<longleftrightarrow> qdrant_collection st = qdrant_collection st' \<and> generation_fingerprint L st rv triple = generation_fingerprint L st' rv' triple'
      \<and> corpus_fingerprint L es = corpus_fingerprint L es'"
    by (auto simp: staging_name_for_def append_eq_append_conv len)
  then show ?thesis unfolding gen corpus by blast
qed

definition nul_free_libs :: libs where
  "nul_free_libs = demo_libs\<lparr>lib_sha256 := (\<lambda>t. if CHR ''a'' \<in> set t then replicate 64 (CHR ''1'') else replicate 64 (CHR ''0''))\<rparr>"

lemma staging_address_exact_witness:
  "corpus_fingerprint nul_free_libs [(''b.pdf'', ''1''), (''a.pdf'', ''1'')] = corpus_fingerprint nul_free_libs [(''a.pdf'', ''1''), (''b.pdf'', ''1'')]
   \<and> staging_name_for ''live'' (generation_fingerprint nul_free_libs (demo_settings ''live'') ''r1'' ''t'') (corpus_fingerprint nul_free_libs [(''a.pdf'', ''1'')])
     \<noteq> staging_name_for ''live'' (generation_fingerprint nul_free_libs (demo_settings ''live'') ''r1'' ''t'') (corpus_fingerprint nul_free_libs [(''b.pdf'', ''1'')])"
proof -
  have hash: "\<forall>t. 16 \<le> length (lib_sha256 nul_free_libs t) \<and> CHR 0x00 \<notin> set (lib_sha256 nul_free_libs t)"
    by (simp add: nul_free_libs_def)
  have same: "short_apart L n t t" for L n t by (simp add: short_apart_def)
  have two: "short_apart nul_free_libs 12 (corpus_text [(''a.pdf'', ''1'')]) (corpus_text [(''b.pdf'', ''1'')])"
    by (simp add: short_apart_def nul_free_libs_def corpus_text_def nul_def)
  have walks: "no_nul [(''a.pdf'', ''1'')]" "no_nul [(''b.pdf'', ''1'')]" by (simp_all add: no_nul_def)
  have eq: "corpus_text [(''b.pdf'', ''1''), (''a.pdf'', ''1'')] = corpus_text [(''a.pdf'', ''1''), (''b.pdf'', ''1'')]"
    by (subst corpus_text_inject) (simp_all add: no_nul_def)
  have coll: "''live'' = qdrant_collection (demo_settings ''live'')" by simp
  have "staging_name_for ''live'' (generation_fingerprint nul_free_libs (demo_settings ''live'') ''r1'' ''t'') (corpus_fingerprint nul_free_libs [(''a.pdf'', ''1'')])
     \<noteq> staging_name_for ''live'' (generation_fingerprint nul_free_libs (demo_settings ''live'') ''r1'' ''t'') (corpus_fingerprint nul_free_libs [(''b.pdf'', ''1'')])"
    by (subst (1 2) coll, subst staging_address_exact [OF hash walks same same two]) simp
  then show ?thesis unfolding corpus_fingerprint_def eq by blast
qed

end
