(* ===== verification/Reference.thy ===== *)
theory Reference
  imports Build "HOL-Library.Word"
begin

text \<open>
  The tokens of the evidence service (\<open>mainframe_rag/agent/evidence.py\<close>): an \<open>ep1.\<close> reference
  is the URL-safe base64 of a build UUID, a chunk UUID and an envelope digest, an \<open>ls1.\<close> cursor
  that of a build UUID and a catalog point id. Bytes are 8-bit words. The decoder of the standard
  library skips characters outside its alphabet; every token it accepts beyond the canonical ones
  is refused by the comparison with the re-encoded bytes, so the decoder here refuses them at once.
\<close>

unbundle bit_operations_syntax

type_synonym byte = "8 word"

section \<open>Base64\<close>

fun sextets :: "byte list \<Rightarrow> 6 word list" where
  "sextets [] = []"
| "sextets [a] = [ucast (drop_bit 2 a), push_bit 4 (ucast a)]"
| "sextets [a, b] = [ucast (drop_bit 2 a), push_bit 4 (ucast a) OR ucast (drop_bit 4 b), push_bit 2 (ucast b)]"
| "sextets (a # b # c # rest) =
     ucast (drop_bit 2 a) # (push_bit 4 (ucast a) OR ucast (drop_bit 4 b))
     # (push_bit 2 (ucast b) OR ucast (drop_bit 6 c)) # ucast c # sextets rest"

definition join_first :: "6 word \<Rightarrow> 6 word \<Rightarrow> byte" where
  "join_first x y = push_bit 2 (ucast x) OR ucast (drop_bit 4 y)"

definition join_second :: "6 word \<Rightarrow> 6 word \<Rightarrow> byte" where
  "join_second y z = push_bit 4 (ucast y) OR ucast (drop_bit 2 z)"

definition join_third :: "6 word \<Rightarrow> 6 word \<Rightarrow> byte" where
  "join_third z w = push_bit 6 (ucast z) OR ucast w"

text \<open>The spare bits of a final group are dropped; a single sextet encodes no byte.\<close>

fun octets :: "6 word list \<Rightarrow> byte list option" where
  "octets [] = Some []"
| "octets [x] = None"
| "octets [x, y] = Some [join_first x y]"
| "octets [x, y, z] = Some [join_first x y, join_second y z]"
| "octets (x # y # z # w # rest) =
     map_option (\<lambda>bs. join_first x y # join_second y z # join_third z w # bs) (octets rest)"

definition b64_alphabet :: string where
  "b64_alphabet = ''ABCDEFGHIJKLMNOPQRSTUVWXYZabcdefghijklmnopqrstuvwxyz0123456789-_''"

definition b64_char :: "6 word \<Rightarrow> char" where
  "b64_char x = b64_alphabet ! unat x"

definition b64_value :: "char \<Rightarrow> 6 word option" where
  "b64_value c = map_of (zip b64_alphabet (map word_of_nat [0..<64])) c"

text \<open>\<open>urlsafe_b64encode(raw).rstrip("=")\<close>, and the decoder after the padding is put back.\<close>

definition b64_encode :: "byte list \<Rightarrow> string" where
  "b64_encode bs = map b64_char (sextets bs)"

definition b64_decode :: "string \<Rightarrow> byte list option" where
  "b64_decode s = Option.bind (those (map b64_value s)) octets"

section \<open>UUIDs\<close>

definition hex_text :: "byte \<Rightarrow> string" where
  "hex_text b = [hex_digit (unat b div 16), hex_digit (unat b mod 16)]"

fun bytes_of_hex :: "string \<Rightarrow> byte list" where
  "bytes_of_hex (a # b # rest) = word_of_nat (16 * hex_value a + hex_value b) # bytes_of_hex rest"
| "bytes_of_hex _ = []"

text \<open>\<open>uuid.UUID(v).bytes\<close> of a canonical text, and \<open>str(uuid.UUID(bytes=raw))\<close>.\<close>

definition uuid_bytes :: "string \<Rightarrow> byte list" where
  "uuid_bytes v = bytes_of_hex (filter (\<lambda>c. c \<noteq> CHR ''-'') v)"

definition uuid_text :: "byte list \<Rightarrow> string" where
  "uuid_text bs = (let h = concat (map hex_text bs) in
     take 8 h @ ''-'' @ take 4 (drop 8 h) @ ''-'' @ take 4 (drop 12 h) @ ''-'' @ take 4 (drop 16 h) @ ''-'' @ drop 20 h)"

definition canonical_uuid :: "json \<Rightarrow> string res" where
  "canonical_uuid value =
     (case value of
        JStr v \<Rightarrow> if is_canonical_uuid v then Inr v else raise_exn ValueErr ''not_canonical'' []
      | _ \<Rightarrow> raise_exn TypeErr ''not_a_string'' [])"

section \<open>References and cursors\<close>

definition evidence_failure :: "string \<Rightarrow> string \<Rightarrow> exn" where
  "evidence_failure kind reason = Exn EvidenceErr kind [JStr reason]"

definition reference_prefix :: string where "reference_prefix = ''ep1.''"
definition reference_bytes :: nat where "reference_bytes = 16 + 16 + 32"
definition reference_len :: nat where
  "reference_len = length reference_prefix + (reference_bytes * 4 + 2) div 3"

record parsed_reference =
  pr_build :: string
  pr_chunk :: string
  pr_digest :: "byte list"

definition encode_reference :: "string \<Rightarrow> string \<Rightarrow> byte list \<Rightarrow> string res" where
  "encode_reference build_id chunk_id digest =
     rbind (canonical_uuid (JStr build_id)) (\<lambda>b.
     rbind (canonical_uuid (JStr chunk_id)) (\<lambda>c.
     if length digest \<noteq> 32 then raise_exn ValueErr ''digest_length'' []
     else Inr (reference_prefix @ b64_encode (uuid_bytes b @ uuid_bytes c @ digest))))"

definition is_ascii :: "string \<Rightarrow> bool" where
  "is_ascii s \<longleftrightarrow> list_all (\<lambda>c. of_char c < (128 :: nat)) s"

text \<open>The checks both parsers share: type, length, prefix, decoding and canonical form.\<close>

definition parse_token :: "string \<Rightarrow> nat \<Rightarrow> nat \<Rightarrow> json \<Rightarrow> byte list option" where
  "parse_token pre len nbytes token =
     (case token of
        JStr t \<Rightarrow>
          if length t \<noteq> len \<or> \<not> is_ascii t then None
          else if \<not> prefix pre t then None
          else let body = drop (length pre) t
               in (case b64_decode body of
                     None \<Rightarrow> None
                   | Some raw \<Rightarrow> if length raw \<noteq> nbytes \<or> b64_encode raw \<noteq> body then None else Some raw)
      | _ \<Rightarrow> None)"

definition parse_reference :: "json \<Rightarrow> parsed_reference res" where
  "parse_reference token =
     (case parse_token reference_prefix reference_len reference_bytes token of
        None \<Rightarrow> Inl (evidence_failure ''invalid_reference'' ''malformed'')
      | Some raw \<Rightarrow>
          if list_all (\<lambda>b. b = 0) (take 16 raw) then Inl (evidence_failure ''invalid_reference'' ''malformed'')
          else Inr \<lparr>pr_build = uuid_text (take 16 raw), pr_chunk = uuid_text (take 16 (drop 16 raw)), pr_digest = drop 32 raw\<rparr>)"

definition sources_cursor_prefix :: string where "sources_cursor_prefix = ''ls1.''"
definition cursor_bytes :: nat where "cursor_bytes = 16 + 16"
definition cursor_len :: nat where
  "cursor_len = length sources_cursor_prefix + (cursor_bytes * 4 + 2) div 3"

definition encode_sources_cursor :: "string \<Rightarrow> string \<Rightarrow> string res" where
  "encode_sources_cursor build_id next_point =
     rbind (canonical_uuid (JStr build_id)) (\<lambda>b.
     rbind (canonical_uuid (JStr next_point)) (\<lambda>p.
       Inr (sources_cursor_prefix @ b64_encode (uuid_bytes b @ uuid_bytes p))))"

definition parse_sources_cursor :: "json \<Rightarrow> (string \<times> string) res" where
  "parse_sources_cursor token =
     (case parse_token sources_cursor_prefix cursor_len cursor_bytes token of
        None \<Rightarrow> Inl (evidence_failure ''invalid_cursor'' ''malformed'')
      | Some raw \<Rightarrow>
          if list_all (\<lambda>b. b = 0) (take 16 raw) then Inl (evidence_failure ''invalid_cursor'' ''malformed'')
          else Inr (uuid_text (take 16 raw), uuid_text (drop 16 raw)))"

section \<open>Base64 inverts\<close>

lemma byte_bit_high: "8 \<le> n \<Longrightarrow> bit (a :: byte) n = False"
  using bit_imp_le_length [of a n] by auto

lemma below_8: "n < 8 \<Longrightarrow> n = 0 \<or> n = 1 \<or> n = 2 \<or> n = 3 \<or> n = 4 \<or> n = 5 \<or> n = 6 \<or> n = (7 :: nat)"
  by arith

lemma byte_eqI:
  fixes a b :: byte
  assumes "bit a 0 = bit b 0" "bit a 1 = bit b 1" "bit a 2 = bit b 2" "bit a 3 = bit b 3"
    "bit a 4 = bit b 4" "bit a 5 = bit b 5" "bit a 6 = bit b 6" "bit a 7 = bit b 7"
  shows "a = b"
proof (rule bit_word_eqI)
  fix n :: nat
  assume "n < LENGTH(8)"
  then have "n < 8" by simp
  from below_8 [OF this] show "bit a n = bit b n" using assms by (elim disjE) simp_all
qed

lemmas join_bits = bit_or_iff bit_push_bit_iff bit_unsigned_iff bit_drop_bit_eq o_apply possible_bit_word

lemma join_first_one [simp]: "join_first (ucast (drop_bit 2 a)) (push_bit 4 (ucast a)) = a"
  unfolding join_first_def
  by (rule byte_eqI; simp only: join_bits; simp add: byte_bit_high)

lemma join_first_more [simp]:
  "join_first (ucast (drop_bit 2 a)) (push_bit 4 (ucast a) OR ucast (drop_bit 4 b)) = a" for a b :: byte
  unfolding join_first_def
  by (rule byte_eqI; simp only: join_bits; simp add: byte_bit_high)

lemma join_second_last [simp]:
  "join_second (push_bit 4 (ucast a) OR ucast (drop_bit 4 b)) (push_bit 2 (ucast b)) = b" for a b :: byte
  unfolding join_second_def
  by (rule byte_eqI; simp only: join_bits; simp add: byte_bit_high)

lemma join_second_more [simp]:
  "join_second (push_bit 4 (ucast a) OR ucast (drop_bit 4 b)) (push_bit 2 (ucast b) OR ucast (drop_bit 6 c)) = b"
  for a b c :: byte
  unfolding join_second_def
  by (rule byte_eqI; simp only: join_bits; simp add: byte_bit_high)

lemma join_third_more [simp]:
  "join_third (push_bit 2 (ucast b) OR ucast (drop_bit 6 c)) (ucast c) = c" for b c :: byte
  unfolding join_third_def
  by (rule byte_eqI; simp only: join_bits; simp add: byte_bit_high)

lemma octets_sextets: "octets (sextets bs) = Some bs"
  by (induction bs rule: sextets.induct) simp_all

lemma length_sextets: "length (sextets bs) = (length bs * 4 + 2) div 3"
  by (induction bs rule: sextets.induct) simp_all

lemma b64_alphabet_length: "length b64_alphabet = 64" and b64_alphabet_distinct: "distinct b64_alphabet"
  by (simp_all add: b64_alphabet_def)

lemma unat_six_less: "unat (x :: 6 word) < 64"
proof -
  have "unat x < 2 ^ LENGTH(6)" by (rule unsigned_less)
  then show ?thesis by simp
qed

lemma b64_value_char [simp]: "b64_value (b64_char x) = Some x"
proof -
  have "map_of (zip b64_alphabet (map (word_of_nat :: nat \<Rightarrow> 6 word) [0..<64])) (b64_alphabet ! unat x)
      = Some (map word_of_nat [0..<64] ! unat x)"
    by (rule map_of_zip_nth) (use unat_six_less [of x] in \<open>simp_all add: b64_alphabet_length b64_alphabet_distinct\<close>)
  then show ?thesis using unat_six_less [of x] by (simp add: b64_value_def b64_char_def)
qed

lemma b64_char_value: "b64_value c = Some x \<Longrightarrow> b64_char x = c"
proof -
  assume "b64_value c = Some x"
  then have "(c, x) \<in> set (zip b64_alphabet (map word_of_nat [0..<64]))"
    unfolding b64_value_def by (rule map_of_SomeD)
  then obtain i where "i < 64" "b64_alphabet ! i = c" "x = word_of_nat i"
    by (auto simp: set_zip b64_alphabet_length)
  then show ?thesis by (simp add: b64_char_def unat_of_nat)
qed

lemma those_b64_chars [simp]: "those (map b64_value (map b64_char xs)) = Some xs"
  by (induction xs) simp_all

lemma b64_decode_encode [simp]: "b64_decode (b64_encode bs) = Some bs"
  using octets_sextets [of bs] those_b64_chars [of "sextets bs"] by (simp only: b64_decode_def b64_encode_def bind.simps)

lemma length_b64_encode: "length (b64_encode bs) = (length bs * 4 + 2) div 3"
  by (simp add: b64_encode_def length_sextets)

lemma b64_alphabet_ascii: "is_ascii b64_alphabet"
  by (simp add: b64_alphabet_def is_ascii_def)

lemma b64_encode_ascii: "is_ascii (b64_encode bs)"
proof -
  have "of_char (b64_char x) < (128 :: nat)" for x
    using b64_alphabet_ascii unat_six_less [of x]
    by (simp add: is_ascii_def b64_char_def list_all_length b64_alphabet_length)
  then show ?thesis by (simp add: is_ascii_def b64_encode_def list_all_iff)
qed

text \<open>A token of the right length is read exactly when it is the canonical form of its bytes.\<close>

lemma parse_token_iff:
  assumes "len = length pre + (n * 4 + 2) div 3" "is_ascii pre"
  shows "parse_token pre len n (JStr t) = Some raw \<longleftrightarrow> length raw = n \<and> t = pre @ b64_encode raw"
proof
  assume "parse_token pre len n (JStr t) = Some raw"
  then show "length raw = n \<and> t = pre @ b64_encode raw"
    by (auto simp: parse_token_def Let_def prefix_def split: if_splits option.splits)
next
  assume "length raw = n \<and> t = pre @ b64_encode raw"
  then show "parse_token pre len n (JStr t) = Some raw"
    using assms b64_encode_ascii [of raw]
    by (simp add: parse_token_def Let_def length_b64_encode is_ascii_def)
qed

lemma parse_token_str: "parse_token pre len n j = Some raw \<Longrightarrow> is_str j"
  by (cases j) (simp_all add: parse_token_def)

section \<open>UUIDs invert\<close>

lemma hex_value_digit [simp]: "n < 16 \<Longrightarrow> hex_value (hex_digit n) = n"
  by (subst (asm) numeral_eq_Suc) (auto simp: less_Suc_eq hex_digit_def hex_value_def numeral_eq_Suc)

lemma is_hex_digit [simp]: "n < 16 \<Longrightarrow> is_hex_lower (hex_digit n)"
  by (subst (asm) numeral_eq_Suc) (auto simp: less_Suc_eq hex_digit_def is_hex_lower_def numeral_eq_Suc)


lemma byte_digits: "unat (b :: byte) div 16 < 16" "unat b mod 16 < 16"
proof -
  have "unat b < 2 ^ LENGTH(8)" by (rule unsigned_less)
  then show "unat b div 16 < 16" "unat b mod 16 < 16" by (simp_all add: less_mult_imp_div_less)
qed

lemma unat_byte: "n < 256 \<Longrightarrow> unat (word_of_nat n :: byte) = n"
  by (simp add: unat_of_nat)

lemma bytes_of_hex_text [simp]: "bytes_of_hex (hex_text b @ r) = b # bytes_of_hex r"
  by (simp add: hex_text_def byte_digits del: of_nat_add of_nat_mult)

lemma bytes_of_hex_concat [simp]: "bytes_of_hex (concat (map hex_text bs)) = bs"
  by (induction bs) simp_all

lemma length_hex_text [simp]: "length (concat (map hex_text bs)) = 2 * length bs"
  by (induction bs) (simp_all add: hex_text_def)

lemma hex_text_lower: "list_all is_hex_lower (concat (map hex_text bs))"
  by (induction bs) (simp_all add: hex_text_def byte_digits)

lemma hex_digit_value: "is_hex_lower c \<Longrightarrow> hex_value c < 16 \<and> hex_digit (hex_value c) = c"
proof -
  assume hex: "is_hex_lower c"
  define n where "n = (of_char c :: nat)"
  have c: "c = char_of n" by (simp add: n_def)
  have "(48 \<le> n \<and> n \<le> 57) \<or> (97 \<le> n \<and> n \<le> 102)"
    using hex by (auto simp: is_hex_lower_def less_eq_char_def n_def)
  then have "n = 48 \<or> n = 49 \<or> n = 50 \<or> n = 51 \<or> n = 52 \<or> n = 53 \<or> n = 54 \<or> n = 55 \<or> n = 56 \<or> n = 57
      \<or> n = 97 \<or> n = 98 \<or> n = 99 \<or> n = 100 \<or> n = 101 \<or> n = 102" by arith
  then show ?thesis unfolding c by (elim disjE) (simp_all add: hex_value_def hex_digit_def less_eq_char_def of_char_of char_of_def bit_0)
qed

lemma hex_text_of: "is_hex_lower a \<Longrightarrow> is_hex_lower b \<Longrightarrow> hex_text (word_of_nat (16 * hex_value a + hex_value b)) = [a, b]"
proof -
  assume "is_hex_lower a" "is_hex_lower b"
  then have a: "hex_value a < 16" "hex_digit (hex_value a) = a" and b: "hex_value b < 16" "hex_digit (hex_value b) = b"
    using hex_digit_value by blast+
  then have "unat (word_of_nat (16 * hex_value a + hex_value b) :: byte) = 16 * hex_value a + hex_value b"
    by (intro unat_byte) simp
  with a b show ?thesis by (simp add: hex_text_def del: of_nat_add of_nat_mult)
qed

lemma hex_of_bytes: "even (length h) \<Longrightarrow> list_all is_hex_lower h \<Longrightarrow> concat (map hex_text (bytes_of_hex h)) = h"
  by (induction h rule: bytes_of_hex.induct) (simp_all add: hex_text_of del: of_nat_add of_nat_mult)

text \<open>A canonical text is five groups of hexadecimal digits, joined by hyphens.\<close>

definition uuid_groups :: "string \<Rightarrow> string" where
  "uuid_groups h = take 8 h @ ''-'' @ take 4 (drop 8 h) @ ''-'' @ take 4 (drop 12 h) @ ''-'' @ take 4 (drop 16 h) @ ''-'' @ drop 20 h"

lemma uuid_text_groups: "uuid_text bs = uuid_groups (concat (map hex_text bs))"
  by (simp add: uuid_text_def uuid_groups_def Let_def)

lemma group_ok:
  assumes "\<And>i. n \<le> i \<Longrightarrow> i < n + length a \<Longrightarrow> i \<notin> S"
  shows "list_all (\<lambda>(i, c). if i \<in> S then Q c else P c) (enumerate n a) \<longleftrightarrow> list_all P a"
  using assms
proof (induction a arbitrary: n)
  case (Cons x a)
  have "n \<notin> S" using Cons.prems [of n] by simp
  moreover have "list_all (\<lambda>(i, c). if i \<in> S then Q c else P c) (enumerate (Suc n) a) \<longleftrightarrow> list_all P a"
    by (rule Cons.IH) (use Cons.prems in auto)
  ultimately show ?case by simp
qed simp

lemma canonical_blocks:
  assumes "length a = 8" "length b = 4" "length c = 4" "length d = 4" "length e = 12"
  shows "is_canonical_uuid (a @ ''-'' @ b @ ''-'' @ c @ ''-'' @ d @ ''-'' @ e) \<longleftrightarrow> list_all is_hex_lower (a @ b @ c @ d @ e)"
proof -
  have "list_all (\<lambda>(i, c). if i \<in> {8, 13, 18, 23} then c = CHR ''-'' else is_hex_lower c) (enumerate n x)
      \<longleftrightarrow> list_all is_hex_lower x"
    if "(n, length x) \<in> {(0, 8), (9, 4), (14, 4), (19, 4), (24, 12)}" for n x
    by (rule group_ok) (use that in auto)
  note g = this [of 0 a] this [of 9 b] this [of 14 c] this [of 19 d] this [of 24 e]
  show ?thesis using g assms by (simp add: is_canonical_uuid_def enumerate_append_eq split del: if_split)
qed


lemma uuid_blocks:
  assumes "is_canonical_uuid v"
  obtains a b c d e where "v = a @ ''-'' @ b @ ''-'' @ c @ ''-'' @ d @ ''-'' @ e"
    "length a = 8" "length b = 4" "length c = 4" "length d = 4" "length e = 12"
proof -
  have len: "length v = 36" and all: "list_all (\<lambda>(i, c). if i \<in> {8, 13, 18, 23} then c = CHR ''-'' else is_hex_lower c) (enumerate 0 v)"
    using assms by (simp_all add: is_canonical_uuid_def)
  have "v ! i = CHR ''-''" if "i \<in> {8, 13, 18, 23}" for i
    using all that len by (auto simp: list_all_length nth_enumerate_eq)
  then have dash: "v ! 8 = CHR ''-''" "v ! 13 = CHR ''-''" "v ! 18 = CHR ''-''" "v ! 23 = CHR ''-''" by simp_all
  have step: "drop i v = take k (drop i v) @ ''-'' @ drop (i + k + 1) v" if "i + k < 36" "v ! (i + k) = CHR ''-''" for i k
  proof -
    have "drop (i + k) v = v ! (i + k) # drop (Suc (i + k)) v"
      using that len by (intro Cons_nth_drop_Suc [symmetric]) simp
    then show ?thesis using that(2) append_take_drop_id [of k "drop i v"] by (simp add: add.commute)
  qed
  show thesis
  proof (rule that)
    show "v = take 8 v @ ''-'' @ take 4 (drop 9 v) @ ''-'' @ take 4 (drop 14 v) @ ''-'' @ take 4 (drop 19 v) @ ''-'' @ drop 24 v"
      using step [of 0 8] step [of 9 4] step [of 14 4] step [of 19 4] dash by simp
  qed (use len in simp_all)
qed

lemma filter_hex: "list_all is_hex_lower x \<Longrightarrow> filter (\<lambda>c. c \<noteq> CHR ''-'') x = x"
  by (induction x) (auto simp: is_hex_lower_def)

lemma uuid_bytes_blocks:
  assumes "length a = 8" "length b = 4" "length c = 4" "length d = 4" "length e = 12"
    "list_all is_hex_lower (a @ b @ c @ d @ e)"
  shows "uuid_bytes (a @ ''-'' @ b @ ''-'' @ c @ ''-'' @ d @ ''-'' @ e) = bytes_of_hex (a @ b @ c @ d @ e)"
  using assms filter_hex [of a] filter_hex [of b] filter_hex [of c] filter_hex [of d] filter_hex [of e]
  by (simp add: uuid_bytes_def)

lemma groups_blocks:
  "length a = 8 \<Longrightarrow> length b = 4 \<Longrightarrow> length c = 4 \<Longrightarrow> length d = 4
    \<Longrightarrow> uuid_groups (a @ b @ c @ d @ e) = a @ ''-'' @ b @ ''-'' @ c @ ''-'' @ d @ ''-'' @ e"
  by (simp add: uuid_groups_def)

lemma length_bytes_of_hex: "length (bytes_of_hex h) = length h div 2"
  by (induction h rule: bytes_of_hex.induct) simp_all

lemma uuid_text_bytes:
  assumes "is_canonical_uuid v"
  shows "uuid_text (uuid_bytes v) = v \<and> length (uuid_bytes v) = 16"
proof -
  obtain a b c d e where v: "v = a @ ''-'' @ b @ ''-'' @ c @ ''-'' @ d @ ''-'' @ e"
    and len: "length a = 8" "length b = 4" "length c = 4" "length d = 4" "length e = 12"
    using uuid_blocks [OF assms] .
  then have hex: "list_all is_hex_lower (a @ b @ c @ d @ e)" using assms canonical_blocks by simp
  have "even (length (a @ b @ c @ d @ e))" using len by simp
  from hex_of_bytes [OF this hex] show ?thesis
    unfolding v uuid_bytes_blocks [OF len hex] uuid_text_groups
    using len by (simp add: groups_blocks length_bytes_of_hex)
qed

lemma uuid_bytes_text:
  assumes "length bs = 16"
  shows "uuid_bytes (uuid_text bs) = bs \<and> is_canonical_uuid (uuid_text bs)"
proof -
  define h where "h = concat (map hex_text bs)"
  define a b c d e where "a = take 8 h" and "b = take 4 (drop 8 h)" and "c = take 4 (drop 12 h)" and "d = take 4 (drop 16 h)" and "e = drop 20 h"
  have "length h = 32" using assms by (simp add: h_def)
  then have len: "length a = 8" "length b = 4" "length c = 4" "length d = 4" "length e = 12"
    by (simp_all add: a_def b_def c_def d_def e_def)
  have cut: "drop i h = take k (drop i h) @ drop (i + k) h" for i k
    using append_take_drop_id [of k "drop i h"] by (simp add: add.commute)
  have h: "h = a @ b @ c @ d @ e"
    unfolding a_def b_def c_def d_def e_def
    using cut [of 0 8] cut [of 8 4] cut [of 12 4] cut [of 16 4] by simp
  have hex: "list_all is_hex_lower (a @ b @ c @ d @ e)" using hex_text_lower [of bs] h by (simp add: h_def)
  have spelled: "uuid_text bs = a @ ''-'' @ b @ ''-'' @ c @ ''-'' @ d @ ''-'' @ e"
    by (simp add: uuid_text_groups uuid_groups_def a_def b_def c_def d_def e_def h_def)
  show ?thesis
    unfolding spelled uuid_bytes_blocks [OF len hex] h [symmetric]
    using canonical_blocks [OF len] hex by (simp add: h_def)
qed

lemma canonical_uuid_Inr [simp]: "canonical_uuid (JStr v) = Inr w \<longleftrightarrow> w = v \<and> is_canonical_uuid v"
  by (auto simp: canonical_uuid_def)

lemma nil_bytes:
  assumes "length bs = 16"
  shows "is_nil_uuid (uuid_text bs) \<longleftrightarrow> list_all (\<lambda>b. b = 0) bs"
proof
  have z: "hex_text 0 = ''00''" by (simp add: hex_text_def hex_digit_def)
  assume "list_all (\<lambda>b. b = 0) bs"
  then have "concat (map hex_text bs) = concat (map (\<lambda>_. ''00'') bs)"
    by (intro arg_cong [where f = concat] map_cong) (auto simp: list_all_iff z)
  then have "set (concat (map hex_text bs)) \<subseteq> {CHR ''0''}" by auto
  then show "is_nil_uuid (uuid_text bs)"
    unfolding uuid_text_groups uuid_groups_def is_nil_uuid_def list_all_iff
    by (simp del: set_concat) (blast dest: in_set_takeD in_set_dropD)
next
  assume nil: "is_nil_uuid (uuid_text bs)"
  have "set (filter (\<lambda>c. c \<noteq> CHR ''-'') (uuid_text bs)) \<subseteq> {CHR ''0''}"
    using nil by (auto simp: is_nil_uuid_def list_all_iff)
  moreover have "set h \<subseteq> {CHR ''0''} \<Longrightarrow> list_all (\<lambda>b. b = 0) (bytes_of_hex h)" for h
    by (induction h rule: bytes_of_hex.induct) (auto simp: hex_value_def)
  ultimately have "list_all (\<lambda>b. b = 0) (uuid_bytes (uuid_text bs))"
    unfolding uuid_bytes_def by blast
  with uuid_bytes_text [OF assms] show "list_all (\<lambda>b. b = 0) bs" by simp
qed

section \<open>Tokens\<close>

lemma encode_reference_Inr:
  "encode_reference b c d = Inr t \<longleftrightarrow> is_canonical_uuid b \<and> is_canonical_uuid c \<and> length d = 32
     \<and> t = reference_prefix @ b64_encode (uuid_bytes b @ uuid_bytes c @ d)"
  by (auto simp: encode_reference_def rbind_Inr_iff)

lemma encode_sources_cursor_Inr:
  "encode_sources_cursor b c = Inr t \<longleftrightarrow> is_canonical_uuid b \<and> is_canonical_uuid c
     \<and> t = sources_cursor_prefix @ b64_encode (uuid_bytes b @ uuid_bytes c)"
  by (auto simp: encode_sources_cursor_def rbind_Inr_iff)

lemma reference_token:
  "parse_token reference_prefix reference_len reference_bytes (JStr t) = Some raw
     \<longleftrightarrow> length raw = 64 \<and> t = reference_prefix @ b64_encode raw"
  by (subst parse_token_iff) (simp_all add: reference_len_def reference_bytes_def reference_prefix_def is_ascii_def)

lemma cursor_token:
  "parse_token sources_cursor_prefix cursor_len cursor_bytes (JStr t) = Some raw
     \<longleftrightarrow> length raw = 32 \<and> t = sources_cursor_prefix @ b64_encode raw"
  by (subst parse_token_iff) (simp_all add: cursor_len_def cursor_bytes_def sources_cursor_prefix_def is_ascii_def)

lemma parse_reference_raw:
  "parse_reference (JStr t) = Inr r \<longleftrightarrow>
     (\<exists>b c d. length b = 16 \<and> length c = 16 \<and> length d = 32 \<and> t = reference_prefix @ b64_encode (b @ c @ d)
        \<and> \<not> list_all (\<lambda>x. x = 0) b \<and> r = \<lparr>pr_build = uuid_text b, pr_chunk = uuid_text c, pr_digest = d\<rparr>)"
proof
  assume "parse_reference (JStr t) = Inr r"
  then obtain raw where raw: "length raw = 64" "t = reference_prefix @ b64_encode raw" "\<not> list_all (\<lambda>b. b = 0) (take 16 raw)"
    "r = \<lparr>pr_build = uuid_text (take 16 raw), pr_chunk = uuid_text (take 16 (drop 16 raw)), pr_digest = drop 32 raw\<rparr>"
    by (auto simp: parse_reference_def reference_token split: option.splits if_splits)
  have "raw = take 16 raw @ take 16 (drop 16 raw) @ drop 32 raw"
    using append_take_drop_id [of 16 raw] append_take_drop_id [of 16 "drop 16 raw"] by (simp del: append_take_drop_id)
  with raw show "\<exists>b c d. length b = 16 \<and> length c = 16 \<and> length d = 32 \<and> t = reference_prefix @ b64_encode (b @ c @ d)
        \<and> \<not> list_all (\<lambda>x. x = 0) b \<and> r = \<lparr>pr_build = uuid_text b, pr_chunk = uuid_text c, pr_digest = d\<rparr>"
    by (intro exI [of _ "take 16 raw"] exI [of _ "take 16 (drop 16 raw)"] exI [of _ "drop 32 raw"]) simp
next
  assume "\<exists>b c d. length b = 16 \<and> length c = 16 \<and> length d = 32 \<and> t = reference_prefix @ b64_encode (b @ c @ d)
        \<and> \<not> list_all (\<lambda>x. x = 0) b \<and> r = \<lparr>pr_build = uuid_text b, pr_chunk = uuid_text c, pr_digest = d\<rparr>"
  then obtain b c d where *: "length b = 16" "length c = 16" "length d = 32" "t = reference_prefix @ b64_encode (b @ c @ d)"
    "\<not> list_all (\<lambda>x. x = 0) b" "r = \<lparr>pr_build = uuid_text b, pr_chunk = uuid_text c, pr_digest = d\<rparr>" by blast
  then have "parse_token reference_prefix reference_len reference_bytes (JStr t) = Some (b @ c @ d)"
    by (simp add: reference_token)
  with * show "parse_reference (JStr t) = Inr r" by (simp add: parse_reference_def)
qed

lemma parse_reference_iff:
  "parse_reference (JStr t) = Inr r \<longleftrightarrow>
     encode_reference (pr_build r) (pr_chunk r) (pr_digest r) = Inr t \<and> \<not> is_nil_uuid (pr_build r)"
proof
  assume "parse_reference (JStr t) = Inr r"
  then show "encode_reference (pr_build r) (pr_chunk r) (pr_digest r) = Inr t \<and> \<not> is_nil_uuid (pr_build r)"
    unfolding parse_reference_raw encode_reference_Inr by (auto simp: nil_bytes uuid_bytes_text)
next
  assume t: "encode_reference (pr_build r) (pr_chunk r) (pr_digest r) = Inr t \<and> \<not> is_nil_uuid (pr_build r)"
  then show "parse_reference (JStr t) = Inr r"
    unfolding parse_reference_raw encode_reference_Inr
    by (intro exI [of _ "uuid_bytes (pr_build r)"] exI [of _ "uuid_bytes (pr_chunk r)"] exI [of _ "pr_digest r"])
       (use uuid_text_bytes [of "pr_build r"] uuid_text_bytes [of "pr_chunk r"] nil_bytes [of "uuid_bytes (pr_build r)"] in simp)
qed

text \<open>
  C28: the tokens of exact reads are a bijection. A string parses to a build, a chunk and a digest
  exactly when it is the reference the encoder writes for them and the build is not the nil UUID:
  every reference the service mints reads back to what was put in, and no second spelling of a
  reference is accepted.
\<close>

theorem reference_bijection:
  "parse_reference (JStr t) = Inr r \<longleftrightarrow>
     encode_reference (pr_build r) (pr_chunk r) (pr_digest r) = Inr t \<and> \<not> is_nil_uuid (pr_build r)"
  by (rule parse_reference_iff)

text \<open>
  Likewise for the cursors of the source listing: a string is read as a position in a build
  exactly when the encoder writes it for that position, and the build is not the nil UUID.
\<close>

theorem cursor_bijection:
  "parse_sources_cursor (JStr t) = Inr (b, p) \<longleftrightarrow> encode_sources_cursor b p = Inr t \<and> \<not> is_nil_uuid b"
proof
  assume "parse_sources_cursor (JStr t) = Inr (b, p)"
  then obtain raw where raw: "length raw = 32" "t = sources_cursor_prefix @ b64_encode raw"
    "\<not> list_all (\<lambda>b. b = 0) (take 16 raw)" "b = uuid_text (take 16 raw)" "p = uuid_text (drop 16 raw)"
    by (auto simp: parse_sources_cursor_def cursor_token split: option.splits if_splits)
  then show "encode_sources_cursor b p = Inr t \<and> \<not> is_nil_uuid b"
    using uuid_bytes_text [of "take 16 raw"] uuid_bytes_text [of "drop 16 raw"]
    by (simp add: encode_sources_cursor_Inr nil_bytes)
next
  assume t: "encode_sources_cursor b p = Inr t \<and> \<not> is_nil_uuid b"
  then have u: "is_canonical_uuid b" "is_canonical_uuid p" "t = sources_cursor_prefix @ b64_encode (uuid_bytes b @ uuid_bytes p)"
    by (simp_all add: encode_sources_cursor_Inr)
  then have "parse_token sources_cursor_prefix cursor_len cursor_bytes (JStr t) = Some (uuid_bytes b @ uuid_bytes p)"
    using uuid_text_bytes [of b] uuid_text_bytes [of p] by (simp add: cursor_token)
  then show "parse_sources_cursor (JStr t) = Inr (b, p)"
    using t u uuid_text_bytes [of b] uuid_text_bytes [of p] nil_bytes [of "uuid_bytes b"]
    by (simp add: parse_sources_cursor_def)
qed

end
