(* ===== verification/Evidence.thy ===== *)
theory Evidence
  imports Receipt Reference
begin

text \<open>
  The evidence service (\<open>mainframe_rag/agent/evidence.py\<close>): evidence built from the stored payload
  of a point, references minted for search hits, the exact read behind a reference, and the source
  listing of a build. The access authority is a port of the service: a record of two calls, with a
  locale for what it promises; \<open>SharedCorpusAccess\<close>, the authority the repository ships, keeps
  the promise. A deadline of \<open>asyncio.timeout\<close> is a call that raises \<open>TimeoutErr\<close>.
\<close>

section \<open>Canonical text without ASCII escapes\<close>

text \<open>\<open>json.dumps(v, ensure_ascii=False)\<close>: only quotes, backslashes and control characters are escaped.\<close>

definition wide_escape :: "char \<Rightarrow> string" where
  "wide_escape c = (if 126 < (of_char c :: nat) then [c] else json_escape c)"

definition wide_string :: "string \<Rightarrow> string" where
  "wide_string s = CHR 0x22 # concat (map wide_escape s) @ [CHR 0x22]"

fun join_with :: "string \<Rightarrow> string list \<Rightarrow> string" where
  "join_with sep [] = []"
| "join_with sep [x] = x"
| "join_with sep (x # y # xs) = x @ sep @ join_with sep (y # xs)"

text \<open>\<open>sort_keys\<close> and the two separators are arguments, as they are of \<open>json.dumps\<close>.\<close>

fun wide_text :: "bool \<Rightarrow> string \<Rightarrow> string \<Rightarrow> json \<Rightarrow> string" where
  "wide_text srt item colon JNull = ''null''"
| "wide_text srt item colon (JBool b) = (if b then ''true'' else ''false'')"
| "wide_text srt item colon (JInt i) = string_of_int i"
| "wide_text srt item colon (JFloat r) = r"
| "wide_text srt item colon (JStr s) = wide_string s"
| "wide_text srt item colon (JList xs) = CHR ''['' # join_with item (map (wide_text srt item colon) xs) @ '']''"
| "wide_text srt item colon (JObj kvs) = CHR 0x7B # join_with item
     (map (\<lambda>(k, t). wide_string k @ colon @ t)
        ((if srt then sort_key fst else id) (map (\<lambda>kv. (fst kv, wide_text srt item colon (snd kv))) kvs)))
     @ [CHR 0x7D]"

abbreviation envelope_text :: "payload \<Rightarrow> string" where
  "envelope_text e \<equiv> wide_text True '','' '':'' (JObj e)"

section \<open>Stored payloads\<close>

definition corrupt :: "string \<Rightarrow> 'a res" where
  "corrupt reason = Inl (evidence_failure ''corrupt'' reason)"

record scope =
  sc_revision :: string
  sc_doc_id :: string
  sc_product :: "string option"
  sc_version :: "string option"

definition int_value :: "json \<Rightarrow> int option" where
  "int_value v = (case v of JInt i \<Rightarrow> Some i | _ \<Rightarrow> None)"

definition opt_str_value :: "json \<Rightarrow> string option res" where
  "opt_str_value v = (case v of JNull \<Rightarrow> Inr None | JStr s \<Rightarrow> Inr (Some s) | _ \<Rightarrow> corrupt ''payload_field_type'')"

definition str_value :: "json \<Rightarrow> string res" where
  "str_value v = (case v of JStr s \<Rightarrow> Inr s | _ \<Rightarrow> corrupt ''payload_field_type'')"

text \<open>\<open>payload.get(key, "")\<close>.\<close>

definition jget_text :: "payload \<Rightarrow> string \<Rightarrow> json" where
  "jget_text p k = (if jhas p k then jget p k else JStr [])"

definition scope_of :: "payload \<Rightarrow> scope res" where
  "scope_of p =
     (case jget p ''source_rev'' of
        JStr revision \<Rightarrow>
          if revision = [] then corrupt ''source_revision''
          else rbind (str_value (jget_text p ''doc_id'')) (\<lambda>doc.
               rbind (opt_str_value (jget p ''product'')) (\<lambda>product.
               rbind (opt_str_value (jget p ''version'')) (\<lambda>version.
                 Inr \<lparr>sc_revision = revision, sc_doc_id = doc, sc_product = product, sc_version = version\<rparr>)))
      | _ \<Rightarrow> corrupt ''source_revision'')"

text \<open>
  A string is its UTF-8 bytes: a code point begins at every byte that is not a continuation byte,
  so the running byte counts of the code are the positions of those bytes, and the length.
\<close>

definition leads :: "char \<Rightarrow> bool" where
  "leads c \<longleftrightarrow> (of_char c :: nat) div 64 \<noteq> 2"

definition cumulative :: "string \<Rightarrow> nat list" where
  "cumulative t = map fst (filter (\<lambda>(i, c). leads c) (enumerate 0 t)) @ [length t]"

fun ranges_from :: "nat list \<Rightarrow> int \<Rightarrow> json list \<Rightarrow> (nat \<times> nat) list res" where
  "ranges_from cum prev [] = Inr []"
| "ranges_from cum prev (JList [start, stop, kind] # rest) =
     (case (int_value start, int_value stop) of
        (Some s, Some e) \<Rightarrow>
          if kind \<notin> {JStr ''atomic'', JStr ''prose''} \<or> \<not> (prev \<le> s \<and> s < e \<and> e \<le> int (length cum) - 1)
          then corrupt ''units_range''
          else rbind (ranges_from cum e rest) (\<lambda>rs.
               Inr ((if kind = JStr ''atomic'' then [(cum ! nat s, cum ! nat e)] else []) @ rs))
      | _ \<Rightarrow> corrupt ''units_range'')"
| "ranges_from cum prev (entry # rest) = corrupt ''units_shape''"

definition atomic_ranges :: "json \<Rightarrow> string \<Rightarrow> (nat \<times> nat) list option res" where
  "atomic_ranges raw t =
     (case raw of
        JNull \<Rightarrow> Inr None
      | JList es \<Rightarrow> rbind (ranges_from (cumulative t) 0 es) (\<lambda>rs. Inr (Some rs))
      | _ \<Rightarrow> corrupt ''units_shape'')"

section \<open>Evidence\<close>

record evidence =
  ev_reference :: string
  ev_digest :: string
  ev_build_id :: string
  ev_chunk_id :: string
  ev_gen_fp :: string
  ev_revision :: string
  ev_sha256 :: string
  ev_doc_id :: string
  ev_title :: string
  ev_product :: "string option"
  ev_version :: "string option"
  ev_heading :: string
  ev_chunk_type :: string
  ev_text :: string
  ev_text_bytes :: nat
  ev_spans :: "(nat \<times> nat) list option"
  ev_page_start :: int
  ev_page_end :: "int option"
  ev_label :: "string option"

definition spans_json :: "(nat \<times> nat) list option \<Rightarrow> json" where
  "spans_json spans = (case spans of
     None \<Rightarrow> JNull
   | Some rs \<Rightarrow> JList (map (\<lambda>(s, e). JObj [(''start'', JInt (int s)), (''end'', JInt (int e))]) rs))"

text \<open>The envelope holds every field of the evidence but the reference, the digest and the byte count.\<close>

definition envelope :: "evidence \<Rightarrow> payload" where
  "envelope ev =
     [(''schema'', JInt 1),
      (''profile'', JStr ''stored-payload''),
      (''build_id'', JStr (ev_build_id ev)),
      (''chunk_id'', JStr (ev_chunk_id ev)),
      (''generation_fingerprint'', JStr (ev_gen_fp ev)),
      (''source_revision'', JStr (ev_revision ev)),
      (''source_sha256'', JStr (ev_sha256 ev)),
      (''doc_id'', JStr (ev_doc_id ev)),
      (''title'', JStr (ev_title ev)),
      (''product'', jopt (ev_product ev)),
      (''version'', jopt (ev_version ev)),
      (''heading_path'', JStr (ev_heading ev)),
      (''chunk_type'', JStr (ev_chunk_type ev)),
      (''text'', JStr (ev_text ev)),
      (''atomic_spans'', spans_json (ev_spans ev)),
      (''physical_page_start'', JInt (ev_page_start ev)),
      (''physical_page_end'', jopt_int (ev_page_end ev)),
      (''printed_label'', jopt (ev_label ev))]"

definition chunk_types :: "string list" where
  "chunk_types = [''message'', ''syntax'', ''table'', ''narrative'']"

definition page_end_of :: "payload \<Rightarrow> int \<Rightarrow> int option res" where
  "page_end_of p page_start =
     (if jget p ''page_end'' = JNull then Inr None
      else case int_value (jget p ''page_end'') of
        None \<Rightarrow> corrupt ''page_end''
      | Some e \<Rightarrow> if e < page_start then corrupt ''page_end'' else Inr (Some e))"

text \<open>Every field but the reference and the digest, and then these two.\<close>

definition evidence_fields :: "build_binding \<Rightarrow> string \<Rightarrow> payload \<Rightarrow> evidence res" where
  "evidence_fields b chunk_id p =
     rbind (scope_of p) (\<lambda>scope.
     rbind (ensure (is_hex64 (jget p ''sha256'')) (evidence_failure ''corrupt'' ''source_sha256'')) (\<lambda>_.
     rbind (ensure (is_text (jget p ''text'')) (evidence_failure ''corrupt'' ''text'')) (\<lambda>_.
     rbind (ensure (is_str (jget p ''chunk_type'') \<and> str_of (jget p ''chunk_type'') \<in> set chunk_types)
              (evidence_failure ''corrupt'' ''chunk_type'')) (\<lambda>_.
     rbind (str_value (jget_text p ''title'')) (\<lambda>title.
     rbind (str_value (jget_text p ''heading_path'')) (\<lambda>heading_path.
     rbind (case int_value (jget p ''page_start'') of
              None \<Rightarrow> corrupt ''page_start''
            | Some n \<Rightarrow> if n < 0 then corrupt ''page_start'' else Inr n) (\<lambda>page_start.
     rbind (page_end_of p page_start) (\<lambda>page_end.
     rbind (str_value (jget_text p ''page_label'')) (\<lambda>label.
     rbind (atomic_ranges (jget p ''units'') (str_of (jget p ''text''))) (\<lambda>spans.
       Inr \<lparr>ev_reference = [], ev_digest = [], ev_build_id = bb_build_id b, ev_chunk_id = chunk_id,
            ev_gen_fp = bb_gen_fp b, ev_revision = sc_revision scope, ev_sha256 = str_of (jget p ''sha256''),
            ev_doc_id = sc_doc_id scope, ev_title = title, ev_product = sc_product scope,
            ev_version = sc_version scope, ev_heading = heading_path,
            ev_chunk_type = str_of (jget p ''chunk_type''), ev_text = str_of (jget p ''text''),
            ev_text_bytes = length (str_of (jget p ''text'')), ev_spans = spans,
            ev_page_start = page_start + 1, ev_page_end = map_option (\<lambda>e. e + 1) page_end,
            ev_label = (if label = [] then None else Some label)\<rparr>))))))))))"

definition build_evidence :: "libs \<Rightarrow> build_binding \<Rightarrow> string \<Rightarrow> payload \<Rightarrow> evidence res" where
  "build_evidence L b chunk_id p =
     rbind (evidence_fields b chunk_id p) (\<lambda>ev.
     let digest = lib_sha256 L (envelope_text (envelope ev)) in
     rbind (encode_reference (bb_build_id b) chunk_id (bytes_of_hex digest)) (\<lambda>reference.
       Inr (ev\<lparr>ev_reference := reference, ev_digest := digest\<rparr>)))"

section \<open>The service\<close>

text \<open>The authority: whether a caller may read a scope, under which policy version, and the version now.\<close>

type_synonym caller = "string option"

record 's access =
  ac_authorize :: "caller \<Rightarrow> scope \<Rightarrow> ('s, string option) eff"
  ac_version :: "('s, string) eff"

definition shared_access :: "'s access" where
  "shared_access = \<lparr>ac_authorize = (\<lambda>caller scope. sret (Some ''shared-corpus'')), ac_version = sret ''shared-corpus''\<rparr>"

definition authorize :: "'s access \<Rightarrow> caller \<Rightarrow> scope \<Rightarrow> ('s, string) eff" where
  "authorize A caller scope =
     sbind (scatch (ac_authorize A caller scope) (\<lambda>e.
       if exn_cls e = UnauthenticatedErr then sraise (evidence_failure ''unauthenticated'' ''no_identity'')
       else if exn_cls e = AccessUnavailableErr then sraise (evidence_failure ''access_unavailable'' ''policy_unavailable'')
       else sraise e)) (\<lambda>grant.
     case grant of None \<Rightarrow> sraise (evidence_failure ''unavailable'' ''denied'') | Some version \<Rightarrow> sret version)"

definition current_version :: "'s access \<Rightarrow> ('s, string) eff" where
  "current_version A =
     scatch (ac_version A) (\<lambda>e.
       if exn_cls e = AccessUnavailableErr then sraise (evidence_failure ''access_unavailable'' ''policy_unavailable'')
       else sraise e)"

definition control_of :: "string \<Rightarrow> string" where
  "control_of physical = physical @ ''__completions''"

definition decode_control :: "payload \<Rightarrow> string \<Rightarrow> (build_binding \<times> bool) res" where
  "decode_control p control =
     (if jget p ''record_type'' \<noteq> JStr ''publication-metadata'' then corrupt ''control_record''
      else case decode_build_binding p control of
        Inr b \<Rightarrow> Inr (b, jhas p ''source_catalog'')
      | Inl e \<Rightarrow> if exn_cls e \<in> {ValueErr, TypeErr, UnboundGenerationErr} then corrupt ''control_binding'' else Inl e)"

definition read_binding :: "libs \<Rightarrow> 's client \<Rightarrow> string \<Rightarrow> ('s, (build_binding \<times> bool) option) eff" where
  "read_binding L C physical =
     (let control = control_of physical in
      sbind (cl_exists C control) (\<lambda>ex.
      if \<not> ex then sret None
      else sbind (cl_retrieve C control [publication_point_id L control] WithAll False) (\<lambda>records.
        case records of
          [] \<Rightarrow> sret None
        | r # _ \<Rightarrow> sbind (slift (decode_control (pt_payload r) control)) (\<lambda>bound. sret (Some bound)))))"

definition pinned_build :: "libs \<Rightarrow> 's client \<Rightarrow> string \<Rightarrow> string \<Rightarrow> bool \<Rightarrow> ('s, build_binding \<times> string) eff" where
  "pinned_build L C logical build_id require_catalog =
     sbind (slift (build_aliases logical build_id)) (\<lambda>(data_alias, control_alias).
     sbind (cl_aliases C) (\<lambda>as.
     case (map_of as data_alias, map_of as control_alias) of
       (None, None) \<Rightarrow> sraise (evidence_failure ''unavailable'' ''unknown_build'')
     | (None, Some _) \<Rightarrow> slift (corrupt ''build_aliases'')
     | (Some physical, control) \<Rightarrow>
         if control \<noteq> Some (control_of physical) then slift (corrupt ''build_aliases'')
         else sbind (read_binding L C physical) (\<lambda>bound.
           case bound of
             None \<Rightarrow> slift (corrupt ''control_mismatch'')
           | Some (b, has_catalog) \<Rightarrow>
               if bb_build_id b \<noteq> build_id \<or> bb_physical b \<noteq> physical \<or> bb_alias b \<noteq> logical
               then slift (corrupt ''control_mismatch'')
               else if require_catalog \<and> \<not> has_catalog then slift (corrupt ''no_catalog'')
               else sret (b, physical))))"

text \<open>An optional caller assertion can only narrow what is read.\<close>

definition narrows :: "string option \<Rightarrow> string option \<Rightarrow> bool" where
  "narrows asserted actual \<longleftrightarrow> asserted \<noteq> None \<and> actual \<noteq> asserted"

text \<open>The second half of the read, once the stored point is there; and all of it.\<close>

definition read_stored ::
    "libs \<Rightarrow> 's access \<Rightarrow> caller \<Rightarrow> parsed_reference \<Rightarrow> int \<Rightarrow> string option \<Rightarrow> string option
      \<Rightarrow> build_binding \<Rightarrow> payload \<Rightarrow> ('s, evidence) eff" where
  "read_stored L A caller parsed budget product version b p =
     sbind (slift (scope_of p)) (\<lambda>scope.
     sbind (authorize A caller scope) (\<lambda>granted.
     if narrows product (sc_product scope) \<or> narrows version (sc_version scope)
     then sraise (evidence_failure ''unavailable'' ''scope_mismatch'')
     else
       sbind (slift (build_evidence L b (pr_chunk parsed) p)) (\<lambda>ev.
       if bytes_of_hex (ev_digest ev) \<noteq> pr_digest parsed then slift (corrupt ''digest_mismatch'')
       else if int (ev_text_bytes ev) > budget then sraise (evidence_failure ''budget_exceeded'' ''over_budget'')
       else
         sbind (current_version A) (\<lambda>now.
         sseq (if now \<noteq> granted then sbind (authorize A caller scope) (\<lambda>_. sret ()) else sret ())
           (sret ev)))))"

definition read_budget :: "int \<Rightarrow> int option \<Rightarrow> int" where
  "read_budget cap max_bytes = (case max_bytes of None \<Rightarrow> cap | Some m \<Rightarrow> min m cap)"

definition read_pinned ::
    "libs \<Rightarrow> 's client \<Rightarrow> 's access \<Rightarrow> string \<Rightarrow> int \<Rightarrow> caller \<Rightarrow> parsed_reference \<Rightarrow> int option
      \<Rightarrow> string option \<Rightarrow> string option \<Rightarrow> ('s, evidence) eff" where
  "read_pinned L C A logical cap caller parsed max_bytes product version =
     sbind (pinned_build L C logical (pr_build parsed) False) (\<lambda>(b, physical).
     sbind (cl_retrieve C physical [pr_chunk parsed] WithAll False) (\<lambda>records.
     case records of
       [r] \<Rightarrow>
         if pt_id r \<noteq> pr_chunk parsed then slift (corrupt ''chunk_missing'')
         else read_stored L A caller parsed (read_budget cap max_bytes) product version b (pt_payload r)
     | _ \<Rightarrow> slift (corrupt ''chunk_missing'')))"

text \<open>The handlers around both operations: a deadline, a typed refusal, anything else.\<close>

definition with_failures :: "('s, 'a) eff \<Rightarrow> ('s, 'a) eff" where
  "with_failures m =
     scatch m (\<lambda>e.
       if exn_cls e = TimeoutErr then sraise (evidence_failure ''timeout'' ''deadline'')
       else if exn_cls e = EvidenceErr then sraise e
       else sraise (evidence_failure ''upstream'' (exn_tag e)))"

definition read_evidence ::
    "libs \<Rightarrow> 's client \<Rightarrow> 's access \<Rightarrow> string \<Rightarrow> int \<Rightarrow> caller \<Rightarrow> json \<Rightarrow> int option
      \<Rightarrow> string option \<Rightarrow> string option \<Rightarrow> ('s, evidence) eff" where
  "read_evidence L C A logical cap caller reference max_bytes product version =
     sbind (slift (parse_reference reference)) (\<lambda>parsed.
       with_failures (read_pinned L C A logical cap caller parsed max_bytes product version))"


text \<open>The generation a search was served from (\<open>mainframe_rag/agent/serving.py\<close>).\<close>

record serving_generation =
  sg_physical :: "string option"
  sg_outcome :: outcome
  sg_details :: "string list"
  sg_binding :: "build_binding option"

definition servable_outcomes :: "outcome list" where
  "servable_outcomes = [Compatible, Record_Only_Drift]"

definition servable :: "serving_generation \<Rightarrow> bool" where
  "servable g \<longleftrightarrow> sg_physical g \<noteq> None \<and> sg_outcome g \<in> set servable_outcomes"

text \<open>A stored chunk whose payload forms no complete envelope is skipped.\<close>

definition mint_step :: "libs \<Rightarrow> build_binding \<Rightarrow> point \<Rightarrow> (string \<times> string) list \<Rightarrow> (string \<times> string) list res" where
  "mint_step L b r minted =
     (case build_evidence L b (pt_id r) (pt_payload r) of
        Inr ev \<Rightarrow> Inr (AList.update (pt_id r) (ev_reference ev) minted)
      | Inl e \<Rightarrow> if exn_cls e \<in> {EvidenceErr, ValueErr} then Inr minted else Inl e)"

definition mint_references ::
    "libs \<Rightarrow> 's client \<Rightarrow> string \<Rightarrow> serving_generation \<Rightarrow> string list \<Rightarrow> ('s, (string \<times> string) list) eff" where
  "mint_references L C logical g chunk_ids =
     (let ids = rev (remdups (rev chunk_ids)) in
      case sg_binding g of
        None \<Rightarrow> sret []
      | Some b \<Rightarrow>
          if ids = [] \<or> \<not> servable g \<or> sg_physical g \<noteq> Some (bb_physical b) \<or> bb_alias b \<noteq> logical
          then sret []
          else sbind (cl_retrieve C (bb_physical b) ids WithAll False) (\<lambda>records.
                 slift (res_fold (mint_step L b) records [])))"

section \<open>The source listing\<close>

definition sources_limit_max :: int where "sources_limit_max = 200"
definition sources_scan_cap :: int where "sources_scan_cap = 200"
definition sources_page_bytes :: nat where "sources_page_bytes = 256 * 1024"
definition listing_fields :: "string list" where
  "listing_fields = [''record_type'', ''catalog_schema'', ''entry'']"

record source_entry =
  se_revision :: string
  se_sha256 :: string
  se_doc_id :: string
  se_title :: string
  se_product :: json
  se_version :: json
  se_chunks :: int
  se_page_first :: int
  se_page_last :: int
  se_label_first :: json
  se_label_last :: json
  se_indexed :: int

definition source_wire :: "source_entry \<Rightarrow> payload" where
  "source_wire e =
     [(''source_revision'', JStr (se_revision e)), (''source_sha256'', JStr (se_sha256 e)),
      (''doc_id'', JStr (se_doc_id e)), (''title'', JStr (se_title e)), (''product'', se_product e),
      (''version'', se_version e), (''chunk_count'', JInt (se_chunks e)),
      (''physical_pages'', JObj [(''first'', JInt (se_page_first e)), (''last'', JInt (se_page_last e))]),
      (''page_labels'', JObj [(''first'', se_label_first e), (''last'', se_label_last e)]),
      (''indexed_pages'', JInt (se_indexed e))]"

text \<open>The decoded entry has been checked, so its fields have their types.\<close>

definition source_entry_of :: "payload \<Rightarrow> source_entry" where
  "source_entry_of e =
     \<lparr>se_revision = entry_rev e, se_sha256 = str_of (jget e ''source_sha256''), se_doc_id = str_of (jget e ''doc_id''),
      se_title = str_of (jget e ''title''), se_product = jget e ''product'', se_version = jget e ''version'',
      se_chunks = int_of (jget e ''chunk_count''),
      se_page_first = int_of (span_end (jget e ''pages'') ''first'') + 1,
      se_page_last = int_of (span_end (jget e ''pages'') ''last'') + 1,
      se_label_first = span_end (jget e ''page_labels'') ''first'',
      se_label_last = span_end (jget e ''page_labels'') ''last'',
      se_indexed = int_of (jget e ''indexed_pages'')\<rparr>"

definition catalog_scope :: "payload \<Rightarrow> scope res" where
  "catalog_scope p =
     (case jget p ''entry'' of
        JObj e \<Rightarrow>
          (case jget e ''source_revision'' of
             JStr revision \<Rightarrow>
               if revision = [] then corrupt ''source_revision''
               else rbind (str_value (jget e ''doc_id'')) (\<lambda>doc.
                    rbind (opt_str_value (jget e ''product'')) (\<lambda>product.
                    rbind (opt_str_value (jget e ''version'')) (\<lambda>version.
                      Inr \<lparr>sc_revision = revision, sc_doc_id = doc, sc_product = product, sc_version = version\<rparr>)))
           | _ \<Rightarrow> corrupt ''source_revision'')
      | _ \<Rightarrow> corrupt ''catalog_entry'')"

definition authorize_listing :: "'s access \<Rightarrow> caller \<Rightarrow> scope \<Rightarrow> ('s, string option) eff" where
  "authorize_listing A caller scope =
     scatch (sbind (authorize A caller scope) (\<lambda>version. sret (Some version)))
       (\<lambda>e. if exn_cls e = EvidenceErr \<and> exn_tag e = ''unavailable'' then sret None else sraise e)"

text \<open>An entry kept for the page, with what its grant was given for.\<close>

record kept_entry =
  ke_entry :: source_entry
  ke_scope :: scope
  ke_grant :: string

definition wire_size :: "source_entry \<Rightarrow> nat" where
  "wire_size e = length (wide_text False '', '' '': '' (JObj (source_wire e)))"

text \<open>The loop over the records: the entries kept, and where to resume when the page is full.\<close>

fun list_page ::
    "libs \<Rightarrow> 's access \<Rightarrow> caller \<Rightarrow> string \<Rightarrow> nat \<Rightarrow> bool \<Rightarrow> point list \<Rightarrow> ('s, kept_entry list \<times> string option) eff" where
  "list_page L A caller control used some [] = sret ([], None)"
| "list_page L A caller control used some (r # rest) =
     sbind (slift (catalog_scope (pt_payload r))) (\<lambda>scope.
     sbind (authorize_listing A caller scope) (\<lambda>grant.
     case grant of
       None \<Rightarrow> list_page L A caller control used some rest
     | Some version \<Rightarrow>
         sbind (slift (case decode_catalog_point L control (pt_id r) (pt_payload r) of
                  Inr e \<Rightarrow> Inr e
                | Inl e \<Rightarrow> if exn_cls e = SourceCatalogErr then corrupt ''catalog_entry'' else Inl e)) (\<lambda>decoded.
         let e = source_entry_of decoded; size = wire_size e in
         if some \<and> used + size > sources_page_bytes then sret ([], Some (pt_id r))
         else sbind (list_page L A caller control (used + size) True rest) (\<lambda>(kept, resume).
                sret (\<lparr>ke_entry = e, ke_scope = scope, ke_grant = version\<rparr> # kept, resume)))))"

fun still_allowed :: "'s access \<Rightarrow> caller \<Rightarrow> kept_entry list \<Rightarrow> ('s, kept_entry list) eff" where
  "still_allowed A caller [] = sret []"
| "still_allowed A caller (k # ks) =
     sbind (authorize_listing A caller (ke_scope k)) (\<lambda>grant.
     sbind (still_allowed A caller ks) (\<lambda>rest. sret (if grant = None then rest else k # rest)))"

record source_page =
  sp_build_id :: string
  sp_sources :: "source_entry list"
  sp_next :: "string option"

definition listing_filter :: "string option \<Rightarrow> string option \<Rightarrow> cond" where
  "listing_filter product version =
     [(''record_type'', catalog_record_type)]
     @ (case product of None \<Rightarrow> [] | Some v \<Rightarrow> [(''entry.product'', v)])
     @ (case version of None \<Rightarrow> [] | Some v \<Rightarrow> [(''entry.version'', v)])"

definition list_pinned ::
    "libs \<Rightarrow> 's client \<Rightarrow> 's access \<Rightarrow> string \<Rightarrow> caller \<Rightarrow> string \<Rightarrow> string option \<Rightarrow> int
      \<Rightarrow> string option \<Rightarrow> string option \<Rightarrow> ('s, source_page) eff" where
  "list_pinned L C A logical caller build_id offset lim product version =
     sbind (pinned_build L C logical build_id True) (\<lambda>(_, physical).
     let control = control_of physical in
     sbind (cl_scroll C control (listing_filter product version) (nat (min lim sources_scan_cap))
              (WithFields listing_fields) False offset) (\<lambda>(records, after).
     sbind (list_page L A caller control 0 False records) (\<lambda>(kept, resume).
     let next_point = (case resume of Some i \<Rightarrow> Some i | None \<Rightarrow> after) in
     sbind (current_version A) (\<lambda>now.
     sbind (if list_ex (\<lambda>k. ke_grant k \<noteq> now) kept then still_allowed A caller kept else sret kept) (\<lambda>kept'.
     sbind (slift (case next_point of None \<Rightarrow> Inr None
              | Some i \<Rightarrow> rbind (encode_sources_cursor build_id i) (\<lambda>t. Inr (Some t)))) (\<lambda>cursor.
       sret \<lparr>sp_build_id = build_id, sp_sources = map ke_entry kept', sp_next = cursor\<rparr>))))))"

definition list_sources ::
    "libs \<Rightarrow> 's client \<Rightarrow> 's access \<Rightarrow> string \<Rightarrow> caller \<Rightarrow> int \<Rightarrow> json option \<Rightarrow> string option
      \<Rightarrow> string option \<Rightarrow> string option \<Rightarrow> ('s, source_page) eff" where
  "list_sources L C A logical caller lim cursor served_build product version =
     sbind (slift (case cursor of
         Some t \<Rightarrow> rbind (parse_sources_cursor t) (\<lambda>(b, i). Inr (b, Some i))
       | None \<Rightarrow> (case served_build of
             Some b \<Rightarrow> Inr (b, None)
           | None \<Rightarrow> Inl (evidence_failure ''unavailable'' ''no_served_build'')))) (\<lambda>(build_id, offset).
     if \<not> (1 \<le> lim \<and> lim \<le> sources_limit_max) then sraise (Exn ValueErr ''limit_out_of_range'' [])
     else with_failures (list_pinned L C A logical caller build_id offset lim product version))"


section \<open>The envelope determines the evidence\<close>

lemma wide_escape_prefix: "wide_escape a @ r = wide_escape b @ r' \<Longrightarrow> a = b \<and> r = r'"
  unfolding wide_escape_def json_escape_def
  by (auto split: if_splits dest: hex_pair_inj)

lemma wide_escape_no_quote: "wide_escape a @ r \<noteq> CHR 0x22 # r'"
  using json_escape_no_quote [of a r r'] by (auto simp: wide_escape_def)

interpretation wide: quoted wide_escape
  by unfold_locales (use wide_escape_prefix wide_escape_no_quote in blast)+

lemma wide_string_prefix: "wide_string s @ r = wide_string t @ r' \<Longrightarrow> s = t \<and> r = r'"
  using wide.escaped_prefix [of s r t r'] by (simp add: wide_string_def)

lemma join_with_comma: "join_with '','' xs = join_sep (CHR '','') xs"
  by (induction xs rule: join_sep.induct) simp_all

definition span_text :: "nat \<times> nat \<Rightarrow> string" where
  "span_text x = wide_text True '','' '':'' (JObj [(''start'', JInt (int (fst x))), (''end'', JInt (int (snd x)))])"

lemma span_text_prefix: "span_text x @ r = span_text y @ r' \<Longrightarrow> x = y \<and> r = r'"
proof -
  let ?k = "\<lambda>k. wide_string k @ '':''"
  have t: "span_text x @ r = CHR 0x7B # (?k ''end'' @ string_of_int (int (snd x)) @ CHR '','' # (?k ''start''
      @ string_of_int (int (fst x)) @ CHR 0x7D # r))" for x r
    by (simp add: span_text_def)
  assume "span_text x @ r = span_text y @ r'"
  then have "string_of_int (int (snd x)) @ CHR '','' # (?k ''start'' @ string_of_int (int (fst x)) @ CHR 0x7D # r)
      = string_of_int (int (snd y)) @ CHR '','' # (?k ''start'' @ string_of_int (int (fst y)) @ CHR 0x7D # r')"
    unfolding t by simp
  from int_prefix [OF _ _ this] have e: "snd x = snd y"
    and "string_of_int (int (fst x)) @ CHR 0x7D # r = string_of_int (int (fst y)) @ CHR 0x7D # r'"
    by (simp_all add: ends_value_def)
  from int_prefix [OF _ _ this(2)] e show "x = y \<and> r = r'" by (simp add: ends_value_def prod_eq_iff)
qed

lemma span_items_prefix:
  "join_sep (CHR '','') (map span_text xs) @ CHR '']'' # r = join_sep (CHR '','') (map span_text ys) @ CHR '']'' # r'
    \<Longrightarrow> xs = ys \<and> r = r'"
proof (induction xs arbitrary: ys)
  case Nil
  then show ?case by (cases ys; cases "tl ys") (auto simp: span_text_def)
next
  case (Cons x xs)
  let ?T = "\<lambda>zs q. case zs of [] \<Rightarrow> CHR '']'' # q | _ \<Rightarrow> CHR '','' # (join_sep (CHR '','') (map span_text zs) @ CHR '']'' # q)"
  have start: "join_sep (CHR '','') (map span_text (z # zs)) @ CHR '']'' # q = span_text z @ ?T zs q" for z zs q
    by (cases zs) simp_all
  show ?case
  proof (cases ys)
    case Nil
    with Cons.prems show ?thesis by (cases xs) (auto simp: span_text_def)
  next
    case ys: (Cons y ys')
    have "span_text x @ ?T xs r = span_text y @ ?T ys' r'"
      using Cons.prems unfolding ys start .
    from span_text_prefix [OF this] have "x = y" "?T xs r = ?T ys' r'" by simp_all
    with Cons.IH [of ys'] ys show ?thesis by (cases xs; cases ys') auto
  qed
qed

text \<open>The values of an envelope: atoms, and the recorded ranges.\<close>

fun envelope_value :: "json \<Rightarrow> bool" where
  "envelope_value (JList xs) = (\<exists>rs. JList xs = spans_json (Some rs))"
| "envelope_value v = is_atom v"

lemma wide_atom_prefix:
  assumes "is_atom v" "is_atom w" "ends_value a" "ends_value b"
    "wide_text True '','' '':'' v @ a # r = wide_text True '','' '':'' w @ b # r'"
  shows "v = w \<and> a # r = b # r'"
proof -
  obtain ci di where h: "\<And>i. string_of_int i = ci i # di i"
      "\<And>i. ci i = CHR ''-'' \<or> 48 \<le> (of_char (ci i) :: nat) \<and> (of_char (ci i) :: nat) < 58"
    using string_of_int_head by metis
  have n: "ci i \<noteq> CHR ''n''" "ci i \<noteq> CHR ''t''" "ci i \<noteq> CHR ''f''" "ci i \<noteq> CHR 0x22" for i
    using h(2) [of i] by auto
  show ?thesis
    using assms
    by (cases v; cases w)
       (auto simp: h(1) n n [symmetric] wide_string_def split: if_splits
        dest: wide_string_prefix [unfolded wide_string_def, simplified] int_prefix [unfolded h(1), simplified])
qed

lemma atom_not_list:
  assumes "is_atom v"
  shows "wide_text True '','' '':'' v @ r \<noteq> CHR ''['' # r'"
proof (cases v)
  case (JInt i)
  obtain c cs where "string_of_int i = c # cs" "c = CHR ''-'' \<or> 48 \<le> (of_char c :: nat) \<and> (of_char c :: nat) < 58"
    using string_of_int_head by blast
  then show ?thesis using JInt by auto
qed (use assms in \<open>auto simp: wide_string_def\<close>)

lemma envelope_value_cases:
  assumes "envelope_value v"
  obtains "is_atom v" | rs where "v = spans_json (Some rs)"
  using assms by (cases v) auto

lemma spans_text: "wide_text True '','' '':'' (spans_json (Some rs)) @ r
    = CHR ''['' # (join_sep (CHR '','') (map span_text rs) @ CHR '']'' # r)"
  by (simp add: spans_json_def span_text_def [abs_def] comp_def case_prod_beta join_with_comma del: wide_text.simps(7))

interpretation envelope_enc: value_text wide_string "wide_text True '','' '':''" envelope_value
proof
  fix v w a b r r'
  assume ok: "envelope_value v" "envelope_value w" and e: "ends_value a" "ends_value b"
    and eq: "wide_text True '','' '':'' v @ a # r = wide_text True '','' '':'' w @ b # r'"
  from ok(1) show "v = w \<and> a # r = b # r'"
  proof (cases rule: envelope_value_cases)
    case v: 1
    from ok(2) show ?thesis
    proof (cases rule: envelope_value_cases)
      case 1
      from wide_atom_prefix [OF v 1 e eq] show ?thesis .
    next
      case (2 rs)
      from eq [unfolded 2 spans_text] atom_not_list [OF v] show ?thesis by blast
    qed
  next
    case v: (2 rs)
    from ok(2) show ?thesis
    proof (cases rule: envelope_value_cases)
      case 1
      from eq [symmetric, unfolded v spans_text] atom_not_list [OF 1] show ?thesis by blast
    next
      case (2 rs')
      from eq [unfolded 2 v spans_text] show ?thesis
        using span_items_prefix [of rs "a # r" rs' "b # r'"] v 2 by simp
    qed
  qed
qed

lemma envelope_keys: "map fst (envelope ev) = map fst (envelope ev')" "distinct (map fst (envelope ev))"
  by (simp_all add: envelope_def)

lemma envelope_value_fields [simp]:
  "envelope_value (jopt v)" "envelope_value (jopt_int i)" "envelope_value (spans_json sp)"
proof -
  show "envelope_value (jopt v)" by (cases v) simp_all
  show "envelope_value (jopt_int i)" by (cases i) simp_all
  show "envelope_value (spans_json sp)" by (cases sp) (auto simp: spans_json_def)
qed

lemma envelope_values: "list_all (envelope_value \<circ> snd) (envelope ev)"
  by (simp add: envelope_def)

lemma envelope_text_inject: "envelope_text (envelope ev) = envelope_text (envelope ev') \<longleftrightarrow> envelope ev = envelope ev'"
proof
  have obj: "envelope_text l = CHR 0x7B # members_text wide_string (wide_text True '','' '':'') (sort_key fst l) @ [CHR 0x7D]" for l
  proof -
    have "sort_key fst (map (\<lambda>kv. (fst kv, wide_text True '','' '':'' (snd kv))) l)
        = map (\<lambda>kv. (fst kv, wide_text True '','' '':'' (snd kv))) (sort_key fst l)"
      by (rule sort_key_map_fst) simp
    then show ?thesis by (simp add: members_text_def comp_def case_prod_beta join_with_comma)
  qed
  assume "envelope_text (envelope ev) = envelope_text (envelope ev')"
  then show "envelope ev = envelope ev'"
    unfolding obj by (intro envelope_enc.sorted_members_inject [OF envelope_keys envelope_values envelope_values]) simp
qed simp

text \<open>What the builder returns: the derived fields follow from the envelope.\<close>

definition evidence_ok :: "libs \<Rightarrow> evidence \<Rightarrow> bool" where
  "evidence_ok L ev \<longleftrightarrow> ev_digest ev = lib_sha256 L (envelope_text (envelope ev)) \<and> ev_text_bytes ev = length (ev_text ev)
     \<and> encode_reference (ev_build_id ev) (ev_chunk_id ev) (bytes_of_hex (ev_digest ev)) = Inr (ev_reference ev)"

lemma envelope_unread [simp]: "envelope (ev\<lparr>ev_reference := r, ev_digest := d\<rparr>) = envelope ev"
  by (simp add: envelope_def)

lemma evidence_fields_Inr:
  assumes "evidence_fields b i p = Inr ev"
  obtains scope where "scope_of p = Inr scope" "ev_revision ev = sc_revision scope" "ev_doc_id ev = sc_doc_id scope"
    "ev_product ev = sc_product scope" "ev_version ev = sc_version scope"
    "ev_build_id ev = bb_build_id b" "ev_chunk_id ev = i" "ev_text ev = str_of (jget p ''text'')"
    "ev_text_bytes ev = length (ev_text ev)"
  using assms unfolding evidence_fields_def rbind_Inr_iff by (elim exE conjE) (rule that, auto)

lemma build_evidence_ok:
  assumes "build_evidence L b i p = Inr ev"
  shows "evidence_ok L ev \<and> ev_build_id ev = bb_build_id b \<and> ev_chunk_id ev = i \<and> ev_text ev = str_of (jget p ''text'')"
proof -
  from assms obtain e r where e: "evidence_fields b i p = Inr e"
    and r: "encode_reference (bb_build_id b) i (bytes_of_hex (lib_sha256 L (envelope_text (envelope e)))) = Inr r"
    and ev: "ev = e\<lparr>ev_reference := r, ev_digest := lib_sha256 L (envelope_text (envelope e))\<rparr>"
    unfolding build_evidence_def rbind_Inr_iff Let_def by auto
  from e show ?thesis by (rule evidence_fields_Inr) (use r in \<open>simp add: ev evidence_ok_def\<close>)
qed

lemma evidence_ok_reference:
  "evidence_ok L ev \<Longrightarrow> encode_reference (ev_build_id ev) (ev_chunk_id ev) (bytes_of_hex (ev_digest ev)) = Inr (ev_reference ev)"
  unfolding evidence_ok_def by blast

lemma spans_json_inject: "spans_json a = spans_json b \<longleftrightarrow> a = b"
proof -
  have "inj (\<lambda>(s, e). JObj [(''start'', JInt (int s)), (''end'', JInt (int e))])" by (auto simp: inj_on_def)
  then show ?thesis by (cases a; cases b) (auto simp: spans_json_def inj_map_eq_map)
qed

lemma envelope_inject:
  "envelope ev = envelope ev' \<Longrightarrow> evidence_ok L ev \<Longrightarrow> evidence_ok L ev' \<Longrightarrow> ev = ev'"
proof -
  assume e: "envelope ev = envelope ev'" and ok: "evidence_ok L ev" "evidence_ok L ev'"
  have d: "ev_digest ev = ev_digest ev'" using ok e by (simp add: evidence_ok_def)
  from e have f: "ev_build_id ev = ev_build_id ev'" "ev_chunk_id ev = ev_chunk_id ev'" "ev_gen_fp ev = ev_gen_fp ev'"
    "ev_revision ev = ev_revision ev'" "ev_sha256 ev = ev_sha256 ev'" "ev_doc_id ev = ev_doc_id ev'"
    "ev_title ev = ev_title ev'" "ev_product ev = ev_product ev'" "ev_version ev = ev_version ev'"
    "ev_heading ev = ev_heading ev'" "ev_chunk_type ev = ev_chunk_type ev'" "ev_text ev = ev_text ev'"
    "ev_spans ev = ev_spans ev'" "ev_page_start ev = ev_page_start ev'" "ev_page_end ev = ev_page_end ev'"
    "ev_label ev = ev_label ev'"
    by (simp_all add: envelope_def spans_json_inject)
  have "ev_text_bytes ev = ev_text_bytes ev'" using ok f by (simp add: evidence_ok_def)
  moreover have "ev_reference ev = ev_reference ev'"
    using ok f d unfolding evidence_ok_def by (metis sum.inject(2))
  ultimately show "ev = ev'" using f d by (intro evidence.equality) simp_all
qed

lemma bytes_of_hex_inject:
  "is_hex64 (JStr s) \<Longrightarrow> is_hex64 (JStr t) \<Longrightarrow> bytes_of_hex s = bytes_of_hex t \<longleftrightarrow> s = t"
proof -
  assume "is_hex64 (JStr s)" "is_hex64 (JStr t)"
  then have "concat (map hex_text (bytes_of_hex s)) = s" "concat (map hex_text (bytes_of_hex t)) = t"
    by (simp_all add: hex_of_bytes is_hex64_def)
  then show ?thesis by metis
qed

text \<open>
  C27: a reference binds the evidence exactly. Of two pieces of evidence built from any stored
  payloads, under any build bindings, the references are the same only if build, chunk, text,
  ranges, pages and every other field are, as far as SHA-256 tells their envelopes apart.
\<close>

theorem reference_binds_evidence:
  assumes "build_evidence L b i p = Inr ev" "build_evidence L b' i' p' = Inr ev'"
    and "\<And>t. is_hex64 (JStr (lib_sha256 L t))"
    and "lib_sha256 L (envelope_text (envelope ev)) = lib_sha256 L (envelope_text (envelope ev'))
      \<Longrightarrow> envelope_text (envelope ev) = envelope_text (envelope ev')"
  shows "ev_reference ev = ev_reference ev' \<longleftrightarrow> ev = ev'"
proof
  have ok: "evidence_ok L ev" "evidence_ok L ev'" using assms(1,2) build_evidence_ok by blast+
  assume same: "ev_reference ev = ev_reference ev'"
  have enc: "encode_reference (ev_build_id e) (ev_chunk_id e) (bytes_of_hex (ev_digest e)) = Inr t
      \<Longrightarrow> length (bytes_of_hex (ev_digest e)) = 32 \<and> (\<exists>u v. length u = 16 \<and> length v = 16 \<and> t = reference_prefix @ b64_encode (u @ v @ bytes_of_hex (ev_digest e)))"
    for e t
    unfolding encode_reference_Inr using uuid_text_bytes by blast
  from ok same obtain u v u' v' where "length u = 16" "length v = 16" "length u' = 16" "length v' = 16"
    "b64_encode (u @ v @ bytes_of_hex (ev_digest ev)) = b64_encode (u' @ v' @ bytes_of_hex (ev_digest ev'))"
    unfolding evidence_ok_def using enc by (metis same_append_eq)
  then have "u @ v @ bytes_of_hex (ev_digest ev) = u' @ v' @ bytes_of_hex (ev_digest ev')"
    using b64_decode_encode by (metis option.inject)
  with \<open>length u = 16\<close> \<open>length u' = 16\<close> \<open>length v = 16\<close> \<open>length v' = 16\<close>
  have "bytes_of_hex (ev_digest ev) = bytes_of_hex (ev_digest ev')" by simp
  then have "ev_digest ev = ev_digest ev'"
    using bytes_of_hex_inject [OF assms(3) assms(3)] ok by (simp add: evidence_ok_def)
  then have "envelope ev = envelope ev'"
    using assms(4) ok envelope_text_inject by (simp add: evidence_ok_def)
  then show "ev = ev'" using envelope_inject ok by blast
qed simp


section \<open>Exact reads\<close>

definition denied :: "exn \<Rightarrow> bool" where
  "denied e \<longleftrightarrow> exn_cls e = EvidenceErr \<and> exn_tag e = ''unavailable''"

text \<open>
  What the authority promises: a grant names the version of the policy that allowed the scope, a
  refusal is one of that policy, and a version names one policy. The policy may change at any call.
\<close>

record policy =
  pol_version :: string
  pol_allows :: "caller \<Rightarrow> scope \<Rightarrow> bool"

locale authority =
  fixes A :: "'s access" and P :: "'s \<Rightarrow> policy" and V :: "'s \<Rightarrow> view"
  assumes authorize_law: "wp (ac_authorize A caller scope)
      (\<lambda>g s'. V s' = V s \<and> (case g of None \<Rightarrow> \<not> pol_allows (P s') caller scope
                             | Some v \<Rightarrow> pol_allows (P s') caller scope \<and> v = pol_version (P s')))
      (\<lambda>e s'. V s' = V s \<and> exn_cls e \<in> {UnauthenticatedErr, AccessUnavailableErr, TimeoutErr}) s"
    and version_law: "wp (ac_version A) (\<lambda>v s'. V s' = V s \<and> v = pol_version (P s'))
      (\<lambda>e s'. V s' = V s \<and> exn_cls e \<in> {AccessUnavailableErr, TimeoutErr}) s"
    and version_identifies: "pol_version (P s) = pol_version (P s') \<Longrightarrow> pol_allows (P s) = pol_allows (P s')"
begin

lemma wp_authorize:
  "wp (authorize A caller scope)
     (\<lambda>v s'. V s' = V s \<and> pol_allows (P s') caller scope \<and> v = pol_version (P s'))
     (\<lambda>e s'. V s' = V s \<and> (denied e \<longrightarrow> \<not> pol_allows (P s') caller scope)) s"
  unfolding authorize_def wp_bind wp_catch
  by (rule wp_conseq [OF authorize_law]) (auto simp: denied_def evidence_failure_def split: option.splits)

lemma wp_current_version:
  "wp (current_version A) (\<lambda>v s'. V s' = V s \<and> v = pol_version (P s')) (\<lambda>e s'. V s' = V s \<and> \<not> denied e) s"
  unfolding current_version_def wp_catch
  by (rule wp_conseq [OF version_law]) (auto simp: denied_def evidence_failure_def)

lemma wp_recheck:
  assumes "pol_allows (P s0) caller scope" "granted = pol_version (P s0)"
  shows "wp (sbind (current_version A) (\<lambda>now.
      sseq (if now \<noteq> granted then sbind (authorize A caller scope) (\<lambda>_. sret ()) else sret ()) (sret x)))
    (\<lambda>y s'. V s' = V s \<and> y = x \<and> pol_allows (P s') caller scope) (\<lambda>e s'. V s' = V s) s"
  unfolding wp_bind
proof (rule wp_conseq [OF wp_current_version])
  fix now s1 assume n: "V s1 = V s \<and> now = pol_version (P s1)"
  show "wp (sseq (if now \<noteq> granted then sbind (authorize A caller scope) (\<lambda>_. sret ()) else sret ()) (sret x))
      (\<lambda>y s'. V s' = V s \<and> y = x \<and> pol_allows (P s') caller scope) (\<lambda>e s'. V s' = V s) s1"
  proof (cases "now = granted")
    case True
    then show ?thesis using n assms version_identifies [of s0 s1] by simp
  next
    case False
    then show ?thesis
      by (simp, intro wp_conseq [OF wp_authorize]) (use n in auto)
  qed
qed simp

end


lemma decode_control_Inr:
  "decode_control p control = Inr (b, has) \<Longrightarrow> decode_build_binding p control = Inr b \<and> has = jhas p ''source_catalog''"
  by (auto simp: decode_control_def corrupt_def split: sum.splits if_splits)

lemma decode_control_ok:
  assumes "decode_build_binding p control = Inr b"
  shows "decode_control p control = Inr (b, jhas p ''source_catalog'')"
  using assms by (auto simp: decode_control_def decode_build_binding_def check_build_record_def rbind_Inr_iff Let_def
    binding_error_def split: if_splits)

text \<open>The build a reference names, as the aliases and the receipt of the store have it.\<close>

definition pinned :: "libs \<Rightarrow> view \<Rightarrow> string \<Rightarrow> build_binding \<Rightarrow> bool" where
  "pinned L v logical b \<longleftrightarrow>
     map_of (v_alias v) (logical @ ''__build_'' @ bb_build_id b) = Some (bb_physical b)
     \<and> map_of (v_alias v) (logical @ ''__build_'' @ bb_build_id b @ ''__completions'') = Some (control_of (bb_physical b))
     \<and> bb_alias b = logical
     \<and> (\<exists>p. receipt_of L v (control_of (bb_physical b)) = Some p
          \<and> decode_build_binding p (control_of (bb_physical b)) = Inr b)"

context qdrant_reader
begin

lemma wp_retrieve_single:
  "wp (cl_retrieve C n [i] WithAll False)
     (\<lambda>ps s'. V s' = V s \<and> (ps = [] \<and> by_id (points_of (V s) n) i = None
        \<or> (\<exists>r p. ps = [r] \<and> by_id (points_of (V s) n) i = Some p \<and> pt_id r = i \<and> pt_payload r = pt_payload p)))
     (\<lambda>e s'. V s' = V s) s"
proof (rule wp_conseq [OF retrieve_law])
  fix ps s'
  assume r: "V s' = V s \<and> distinct (map pt_id ps)
    \<and> set ps = project WithAll False ` {p \<in> set (points_of (V s) n). pt_id p \<in> set [i]}"
  then have ids: "\<forall>p \<in> set ps. pt_id p = i" by (auto simp: project_whole)
  have one: "ps = [] \<or> (\<exists>r. ps = [r])"
  proof (cases ps)
    case (Cons q qs)
    have "qs = []"
    proof (cases qs)
      case (Cons q' qs')
      then have "pt_id q = i" "pt_id q' = i" "pt_id q \<noteq> pt_id q'"
        using \<open>ps = q # qs\<close> ids r by simp_all
      then show ?thesis by simp
    qed simp
    with Cons show ?thesis by simp
  qed simp
  from retrieved_one [OF _ _ wf] r
  have found: "(case ps of [] \<Rightarrow> None | p # _ \<Rightarrow> Some (pt_payload p)) = map_option pt_payload (by_id (points_of (V s) n) i)"
    by blast
  show "V s' = V s \<and> (ps = [] \<and> by_id (points_of (V s) n) i = None
        \<or> (\<exists>r p. ps = [r] \<and> by_id (points_of (V s) n) i = Some p \<and> pt_id r = i \<and> pt_payload r = pt_payload p))"
  proof (cases "by_id (points_of (V s) n) i")
    case None
    then show ?thesis using found one r by (cases ps) simp_all
  next
    case (Some p)
    then obtain q where q: "ps = [q]" using found one by (cases ps) auto
    then show ?thesis using found ids r Some by simp
  qed
qed simp

lemma wp_read_binding:
  "wp (read_binding L C physical)
     (\<lambda>r s'. V s' = V s \<and> (\<forall>b has. r = Some (b, has) \<longrightarrow>
        (\<exists>p. receipt_of L (V s) (control_of physical) = Some p \<and> decode_build_binding p (control_of physical) = Inr b
           \<and> has = jhas p ''source_catalog'')))
     (\<lambda>e s'. V s' = V s) s"
  unfolding read_binding_def Let_def wp_bind
  by (intro wp_exists wp_unless, unfold wp_bind, rule wp_conseq [OF wp_retrieve_single])
     (auto simp: receipt_of_def dest: decode_control_Inr split: sum.splits list.splits)

lemma wp_pinned_build:
  "wp (pinned_build L C logical build_id require_catalog)
     (\<lambda>(b, physical) s'. V s' = V s \<and> bb_build_id b = build_id \<and> bb_physical b = physical \<and> pinned L (V s) logical b
        \<and> (require_catalog \<longrightarrow> (\<exists>p. receipt_of L (V s) (control_of physical) = Some p \<and> jhas p ''source_catalog'')))
     (\<lambda>e s'. V s' = V s) s" (is "wp _ ?Q ?E s")
proof (cases "build_aliases logical build_id")
  case (Inl e)
  then show ?thesis by (simp add: pinned_build_def)
next
  case (Inr names)
  then obtain d c where names: "names = (d, c)" "d = logical @ ''__build_'' @ build_id" "c = logical @ ''__build_'' @ build_id @ ''__completions''"
    by (cases names) (auto simp: build_aliases_def rbind_Inr_iff Let_def)
  show ?thesis
    unfolding pinned_build_def Inr names(1) sbind_slift prod.case wp_bind
  proof (rule wp_aliases)
    fix as s1 assume a: "V s1 = V s" "map_of as = map_of (v_alias (V s))"
    show "wp (case map_of as d of
       None \<Rightarrow> (case map_of as c of None \<Rightarrow> sraise (evidence_failure ''unavailable'' ''unknown_build'')
           | Some _ \<Rightarrow> slift (corrupt ''build_aliases''))
     | Some physical \<Rightarrow>
         if map_of as c \<noteq> Some (control_of physical) then slift (corrupt ''build_aliases'')
         else sbind (read_binding L C physical) (\<lambda>bound.
           case bound of
             None \<Rightarrow> slift (corrupt ''control_mismatch'')
           | Some (b, has_catalog) \<Rightarrow>
               if bb_build_id b \<noteq> build_id \<or> bb_physical b \<noteq> physical \<or> bb_alias b \<noteq> logical
               then slift (corrupt ''control_mismatch'')
               else if require_catalog \<and> \<not> has_catalog then slift (corrupt ''no_catalog'')
               else sret (b, physical))) ?Q ?E s1"
    proof (cases "\<exists>physical. map_of as d = Some physical \<and> map_of as c = Some (control_of physical)")
      case False
      then show ?thesis using a by (auto simp: corrupt_def split: option.splits)
    next
      case True
      then obtain physical where ph: "map_of as d = Some physical" "map_of as c = Some (control_of physical)" by blast
      show ?thesis
        unfolding ph option.case prod.case
        apply (simp, rule wp_conseq [OF wp_read_binding])
        using ph a names
         apply (auto simp: corrupt_def pinned_def split: option.splits prod.splits)
        done
    qed
  qed simp
qed

end


definition evidence_scope :: "evidence \<Rightarrow> scope" where
  "evidence_scope ev = \<lparr>sc_revision = ev_revision ev, sc_doc_id = ev_doc_id ev,
     sc_product = ev_product ev, sc_version = ev_version ev\<rparr>"

lemma build_evidence_scope: "build_evidence L b i p = Inr ev \<Longrightarrow> scope_of p = Inr (evidence_scope ev)"
  unfolding build_evidence_def rbind_Inr_iff
  by (elim exE conjE evidence_fields_Inr) (simp add: Let_def rbind_Inr_iff evidence_scope_def, auto)

text \<open>Evidence as the store has it: of a published build, built from its stored point.\<close>

definition exact :: "libs \<Rightarrow> string \<Rightarrow> view \<Rightarrow> evidence \<Rightarrow> bool" where
  "exact L logical v ev \<longleftrightarrow> (\<exists>b p. pinned L v logical b \<and> bb_build_id b = ev_build_id ev
     \<and> by_id (points_of v (bb_physical b)) (ev_chunk_id ev) = Some p
     \<and> build_evidence L b (ev_chunk_id ev) (pt_payload p) = Inr ev)"

locale evidence_world = qdrant_reader C V + authority A P V
  for C :: "'s client" and V :: "'s \<Rightarrow> view" and A :: "'s access" and P :: "'s \<Rightarrow> policy"
begin

lemma wp_read_stored:
  "wp (read_stored L A caller parsed budget product version b p)
     (\<lambda>ev s'. V s' = V s \<and> build_evidence L b (pr_chunk parsed) p = Inr ev
        \<and> bytes_of_hex (ev_digest ev) = pr_digest parsed \<and> pol_allows (P s') caller (evidence_scope ev)
        \<and> \<not> narrows product (ev_product ev) \<and> \<not> narrows version (ev_version ev) \<and> int (ev_text_bytes ev) \<le> budget)
     (\<lambda>e s'. V s' = V s) s" (is "wp _ ?Q ?E s")
proof (cases "scope_of p")
  case (Inr scope)
  show ?thesis
    unfolding read_stored_def Inr sbind_slift wp_bind
  proof (rule wp_conseq [OF wp_authorize])
    fix granted s1
    assume g: "V s1 = V s \<and> pol_allows (P s1) caller scope \<and> granted = pol_version (P s1)"
    let ?recheck = "\<lambda>ev. sbind (current_version A) (\<lambda>now.
      sseq (if now \<noteq> granted then sbind (authorize A caller scope) (\<lambda>_. sret ()) else sret ()) (sret ev))"
    show "wp (if narrows product (sc_product scope) \<or> narrows version (sc_version scope)
      then sraise (evidence_failure ''unavailable'' ''scope_mismatch'')
      else sbind (slift (build_evidence L b (pr_chunk parsed) p)) (\<lambda>ev.
        if bytes_of_hex (ev_digest ev) \<noteq> pr_digest parsed then slift (corrupt ''digest_mismatch'')
        else if int (ev_text_bytes ev) > budget then sraise (evidence_failure ''budget_exceeded'' ''over_budget'')
        else ?recheck ev)) ?Q ?E s1"
    proof (cases "build_evidence L b (pr_chunk parsed) p")
      case (Inl e)
      then show ?thesis using g by simp
    next
      case ev: (Inr ev)
      have scope: "scope = evidence_scope ev" using build_evidence_scope [OF ev] Inr by simp
      have "wp (?recheck ev) ?Q ?E s1"
        if "\<not> narrows product (ev_product ev)" "\<not> narrows version (ev_version ev)"
          "bytes_of_hex (ev_digest ev) = pr_digest parsed" "int (ev_text_bytes ev) \<le> budget"
        using g that ev scope by (intro wp_conseq [OF wp_recheck]) auto
      then show ?thesis
        unfolding ev sbind_slift using g
        by (auto simp: wp_if corrupt_def scope evidence_scope_def)
    qed
  qed simp
qed (simp add: read_stored_def)

lemma wp_read_pinned:
  "wp (read_pinned L C A logical cap caller parsed max_bytes product version)
     (\<lambda>ev s'. V s' = V s \<and> ev_build_id ev = pr_build parsed \<and> ev_chunk_id ev = pr_chunk parsed
        \<and> bytes_of_hex (ev_digest ev) = pr_digest parsed \<and> exact L logical (V s) ev
        \<and> pol_allows (P s') caller (evidence_scope ev)
        \<and> \<not> narrows product (ev_product ev) \<and> \<not> narrows version (ev_version ev)
        \<and> int (ev_text_bytes ev) \<le> read_budget cap max_bytes)
     (\<lambda>e s'. V s' = V s) s" (is "wp _ ?Q ?E s")
  unfolding read_pinned_def wp_bind
proof (rule wp_conseq [OF wp_pinned_build], goal_cases)
  case (1 x s1)
  note x = this
  obtain b where b: "x = (b, bb_physical b)" using x by (cases x) auto
  then have v1: "V s1 = V s" and bid: "pr_build parsed = bb_build_id b" and pin: "pinned L (V s) logical b" using x by simp_all
  have one: "wp (read_stored L A caller parsed (read_budget cap max_bytes) product version b (pt_payload p)) ?Q ?E s2"
    if v2: "V s2 = V s" and p: "by_id (points_of (V s) (bb_physical b)) (pr_chunk parsed) = Some p"
    for p s2
  proof (rule wp_conseq [OF wp_read_stored], elim conjE)
    fix ev s'
    assume ev: "V s' = V s2" "build_evidence L b (pr_chunk parsed) (pt_payload p) = Inr ev"
      "bytes_of_hex (ev_digest ev) = pr_digest parsed" "pol_allows (P s') caller (evidence_scope ev)"
      "\<not> narrows product (ev_product ev)" "\<not> narrows version (ev_version ev)" "int (ev_text_bytes ev) \<le> read_budget cap max_bytes"
    have ids: "ev_build_id ev = bb_build_id b" "ev_chunk_id ev = pr_chunk parsed" using build_evidence_ok [OF ev(2)] by simp_all
    have "exact L logical (V s) ev"
      unfolding exact_def using pin ids p ev(2) by (intro exI [of _ b] exI [of _ p]) simp
    then show "?Q ev s'" using ev ids bid v2 by simp
  qed (use v2 in simp)
  show ?case
    unfolding b prod.case wp_bind
  proof (rule wp_conseq [OF wp_retrieve_single])
    fix ps :: "point list" and s2
    assume "V s2 = V s1 \<and> (ps = [] \<and> by_id (points_of (V s1) (bb_physical b)) (pr_chunk parsed) = None
      \<or> (\<exists>r p. ps = [r] \<and> by_id (points_of (V s1) (bb_physical b)) (pr_chunk parsed) = Some p
           \<and> pt_id r = pr_chunk parsed \<and> pt_payload r = pt_payload p))"
    then show "wp (case ps of
       [r] \<Rightarrow>
         if pt_id r \<noteq> pr_chunk parsed then slift (corrupt ''chunk_missing'')
         else read_stored L A caller parsed (read_budget cap max_bytes) product version b (pt_payload r)
     | _ \<Rightarrow> slift (corrupt ''chunk_missing'')) ?Q ?E s2"
      using v1 one by (auto simp: corrupt_def)
  qed (use v1 in simp)
next
  case 2
  then show ?case by simp
qed

lemma wp_read_evidence:
  "wp (read_evidence L C A logical cap caller (JStr t) max_bytes product version)
     (\<lambda>ev s'. V s' = V s \<and> ev_reference ev = t \<and> exact L logical (V s) ev
        \<and> pol_allows (P s') caller (evidence_scope ev)
        \<and> \<not> narrows product (ev_product ev) \<and> \<not> narrows version (ev_version ev)
        \<and> int (length (ev_text ev)) \<le> read_budget cap max_bytes)
     (\<lambda>e s'. V s' = V s \<and> exn_cls e = EvidenceErr) s" (is "wp _ ?Q ?E s")
proof (cases "parse_reference (JStr t)")
  case (Inl e)
  then have "exn_cls e = EvidenceErr"
    by (auto simp: parse_reference_def evidence_failure_def split: option.splits if_splits)
  with Inl show ?thesis by (simp add: read_evidence_def)
next
  case (Inr parsed)
  then have t: "encode_reference (pr_build parsed) (pr_chunk parsed) (pr_digest parsed) = Inr t"
    by (simp add: parse_reference_iff)
  show ?thesis
    unfolding read_evidence_def Inr sbind_slift with_failures_def wp_catch
  proof (rule wp_conseq [OF wp_read_pinned], elim conjE)
    fix ev s'
    assume ev: "V s' = V s" "ev_build_id ev = pr_build parsed" "ev_chunk_id ev = pr_chunk parsed"
      "bytes_of_hex (ev_digest ev) = pr_digest parsed" "exact L logical (V s) ev"
      "pol_allows (P s') caller (evidence_scope ev)" "\<not> narrows product (ev_product ev)" "\<not> narrows version (ev_version ev)"
      "int (ev_text_bytes ev) \<le> read_budget cap max_bytes"
    have ok: "evidence_ok L ev" using ev(5) build_evidence_ok unfolding exact_def by blast
    then have "ev_reference ev = t" using t ev(2-4) by (simp add: evidence_ok_def)
    then show "?Q ev s'" using ev ok by (simp add: evidence_ok_def)
  qed (auto simp: evidence_failure_def)
qed

end


text \<open>The authority the repository ships allows every caller, under one fixed version.\<close>

definition shared_policy :: policy where
  "shared_policy = \<lparr>pol_version = ''shared-corpus'', pol_allows = (\<lambda>caller scope. True)\<rparr>"

interpretation shared: evidence_world mem_client mem_view shared_access "\<lambda>_. shared_policy"
  by unfold_locales (simp_all add: shared_access_def shared_policy_def)

section \<open>Minted references read back\<close>

text \<open>
  A failure that says nothing about the evidence: the store or the authority could not answer, or
  the deadline passed.
\<close>

definition outage :: "exn \<Rightarrow> bool" where
  "outage e \<longleftrightarrow> store_exn e \<or> exn_cls e = TimeoutErr
     \<or> (exn_cls e = EvidenceErr \<and> exn_tag e \<in> {''unauthenticated'', ''access_unavailable'', ''upstream'', ''timeout''})"

text \<open>What a read of existing evidence may be answered with.\<close>

definition refusal :: "policy \<Rightarrow> evidence \<Rightarrow> caller \<Rightarrow> int \<Rightarrow> exn \<Rightarrow> bool" where
  "refusal pol ev caller budget e \<longleftrightarrow> outage e
     \<or> (e = evidence_failure ''unavailable'' ''denied'' \<and> \<not> pol_allows pol caller (evidence_scope ev))
     \<or> (e = evidence_failure ''budget_exceeded'' ''over_budget'' \<and> budget < int (length (ev_text ev)))"

locale steady_world = qdrant_finishes C V + authority A "\<lambda>_. pol" V
  for C :: "'s client" and V :: "'s \<Rightarrow> view" and A :: "'s access" and pol :: policy +
  assumes aliases_raises: "wp (cl_aliases C) (\<lambda>_ _. True) (\<lambda>e s'. store_exn e) s"
begin

lemma wp_authorize_steady:
  "wp (authorize A caller scope)
     (\<lambda>v s'. V s' = V s \<and> pol_allows pol caller scope \<and> v = pol_version pol)
     (\<lambda>e s'. V s' = V s \<and> (outage e \<or> e = evidence_failure ''unavailable'' ''denied'' \<and> \<not> pol_allows pol caller scope)) s"
  unfolding authorize_def wp_bind wp_catch
  by (rule wp_conseq [OF authorize_law]) (auto simp: outage_def evidence_failure_def split: option.splits)

lemma wp_current_version_steady:
  "wp (current_version A) (\<lambda>v s'. V s' = V s \<and> v = pol_version pol) (\<lambda>e s'. V s' = V s \<and> outage e) s"
  unfolding current_version_def wp_catch
  by (rule wp_conseq [OF version_law]) (auto simp: outage_def evidence_failure_def)

lemma wp_read_binding_steady:
  assumes "map_of (v_alias (V s)) (control_of physical) = None" "receipt_of L (V s) (control_of physical) = Some p"
    "decode_build_binding p (control_of physical) = Inr b"
  shows "wp (read_binding L C physical) (\<lambda>r s'. V s' = V s \<and> r = Some (b, jhas p ''source_catalog''))
    (\<lambda>e s'. V s' = V s \<and> outage e) s" (is "wp _ ?Q ?E s")
  unfolding read_binding_def Let_def wp_bind
proof (rule wp_conseq [OF wp_exists_only [OF assms(1)]])
  fix ex s1 assume e: "V s1 = V s \<and> ex = (v_points (V s) (control_of physical) \<noteq> None)"
  then have ex: "ex" using assms(1,2) by (auto simp: receipt_of_def by_id_def points_of_def phys_def)
  have "wp (sbind (cl_retrieve C (control_of physical) [publication_point_id L (control_of physical)] WithAll False) (\<lambda>records.
        case records of
          [] \<Rightarrow> sret None
        | r # _ \<Rightarrow> sbind (slift (decode_control (pt_payload r) (control_of physical))) (\<lambda>bound. sret (Some bound)))) ?Q ?E s1"
    unfolding wp_bind
    by (rule wp_conseq [OF wp_retrieve_one])
       (use e assms(2) decode_control_ok [OF assms(3)] in \<open>auto simp: outage_def receipt_of_def split: list.splits\<close>)
  with ex show "wp (if \<not> ex then sret None
      else sbind (cl_retrieve C (control_of physical) [publication_point_id L (control_of physical)] WithAll False) (\<lambda>records.
        case records of
          [] \<Rightarrow> sret None
        | r # _ \<Rightarrow> sbind (slift (decode_control (pt_payload r) (control_of physical))) (\<lambda>bound. sret (Some bound)))) ?Q ?E s1"
    by simp
qed (simp add: outage_def)

lemma wp_pinned_build_steady:
  assumes "pinned L (V s) logical b" "canonical_build_id (JStr (bb_build_id b)) = Inr (bb_build_id b)"
    "map_of (v_alias (V s)) (control_of (bb_physical b)) = None"
  shows "wp (pinned_build L C logical (bb_build_id b) False) (\<lambda>r s'. V s' = V s \<and> r = (b, bb_physical b))
    (\<lambda>e s'. V s' = V s \<and> outage e) s" (is "wp _ ?Q ?E s")
proof -
  define d where "d = logical @ ''__build_'' @ bb_build_id b"
  define c where "c = logical @ ''__build_'' @ bb_build_id b @ ''__completions''"
  have names: "build_aliases logical (bb_build_id b) = Inr (d, c)"
    using assms(2) by (simp add: build_aliases_def d_def c_def Let_def)
  from assms(1) obtain p where p: "receipt_of L (V s) (control_of (bb_physical b)) = Some p"
    "decode_build_binding p (control_of (bb_physical b)) = Inr b" by (auto simp: pinned_def)
  have al: "map_of (v_alias (V s)) d = Some (bb_physical b)" "map_of (v_alias (V s)) c = Some (control_of (bb_physical b))"
    "bb_alias b = logical" using assms(1) by (simp_all add: pinned_def d_def c_def)
  show ?thesis
    unfolding pinned_build_def names sbind_slift prod.case wp_bind
  proof (rule wp_conseq [OF wp_conj [OF aliases_law aliases_raises]], goal_cases)
    case (1 as s1)
    then have a: "map_of as d = Some (bb_physical b)" "map_of as c = Some (control_of (bb_physical b))" "V s1 = V s"
      using al by simp_all
    have "wp (read_binding L C (bb_physical b)) (\<lambda>r s'. V s' = V s1 \<and> r = Some (b, jhas p ''source_catalog''))
        (\<lambda>e s'. V s' = V s1 \<and> outage e) s1"
      by (rule wp_read_binding_steady) (use a p assms(3) in simp_all)
    then show ?case
      by (simp add: a, elim wp_conseq) (use a al in auto)
  qed (auto simp: outage_def)
qed

lemma wp_read_stored_steady:
  assumes "build_evidence L b (pr_chunk parsed) p = Inr ev" "pr_digest parsed = bytes_of_hex (ev_digest ev)"
  shows "wp (read_stored L A caller parsed budget None None b p)
     (\<lambda>ev' s'. V s' = V s \<and> ev' = ev) (\<lambda>e s'. V s' = V s \<and> refusal pol ev caller budget e) s" (is "wp _ ?Q ?E s")
  unfolding read_stored_def build_evidence_scope [OF assms(1)] sbind_slift wp_bind
proof (rule wp_conseq [OF wp_authorize_steady], goal_cases)
  case (1 granted s1)
  have n: "\<not> (narrows None x \<or> narrows None y)" for x y by (simp add: narrows_def)
  have bytes: "ev_text_bytes ev = length (ev_text ev)" using build_evidence_ok [OF assms(1)] by (simp add: evidence_ok_def)
  have version: "wp (current_version A) (\<lambda>now s'. V s' = V s \<and> now = granted) (\<lambda>e s'. V s' = V s \<and> outage e) s1"
    by (rule wp_conseq [OF wp_current_version_steady]) (use 1 in auto)
  show ?case
  proof (cases "budget < int (length (ev_text ev))")
    case True
    then show ?thesis using 1 unfolding if_not_P [OF n] assms(1) sbind_slift by (simp add: assms(2) bytes refusal_def)
  next
    case False
    then show ?thesis
      unfolding if_not_P [OF n] assms(1) sbind_slift
      by (simp add: assms(2) bytes, intro wp_conseq [OF version]) (auto simp: refusal_def)
  qed
qed (auto simp: refusal_def)

lemma wp_read_back:
  assumes "pinned L (V s) logical b" "canonical_build_id (JStr (bb_build_id b)) = Inr (bb_build_id b)"
    "map_of (v_alias (V s)) (control_of (bb_physical b)) = None"
    "by_id (points_of (V s) (bb_physical b)) i = Some p" "build_evidence L b i (pt_payload p) = Inr ev"
  shows "wp (read_evidence L C A logical cap caller (JStr (ev_reference ev)) max_bytes None None)
     (\<lambda>ev' s'. V s' = V s \<and> ev' = ev) (\<lambda>e s'. V s' = V s \<and> refusal pol ev caller (read_budget cap max_bytes) e) s"
    (is "wp _ ?Q ?E s")
proof -
  have ok: "evidence_ok L ev" "ev_build_id ev = bb_build_id b" "ev_chunk_id ev = i"
    using build_evidence_ok [OF assms(5)] by simp_all
  define parsed where "parsed = \<lparr>pr_build = bb_build_id b, pr_chunk = i, pr_digest = bytes_of_hex (ev_digest ev)\<rparr>"
  have parse: "parse_reference (JStr (ev_reference ev)) = Inr parsed"
    using ok(2,3) evidence_ok_reference [OF ok(1)] assms(2)
    by (simp add: parse_reference_iff parsed_def canonical_build_id_Inr)
  have fields: "pr_build parsed = bb_build_id b" "pr_chunk parsed = i" "pr_digest parsed = bytes_of_hex (ev_digest ev)"
    by (simp_all add: parsed_def)
  have found: "wp (cl_retrieve C (bb_physical b) [i] WithAll False)
      (\<lambda>ps s'. V s' = V s1 \<and> (\<exists>r. ps = [r] \<and> pt_id r = i \<and> pt_payload r = pt_payload p))
      (\<lambda>e s'. V s' = V s1 \<and> outage e) s1" if "V s1 = V s" for s1
    by (rule wp_conseq [OF wp_conj [OF wp_retrieve_single retrieve_raises]]) (use that assms(4) in \<open>auto simp: outage_def\<close>)
  have pinned: "wp (read_pinned L C A logical cap caller parsed max_bytes None None) ?Q
      (\<lambda>e s'. V s' = V s \<and> refusal pol ev caller (read_budget cap max_bytes) e) s"
    unfolding read_pinned_def wp_bind fields
  proof (rule wp_conseq [OF wp_pinned_build_steady [OF assms(1-3)]], goal_cases)
    case (1 x s1)
    then have x: "x = (b, bb_physical b)" "V s1 = V s" by simp_all
    show ?case
      unfolding x prod.case wp_bind
    proof (rule wp_conseq [OF found [OF x(2)]], goal_cases)
      case (1 ps s2)
      then obtain r where r: "ps = [r]" "pt_id r = i" "pt_payload r = pt_payload p" by blast
      have v2: "V s2 = V s" using 1 x by simp
      show ?case
        unfolding r list.case if_not_P [OF not_not [THEN iffD2, OF refl]]
        by (rule wp_conseq [OF wp_read_stored_steady [where ev = ev]]) (use fields assms(5) v2 in simp_all)
    qed (use x in \<open>simp add: refusal_def\<close>)
  qed (simp add: refusal_def)
  show ?thesis
    unfolding read_evidence_def parse sbind_slift with_failures_def wp_catch
    by (rule wp_conseq [OF pinned])
       (auto simp: refusal_def outage_def evidence_failure_def store_exn_def)
qed

end


lemma str_value_Inl: "str_value v = Inl e \<Longrightarrow> exn_cls e = EvidenceErr"
  by (auto simp: str_value_def corrupt_def evidence_failure_def split: json.splits)

lemma opt_str_value_Inl: "opt_str_value v = Inl e \<Longrightarrow> exn_cls e = EvidenceErr"
  by (auto simp: opt_str_value_def corrupt_def evidence_failure_def split: json.splits)

lemma scope_of_Inl: "scope_of p = Inl e \<Longrightarrow> exn_cls e = EvidenceErr"
  by (auto simp: scope_of_def rbind_Inl_iff corrupt_def evidence_failure_def dest: str_value_Inl opt_str_value_Inl
      split: json.splits if_splits)

lemma ranges_from_Inl: "ranges_from cum prev es = Inl e \<Longrightarrow> exn_cls e = EvidenceErr"
  by (induction cum prev es rule: ranges_from.induct)
     (auto simp: rbind_Inl_iff corrupt_def evidence_failure_def split: option.splits if_splits)

lemma atomic_ranges_Inl: "atomic_ranges raw t = Inl e \<Longrightarrow> exn_cls e = EvidenceErr"
  by (auto simp: atomic_ranges_def rbind_Inl_iff corrupt_def evidence_failure_def dest: ranges_from_Inl split: json.splits)

lemma page_end_of_Inl: "page_end_of p n = Inl e \<Longrightarrow> exn_cls e = EvidenceErr"
  by (auto simp: page_end_of_def corrupt_def evidence_failure_def split: option.splits if_splits)

lemma build_evidence_Inl:
  assumes "build_evidence L b i p = Inl e"
  shows "exn_cls e \<in> {EvidenceErr, ValueErr}"
proof (cases "evidence_fields b i p")
  case (Inl e')
  then have "exn_cls e' = EvidenceErr"
    unfolding evidence_fields_def rbind_Inl_iff
    by (elim disjE exE conjE)
       (auto simp: ensure_def corrupt_def evidence_failure_def
         dest: scope_of_Inl str_value_Inl page_end_of_Inl atomic_ranges_Inl split: if_splits option.splits)
  with Inl assms show ?thesis by (simp add: build_evidence_def)
next
  case (Inr ev)
  then show ?thesis using assms
    by (auto simp: build_evidence_def encode_reference_def canonical_uuid_def rbind_Inl_iff Let_def split: if_splits)
qed

text \<open>The loop over the records mints one reference per record that forms complete evidence.\<close>

lemma mint_fold:
  assumes "distinct (map pt_id rs)"
  shows "\<exists>m. res_fold (mint_step L b) rs acc = Inr m
    \<and> (\<forall>i. map_of m i = (case by_id rs i of
          None \<Rightarrow> map_of acc i
        | Some r \<Rightarrow> (case build_evidence L b i (pt_payload r) of Inr ev \<Rightarrow> Some (ev_reference ev) | Inl _ \<Rightarrow> map_of acc i)))"
  using assms
proof (induction rs arbitrary: acc)
  case (Cons r rs)
  define acc' where "acc' = (case build_evidence L b (pt_id r) (pt_payload r) of
    Inr ev \<Rightarrow> AList.update (pt_id r) (ev_reference ev) acc | Inl e \<Rightarrow> acc)"
  have step: "mint_step L b r acc = Inr acc'"
    using build_evidence_Inl [of L b "pt_id r" "pt_payload r"]
    by (auto simp: mint_step_def acc'_def split: sum.splits)
  obtain m where m: "res_fold (mint_step L b) rs acc' = Inr m"
    "\<forall>i. map_of m i = (case by_id rs i of
          None \<Rightarrow> map_of acc' i
        | Some r \<Rightarrow> (case build_evidence L b i (pt_payload r) of Inr ev \<Rightarrow> Some (ev_reference ev) | Inl _ \<Rightarrow> map_of acc' i))"
    using Cons by fastforce
  have old: "by_id rs (pt_id r) = None" using Cons.prems by (auto simp: by_id_None)
  have "map_of acc' i = map_of acc i" if "i \<noteq> pt_id r" for i
    using that by (auto simp: acc'_def update_conv split: sum.splits)
  moreover have "by_id (r # rs) i = (if i = pt_id r then Some r else by_id rs i)" for i
    by (simp add: by_id_def)
  moreover have "map_of acc' (pt_id r) = (case build_evidence L b (pt_id r) (pt_payload r) of
      Inr ev \<Rightarrow> Some (ev_reference ev) | Inl _ \<Rightarrow> map_of acc (pt_id r))"
    by (auto simp: acc'_def update_conv split: sum.splits)
  ultimately show ?case
    using m old step by (intro exI [of _ m]) (auto split: option.splits sum.splits)
qed (simp add: by_id_def)


lemma retrieved_by_id:
  assumes "distinct (map pt_id ps)" "distinct (map pt_id qs)"
    "set ps = project WithAll False ` {p \<in> set qs. pt_id p \<in> set ids}"
  shows "map_option pt_payload (by_id ps i) = (if i \<in> set ids then map_option pt_payload (by_id qs i) else None)"
proof (cases "by_id ps i")
  case None
  have "by_id qs i = None" if "i \<in> set ids"
  proof (rule ccontr)
    assume "by_id qs i \<noteq> None"
    then obtain q where "q \<in> set qs" "pt_id q = i" using by_id_Some by (metis option.exhaust)
    with that assms(3) have "project WithAll False q \<in> set ps" by auto
    from imageI [OF this, of pt_id] None \<open>pt_id q = i\<close> show False by (simp add: by_id_None project_whole)
  qed
  with None show ?thesis by simp
next
  case (Some r)
  then have "r \<in> set ps" "pt_id r = i" using by_id_Some by metis+
  then obtain q where q: "q \<in> set qs" "pt_id q = i" "i \<in> set ids" "pt_payload r = pt_payload q"
    using assms(3) by (auto simp: project_whole)
  then have "by_id qs i = Some q" using assms(2) by (auto simp: by_id_def map_of_eq_Some_iff comp_def)
  with Some q show ?thesis by simp
qed

lemma first_occurrences [simp]: "set (rev (remdups (rev ids))) = set ids" "rev (remdups (rev ids)) = [] \<longleftrightarrow> ids = []"
  by simp_all

context qdrant_reader
begin

lemma wp_mint_references:
  assumes "sg_binding g = Some b" "servable g" "sg_physical g = Some (bb_physical b)" "bb_alias b = logical"
  shows "wp (mint_references L C logical g ids)
     (\<lambda>minted s'. V s' = V s \<and> (\<forall>i t. map_of minted i = Some t \<longleftrightarrow> i \<in> set ids
        \<and> (\<exists>p ev. by_id (points_of (V s) (bb_physical b)) i = Some p \<and> build_evidence L b i (pt_payload p) = Inr ev
             \<and> t = ev_reference ev)))
     (\<lambda>e s'. V s' = V s) s" (is "wp _ ?Q ?E s")
proof (cases "ids = []")
  case True
  then show ?thesis using assms by (simp add: mint_references_def)
next
  case False
  let ?ids = "rev (remdups (rev ids))"
  have run: "mint_references L C logical g ids = sbind (cl_retrieve C (bb_physical b) ?ids WithAll False) (\<lambda>records.
      slift (res_fold (mint_step L b) records []))"
    using assms False by (simp add: mint_references_def Let_def)
  show ?thesis
    unfolding run wp_bind
  proof (rule wp_conseq [OF retrieve_law], goal_cases)
    case (1 ps s1)
    then have ps: "V s1 = V s" "distinct (map pt_id ps)"
      "set ps = project WithAll False ` {p \<in> set (points_of (V s) (bb_physical b)). pt_id p \<in> set ids}"
      by simp_all
    obtain m where m: "res_fold (mint_step L b) ps [] = Inr m"
      "\<forall>i. map_of m i = (case by_id ps i of None \<Rightarrow> map_of [] i
        | Some r \<Rightarrow> (case build_evidence L b i (pt_payload r) of Inr ev \<Rightarrow> Some (ev_reference ev) | Inl _ \<Rightarrow> map_of [] i))"
      using mint_fold [OF ps(2), of L b "[]"] by blast
    have "map_of m i = (case map_option pt_payload (by_id ps i) of None \<Rightarrow> None
        | Some q \<Rightarrow> (case build_evidence L b i q of Inr ev \<Rightarrow> Some (ev_reference ev) | Inl _ \<Rightarrow> None))" for i
      by (auto simp: m(2) split: option.splits sum.splits)
    then have "map_of m i = Some t \<longleftrightarrow> i \<in> set ids
        \<and> (\<exists>p ev. by_id (points_of (V s) (bb_physical b)) i = Some p \<and> build_evidence L b i (pt_payload p) = Inr ev
             \<and> t = ev_reference ev)" for i t
      unfolding retrieved_by_id [OF ps(2) wf ps(3)]
      by (auto split: option.splits sum.splits)
    then show ?case using m(1) ps(1) by simp
  qed simp
qed

end

text \<open>
  C25: an exact read returns what the reference names, and only to a caller who may read it now.
  A successful read has the reference it was asked for and is built from the stored point of the
  build the immutable aliases and the receipt agree on; the caller's assertions and the size budget
  hold; and the policy in force when the read ends allows the caller the scope of the evidence,
  whatever happened to the policy during the read. Nothing is written, and every failure is typed.
\<close>

theorem exact_read_authorized:
  assumes "evidence_world C V A P"
  shows "wp (read_evidence L C A logical cap caller (JStr t) max_bytes product version)
     (\<lambda>ev s'. V s' = V s \<and> ev_reference ev = t \<and> exact L logical (V s) ev
        \<and> pol_allows (P s') caller (evidence_scope ev)
        \<and> \<not> narrows product (ev_product ev) \<and> \<not> narrows version (ev_version ev)
        \<and> int (length (ev_text ev)) \<le> read_budget cap max_bytes)
     (\<lambda>e s'. V s' = V s \<and> exn_cls e = EvidenceErr) s"
  by (rule evidence_world.wp_read_evidence [OF assms])

text \<open>
  C26: minted references read back. For a servable generation the minted references are exactly
  those of the requested chunks whose stored payload forms complete evidence, and each of them,
  read afterwards under a steady policy, returns the evidence it was minted for; the read can only
  be answered otherwise by an outage, a denial by the policy, or evidence over the budget.
\<close>

theorem minted_references_read_back:
  assumes "steady_world C V A pol"
    and "sg_binding g = Some b" "servable g" "sg_physical g = Some (bb_physical b)"
    and "pinned L (V s) logical b" "canonical_build_id (JStr (bb_build_id b)) = Inr (bb_build_id b)"
    and "map_of (v_alias (V s)) (control_of (bb_physical b)) = None"
  shows "wp (mint_references L C logical g ids)
     (\<lambda>minted s1.
        (\<forall>i t. map_of minted i = Some t \<longleftrightarrow> i \<in> set ids
           \<and> (\<exists>p ev. by_id (points_of (V s) (bb_physical b)) i = Some p \<and> build_evidence L b i (pt_payload p) = Inr ev
                \<and> t = ev_reference ev))
        \<and> (\<forall>i p ev. by_id (points_of (V s) (bb_physical b)) i = Some p \<and> build_evidence L b i (pt_payload p) = Inr ev
             \<longrightarrow> wp (read_evidence L C A logical cap caller (JStr (ev_reference ev)) max_bytes None None)
                  (\<lambda>ev' s'. ev' = ev) (\<lambda>e s'. refusal pol ev caller (read_budget cap max_bytes) e) s1))
     (\<lambda>e s'. V s' = V s) s"
proof -
  have reader: "qdrant_reader C V" using assms(1) by (simp add: steady_world_def qdrant_finishes_def)
  have al: "bb_alias b = logical" using assms(5) by (simp add: pinned_def)
  show ?thesis
  proof (rule wp_conseq [OF qdrant_reader.wp_mint_references [OF reader assms(2-4) al]], goal_cases)
    case (1 minted s1)
    have "wp (read_evidence L C A logical cap caller (JStr (ev_reference ev)) max_bytes None None)
        (\<lambda>ev' s'. ev' = ev) (\<lambda>e s'. refusal pol ev caller (read_budget cap max_bytes) e) s1"
      if "by_id (points_of (V s) (bb_physical b)) i = Some p" "build_evidence L b i (pt_payload p) = Inr ev" for i p ev
      by (rule wp_conseq [OF steady_world.wp_read_back [OF assms(1)]]) (use 1 assms that in auto)
    with 1 show ?case by blast
  qed simp
qed


section \<open>A stored build\<close>

definition demo_chunk_id :: string where
  "demo_chunk_id = ''0123abcd-0000-4000-8000-0000000000aa''"

definition demo_stored :: "string \<Rightarrow> payload" where
  "demo_stored t = [(''source_rev'', JStr ''ibm|x''), (''doc_id'', JStr ''D''), (''sha256'', JStr (replicate 64 (CHR ''0''))),
     (''text'', JStr t), (''chunk_type'', JStr ''narrative''), (''page_start'', JInt 0),
     (''units'', JList [JList [JInt 0, JInt 1, JStr ''atomic'']])]"

definition demo_fields :: "string \<Rightarrow> evidence" where
  "demo_fields t = \<lparr>ev_reference = [], ev_digest = [], ev_build_id = bb_build_id (demo_build ''gen1''),
     ev_chunk_id = demo_chunk_id, ev_gen_fp = ''g'', ev_revision = ''ibm|x'', ev_sha256 = replicate 64 (CHR ''0''),
     ev_doc_id = ''D'', ev_title = [], ev_product = None, ev_version = None, ev_heading = [], ev_chunk_type = ''narrative'',
     ev_text = t, ev_text_bytes = length t, ev_spans = Some [(0, 1)], ev_page_start = 1, ev_page_end = None, ev_label = None\<rparr>"

lemma demo_evidence_fields: "evidence_fields (demo_build ''gen1'') demo_chunk_id (demo_stored [c, d]) = Inr (demo_fields [c, d])"
  if "leads c" "leads d" for c d
  using that
  by (simp add: evidence_fields_def demo_stored_def scope_of_def str_value_def opt_str_value_def jget_text_def is_hex64_def
      is_hex_lower_def list_all_iff chunk_types_def int_value_def page_end_of_def atomic_ranges_def cumulative_def
      demo_fields_def demo_build_def)

definition demo_evidence :: "libs \<Rightarrow> string \<Rightarrow> evidence" where
  "demo_evidence L t = (let d = lib_sha256 L (envelope_text (envelope (demo_fields t))) in
     (demo_fields t)\<lparr>ev_reference := reference_prefix @ b64_encode (uuid_bytes (bb_build_id (demo_build ''gen1''))
        @ uuid_bytes demo_chunk_id @ bytes_of_hex d), ev_digest := d\<rparr>)"

lemma demo_uuids: "is_canonical_uuid (bb_build_id (demo_build p))" "is_canonical_uuid demo_chunk_id"
  by (simp_all add: demo_build_def demo_chunk_id_def is_canonical_uuid_def is_hex_lower_def)

lemma demo_evidence_built:
  assumes "leads c" "leads d" "\<And>t. is_hex64 (JStr (lib_sha256 L t))"
  shows "build_evidence L (demo_build ''gen1'') demo_chunk_id (demo_stored [c, d]) = Inr (demo_evidence L [c, d])"
proof -
  have "length (bytes_of_hex (lib_sha256 L t)) = 32" for t
    using assms(3) [of t] by (simp add: length_bytes_of_hex is_hex64_def)
  then show ?thesis
    using demo_uuids
    by (simp add: build_evidence_def demo_evidence_fields [OF assms(1,2)] encode_reference_def canonical_uuid_def
        demo_evidence_def Let_def del: wide_text.simps)
qed

definition telling_libs :: "string \<Rightarrow> libs" where
  "telling_libs x = demo_libs\<lparr>lib_sha256 := (\<lambda>t. replicate 64 (if t = x then CHR ''0'' else CHR ''1''))\<rparr>"

lemma reference_binds_evidence_witness:
  "\<exists>L ev ev'. build_evidence L (demo_build ''gen1'') demo_chunk_id (demo_stored ''ab'') = Inr ev
     \<and> build_evidence L (demo_build ''gen1'') demo_chunk_id (demo_stored ''ac'') = Inr ev' \<and> ev_reference ev \<noteq> ev_reference ev'"
proof -
  define L where "L = telling_libs (envelope_text (envelope (demo_fields ''ab'')))"
  have hex: "is_hex64 (JStr (lib_sha256 L t))" for t
    by (simp add: L_def telling_libs_def is_hex64_def is_hex_lower_def list_all_iff)
  have built: "build_evidence L (demo_build ''gen1'') demo_chunk_id (demo_stored ''ab'') = Inr (demo_evidence L ''ab'')"
    "build_evidence L (demo_build ''gen1'') demo_chunk_id (demo_stored ''ac'') = Inr (demo_evidence L ''ac'')"
    by (rule demo_evidence_built; simp add: leads_def hex)+
  have env: "envelope (demo_evidence L t) = envelope (demo_fields t)" for t
    by (simp add: demo_evidence_def Let_def del: wide_text.simps)
  have "envelope (demo_fields ''ab'') \<noteq> envelope (demo_fields ''ac'')"
    by (simp add: envelope_def demo_fields_def)
  then have "lib_sha256 L (envelope_text (envelope (demo_fields ''ab''))) \<noteq> lib_sha256 L (envelope_text (envelope (demo_fields ''ac'')))"
    using envelope_text_inject [of "demo_fields ''ab''" "demo_fields ''ac''"]
    by (simp add: L_def telling_libs_def del: wide_text.simps)
  then have "ev_reference (demo_evidence L ''ab'') \<noteq> ev_reference (demo_evidence L ''ac'')"
    using reference_binds_evidence [OF built hex] env by (metis)
  with built show ?thesis by blast
qed

definition evidence_mem :: mem where
  "evidence_mem = \<lparr>mem_colls = [(''gen1'', [\<lparr>pt_id = demo_chunk_id, pt_payload = demo_stored ''ab'', pt_vectors = JNull\<rparr>]),
       (''gen1__completions'', [receipt_point hex_libs ''gen1__completions'' (demo_settings ''gen1'')
          (receipt_payload ''gen1__completions'' (demo_settings ''gen1'') ''g'' ''c'' (bb_build_id (demo_build ''gen1'')) ''live''
             demo_summary (content_seal hex_libs [] [] [] []))])],
     mem_alias = [(''live__build_0123abcd-0000-4000-8000-00000000000f'', ''gen1''),
       (''live__build_0123abcd-0000-4000-8000-00000000000f__completions'', ''gen1__completions'')],
     mem_info = [], mem_schema = []\<rparr>"

lemma evidence_mem_points:
  "points_of (mem_view evidence_mem) ''gen1'' = [\<lparr>pt_id = demo_chunk_id, pt_payload = demo_stored ''ab'', pt_vectors = JNull\<rparr>]"
  "map_of (v_alias (mem_view evidence_mem)) ''gen1__completions'' = None"
  by (simp_all add: points_of_def phys_def mem_view_def evidence_mem_def)

lemma evidence_mem_pinned: "pinned hex_libs (mem_view evidence_mem) ''live'' (demo_build ''gen1'')"
proof -
  let ?p = "receipt_payload ''gen1__completions'' (demo_settings ''gen1'') ''g'' ''c'' (bb_build_id (demo_build ''gen1'')) ''live''
     demo_summary (content_seal hex_libs [] [] [] [])"
  have r: "receipt_of hex_libs (mem_view evidence_mem) ''gen1__completions'' = Some ?p"
    by (simp add: receipt_of_def by_id_def receipt_point_def points_of_def phys_def mem_view_def evidence_mem_def)
  have "decode_build_binding ?p ''gen1__completions'' = Inr (demo_build ''gen1'')"
    using decode_receipt(1) [OF demo_receipt_facts(3) _ demo_receipt_facts(1) hex64_zero refl] demo_receipt_facts(2)
    by (simp add: demo_build_def demo_settings_def)
  with r show ?thesis
    by (auto simp: pinned_def control_of_def demo_build_def) (simp_all add: mem_view_def evidence_mem_def)
qed

interpretation steady: steady_world mem_client mem_view shared_access shared_policy
  by unfold_locales (simp add: wp_def mem_client_def)

lemma exact_read_authorized_witness:
  "wp (read_evidence hex_libs mem_client shared_access ''live'' 65536 None (JStr (ev_reference (demo_evidence hex_libs ''ab''))) None None None)
     (\<lambda>ev s'. ev_reference ev = ev_reference (demo_evidence hex_libs ''ab'') \<and> int (length (ev_text ev)) \<le> 65536)
     (\<lambda>e s'. exn_cls e = EvidenceErr) evidence_mem"
  by (rule wp_conseq [OF exact_read_authorized [OF shared.evidence_world_axioms]]) (simp_all add: read_budget_def)

lemma minted_references_read_back_witness:
  "wp (mint_references hex_libs mem_client ''live''
        \<lparr>sg_physical = Some ''gen1'', sg_outcome = Compatible, sg_details = [], sg_binding = Some (demo_build ''gen1'')\<rparr> [demo_chunk_id])
     (\<lambda>minted s1. map_of minted demo_chunk_id = Some (ev_reference (demo_evidence hex_libs ''ab''))
        \<and> wp (read_evidence hex_libs mem_client shared_access ''live'' 65536 None
                (JStr (ev_reference (demo_evidence hex_libs ''ab''))) None None None)
             (\<lambda>ev' s'. ev' = demo_evidence hex_libs ''ab'')
             (\<lambda>e s'. refusal shared_policy (demo_evidence hex_libs ''ab'') None (read_budget 65536 None) e) s1)
     (\<lambda>e s'. mem_view s' = mem_view evidence_mem) evidence_mem"
proof -
  have cb: "canonical_build_id (JStr (bb_build_id (demo_build ''gen1''))) = Inr (bb_build_id (demo_build ''gen1''))"
    using demo_receipt_facts(2) by (simp add: demo_build_def)
  have al: "map_of (v_alias (mem_view evidence_mem)) (control_of (bb_physical (demo_build ''gen1''))) = None"
    using evidence_mem_points(2) by (simp add: control_of_def demo_build_def)
  have ev: "build_evidence hex_libs (demo_build ''gen1'') demo_chunk_id (demo_stored ''ab'') = Inr (demo_evidence hex_libs ''ab'')"
    by (rule demo_evidence_built) (simp_all add: leads_def hex64_zero)
  let ?q = "\<lparr>pt_id = demo_chunk_id, pt_payload = demo_stored ''ab'', pt_vectors = JNull\<rparr>"
  let ?g = "\<lparr>sg_physical = Some ''gen1'', sg_outcome = Compatible, sg_details = [], sg_binding = Some (demo_build ''gen1'')\<rparr>"
  have found: "by_id (points_of (mem_view evidence_mem) (bb_physical (demo_build ''gen1''))) demo_chunk_id = Some ?q"
    by (simp add: by_id_def demo_build_def evidence_mem_points)
  have built: "build_evidence hex_libs (demo_build ''gen1'') demo_chunk_id (pt_payload ?q) = Inr (demo_evidence hex_libs ''ab'')"
    using ev by simp
  have g: "sg_binding ?g = Some (demo_build ''gen1'')" "servable ?g" "sg_physical ?g = Some (bb_physical (demo_build ''gen1''))"
    by (simp_all add: servable_def servable_outcomes_def demo_build_def)
  have "demo_chunk_id \<in> set [demo_chunk_id]" by simp
  with found built show ?thesis
    by (intro wp_conseq [OF minted_references_read_back [OF steady.steady_world_axioms g evidence_mem_pinned cb al,
            where caller = None and cap = 65536 and max_bytes = None]]) blast+
qed

end
