(* ===== verification/Listing.thy ===== *)
theory Listing
  imports Evidence
begin

text \<open>
  The source listing of a published build, page by page (\<open>list_sources\<close> of
  \<open>mainframe_rag/agent/evidence.py\<close>, defined with the service): what a page holds and where the
  next one resumes.
\<close>

section \<open>A page under a steady policy\<close>

definition visible :: "policy \<Rightarrow> caller \<Rightarrow> point \<Rightarrow> bool" where
  "visible pol caller r \<longleftrightarrow> (\<exists>sc. catalog_scope (pt_payload r) = Inr sc \<and> pol_allows pol caller sc)"

definition entry_at :: "libs \<Rightarrow> string \<Rightarrow> point \<Rightarrow> source_entry option" where
  "entry_at L control r = (case decode_catalog_point L control (pt_id r) (pt_payload r) of
     Inr e \<Rightarrow> Some (source_entry_of e) | Inl _ \<Rightarrow> None)"

text \<open>The entries of the visible records, all of which must be well formed.\<close>

definition lists :: "libs \<Rightarrow> string \<Rightarrow> policy \<Rightarrow> caller \<Rightarrow> point list \<Rightarrow> source_entry list \<Rightarrow> bool" where
  "lists L control pol caller rs es \<longleftrightarrow>
     map (entry_at L control) (filter (visible pol caller) rs) = map Some es"

definition resumes :: "point list \<Rightarrow> string option" where
  "resumes rest = (case rest of [] \<Rightarrow> None | q # _ \<Rightarrow> Some (pt_id q))"

lemma lists_Nil [simp]: "lists L control pol caller [] es \<longleftrightarrow> es = []"
  by (auto simp: lists_def)

lemma lists_hidden: "\<not> visible pol caller r \<Longrightarrow> lists L control pol caller (r # rs) es \<longleftrightarrow> lists L control pol caller rs es"
  by (simp add: lists_def)

lemma lists_visible:
  "visible pol caller r \<Longrightarrow> entry_at L control r = Some e \<Longrightarrow> lists L control pol caller rs es
    \<Longrightarrow> lists L control pol caller (r # rs) (e # es)"
  by (simp add: lists_def)

text \<open>What the loop over the records \<open>rs\<close> returns: it saw a prefix of them, and resumes at the first unseen one.\<close>

definition page_of ::
    "libs \<Rightarrow> string \<Rightarrow> policy \<Rightarrow> caller \<Rightarrow> bool \<Rightarrow> point list \<Rightarrow> kept_entry list \<times> string option \<Rightarrow> bool" where
  "page_of L control pol caller some rs x \<longleftrightarrow> (\<exists>seen rest. rs = seen @ rest
     \<and> lists L control pol caller seen (map ke_entry (fst x)) \<and> snd x = resumes rest
     \<and> (rest \<noteq> [] \<and> \<not> some \<longrightarrow> seen \<noteq> []))"

lemma page_of_Nil: "page_of L control pol caller some [] ([], None)"
  by (simp add: page_of_def resumes_def)

lemma page_of_full: "page_of L control pol caller True (r # rs) ([], Some (pt_id r))"
  unfolding page_of_def by (rule exI [of _ "[]"]) (simp add: resumes_def)

lemma page_of_hidden:
  assumes "\<not> visible pol caller r" "page_of L control pol caller some rs x"
  shows "page_of L control pol caller some (r # rs) x"
proof -
  from assms(2) obtain seen rest where "rs = seen @ rest" "lists L control pol caller seen (map ke_entry (fst x))"
    "snd x = resumes rest" by (auto simp: page_of_def)
  note seen = this
  show ?thesis
    unfolding page_of_def
    by (rule exI [of _ "r # seen"], rule exI [of _ rest]) (use assms(1) seen in \<open>simp add: lists_hidden\<close>)
qed

lemma page_of_visible:
  assumes "visible pol caller r" "entry_at L control r = Some (ke_entry k)" "page_of L control pol caller True rs x"
  shows "page_of L control pol caller some (r # rs) (k # fst x, snd x)"
proof -
  from assms(3) obtain seen rest where "rs = seen @ rest" "lists L control pol caller seen (map ke_entry (fst x))"
    "snd x = resumes rest" by (auto simp: page_of_def)
  note seen = this
  show ?thesis
    unfolding page_of_def
    by (rule exI [of _ "r # seen"], rule exI [of _ rest]) (use assms(1,2) seen in \<open>simp add: lists_visible\<close>)
qed

text \<open>
  A page of the build: a prefix \<open>seen\<close> of the matching catalog records from the offset on, whose
  visible entries it lists, and a cursor to the first record of the rest.
\<close>

definition page_exact ::
    "libs \<Rightarrow> view \<Rightarrow> string \<Rightarrow> policy \<Rightarrow> caller \<Rightarrow> string \<Rightarrow> string option \<Rightarrow> string option \<Rightarrow> string option
      \<Rightarrow> source_page \<Rightarrow> bool" where
  "page_exact L v logical pol caller build_id offset product version page \<longleftrightarrow>
     sp_build_id page = build_id
     \<and> (\<exists>b seen rest. pinned L v logical b \<and> bb_build_id b = build_id
          \<and> from_offset offset (matching v (control_of (bb_physical b)) (listing_filter product version)) = seen @ rest
          \<and> lists L (control_of (bb_physical b)) pol caller (map (project (WithFields listing_fields) False) seen) (sp_sources page)
          \<and> (rest \<noteq> [] \<longrightarrow> seen \<noteq> [])
          \<and> (case rest of [] \<Rightarrow> sp_next page = None
             | q # _ \<Rightarrow> \<exists>t. sp_next page = Some t \<and> encode_sources_cursor build_id (pt_id q) = Inr t))"

lemma page_exactI:
  assumes "sp_build_id page = build_id" "pinned L v logical b" "bb_build_id b = build_id"
    "from_offset offset (matching v (control_of (bb_physical b)) (listing_filter product version)) = seen @ rest"
    "lists L (control_of (bb_physical b)) pol caller (map (project (WithFields listing_fields) False) seen) (sp_sources page)"
    "rest \<noteq> [] \<longrightarrow> seen \<noteq> []"
    "case rest of [] \<Rightarrow> sp_next page = None | q # _ \<Rightarrow> \<exists>t. sp_next page = Some t \<and> encode_sources_cursor build_id (pt_id q) = Inr t"
  shows "page_exact L v logical pol caller build_id offset product version page"
  unfolding page_exact_def using assms by blast

context steady_world
begin

lemma wp_authorize_listing:
  "wp (authorize_listing A caller scope)
     (\<lambda>g s'. V s' = V s \<and> (case g of None \<Rightarrow> \<not> pol_allows pol caller scope
                           | Some v \<Rightarrow> pol_allows pol caller scope \<and> v = pol_version pol))
     (\<lambda>e s'. V s' = V s) s"
  unfolding authorize_listing_def wp_catch wp_bind
  by (rule wp_conseq [OF wp_authorize_steady]) (auto simp: evidence_failure_def outage_def store_exn_def)

definition granted :: "caller \<Rightarrow> kept_entry \<Rightarrow> bool" where
  "granted caller k \<longleftrightarrow> ke_grant k = pol_version pol \<and> pol_allows pol caller (ke_scope k)"

lemma wp_list_page:
  "wp (list_page L A caller control used some rs)
     (\<lambda>r s'. V s' = V s \<and> list_all (granted caller) (fst r) \<and> page_of L control pol caller some rs r)
     (\<lambda>e s'. V s' = V s) s"
proof (induction rs arbitrary: used some s)
  case Nil
  show ?case by (simp add: page_of_Nil)
next
  case (Cons r rs)
  show ?case
  proof (cases "catalog_scope (pt_payload r)")
    case (Inl e)
    then show ?thesis by simp
  next
    case (Inr scope)
    show ?thesis
      unfolding list_page.simps Inr sbind_slift wp_bind
    proof (rule wp_conseq [OF wp_authorize_listing], goal_cases)
      case (1 g s1)
      show ?case
      proof (cases g)
        case None
        then have hidden: "\<not> visible pol caller r" using 1 Inr by (simp add: visible_def)
        show ?thesis
          unfolding None option.case
          by (rule wp_conseq [OF Cons.IH]) (use 1 page_of_hidden [OF hidden] in auto)
      next
        case (Some version)
        then have ok: "visible pol caller r" "version = pol_version pol" "pol_allows pol caller scope" "V s1 = V s"
          using 1 Inr by (auto simp: visible_def)
        show ?thesis
        proof (cases "decode_catalog_point L control (pt_id r) (pt_payload r)")
          case (Inl e)
          then show ?thesis using Some ok by (simp add: corrupt_def)
        next
          case (Inr d)
          let ?e = "source_entry_of d"
          let ?k = "\<lparr>ke_entry = ?e, ke_scope = scope, ke_grant = version\<rparr>"
          have at: "entry_at L control r = Some ?e" using Inr by (simp add: entry_at_def)
          show ?thesis
          proof (cases "some \<and> used + wire_size ?e > sources_page_bytes")
            case True
            then show ?thesis
              unfolding Some option.case Inr sum.case sbind_slift Let_def if_P [OF True] wp_ret
              using ok page_of_full by simp
          next
            case False
            have "granted caller ?k" using ok by (simp add: granted_def)
            then have "wp (list_page L A caller control (used + wire_size ?e) True rs)
                (\<lambda>x s'. V s' = V s \<and> list_all (granted caller) (?k # fst x)
                   \<and> page_of L control pol caller some (r # rs) (?k # fst x, snd x))
                (\<lambda>e s'. V s' = V s) s1"
              by (intro wp_conseq [OF Cons.IH]) (use ok at in \<open>auto intro: page_of_visible\<close>)
            then show ?thesis
              unfolding Some option.case Inr sum.case sbind_slift Let_def if_not_P [OF False]
              by (simp add: case_prod_beta)
          qed
        qed
      qed
    qed simp
  qed
qed

lemma wp_list_pinned:
  assumes "1 \<le> lim"
  shows "wp (list_pinned L C A logical caller build_id offset lim product version)
     (\<lambda>page s'. V s' = V s \<and> page_exact L (V s) logical pol caller build_id offset product version page)
     (\<lambda>e s'. V s' = V s) s" (is "wp _ ?Q ?E s")
  unfolding list_pinned_def wp_bind
proof (rule wp_conseq [OF wp_pinned_build], goal_cases)
  case (1 x s1)
  then obtain b where b: "x = (b, bb_physical b)" "V s1 = V s" "bb_build_id b = build_id" "pinned L (V s) logical b"
    by (cases x) auto
  define control where "control = control_of (bb_physical b)"
  define todo where "todo = from_offset offset (matching (V s) control (listing_filter product version))"
  define n where "n = nat (min lim sources_scan_cap)"
  have n: "1 \<le> n" using assms by (simp add: n_def sources_scan_cap_def)
  let ?pr = "project (WithFields listing_fields) False"
  show ?case
    unfolding b prod.case Let_def wp_bind control_def [symmetric] n_def [symmetric]
  proof (rule wp_conseq [OF scroll_law [OF n]], goal_cases)
    case (1 y s2)
    then have y: "y = (map ?pr (take n todo), next_offset n todo)" "V s2 = V s"
      using b by (auto simp: todo_def prod_eq_iff)
    show ?case
      unfolding y(1) prod.case wp_bind
    proof (rule wp_conseq [OF wp_list_page], goal_cases)
      case (1 k s3)
      then obtain seen' rest' where k: "V s3 = V s" "list_all (granted caller) (fst k)" "map ?pr (take n todo) = seen' @ rest'"
        "lists L control pol caller seen' (map ke_entry (fst k))" "snd k = resumes rest'" "rest' \<noteq> [] \<longrightarrow> seen' \<noteq> []"
        using y by (auto simp: page_of_def)
      define seen where "seen = take (length seen') todo"
      define rest where "rest = drop (length seen') todo"
      have len: "length seen' \<le> length (take n todo)" using arg_cong [OF k(3), of length] by simp
      have split: "todo = seen @ rest" by (simp add: seen_def rest_def)
      have seen': "seen' = map ?pr seen"
        using arg_cong [OF k(3), of "take (length seen')"] len by (simp add: seen_def take_map min_absorb1)
      have rest': "rest' = map ?pr (take (n - length seen') rest)"
        using arg_cong [OF k(3), of "drop (length seen')"] by (simp add: rest_def drop_map drop_take)
      have next_point: "(case snd k of Some i \<Rightarrow> Some i | None \<Rightarrow> next_offset n todo) = resumes rest"
      proof (cases rest')
        case Nil
        then have "drop n todo = rest"
          using rest' len by (auto simp: rest_def)
        then show ?thesis using Nil k(5) by (simp add: resumes_def next_offset_def)
      next
        case (Cons q qs)
        then obtain q' where "rest = q' # tl rest" "q = ?pr q'" using rest' by (cases rest; cases "n - length seen'") auto
        then show ?thesis using Cons k(5) by (simp add: resumes_def project_def) (metis list.case(2))
      qed
      have progress: "rest \<noteq> [] \<longrightarrow> seen \<noteq> []"
        using k(6) seen' rest' n by (cases seen') auto
      obtain kept resume where kr: "k = (kept, resume)" by (cases k)
      show ?case
        unfolding kr prod.case wp_bind
      proof (rule wp_conseq [OF wp_current_version_steady], goal_cases)
        case (1 now s4)
        then have "\<not> list_ex (\<lambda>k. ke_grant k \<noteq> now) kept"
          using k(2) kr by (auto simp: list_ex_iff list_all_iff granted_def)
        then have unchanged: "(if list_ex (\<lambda>k. ke_grant k \<noteq> now) kept then still_allowed A caller kept else sret kept) = sret kept"
          by simp
        have resume: "(case resume of None \<Rightarrow> next_offset n todo | Some i \<Rightarrow> Some i) = resumes rest"
          using next_point kr by simp
        have page: "?Q \<lparr>sp_build_id = build_id, sp_sources = map ke_entry kept, sp_next = cursor\<rparr> s4"
          if "case rest of [] \<Rightarrow> cursor = None | q # _ \<Rightarrow> \<exists>t. cursor = Some t \<and> encode_sources_cursor build_id (pt_id q) = Inr t" for cursor
        proof -
          have "lists L control pol caller (map ?pr seen) (map ke_entry kept)" using k(4) kr seen' by simp
          then show ?thesis
            using 1 k(1) b(3,4) split progress that unfolding control_def todo_def
            by (intro conjI page_exactI [where b = b and seen = seen and rest = rest]) (simp_all split: list.splits)
        qed
        show ?case
          unfolding unchanged resume
        proof (cases rest, goal_cases)
          case 1
          then show ?case using page [of None] by (simp add: resumes_def)
        next
          case (2 q qs)
          then show ?case
            using page \<open>V s4 = V s3 \<and> _\<close> k(1) by (cases "encode_sources_cursor build_id (pt_id q)") (simp_all add: resumes_def)
        qed
      qed (use k in simp)
    qed (use y in simp)
  qed (use b in simp)
qed simp

end




end
