(* ===== verification/Serving.thy ===== *)
theory Serving
  imports Evidence
begin

text \<open>
  The serving gate of the agent (\<open>mainframe_rag/agent/serving.py\<close>): which generation a request is
  answered from, and the cache in front of that decision. The cache runs on one event loop, so it
  is a step relation over the requests in flight; a validation is one run of
  \<open>resolve_published_generation\<close> against the store, made while the request holds the lock.
\<close>

section \<open>Validating a generation\<close>

definition not_servable :: "string option \<Rightarrow> outcome \<Rightarrow> string list \<Rightarrow> serving_generation" where
  "not_servable physical out details = \<lparr>sg_physical = physical, sg_outcome = out, sg_details = details, sg_binding = None\<rparr>"

text \<open>The \<open>try\<close> block: the publication control of a compatible generation.\<close>

definition validate_publication ::
    "libs \<Rightarrow> 's client \<Rightarrow> settings \<Rightarrow> string \<Rightarrow> outcome \<Rightarrow> string list \<Rightarrow> ('s, serving_generation) eff" where
  "validate_publication L C s physical out details =
     (let control = physical @ ''__completions'' in
      sbind (cl_aliases C) (\<lambda>as.
      sbind (cl_retrieve C control [publication_point_id L control] WithAll False) (\<lambda>records.
      case records of
        [] \<Rightarrow> sret (not_servable (Some physical) Legacy [''unbound_generation''])
      | r # _ \<Rightarrow>
          if jget (pt_payload r) ''record_type'' \<noteq> JStr ''publication-metadata''
          then sraise (Exn ValueErr ''invalid_publication_control_record'' [])
          else (case decode_build_binding (pt_payload r) control of
              Inl e \<Rightarrow> if exn_cls e = UnboundGenerationErr
                       then sret (not_servable (Some physical) Legacy [''unbound_generation''])
                       else sraise e
            | Inr b \<Rightarrow>
                sbind (slift (require_published_binding (Some b) (qdrant_collection s) physical as)) (\<lambda>_.
                  sret \<lparr>sg_physical = Some physical, sg_outcome = out, sg_details = details, sg_binding = Some b\<rparr>)))))"

definition resolve_published_generation ::
    "libs \<Rightarrow> 's client \<Rightarrow> settings \<Rightarrow> string \<Rightarrow> ('s, serving_generation) eff" where
  "resolve_published_generation L C s rules_v =
     sbind (resolve_serving_generation L C s rules_v) (\<lambda>(physical, out, details).
     case physical of
       None \<Rightarrow> sret (not_servable None out details)
     | Some p \<Rightarrow>
         if out \<notin> set servable_outcomes then sret (not_servable (Some p) out details)
         else scatch (validate_publication L C s p out details)
                (\<lambda>e. sret (not_servable (Some p) Unknown_Store [''build_control''])))"

section \<open>The gate\<close>

text \<open>The clock is a monotonic counter in any fixed unit, the one \<open>ttl_s\<close> is given in.\<close>

record gate =
  gt_cached :: "serving_generation option"
  gt_checked :: int

definition gate_fresh :: "int \<Rightarrow> int \<Rightarrow> gate \<Rightarrow> bool" where
  "gate_fresh ttl now g \<longleftrightarrow> gt_cached g \<noteq> None \<and> now - gt_checked g < ttl"

definition invalidate :: "gate \<Rightarrow> gate" where
  "invalidate g = \<lparr>gt_cached = None, gt_checked = 0\<rparr>"

text \<open>
  \<open>generation\<close>: the check before the lock, the same check under the lock, and the validation that
  replaces the cache. Each returns the answer, when there is one.
\<close>

definition check_cache :: "int \<Rightarrow> bool \<Rightarrow> int \<Rightarrow> gate \<Rightarrow> serving_generation option" where
  "check_cache ttl fresh now g = (if \<not> fresh \<and> gate_fresh ttl now g then gt_cached g else None)"

definition store_generation :: "int \<Rightarrow> serving_generation \<Rightarrow> gate \<Rightarrow> gate" where
  "store_generation now gen g = g\<lparr>gt_cached := Some gen, gt_checked := now\<rparr>"

text \<open>
  The gate with its requests: those waiting for the lock, in order, the one that holds it and
  validates, the answers given and the validations made, each with its time.
\<close>

record 's serving =
  sv_gate :: gate
  sv_now :: int
  sv_world :: 's
  sv_waiting :: "(nat \<times> bool) list"
  sv_holder :: "(nat \<times> bool) option"
  sv_answers :: "(nat \<times> serving_generation \<times> int) list"
  sv_checks :: "(serving_generation \<times> int \<times> 's) list"

definition serving_start :: "int \<Rightarrow> 's \<Rightarrow> 's serving" where
  "serving_start now w = \<lparr>sv_gate = \<lparr>gt_cached = None, gt_checked = 0\<rparr>, sv_now = now, sv_world = w, sv_waiting = [],
     sv_holder = None, sv_answers = [], sv_checks = []\<rparr>"

inductive serving_step ::
    "libs \<Rightarrow> 's client \<Rightarrow> settings \<Rightarrow> string \<Rightarrow> int \<Rightarrow> 's serving \<Rightarrow> 's serving \<Rightarrow> bool"
  for L C st rules_v ttl where
  hit: "check_cache ttl fresh (sv_now c) (sv_gate c) = Some gen \<Longrightarrow>
      serving_step L C st rules_v ttl c (c\<lparr>sv_answers := (r, gen, sv_now c) # sv_answers c\<rparr>)"
| wait: "check_cache ttl fresh (sv_now c) (sv_gate c) = None \<Longrightarrow>
      serving_step L C st rules_v ttl c (c\<lparr>sv_waiting := sv_waiting c @ [(r, fresh)]\<rparr>)"
| locked_hit: "sv_holder c = None \<Longrightarrow> sv_waiting c = (r, fresh) # rest \<Longrightarrow>
      check_cache ttl fresh (sv_now c) (sv_gate c) = Some gen \<Longrightarrow>
      serving_step L C st rules_v ttl c (c\<lparr>sv_waiting := rest, sv_answers := (r, gen, sv_now c) # sv_answers c\<rparr>)"
| locked_miss: "sv_holder c = None \<Longrightarrow> sv_waiting c = (r, fresh) # rest \<Longrightarrow>
      check_cache ttl fresh (sv_now c) (sv_gate c) = None \<Longrightarrow>
      serving_step L C st rules_v ttl c (c\<lparr>sv_waiting := rest, sv_holder := Some (r, fresh)\<rparr>)"
| validated: "sv_holder c = Some (r, fresh) \<Longrightarrow>
      resolve_published_generation L C st rules_v (sv_world c) = (Inr gen, w) \<Longrightarrow>
      serving_step L C st rules_v ttl c
        (c\<lparr>sv_gate := store_generation (sv_now c) gen (sv_gate c), sv_world := w, sv_holder := None,
           sv_answers := (r, gen, sv_now c) # sv_answers c, sv_checks := (gen, sv_now c, sv_world c) # sv_checks c\<rparr>)"
| failed: "sv_holder c = Some (r, fresh) \<Longrightarrow>
      resolve_published_generation L C st rules_v (sv_world c) = (Inl e, w) \<Longrightarrow>
      serving_step L C st rules_v ttl c (c\<lparr>sv_world := w, sv_holder := None\<rparr>)"
| cancelled: "sv_holder c = Some (r, fresh) \<Longrightarrow> serving_step L C st rules_v ttl c (c\<lparr>sv_holder := None\<rparr>)"
| leave: "serving_step L C st rules_v ttl c (c\<lparr>sv_waiting := filter (\<lambda>x. fst x \<noteq> r) (sv_waiting c)\<rparr>)"
| invalidated: "serving_step L C st rules_v ttl c (c\<lparr>sv_gate := invalidate (sv_gate c)\<rparr>)"
| world: "sv_now c \<le> now \<Longrightarrow> serving_step L C st rules_v ttl c (c\<lparr>sv_now := now, sv_world := w\<rparr>)"

inductive serving_run ::
    "libs \<Rightarrow> 's client \<Rightarrow> settings \<Rightarrow> string \<Rightarrow> int \<Rightarrow> 's serving \<Rightarrow> 's serving \<Rightarrow> bool"
  for L C st rules_v ttl c0 where
  begin_run: "serving_run L C st rules_v ttl c0 c0"
| step_run: "serving_run L C st rules_v ttl c0 c \<Longrightarrow> serving_step L C st rules_v ttl c c' \<Longrightarrow>
      serving_run L C st rules_v ttl c0 c'"

section \<open>What a validation establishes\<close>

text \<open>
  A servable generation in a store: its receipt decodes to its binding, the build is published or
  retained under the configured name, and the contract of its vectors is committed and is the one
  the service was configured for, up to the query prefix.
\<close>

definition backed :: "libs \<Rightarrow> settings \<Rightarrow> string \<Rightarrow> view \<Rightarrow> serving_generation \<Rightarrow> bool" where
  "backed L st rules_v v g \<longleftrightarrow> (\<exists>ph b p m.
     sg_physical g = Some ph \<and> sg_binding g = Some b
     \<and> receipt_of L v (ph @ ''__completions'') = Some p
     \<and> decode_build_binding p (ph @ ''__completions'') = Inr b
     \<and> require_published_binding (Some b) (qdrant_collection st) ph (v_alias v) = Inr ()
     \<and> contract_in L v (ph @ ''__completions'') = Some \<lparr>sm_manifest = m, sm_state = state_committed\<rparr>
     \<and> same_vectors m (build_manifest (st\<lparr>qdrant_collection := ph\<rparr>) rules_v))"

lemma require_published_cong:
  "map_of as = map_of as' \<Longrightarrow> require_published_binding (Some b) n ph as = require_published_binding (Some b) n ph as'"
proof -
  assume "map_of as = map_of as'"
  then have "build_phase b as = build_phase b as'" unfolding build_phase_def by (simp only:)
  then show ?thesis by (simp add: require_published_binding_def)
qed

lemma not_servable_not [simp]: "out \<notin> set servable_outcomes \<or> ph = None \<Longrightarrow> \<not> servable (not_servable ph out d)"
  by (auto simp: servable_def not_servable_def)

context qdrant_reader
begin

lemma wp_validate_publication:
  assumes "contract_in L (V s) (ph @ ''__completions'') = Some \<lparr>sm_manifest = m, sm_state = state_committed\<rparr>"
    "same_vectors m (build_manifest (st\<lparr>qdrant_collection := ph\<rparr>) rules_v)"
  shows "wp (validate_publication L C st ph out details)
     (\<lambda>g s'. V s' = V s \<and> (servable g \<longrightarrow> backed L st rules_v (V s) g)) (\<lambda>e s'. V s' = V s) s" (is "wp _ ?Q ?E s")
  unfolding validate_publication_def Let_def wp_bind
proof (rule wp_aliases)
  fix as s1 assume as: "V s1 = V s" "map_of as = map_of (v_alias (V s))"
  show "wp (cl_retrieve C (ph @ ''__completions'') [publication_point_id L (ph @ ''__completions'')] WithAll False)
      (\<lambda>records. wp (case records of
        [] \<Rightarrow> sret (not_servable (Some ph) Legacy [''unbound_generation''])
      | r # _ \<Rightarrow>
          if jget (pt_payload r) ''record_type'' \<noteq> JStr ''publication-metadata''
          then sraise (Exn ValueErr ''invalid_publication_control_record'' [])
          else (case decode_build_binding (pt_payload r) (ph @ ''__completions'') of
              Inl e \<Rightarrow> if exn_cls e = UnboundGenerationErr
                       then sret (not_servable (Some ph) Legacy [''unbound_generation''])
                       else sraise e
            | Inr b \<Rightarrow>
                sbind (slift (require_published_binding (Some b) (qdrant_collection st) ph as)) (\<lambda>_.
                  sret \<lparr>sg_physical = Some ph, sg_outcome = out, sg_details = details, sg_binding = Some b\<rparr>))) ?Q ?E) ?E s1"
  proof (rule wp_conseq [OF wp_retrieve_single], goal_cases)
    case (1 ps s2)
    have legacy: "\<not> servable (not_servable (Some ph) Legacy d)" for d by (simp add: servable_outcomes_def)
    show ?case
    proof (cases ps)
      case Nil
      then show ?thesis using 1 as legacy by simp
    next
      case (Cons r rs)
      then obtain p where p: "receipt_of L (V s) (ph @ ''__completions'') = Some (pt_payload r)" "V s2 = V s"
        using 1 as by (auto simp: receipt_of_def)
      show ?thesis
        using p as legacy assms unfolding Cons list.case
        by (auto simp: backed_def require_published_cong [OF as(2)] split: sum.splits)
    qed
  qed (use as in simp)
qed simp

lemma wp_resolve_published_generation:
  "wp (resolve_published_generation L C st rules_v)
     (\<lambda>g s'. V s' = V s \<and> (servable g \<longrightarrow> backed L st rules_v (V s) g)) (\<lambda>e s'. V s' = V s) s" (is "wp _ ?Q ?E s")
proof -
  have "wp (resolve_serving_generation L C st rules_v)
     (\<lambda>(ph, out, details) s'. V s' = V s \<and> (\<forall>p. ph = Some p \<and> out \<in> set servable_outcomes \<longrightarrow>
        (\<exists>m. contract_in L (V s) (p @ ''__completions'') = Some \<lparr>sm_manifest = m, sm_state = state_committed\<rparr>
           \<and> same_vectors m (build_manifest (st\<lparr>qdrant_collection := p\<rparr>) rules_v))))
     ?E s"
    unfolding resolve_serving_generation_def Let_def wp_bind
    apply (intro wp_rules)
     apply (auto split: option.splits simp: completion_collection_for_def servable_outcomes_def
        intro!: wp_conseq [OF wp_serving_outcome])
    done
  then show ?thesis
    unfolding resolve_published_generation_def wp_bind
  proof (rule wp_conseq, goal_cases)
    case (1 x s1)
    obtain ph out details where x: "x = (ph, out, details)" by (cases x)
    show ?case
    proof (cases ph)
      case None
      then show ?thesis using 1 x by simp
    next
      case (Some p)
      have unknown: "\<not> servable (not_servable (Some p) Unknown_Store d)" for d by (simp add: servable_outcomes_def)
      show ?thesis
      proof (cases "out \<in> set servable_outcomes")
        case False
        then show ?thesis using 1 x Some by simp
      next
        case True
        then obtain m where m: "contract_in L (V s1) (p @ ''__completions'') = Some \<lparr>sm_manifest = m, sm_state = state_committed\<rparr>"
            "same_vectors m (build_manifest (st\<lparr>qdrant_collection := p\<rparr>) rules_v)" "V s1 = V s"
          using 1 x Some by auto
        from True have "\<not> out \<notin> set servable_outcomes" by simp
        then show ?thesis
          unfolding x Some prod.case option.case if_not_P [OF \<open>\<not> out \<notin> set servable_outcomes\<close>] wp_catch
          by (intro wp_conseq [OF wp_validate_publication [OF m(1,2)]]) (use m unknown in auto)
      qed
    qed
  qed simp
qed

end


section \<open>The gate answers from recent validations\<close>

text \<open>An answer given at \<open>t\<close> rests on a check: made by the request itself, or not older than the TTL.\<close>

definition recent :: "int \<Rightarrow> (serving_generation \<times> int \<times> 's) list \<Rightarrow> serving_generation \<Rightarrow> int \<Rightarrow> bool" where
  "recent ttl checks g t \<longleftrightarrow> (\<exists>t0 w. (g, t0, w) \<in> set checks \<and> t0 \<le> t \<and> (t0 = t \<or> t - t0 < ttl))"

definition gate_inv :: "libs \<Rightarrow> settings \<Rightarrow> string \<Rightarrow> ('s \<Rightarrow> view) \<Rightarrow> int \<Rightarrow> 's serving \<Rightarrow> bool" where
  "gate_inv L st rules_v V ttl c \<longleftrightarrow>
     (\<forall>g. gt_cached (sv_gate c) = Some g \<longrightarrow> gt_checked (sv_gate c) \<le> sv_now c
        \<and> (\<exists>w. (g, gt_checked (sv_gate c), w) \<in> set (sv_checks c)))
     \<and> (\<forall>(r, g, t) \<in> set (sv_answers c). recent ttl (sv_checks c) g t)
     \<and> (\<forall>(g, t, w) \<in> set (sv_checks c). servable g \<longrightarrow> backed L st rules_v (V w) g)"

lemma recent_mono: "recent ttl cs g t \<Longrightarrow> recent ttl (x # cs) g t"
  by (auto simp: recent_def)

lemma recent_now: "recent ttl ((g, t, w) # cs) g t"
  by (auto simp: recent_def)

lemma check_cache_recent:
  assumes "check_cache ttl fresh (sv_now c) (sv_gate c) = Some g" "gate_inv L st rules_v V ttl c"
  shows "recent ttl (sv_checks c) g (sv_now c)"
  using assms by (auto simp: check_cache_def gate_fresh_def gate_inv_def recent_def split: if_splits)

context qdrant_reader
begin

lemma gate_inv_step:
  assumes "serving_step L C st rules_v ttl c c'" "gate_inv L st rules_v V ttl c"
  shows "gate_inv L st rules_v V ttl c'"
  using assms(1)
proof cases
  case (hit fresh gen r)
  then show ?thesis using assms(2) check_cache_recent [OF hit(2) assms(2)] by (simp add: gate_inv_def)
next
  case (locked_hit r fresh rest gen)
  then show ?thesis using assms(2) check_cache_recent [OF locked_hit(4) assms(2)] by (simp add: gate_inv_def)
next
  case (validated r fresh gen w)
  have "servable gen \<longrightarrow> backed L st rules_v (V (sv_world c)) gen"
    using wp_InrD [OF wp_resolve_published_generation validated(3)] by simp
  then show ?thesis
    using assms(2) validated(1) recent_now [of ttl gen "sv_now c" "sv_world c" "sv_checks c"]
    by (auto simp: gate_inv_def store_generation_def intro: recent_mono)
next
  case (world now w)
  then show ?thesis using assms(2) by (fastforce simp: gate_inv_def)
qed (use assms(2) in \<open>auto simp: gate_inv_def invalidate_def\<close>)

lemma gate_inv_run:
  "serving_run L C st rules_v ttl (serving_start now w) c \<Longrightarrow> gate_inv L st rules_v V ttl c"
proof (induction rule: serving_run.induct)
  case begin_run
  show ?case by (simp add: gate_inv_def serving_start_def)
next
  case (step_run c c')
  then show ?case using gate_inv_step by blast
qed

end

text \<open>
  C30: the agent answers only from a generation validated within the TTL. In every run of the gate,
  with any interleaving of requests, invalidations, cancellations and changes of the store, a
  generation handed to a request is the outcome of a validation that ended at most the TTL before,
  or in the request itself; and if it is servable, then at that validation its build was published
  or retained under the configured name, its receipt decoded to the binding the request gets, and
  its committed contract was the one the service is configured for.
\<close>

theorem gate_answers_recent:
  assumes "qdrant_reader C V" "serving_run L C st rules_v ttl (serving_start now w0) c" "(r, g, t) \<in> set (sv_answers c)"
  shows "\<exists>t0 w. (g, t0, w) \<in> set (sv_checks c) \<and> t0 \<le> t \<and> (t0 = t \<or> t - t0 < ttl)
     \<and> (servable g \<longrightarrow> backed L st rules_v (V w) g)"
proof -
  have "gate_inv L st rules_v V ttl c" by (rule qdrant_reader.gate_inv_run [OF assms(1,2)])
  with assms(3) show ?thesis by (fastforce simp: gate_inv_def recent_def)
qed

definition bare_mem :: mem where
  "bare_mem = \<lparr>mem_colls = [], mem_alias = [], mem_info = [], mem_schema = []\<rparr>"

lemma gate_answers_recent_witness:
  "\<exists>c g t0 w. serving_run demo_libs mem_client (demo_settings ''live'') ''r1'' 30 (serving_start 100 bare_mem) c
     \<and> (2, g, 120) \<in> set (sv_answers c) \<and> (g, t0, w) \<in> set (sv_checks c) \<and> 120 - t0 < 30"
proof -
  let ?R = "serving_run demo_libs mem_client (demo_settings ''live'') ''r1'' 30 (serving_start 100 bare_mem)"
  define g where "g = not_servable None Empty []"
  define c0 where "c0 = serving_start 100 bare_mem"
  define c1 where "c1 = c0\<lparr>sv_waiting := sv_waiting c0 @ [(1 :: nat, False)]\<rparr>"
  define c2 where "c2 = c1\<lparr>sv_waiting := [], sv_holder := Some (1, False)\<rparr>"
  define c3 where "c3 = c2\<lparr>sv_gate := store_generation (sv_now c2) g (sv_gate c2), sv_world := bare_mem, sv_holder := None,
     sv_answers := (1, g, sv_now c2) # sv_answers c2, sv_checks := (g, sv_now c2, sv_world c2) # sv_checks c2\<rparr>"
  define c4 where "c4 = c3\<lparr>sv_now := 120, sv_world := bare_mem\<rparr>"
  define c5 where "c5 = c4\<lparr>sv_answers := (2, g, sv_now c4) # sv_answers c4\<rparr>"
  note cs = c0_def c1_def c2_def c3_def c4_def c5_def serving_start_def store_generation_def check_cache_def gate_fresh_def
  have resolve: "resolve_published_generation demo_libs mem_client (demo_settings ''live'') ''r1'' bare_mem = (Inr g, bare_mem)"
    by (simp add: resolve_published_generation_def resolve_serving_generation_def sbind_def mem_client_def bare_mem_def
        live_collection_from_def sret_def g_def demo_settings_def Let_def)
  have "?R c0" by (simp add: c0_def begin_run)
  then have "?R c1" unfolding c1_def by (rule step_run) (rule wait, simp add: cs)
  then have "?R c2" unfolding c2_def by (rule step_run) (rule locked_miss, simp_all add: cs)
  then have "?R c3" unfolding c3_def by (rule step_run) (rule validated [where fresh = False], simp_all add: resolve, simp_all add: cs resolve)
  then have "?R c4" unfolding c4_def by (rule step_run) (rule world, simp add: cs)
  then have run: "?R c5" unfolding c5_def by (rule step_run) (rule hit [where fresh = False], simp add: cs)
  moreover have ans: "(2, g, 120) \<in> set (sv_answers c5)" by (simp add: cs)
  moreover from gate_answers_recent [OF mem.qdrant_reader_axioms run ans]
  obtain t0 w where "(g, t0, w) \<in> set (sv_checks c5)" "120 - t0 < 30" by auto
  ultimately show ?thesis by blast
qed

end
