(* ===== verification/Stream.thy ===== *)
theory Stream
  imports Identity
begin

text \<open>
  Model completions over the wire (\<open>mainframe_rag/agent/answer.py\<close>): the fold of server-sent
  frames into a stream state, what counts as a completed answer, and the three chat calls with
  their one recovery POST. The transport is a parameter: a streamed response is the lines that
  arrived, each with the milliseconds since the start, and how the stream ended; the recovery POST
  is what it would return. \<open>json.loads\<close> is a parameter as well.
\<close>

section \<open>Completions\<close>

record token_usage =
  tu_prompt :: int
  tu_completion :: int
  tu_reasoning :: int
  tu_total :: int

record chat_result =
  ch_content :: string
  ch_finish :: string
  ch_usage :: token_usage
  ch_ttft :: "int option"

definition reason_missing_done :: string where "reason_missing_done = ''missing [DONE]''"
definition reason_upstream_error :: string where "reason_upstream_error = ''upstream error frame''"
definition reason_malformed_frame :: string where "reason_malformed_frame = ''malformed frame''"
definition reason_missing_finish :: string where "reason_missing_finish = ''missing finish reason''"

definition truncated :: "nat \<Rightarrow> string \<Rightarrow> exn" where
  "truncated chunks reason = Exn TruncatedStreamErr reason [JInt (int chunks)]"

definition truncation_reasons :: "string list" where
  "truncation_reasons = [reason_missing_done, reason_upstream_error, reason_malformed_frame, reason_missing_finish]"

text \<open>The alert names the reason from the fixed vocabulary, and the error type.\<close>

definition truncation_alert_detail :: "exn \<Rightarrow> string" where
  "truncation_alert_detail e =
     (if exn_tag e \<in> set truncation_reasons then exn_tag e else ''unknown truncation'') @ '' (TruncatedStreamError)''"

text \<open>
  \<open>v or 0\<close> as an integer: text and floats are converted by \<open>int\<close>, a parameter, which may refuse.
\<close>

definition usage_int :: "(json \<Rightarrow> int res) \<Rightarrow> json \<Rightarrow> int res" where
  "usage_int conv v =
     (if \<not> truthy v then Inr 0
      else case v of JInt i \<Rightarrow> Inr i | JBool b \<Rightarrow> Inr (if b then 1 else 0)
        | JList _ \<Rightarrow> raise_exn TypeErr ''int_argument'' [] | JObj _ \<Rightarrow> raise_exn TypeErr ''int_argument'' []
        | _ \<Rightarrow> conv v)"

text \<open>\<open>v.get\<close> of a value that need not be a dict.\<close>

definition dict_of :: "json \<Rightarrow> payload res" where
  "dict_of v = (case v of JObj p \<Rightarrow> Inr p | _ \<Rightarrow> raise_exn AttributeErr ''get'' [])"

definition or_dict :: "json \<Rightarrow> json" where
  "or_dict v = (if truthy v then v else JObj [])"

definition token_usage_from_dict :: "(json \<Rightarrow> int res) \<Rightarrow> json \<Rightarrow> token_usage res" where
  "token_usage_from_dict conv usage =
     rbind (dict_of usage) (\<lambda>u.
     rbind (if truthy (jget u ''reasoning_tokens'') then Inr (jget u ''reasoning_tokens'')
            else rbind (dict_of (or_dict (jget u ''completion_tokens_details''))) (\<lambda>d. Inr (jget d ''reasoning_tokens''))) (\<lambda>r.
     rbind (usage_int conv (jget u ''prompt_tokens'')) (\<lambda>p.
     rbind (usage_int conv (jget u ''completion_tokens'')) (\<lambda>c.
     rbind (usage_int conv r) (\<lambda>r'.
     rbind (usage_int conv (jget u ''total_tokens'')) (\<lambda>t.
       Inr \<lparr>tu_prompt = p, tu_completion = c, tu_reasoning = r', tu_total = t\<rparr>))))))"

text \<open>A buffered payload: completion is explicit, never inferred.\<close>

definition chat_result_from_response :: "(json \<Rightarrow> int res) \<Rightarrow> json \<Rightarrow> chat_result res" where
  "chat_result_from_response conv data =
     (case data of
        JObj p \<Rightarrow>
          if jget p ''error'' \<noteq> JNull then Inl (truncated 0 reason_upstream_error)
          else (case jget p ''choices'' of
            JList (JObj choice # _) \<Rightarrow>
              (case jget choice ''message'' of
                 JObj message \<Rightarrow>
                   if jget choice ''finish_reason'' = JNull then Inl (truncated 0 reason_missing_finish)
                   else if \<not> is_text (jget choice ''finish_reason'') then Inl (truncated 0 reason_malformed_frame)
                   else if jget message ''content'' \<noteq> JNull \<and> \<not> is_str (jget message ''content'')
                   then Inl (truncated 0 reason_malformed_frame)
                   else rbind (token_usage_from_dict conv (or_dict (jget p ''usage''))) (\<lambda>u.
                     Inr \<lparr>ch_content = str_of (jget message ''content''), ch_finish = str_of (jget choice ''finish_reason''),
                          ch_usage = u, ch_ttft = None\<rparr>)
               | _ \<Rightarrow> Inl (truncated 0 reason_malformed_frame))
          | _ \<Rightarrow> Inl (truncated 0 reason_malformed_frame))
      | _ \<Rightarrow> Inl (truncated 0 reason_malformed_frame))"

section \<open>The stream state\<close>

record stream_state =
  st_ttft :: "int option"
  st_finish :: "string option"
  st_usage :: json
  st_parts :: "string list"
  st_done :: bool
  st_error :: "string option"
  st_malformed :: "string option"

definition new_stream :: stream_state where
  "new_stream = \<lparr>st_ttft = None, st_finish = None, st_usage = JObj [], st_parts = [], st_done = False,
     st_error = None, st_malformed = None\<rparr>"

definition incomplete_reason :: "stream_state \<Rightarrow> string option" where
  "incomplete_reason st =
     (if st_error st \<noteq> None then st_error st
      else if st_malformed st \<noteq> None then st_malformed st
      else if \<not> st_done st then Some reason_missing_done
      else if st_finish st = None then Some reason_missing_finish
      else None)"

definition terminal_seen :: "stream_state \<Rightarrow> bool" where
  "terminal_seen st \<longleftrightarrow> st_done st \<or> st_error st \<noteq> None \<or> st_malformed st \<noteq> None"

definition completed_finish_reason :: "stream_state \<Rightarrow> string res" where
  "completed_finish_reason st =
     (case st_finish st of None \<Rightarrow> Inl (truncated (length (st_parts st)) reason_missing_finish) | Some f \<Rightarrow> Inr f)"

definition buffered_result_from_stream :: "(json \<Rightarrow> int res) \<Rightarrow> stream_state \<Rightarrow> chat_result res" where
  "buffered_result_from_stream conv st =
     (case incomplete_reason st of
        Some reason \<Rightarrow> Inl (truncated (length (st_parts st)) reason)
      | None \<Rightarrow>
          rbind (completed_finish_reason st) (\<lambda>f.
          rbind (token_usage_from_dict conv (st_usage st)) (\<lambda>u.
            Inr \<lparr>ch_content = concat (st_parts st), ch_finish = f, ch_usage = u, ch_ttft = None\<rparr>)))"

definition ended_without_content :: "stream_state \<Rightarrow> bool" where
  "ended_without_content st \<longleftrightarrow> st_parts st = [] \<and> st_finish st \<noteq> None \<and> st_finish st \<noteq> Some ''stop''"

text \<open>
  One line of the wire. A line that is not a \<open>data:\<close> line is skipped; a payload that is not a
  frame records the malformed label, one with a top-level error the upstream label.
\<close>

definition malformed :: "stream_state \<Rightarrow> stream_state \<times> string option" where
  "malformed st = (st\<lparr>st_malformed := Some reason_malformed_frame\<rparr>, None)"

definition feed_choice :: "int \<Rightarrow> stream_state \<Rightarrow> payload \<Rightarrow> stream_state \<times> string option" where
  "feed_choice ms st choice =
     (let delta = jget choice ''delta'' in
      case (if delta = JNull then JObj [] else delta) of
        JObj d \<Rightarrow>
          (let content = jget d ''content''; finish = jget choice ''finish_reason'' in
           if content \<noteq> JNull \<and> \<not> is_str content then malformed st
           else if finish \<noteq> JNull \<and> \<not> is_text finish then malformed st
           else
             let st1 = (if finish \<noteq> JNull then st\<lparr>st_finish := Some (str_of finish)\<rparr> else st) in
             if is_text content
             then (st1\<lparr>st_ttft := (if st_ttft st1 = None then Some ms else st_ttft st1), st_parts := st_parts st1 @ [str_of content]\<rparr>,
                   Some (str_of content))
             else (st1, if content = JNull then None else Some (str_of content)))
      | _ \<Rightarrow> malformed st)"

definition feed_chunk :: "int \<Rightarrow> stream_state \<Rightarrow> json \<Rightarrow> stream_state \<times> string option" where
  "feed_chunk ms st chunk =
     (case chunk of
        JObj p \<Rightarrow>
          if jget p ''error'' \<noteq> JNull then (st\<lparr>st_error := Some reason_upstream_error\<rparr>, None)
          else
            let st1 = (if truthy (jget p ''usage'') then st\<lparr>st_usage := jget p ''usage''\<rparr> else st) in
            (case jget p ''choices'' of
               JNull \<Rightarrow> (st1, None)
             | JList [] \<Rightarrow> (st1, None)
             | JList (JObj choice # _) \<Rightarrow> feed_choice ms st1 choice
             | _ \<Rightarrow> malformed st1)
      | _ \<Rightarrow> malformed st)"

definition data_payload :: "string \<Rightarrow> string option" where
  "data_payload line = (let l = strip line in if prefix ''data:'' l then Some (strip (drop 5 l)) else None)"

definition feed_sse_line :: "(string \<Rightarrow> json option) \<Rightarrow> stream_state \<Rightarrow> string \<times> int \<Rightarrow> stream_state \<times> string option" where
  "feed_sse_line parse st line =
     (case data_payload (fst line) of
        None \<Rightarrow> (st, None)
      | Some s \<Rightarrow>
          if s = ''[DONE]'' then (st\<lparr>st_done := True\<rparr>, None)
          else (case parse s of None \<Rightarrow> malformed st | Some chunk \<Rightarrow> feed_chunk (snd line) st chunk))"

text \<open>The loop over the lines, which stops at the first terminal frame.\<close>

fun consume :: "(string \<Rightarrow> json option) \<Rightarrow> stream_state \<Rightarrow> (string \<times> int) list \<Rightarrow> stream_state" where
  "consume parse st [] = st"
| "consume parse st (l # ls) =
     (let st' = fst (feed_sse_line parse st l) in if terminal_seen st' then st' else consume parse st' ls)"


section \<open>The calls\<close>

text \<open>
  A streamed response: its content type, its whole body when it is read as one, the lines that
  arrived, and the error that ended the reading, if any.
\<close>

record wire =
  w_content_type :: string
  w_body :: string
  w_lines :: "(string \<times> int) list"
  w_end :: "exn option"

definition is_json_response :: "wire \<Rightarrow> bool" where
  "is_json_response w \<longleftrightarrow> sublist ''json'' (casefold (w_content_type w))
     \<and> \<not> sublist ''event-stream'' (casefold (w_content_type w))"

definition read_stream :: "(string \<Rightarrow> json option) \<Rightarrow> wire \<Rightarrow> stream_state res" where
  "read_stream parse w =
     (let st = consume parse new_stream (w_lines w) in
      if terminal_seen st then Inr st else case w_end w of Some e \<Rightarrow> Inl e | None \<Rightarrow> Inr st)"

definition load_json :: "(string \<Rightarrow> json option) \<Rightarrow> string \<Rightarrow> json res" where
  "load_json parse s = (case parse s of None \<Rightarrow> raise_exn ValueErr ''JSONDecodeError'' [] | Some j \<Rightarrow> Inr j)"

definition achat_buffered_over_stream ::
    "(string \<Rightarrow> json option) \<Rightarrow> (json \<Rightarrow> int res) \<Rightarrow> wire res \<Rightarrow> chat_result res" where
  "achat_buffered_over_stream parse conv stream =
     rbind stream (\<lambda>w.
     if is_json_response w
     then (case w_end w of Some e \<Rightarrow> Inl e
           | None \<Rightarrow> rbind (load_json parse (w_body w)) (chat_result_from_response conv))
     else rbind (read_stream parse w) (buffered_result_from_stream conv))"

text \<open>The streamed attempt: an answer, or nothing when the stream finished without content.\<close>

definition streamed_attempt ::
    "(string \<Rightarrow> json option) \<Rightarrow> (json \<Rightarrow> int res) \<Rightarrow> wire res \<Rightarrow> chat_result option res" where
  "streamed_attempt parse conv stream =
     rbind stream (\<lambda>w.
     rbind (read_stream parse w) (\<lambda>st.
     case incomplete_reason st of
       Some reason \<Rightarrow> Inl (truncated (length (st_parts st)) reason)
     | None \<Rightarrow>
         let content = concat (st_parts st) in
         if content = [] \<and> \<not> ended_without_content st then Inr None
         else rbind (token_usage_from_dict conv (st_usage st)) (\<lambda>u.
              rbind (completed_finish_reason st) (\<lambda>f.
                Inr (Some \<lparr>ch_content = content, ch_finish = f, ch_usage = u, ch_ttft = st_ttft st\<rparr>)))))"

definition recoverable :: "exn_class list" where
  "recoverable = [HttpErr, ValueErr, KeyErr, OsErr, TruncatedStreamErr]"

text \<open>\<open>achat\<close>, and whether the second request was made.\<close>

definition achat ::
    "(string \<Rightarrow> json option) \<Rightarrow> (json \<Rightarrow> int res) \<Rightarrow> bool \<Rightarrow> wire res \<Rightarrow> json res \<Rightarrow> chat_result res \<times> bool" where
  "achat parse conv llm_stream stream post =
     (if \<not> llm_stream then (achat_buffered_over_stream parse conv stream, False)
      else case streamed_attempt parse conv stream of
        Inr (Some r) \<Rightarrow> (Inr r, False)
      | Inr None \<Rightarrow> (rbind post (chat_result_from_response conv), True)
      | Inl e \<Rightarrow>
          if exn_cls e = TimeoutErr then (Inl e, False)
          else if exn_cls e \<in> set recoverable then (rbind post (chat_result_from_response conv), True)
          else (Inl e, False))"

text \<open>\<open>_chat_sync\<close>: a transport that cannot stream posts at once.\<close>

definition chat_sync ::
    "(string \<Rightarrow> json option) \<Rightarrow> (json \<Rightarrow> int res) \<Rightarrow> bool \<Rightarrow> bool \<Rightarrow> wire res \<Rightarrow> json res \<Rightarrow> chat_result res \<times> bool" where
  "chat_sync parse conv llm_stream has_stream stream post =
     (if has_stream then achat parse conv llm_stream stream post
      else (rbind post (chat_result_from_response conv), True))"

datatype chat_event =
    Token string "int option"
  | Finished string token_usage "int option"

text \<open>The tokens a stream yields while it is read, and the state it ends in.\<close>

fun stream_tokens :: "(string \<Rightarrow> json option) \<Rightarrow> stream_state \<Rightarrow> (string \<times> int) list \<Rightarrow> chat_event list \<times> stream_state" where
  "stream_tokens parse st [] = ([], st)"
| "stream_tokens parse st (l # ls) =
     (case feed_sse_line parse st l of (st', delta) \<Rightarrow>
        if terminal_seen st' then ([], st')
        else case stream_tokens parse st' ls of (evs, st'') \<Rightarrow>
          ((case delta of None \<Rightarrow> [] | Some d \<Rightarrow> if d = [] then [] else [Token d (st_ttft st')]) @ evs, st''))"

record chat_run =
  rn_events :: "chat_event list"
  rn_posted :: bool
  rn_result :: "unit res"

definition failed_run :: "chat_event list \<Rightarrow> bool \<Rightarrow> exn \<Rightarrow> chat_run" where
  "failed_run evs posted e = \<lparr>rn_events = evs, rn_posted = posted, rn_result = Inl e\<rparr>"

definition finish_run ::
    "(json \<Rightarrow> int res) \<Rightarrow> chat_event list \<Rightarrow> bool \<Rightarrow> string option \<Rightarrow> json \<Rightarrow> int option \<Rightarrow> nat \<Rightarrow> chat_run" where
  "finish_run conv evs posted finish usage ttft parts =
     (case finish of
        None \<Rightarrow> failed_run evs posted (truncated parts reason_missing_finish)
      | Some f \<Rightarrow> (case token_usage_from_dict conv usage of
            Inl e \<Rightarrow> failed_run evs posted e
          | Inr u \<Rightarrow> \<lparr>rn_events = evs @ [Finished f u ttft], rn_posted = posted, rn_result = Inr ()\<rparr>))"

definition usage_json :: "token_usage \<Rightarrow> json" where
  "usage_json u = JObj [(''prompt_tokens'', JInt (tu_prompt u)), (''completion_tokens'', JInt (tu_completion u)),
     (''reasoning_tokens'', JInt (tu_reasoning u)), (''total_tokens'', JInt (tu_total u))]"

definition recover_run :: "(json \<Rightarrow> int res) \<Rightarrow> chat_event list \<Rightarrow> json res \<Rightarrow> int \<Rightarrow> nat \<Rightarrow> chat_run" where
  "recover_run conv evs post ms parts =
     (case rbind post (chat_result_from_response conv) of
        Inl e \<Rightarrow> failed_run evs True e
      | Inr r \<Rightarrow>
          if ch_content r = [] then failed_run evs True (Exn RuntimeErr ''empty_fallback'' [])
          else finish_run conv (evs @ [Token (ch_content r) (Some ms)]) True (Some (ch_finish r)) (usage_json (ch_usage r))
                 (Some ms) parts)"

definition chat_stream ::
    "(string \<Rightarrow> json option) \<Rightarrow> (json \<Rightarrow> int res) \<Rightarrow> wire res \<Rightarrow> json res \<Rightarrow> int \<Rightarrow> chat_run" where
  "chat_stream parse conv stream post ms =
     (case stream of
        Inl e \<Rightarrow> failed_run [] False e
      | Inr w \<Rightarrow>
          (case stream_tokens parse new_stream (w_lines w) of (evs, st) \<Rightarrow>
             if \<not> terminal_seen st \<and> w_end w \<noteq> None then failed_run evs False (the (w_end w))
             else
               let reason = incomplete_reason st; parts = length (st_parts st) in
               case reason of
                 Some r \<Rightarrow>
                   if evs \<noteq> [] then failed_run evs False (truncated parts r)
                   else recover_run conv evs post ms parts
               | None \<Rightarrow>
                   if evs = [] \<and> ended_without_content st
                   then finish_run conv [] False (st_finish st) (st_usage st) (st_ttft st) parts
                   else if evs = [] then recover_run conv evs post ms parts
                   else finish_run conv evs False (st_finish st) (st_usage st) (st_ttft st) parts))"

section \<open>What a completed stream is\<close>

text \<open>The reference: every line is one frame, and a completion is read off the frames before \<open>[DONE]\<close>.\<close>

datatype frame =
    Skip
  | Terminator
  | Broken
  | Delta "string option" "string option" "json option"

definition frame_of_choice :: "json option \<Rightarrow> payload \<Rightarrow> frame" where
  "frame_of_choice usage choice =
     (case (if jget choice ''delta'' = JNull then JObj [] else jget choice ''delta'') of
        JObj d \<Rightarrow>
          if (jget d ''content'' \<noteq> JNull \<and> \<not> is_str (jget d ''content''))
             \<or> (jget choice ''finish_reason'' \<noteq> JNull \<and> \<not> is_text (jget choice ''finish_reason'')) then Broken
          else Delta (if is_text (jget d ''content'') then Some (str_of (jget d ''content'')) else None)
                 (if jget choice ''finish_reason'' = JNull then None else Some (str_of (jget choice ''finish_reason''))) usage
      | _ \<Rightarrow> Broken)"

definition frame_of :: "(string \<Rightarrow> json option) \<Rightarrow> string \<Rightarrow> frame" where
  "frame_of parse line =
     (case data_payload line of
        None \<Rightarrow> Skip
      | Some s \<Rightarrow>
          if s = ''[DONE]'' then Terminator
          else (case parse s of
              Some (JObj p) \<Rightarrow>
                if jget p ''error'' \<noteq> JNull then Broken
                else
                  let usage = (if truthy (jget p ''usage'') then Some (jget p ''usage'') else None) in
                  (case jget p ''choices'' of
                     JNull \<Rightarrow> Delta None None usage
                   | JList [] \<Rightarrow> Delta None None usage
                   | JList (JObj choice # _) \<Rightarrow> frame_of_choice usage choice
                   | _ \<Rightarrow> Broken)
            | _ \<Rightarrow> Broken))"

fun deltas :: "frame list \<Rightarrow> string list" where
  "deltas [] = []"
| "deltas (Delta (Some d) f u # fs) = d # deltas fs"
| "deltas (_ # fs) = deltas fs"

fun last_finish :: "string option \<Rightarrow> frame list \<Rightarrow> string option" where
  "last_finish acc [] = acc"
| "last_finish acc (Delta d (Some f) u # fs) = last_finish (Some f) fs"
| "last_finish acc (_ # fs) = last_finish acc fs"

fun last_usage :: "json \<Rightarrow> frame list \<Rightarrow> json" where
  "last_usage acc [] = acc"
| "last_usage acc (Delta d f (Some u) # fs) = last_usage u fs"
| "last_usage acc (_ # fs) = last_usage acc fs"

definition live :: "stream_state \<Rightarrow> bool" where
  "live st \<longleftrightarrow> \<not> terminal_seen st"

text \<open>What a frame makes of a live state: the step of the code agrees with it.\<close>

fun takes :: "stream_state \<Rightarrow> frame \<Rightarrow> stream_state \<times> string option \<Rightarrow> bool" where
  "takes st Skip r \<longleftrightarrow> r = (st, None)"
| "takes st Terminator r \<longleftrightarrow> r = (st\<lparr>st_done := True\<rparr>, None)"
| "takes st Broken r \<longleftrightarrow> incomplete_reason (fst r) \<noteq> None \<and> terminal_seen (fst r) \<and> snd r = None
     \<and> st_parts (fst r) = st_parts st"
| "takes st (Delta d f u) r \<longleftrightarrow> live (fst r)
     \<and> st_parts (fst r) = st_parts st @ (case d of None \<Rightarrow> [] | Some x \<Rightarrow> [x])
     \<and> st_finish (fst r) = (case f of None \<Rightarrow> st_finish st | Some x \<Rightarrow> Some x)
     \<and> st_usage (fst r) = (case u of None \<Rightarrow> st_usage st | Some x \<Rightarrow> x)
     \<and> (snd r = d \<or> d = None \<and> snd r = Some [])
     \<and> (d \<noteq> Some [])"

lemma malformed_state [simp]:
  "incomplete_reason (fst (malformed st)) \<noteq> None"
  "terminal_seen (fst (malformed st))"
  "snd (malformed st) = None"
  "st_parts (fst (malformed st)) = st_parts st"
  by (simp_all add: malformed_def incomplete_reason_def terminal_seen_def)

lemma malformed_reason [simp]: "\<exists>y. incomplete_reason (fst (malformed st)) = Some y"
  using malformed_state(1) [of st] by (cases "incomplete_reason (fst (malformed st))") auto

lemma takes_malformed: "st_parts st' = st_parts st \<Longrightarrow> takes st Broken (malformed st')"
  by simp

lemma takes_choice:
  assumes "live st" "u = None \<or> u = Some v" "st1 = (if u = None then st else st\<lparr>st_usage := v\<rparr>)"
  shows "takes st (frame_of_choice u choice) (feed_choice ms st1 choice)"
proof (cases "if jget choice ''delta'' = JNull then JObj [] else jget choice ''delta''")
  case (JObj d)
  show ?thesis
  proof (cases "(jget d ''content'' \<noteq> JNull \<and> \<not> is_str (jget d ''content''))
      \<or> (jget choice ''finish_reason'' \<noteq> JNull \<and> \<not> is_text (jget choice ''finish_reason''))")
    case True
    then show ?thesis unfolding frame_of_choice_def feed_choice_def Let_def JObj json.case using assms(3) by auto
  next
    case False
    have l: "live st1" using assms by (auto simp: live_def terminal_seen_def)
    have p: "st_parts st1 = st_parts st" "st_finish st1 = st_finish st" "st_usage st1 = (case u of None \<Rightarrow> st_usage st | Some x \<Rightarrow> x)"
      using assms by auto
    have ok: "\<not> (jget d ''content'' \<noteq> JNull \<and> \<not> is_str (jget d ''content''))"
      "\<not> (jget choice ''finish_reason'' \<noteq> JNull \<and> \<not> is_text (jget choice ''finish_reason''))" using False by auto
    show ?thesis
    proof (cases "is_text (jget d ''content'')")
      case True
      then show ?thesis
        unfolding frame_of_choice_def feed_choice_def Let_def JObj json.case if_not_P [OF False] if_not_P [OF ok(1)] if_not_P [OF ok(2)]
        using l p by (auto simp: live_def terminal_seen_def is_text_iff)
    next
      case not_text: False
      then have "jget d ''content'' \<noteq> JNull \<Longrightarrow> str_of (jget d ''content'') = []"
        using ok(1) by (cases "jget d ''content''") auto
      then show ?thesis
        unfolding frame_of_choice_def feed_choice_def Let_def JObj json.case if_not_P [OF False] if_not_P [OF ok(1)] if_not_P [OF ok(2)]
        using l p not_text by (auto simp: live_def terminal_seen_def)
    qed
  qed
qed (use assms(3) in \<open>auto simp: frame_of_choice_def feed_choice_def Let_def\<close>)

lemma takes_line:
  assumes "live st"
  shows "takes st (frame_of parse (fst l)) (feed_sse_line parse st l)"
proof (cases "data_payload (fst l)")
  case None
  then show ?thesis by (simp add: frame_of_def feed_sse_line_def)
next
  case (Some s)
  show ?thesis
  proof (cases "s = ''[DONE]''")
    case True
    with Some show ?thesis by (simp add: frame_of_def feed_sse_line_def)
  next
    case False
    show ?thesis
    proof (cases "parse s")
      case None
      with Some False show ?thesis by (simp add: frame_of_def feed_sse_line_def)
    next
      case chunk: (Some c)
      show ?thesis
      proof (cases c)
        case (JObj p)
        let ?u = "if truthy (jget p ''usage'') then Some (jget p ''usage'') else None"
        let ?st1 = "if truthy (jget p ''usage'') then st\<lparr>st_usage := jget p ''usage''\<rparr> else st"
        show ?thesis
        proof (cases "jget p ''error'' = JNull")
          case False
          then show ?thesis using Some \<open>s \<noteq> _\<close> chunk JObj
            by (simp add: frame_of_def feed_sse_line_def feed_chunk_def incomplete_reason_def terminal_seen_def)
        next
          case True
          have line: "frame_of parse (fst l) = (case jget p ''choices'' of
                JNull \<Rightarrow> Delta None None ?u | JList [] \<Rightarrow> Delta None None ?u
              | JList (JObj choice # _) \<Rightarrow> frame_of_choice ?u choice | _ \<Rightarrow> Broken)"
            and step: "feed_sse_line parse st l = (case jget p ''choices'' of
                JNull \<Rightarrow> (?st1, None) | JList [] \<Rightarrow> (?st1, None)
              | JList (JObj choice # _) \<Rightarrow> feed_choice (snd l) ?st1 choice | _ \<Rightarrow> malformed ?st1)"
            using Some \<open>s \<noteq> _\<close> chunk JObj True
            by (simp_all add: frame_of_def feed_sse_line_def feed_chunk_def Let_def)
          have heartbeat: "takes st (Delta None None ?u) (?st1, None)"
            using assms by (simp add: live_def terminal_seen_def)
          have choice: "takes st (frame_of_choice ?u c) (feed_choice (snd l) ?st1 c)" for c
            by (rule takes_choice [where v = "jget p ''usage''"]) (use assms in auto)
          show ?thesis
            unfolding line step using heartbeat choice takes_malformed
            by (auto split: json.split list.split simp del: takes.simps)
        qed
      qed (use Some False chunk in \<open>simp_all add: frame_of_def feed_sse_line_def feed_chunk_def\<close>)
    qed
  qed
qed


text \<open>The frames before the terminator, when no frame before it is broken.\<close>

fun completed :: "frame list \<Rightarrow> frame list option" where
  "completed [] = None"
| "completed (Terminator # fs) = Some []"
| "completed (Broken # fs) = None"
| "completed (f # fs) = map_option ((#) f) (completed fs)"

lemma completed_iff:
  "completed fs = Some pre \<longleftrightarrow> (\<exists>suf. fs = pre @ Terminator # suf \<and> Terminator \<notin> set pre \<and> Broken \<notin> set pre)"
proof (induction fs arbitrary: pre)
  case (Cons f fs)
  show ?case by (cases f; cases pre) (auto simp: Cons.IH)
qed simp

lemma completed_ex:
  "(\<exists>pre. completed fs = Some pre \<and> P pre) \<longleftrightarrow>
     (\<exists>pre suf. fs = pre @ Terminator # suf \<and> Terminator \<notin> set pre \<and> Broken \<notin> set pre \<and> P pre)"
  unfolding completed_iff by blast

abbreviation frames :: "(string \<Rightarrow> json option) \<Rightarrow> (string \<times> int) list \<Rightarrow> frame list" where
  "frames parse ls \<equiv> map (\<lambda>l. frame_of parse (fst l)) ls"

definition complete_state :: "stream_state \<Rightarrow> frame list \<Rightarrow> stream_state \<Rightarrow> bool" where
  "complete_state st pre st' \<longleftrightarrow> st_done st' \<and> st_error st' = None \<and> st_malformed st' = None
     \<and> st_parts st' = st_parts st @ deltas pre \<and> st_finish st' = last_finish (st_finish st) pre
     \<and> st_usage st' = last_usage (st_usage st) pre"

lemma complete_state_reason:
  "complete_state st pre st' \<Longrightarrow> incomplete_reason st' = None \<longleftrightarrow> last_finish (st_finish st) pre \<noteq> None"
  by (auto simp: complete_state_def incomplete_reason_def)

lemma live_reason: "live st \<Longrightarrow> incomplete_reason st \<noteq> None"
  by (auto simp: live_def terminal_seen_def incomplete_reason_def)

lemma consume_completed:
  assumes "live st"
  shows "case completed (frames parse ls) of
      None \<Rightarrow> incomplete_reason (consume parse st ls) \<noteq> None
    | Some pre \<Rightarrow> complete_state st pre (consume parse st ls)"
  using assms
proof (induction ls arbitrary: st)
  case Nil
  then show ?case using live_reason by simp
next
  case (Cons l ls)
  let ?r = "feed_sse_line parse st l"
  have step: "takes st (frame_of parse (fst l)) ?r" using Cons.prems by (rule takes_line)
  show ?case
  proof (cases "frame_of parse (fst l)")
    case Skip
    with step Cons show ?thesis by (auto simp: live_def complete_state_def Let_def split: option.splits)
  next
    case Terminator
    with step Cons.prems show ?thesis
      by (auto simp: live_def complete_state_def terminal_seen_def Let_def)
  next
    case Broken
    with step show ?thesis by (auto simp: Let_def)
  next
    case (Delta d f u)
    with step have "live (fst ?r)" and
      eqs: "st_parts (fst ?r) = st_parts st @ (case d of None \<Rightarrow> [] | Some x \<Rightarrow> [x])"
      "st_finish (fst ?r) = (case f of None \<Rightarrow> st_finish st | Some x \<Rightarrow> Some x)"
      "st_usage (fst ?r) = (case u of None \<Rightarrow> st_usage st | Some x \<Rightarrow> x)" by auto
    note IH = Cons.IH [OF this(1)]
    have next_state: "consume parse st (l # ls) = consume parse (fst ?r) ls"
      using \<open>live (fst ?r)\<close> by (simp add: Let_def live_def)
    show ?thesis
    proof (cases "completed (frames parse ls)")
      case None
      with IH Delta show ?thesis unfolding next_state by simp
    next
      case (Some pre)
      with IH have "complete_state (fst ?r) pre (consume parse (fst ?r) ls)" by simp
      then have "complete_state st (Delta d f u # pre) (consume parse (fst ?r) ls)"
        by (cases d; cases f; cases u) (simp_all add: complete_state_def eqs)
      with Some Delta show ?thesis unfolding next_state by simp
    qed
  qed
qed

lemma live_new [simp]: "live new_stream"
  by (simp add: live_def terminal_seen_def new_stream_def)

lemma new_stream_sel [simp]:
  "st_parts new_stream = []" "st_finish new_stream = None" "st_usage new_stream = JObj []"
  by (simp_all add: new_stream_def)

text \<open>The answer a completed list of frames stands for.\<close>

definition stream_answer :: "(json \<Rightarrow> int res) \<Rightarrow> frame list \<Rightarrow> chat_result \<Rightarrow> bool" where
  "stream_answer conv pre r \<longleftrightarrow> last_finish None pre = Some (ch_finish r) \<and> ch_content r = concat (deltas pre)
     \<and> token_usage_from_dict conv (last_usage (JObj []) pre) = Inr (ch_usage r)"

lemma complete_from_new:
  "incomplete_reason (consume parse new_stream ls) = None \<longleftrightarrow>
     (\<exists>pre. completed (frames parse ls) = Some pre \<and> last_finish None pre \<noteq> None)"
  using consume_completed [OF live_new, of parse ls] complete_state_reason [of new_stream]
  by (auto split: option.splits)

lemma complete_from_newD:
  "completed (frames parse ls) = Some pre \<Longrightarrow> complete_state new_stream pre (consume parse new_stream ls)"
  using consume_completed [OF live_new, of parse ls] by simp

lemma buffered_result_complete:
  "incomplete_reason st = None \<Longrightarrow> st_finish st = Some f \<Longrightarrow>
     buffered_result_from_stream conv st = rbind (token_usage_from_dict conv (st_usage st)) (\<lambda>u.
       Inr \<lparr>ch_content = concat (st_parts st), ch_finish = f, ch_usage = u, ch_ttft = None\<rparr>)"
  by (simp add: buffered_result_from_stream_def completed_finish_reason_def rbind_def)

text \<open>
  C33: A buffered read of a stream yields an answer exactly when a \<open>[DONE]\<close> frame arrives with no
  broken frame before it and a finish reason among the frames before it; the content is then the
  concatenation of their deltas, and the finish reason and the usage are the last ones.
\<close>

theorem buffered_stream_exact:
  "buffered_result_from_stream conv (consume parse new_stream ls) = Inr r \<longleftrightarrow>
     ch_ttft r = None
     \<and> (\<exists>pre suf. frames parse ls = pre @ Terminator # suf \<and> Terminator \<notin> set pre \<and> Broken \<notin> set pre
          \<and> stream_answer conv pre r)"
  unfolding completed_ex [symmetric]
proof (cases "completed (frames parse ls)")
  case None
  then have "incomplete_reason (consume parse new_stream ls) \<noteq> None" by (simp add: complete_from_new)
  with None show "buffered_result_from_stream conv (consume parse new_stream ls) = Inr r \<longleftrightarrow>
      ch_ttft r = None \<and> (\<exists>pre. completed (frames parse ls) = Some pre \<and> stream_answer conv pre r)"
    by (auto simp: buffered_result_from_stream_def)
next
  case (Some pre)
  let ?st = "consume parse new_stream ls"
  have st: "complete_state new_stream pre ?st" using Some by (rule complete_from_newD)
  have "buffered_result_from_stream conv ?st = Inr r \<longleftrightarrow> ch_ttft r = None \<and> stream_answer conv pre r"
  proof (cases "last_finish None pre")
    case None
    with complete_state_reason [OF st] have "incomplete_reason ?st \<noteq> None" by simp
    with None show ?thesis by (auto simp: buffered_result_from_stream_def stream_answer_def)
  next
    case (Some f)
    with complete_state_reason [OF st] have "incomplete_reason ?st = None" by simp
    moreover have "st_finish ?st = Some f" using st Some by (simp add: complete_state_def)
    ultimately have "buffered_result_from_stream conv ?st =
        rbind (token_usage_from_dict conv (st_usage ?st)) (\<lambda>u.
          Inr \<lparr>ch_content = concat (st_parts ?st), ch_finish = f, ch_usage = u, ch_ttft = None\<rparr>)"
      by (rule buffered_result_complete)
    moreover have "st_usage ?st = last_usage (JObj []) pre" "st_parts ?st = deltas pre"
      using st by (simp_all add: complete_state_def)
    ultimately show ?thesis using Some
      by (cases "token_usage_from_dict conv (last_usage (JObj []) pre)"; cases r)
         (auto simp: stream_answer_def)
  qed
  with Some show "buffered_result_from_stream conv ?st = Inr r \<longleftrightarrow>
      ch_ttft r = None \<and> (\<exists>pre. completed (frames parse ls) = Some pre \<and> stream_answer conv pre r)"
    by simp
qed

text \<open>The texts of the token events, in order: they are the parts the state collects.\<close>

fun token_texts :: "chat_event list \<Rightarrow> string list" where
  "token_texts [] = []"
| "token_texts (Token d t # evs) = d # token_texts evs"
| "token_texts (_ # evs) = token_texts evs"

fun is_token :: "chat_event \<Rightarrow> bool" where
  "is_token (Token d t) = True"
| "is_token _ = False"

lemma token_texts_tokens [simp]: "list_all is_token evs \<Longrightarrow> token_texts evs = [] \<longleftrightarrow> evs = []"
  by (induction evs rule: token_texts.induct) auto

lemma parts_step:
  assumes "live st" "feed_sse_line parse st l = (st', delta)"
  shows "st_parts st' = st_parts st @ (if terminal_seen st' then [] else case delta of None \<Rightarrow> [] | Some d \<Rightarrow> if d = [] then [] else [d])"
  using takes_line [OF assms(1), of parse l] assms
  by (cases "frame_of parse (fst l)") (auto simp: live_def terminal_seen_def split: option.splits)

lemma stream_tokens_consume:
  assumes "live st" "stream_tokens parse st ls = (evs, st')"
  shows "st' = consume parse st ls \<and> list_all is_token evs \<and> st_parts st' = st_parts st @ token_texts evs"
  using assms
proof (induction ls arbitrary: st evs)
  case (Cons l ls)
  obtain st1 delta where step: "feed_sse_line parse st l = (st1, delta)" by (cases "feed_sse_line parse st l")
  note parts = parts_step [OF Cons.prems(1) step]
  show ?case
  proof (cases "terminal_seen st1")
    case True
    with Cons.prems step parts show ?thesis by (simp add: Let_def)
  next
    case False
    obtain evs1 where rest: "stream_tokens parse st1 ls = (evs1, st')"
      and evs: "evs = (case delta of None \<Rightarrow> [] | Some d \<Rightarrow> if d = [] then [] else [Token d (st_ttft st1)]) @ evs1"
      using Cons.prems step False by (auto split: prod.splits)
    have "live st1" using False by (simp add: live_def)
    from Cons.IH [OF this rest] show ?thesis
      using False step parts evs by (auto simp: Let_def split: option.splits)
  qed
qed simp

lemma usage_int_JInt [simp]: "usage_int conv (JInt i) = Inr i" "usage_int conv JNull = Inr 0"
  by (auto simp: usage_int_def)

lemma usage_json_roundtrip [simp]: "token_usage_from_dict conv (usage_json u) = Inr u"
  by (cases u) (auto simp: token_usage_from_dict_def usage_json_def dict_of_def or_dict_def jget_def rbind_def)

lemma failed_run_sel [simp]:
  "rn_events (failed_run evs p e) = evs" "rn_posted (failed_run evs p e) = p" "rn_result (failed_run evs p e) = Inl e"
  by (simp_all add: failed_run_def)

text \<open>What a run that ends well has shown its caller.\<close>

definition ends_with :: "(json \<Rightarrow> int res) \<Rightarrow> chat_run \<Rightarrow> string list \<Rightarrow> string \<Rightarrow> token_usage \<Rightarrow> bool" where
  "ends_with conv run toks f u \<longleftrightarrow>
     (\<exists>evs t. rn_events run = evs @ [Finished f u t] \<and> list_all is_token evs \<and> token_texts evs = toks)"

text \<open>A run that failed announces no end, and nothing of a stream it gave up for the second request.\<close>

definition cut_off :: "chat_run \<Rightarrow> bool" where
  "cut_off run \<longleftrightarrow> list_all is_token (rn_events run) \<and> (rn_posted run \<longrightarrow> rn_events run = [])"

lemma finish_run_ends:
  assumes "list_all is_token evs"
  shows "case rn_result (finish_run conv evs p f usage t n) of
      Inl e \<Rightarrow> rn_events (finish_run conv evs p f usage t n) = evs
    | Inr _ \<Rightarrow> (\<exists>f' u. f = Some f' \<and> token_usage_from_dict conv usage = Inr u
         \<and> ends_with conv (finish_run conv evs p f usage t n) (token_texts evs) f' u)"
  using assms by (auto simp: finish_run_def ends_with_def split: option.split sum.split)

lemma finish_run_posted [simp]: "rn_posted (finish_run conv evs p f usage t n) = p"
  by (simp add: finish_run_def split: option.split sum.split)

lemma recover_run_ends:
  "rn_posted (recover_run conv [] post ms n) \<and>
   (case rn_result (recover_run conv [] post ms n) of
      Inl e \<Rightarrow> cut_off (recover_run conv [] post ms n)
    | Inr _ \<Rightarrow> (\<exists>r. rbind post (chat_result_from_response conv) = Inr r \<and> ch_content r \<noteq> []
         \<and> ends_with conv (recover_run conv [] post ms n) [ch_content r] (ch_finish r) (ch_usage r)))"
  by (auto simp: recover_run_def cut_off_def finish_run_def ends_with_def split: sum.split)

text \<open>
  C31: A streamed chat announces its end only after a complete stream whose deltas it has passed on
  unchanged, or after a successful second request with a content that is not empty and with
  nothing of the stream passed on before it. A run that fails announces no end, and one that made
  the second request has then passed on nothing.
\<close>

theorem chat_stream_sound:
  "case rn_result (chat_stream parse conv stream post ms) of
     Inl e \<Rightarrow> cut_off (chat_stream parse conv stream post ms)
   | Inr _ \<Rightarrow>
       if rn_posted (chat_stream parse conv stream post ms)
       then \<exists>r. rbind post (chat_result_from_response conv) = Inr r \<and> ch_content r \<noteq> []
          \<and> ends_with conv (chat_stream parse conv stream post ms) [ch_content r] (ch_finish r) (ch_usage r)
       else \<exists>w pre r. stream = Inr w \<and> completed (frames parse (w_lines w)) = Some pre \<and> stream_answer conv pre r
          \<and> ends_with conv (chat_stream parse conv stream post ms) (deltas pre) (ch_finish r) (ch_usage r)"
  (is "?goal (chat_stream parse conv stream post ms)")
proof (cases stream)
  case (Inl e)
  then show ?thesis by (simp add: chat_stream_def cut_off_def)
next
  case (Inr w)
  obtain evs st where tokens: "stream_tokens parse new_stream (w_lines w) = (evs, st)"
    by (cases "stream_tokens parse new_stream (w_lines w)")
  from stream_tokens_consume [OF live_new this]
  have st: "st = consume parse new_stream (w_lines w)" and evs: "list_all is_token evs" "st_parts st = token_texts evs"
    unfolding new_stream_sel append_Nil by blast+
  have failed: "?goal (failed_run evs False e)" for e using evs by (simp add: cut_off_def)
  have recovered: "?goal (recover_run conv [] post ms n)" for n
    using recover_run_ends [of conv post ms n] by (simp split: sum.split_asm)
  have finished: "?goal (finish_run conv evs False (st_finish st) (st_usage st) (st_ttft st) n)"
    if complete: "incomplete_reason st = None" for n
  proof -
    obtain pre where pre: "completed (frames parse (w_lines w)) = Some pre"
      using complete unfolding st complete_from_new by blast
    from complete_from_newD [OF this] have cs: "complete_state new_stream pre st" unfolding st .
    let ?run = "finish_run conv evs False (st_finish st) (st_usage st) (st_ttft st) n"
    have "\<exists>r. stream_answer conv pre r \<and> ends_with conv ?run (deltas pre) (ch_finish r) (ch_usage r)"
      if ends: "rn_result ?run = Inr x" for x
    proof -
      from finish_run_ends [OF evs(1), of conv False "st_finish st" "st_usage st" "st_ttft st" n] ends
      obtain f u where "st_finish st = Some f" "token_usage_from_dict conv (st_usage st) = Inr u"
        "ends_with conv ?run (token_texts evs) f u" by auto
      then have "stream_answer conv pre \<lparr>ch_content = concat (deltas pre), ch_finish = f, ch_usage = u, ch_ttft = None\<rparr>"
        "ends_with conv ?run (deltas pre) f u"
        using cs evs(2) by (simp_all add: stream_answer_def complete_state_def)
      then show ?thesis by (metis chat_result.select_convs(2,3))
    qed
    with finish_run_ends [OF evs(1), of conv False "st_finish st" "st_usage st" "st_ttft st" n]
    show ?thesis using pre Inr evs(1) by (auto simp: cut_off_def split: sum.splits)
  qed
  have "(\<exists>e. chat_stream parse conv stream post ms = failed_run evs False e)
      \<or> (\<exists>n. chat_stream parse conv stream post ms = recover_run conv [] post ms n)
      \<or> incomplete_reason st = None \<and> (\<exists>n. chat_stream parse conv stream post ms
           = finish_run conv evs False (st_finish st) (st_usage st) (st_ttft st) n)"
    unfolding chat_stream_def Inr sum.case tokens prod.case Let_def
    by (cases "incomplete_reason st") auto
  then show ?thesis
  proof (elim disjE exE conjE)
    fix e assume "chat_stream parse conv stream post ms = failed_run evs False e"
    then show ?thesis using failed by (simp only:)
  next
    fix n assume "chat_stream parse conv stream post ms = recover_run conv [] post ms n"
    then show ?thesis using recovered by (simp only:)
  next
    fix n assume "incomplete_reason st = None"
      and "chat_stream parse conv stream post ms = finish_run conv evs False (st_finish st) (st_usage st) (st_ttft st) n"
    then show ?thesis using finished by (simp only:)
  qed
qed


lemma completed_read_stream:
  "completed (frames parse (w_lines w)) = Some pre \<Longrightarrow> read_stream parse w = Inr (consume parse new_stream (w_lines w))"
  using complete_from_newD [of parse "w_lines w" pre]
  by (simp add: read_stream_def terminal_seen_def complete_state_def)

lemma streamed_attempt_complete:
  assumes "stream = Inr w" "completed (frames parse (w_lines w)) = Some pre" "stream_answer conv pre r"
  shows "streamed_attempt parse conv stream =
    Inr (if ch_content r = [] \<and> ch_finish r = ''stop'' \<or> ch_content r = [] \<and> deltas pre \<noteq> [] then None
         else Some (r\<lparr>ch_ttft := st_ttft (consume parse new_stream (w_lines w))\<rparr>))"
proof -
  let ?st = "consume parse new_stream (w_lines w)"
  have st: "complete_state new_stream pre ?st" using assms(2) by (rule complete_from_newD)
  have ok: "incomplete_reason ?st = None"
    using complete_state_reason [OF st] assms(3) by (simp add: stream_answer_def)
  have fields: "st_parts ?st = deltas pre" "st_finish ?st = Some (ch_finish r)" "concat (deltas pre) = ch_content r"
    "token_usage_from_dict conv (st_usage ?st) = Inr (ch_usage r)"
    using st assms(3) by (simp_all add: complete_state_def stream_answer_def)
  then show ?thesis
    by (cases r) (simp add: streamed_attempt_def assms(1) completed_read_stream [OF assms(2)] ok
        completed_finish_reason_def ended_without_content_def Let_def)
qed

lemma streamed_attempt_answer:
  assumes "streamed_attempt parse conv stream = Inr (Some r)"
  shows "\<exists>w pre. stream = Inr w \<and> completed (frames parse (w_lines w)) = Some pre \<and> stream_answer conv pre r"
proof -
  from assms obtain w st where w: "stream = Inr w" and read: "read_stream parse w = Inr st"
    unfolding streamed_attempt_def rbind_Inr_iff by blast
  have st: "st = consume parse new_stream (w_lines w)"
    using read by (auto simp: read_stream_def Let_def split: if_splits option.splits)
  have ok: "incomplete_reason st = None"
    using assms unfolding w streamed_attempt_def rbind_simps read by (auto split: option.splits)
  then obtain pre where pre: "completed (frames parse (w_lines w)) = Some pre"
    unfolding st complete_from_new by blast
  from complete_from_newD [OF this] have cs: "complete_state new_stream pre st" unfolding st .
  have "stream_answer conv pre r"
    using assms cs unfolding w streamed_attempt_def rbind_simps read ok option.case Let_def
    by (auto simp: rbind_Inr_iff completed_finish_reason_def stream_answer_def complete_state_def
        split: if_splits option.splits)
  with w pre show ?thesis by blast
qed


end
