(* ===== verification/Cites.thy ===== *)
theory Cites
  imports Inventory Prompt
begin

text \<open>
  Citations in a model's answer (\<open>mainframe_rag/agent/cites.py\<close>, \<open>parse_answer\<close> of
  \<open>mainframe_rag/agent/answer.py\<close>): the shape of a citation line, the normalizer that peels the
  markup around one, the split of a reply into body and citations, and the check against the
  manifest of the prompt. Regular expressions are written out as the functions that match them,
  exact on ASCII text and for lines, which hold no line break.
\<close>

section \<open>The shape of a citation\<close>

text \<open>A document number at the start, and what follows it.\<close>

definition docno_rest :: "string \<Rightarrow> string option" where
  "docno_rest s =
     (let n = length (takeWhile is_upper s); t = drop n s; u = drop 3 t; v = drop 4 u in
      if 2 \<le> n \<and> n \<le> 4 \<and> digits_at 2 t \<and> take 1 (drop 2 t) = ''-'' \<and> digits_at 4 u
      then Some (if take 1 v = ''-'' \<and> digits_at 2 (drop 1 v) then drop 3 v else v)
      else None)"

text \<open>A title, a heading path and a page: two commas with white space, the second in front of \<open>p.\<close>.\<close>

definition page_tail :: "string \<Rightarrow> bool" where
  "page_tail s \<longleftrightarrow> prefix ''p.'' s \<and> 4 \<le> length s \<and> is_space (s ! 2)"

definition comma_at :: "string \<Rightarrow> nat \<Rightarrow> bool" where
  "comma_at s i \<longleftrightarrow> Suc i < length s \<and> s ! i = CHR '','' \<and> is_space (s ! Suc i)"

definition heading_tail :: "string \<Rightarrow> bool" where
  "heading_tail s \<longleftrightarrow> list_ex (\<lambda>i. comma_at s i \<and> page_tail (lstrip (drop (Suc i) s))) [1..<length s]"

definition title_tail :: "string \<Rightarrow> bool" where
  "title_tail s \<longleftrightarrow> list_ex (\<lambda>i. comma_at s i \<and> heading_tail (drop (i + 2) s)) [1..<length s]"

definition citation_line :: "string \<Rightarrow> bool" where
  "citation_line s \<longleftrightarrow>
     (case docno_rest (lstrip s) of None \<Rightarrow> False | Some r \<Rightarrow> r \<noteq> [] \<and> is_space (hd r) \<and> title_tail (drop 1 r))"

definition citation_tail :: "string \<Rightarrow> bool" where
  "citation_tail s \<longleftrightarrow> s \<noteq> [] \<and> \<not> is_space (hd s) \<and> title_tail s"

text \<open>What follows a supplied document id that leads the line; the ids in the order they are tried.\<close>

definition known_doc_led :: "string \<Rightarrow> string list \<Rightarrow> string option" where
  "known_doc_led c doc_ids =
     map_option (\<lambda>d. drop (length d + 1) c) (find (\<lambda>d. d \<noteq> [] \<and> prefix (d @ '' '') c) doc_ids)"

text \<open>A file name stem: at least two alphanumeric parts joined by one of \<open>-_.\<close>.\<close>

definition is_joiner :: "char \<Rightarrow> bool" where
  "is_joiner c \<longleftrightarrow> c \<in> {CHR ''-'', CHR ''_'', CHR ''.''}"

fun stem_parts :: "bool \<Rightarrow> string \<Rightarrow> bool" where
  "stem_parts open' [] = (\<not> open')"
| "stem_parts open' (c # cs) = (if is_joiner c then \<not> open' \<and> stem_parts True cs else is_alnum c \<and> stem_parts False cs)"

definition stem_rest :: "string \<Rightarrow> string option" where
  "stem_rest s =
     (let w = takeWhile (\<lambda>c. is_alnum c \<or> is_joiner c) s; r = drop (length w) s in
      if stem_parts True w \<and> list_ex is_joiner w \<and> r \<noteq> [] \<and> is_space (hd r) then Some (lstrip r) else None)"

definition is_citation_shaped :: "string list \<Rightarrow> string \<Rightarrow> bool" where
  "is_citation_shaped doc_ids c \<longleftrightarrow> citation_line c
     \<or> (case known_doc_led c doc_ids of None \<Rightarrow> False | Some r \<Rightarrow> citation_tail r)
     \<or> (case stem_rest c of None \<Rightarrow> False | Some r \<Rightarrow> citation_tail r)"

definition is_docno_led_fragment :: "string list \<Rightarrow> string \<Rightarrow> bool" where
  "is_docno_led_fragment doc_ids c \<longleftrightarrow>
     ((case docno_rest c of None \<Rightarrow> False | Some r \<Rightarrow> r \<noteq> [] \<and> is_space (hd r) \<and> lstrip r \<noteq> [])
        \<or> known_doc_led c doc_ids \<noteq> None)
     \<and> sublist '' > '' c \<and> (c = [] \<or> last c \<notin> {CHR ''.'', CHR ''!'', CHR ''?''})"

section \<open>Peeling markup\<close>

text \<open>One list marker: a bullet, a number with a dot or a parenthesis, or a number in brackets.\<close>

definition bullet_rest :: "string \<Rightarrow> string option" where
  "bullet_rest s =
     (case s of
        c # r \<Rightarrow> if c = CHR ''-'' \<or> c = CHR ''*'' then Some r
                else if prefix [CHR 0xE2, CHR 0x80, CHR 0xA2] s then Some (drop 3 s) else None
      | [] \<Rightarrow> None)"

definition spaced :: "string \<Rightarrow> string option" where
  "spaced r = (if r \<noteq> [] \<and> is_space (hd r) then Some (lstrip r) else None)"

definition number_rest :: "string \<Rightarrow> string option" where
  "number_rest s =
     (let r = dropWhile is_digit s in
      if s \<noteq> [] \<and> is_digit (hd s) \<and> r \<noteq> [] \<and> hd r \<in> {CHR ''.'', CHR '')''} then spaced (tl r) else None)"

definition bracket_rest :: "string \<Rightarrow> string option" where
  "bracket_rest s =
     (case s of
        c # t \<Rightarrow>
          let r = dropWhile is_digit t in
          if c = CHR ''['' \<and> t \<noteq> [] \<and> is_digit (hd t) \<and> r \<noteq> [] \<and> hd r = CHR '']''
          then Some (lstrip (if take 1 (tl r) = '':'' then drop 2 r else tl r)) else None
      | [] \<Rightarrow> None)"

definition marker_rest :: "string \<Rightarrow> string option" where
  "marker_rest s =
     (case Option.bind (bullet_rest s) spaced of
        Some r \<Rightarrow> Some r
      | None \<Rightarrow> (case number_rest s of Some r \<Rightarrow> Some r | None \<Rightarrow> bracket_rest s))"

lemma lstrip_le: "length (lstrip s) \<le> length s"
  by (simp add: lstrip_def length_dropWhile_le)

lemma spaced_shorter: "spaced r = Some t \<Longrightarrow> length t \<le> length r"
  using lstrip_le [of r] by (auto simp: spaced_def split: if_splits)

lemma bullet_shorter: "bullet_rest s = Some r \<Longrightarrow> length r < length s"
  by (auto simp: bullet_rest_def split: list.splits if_splits)

lemma number_shorter: "number_rest s = Some r \<Longrightarrow> length r < length s"
  using length_dropWhile_le [of is_digit s]
  by (cases "dropWhile is_digit s") (auto simp: number_rest_def Let_def dest!: spaced_shorter split: if_splits)

lemma bracket_shorter: "bracket_rest s = Some r \<Longrightarrow> length r < length s"
proof -
  assume a: "bracket_rest s = Some r"
  then obtain t where s: "s = CHR ''['' # t" by (auto simp: bracket_rest_def Let_def split: list.splits if_splits)
  let ?d = "dropWhile is_digit t"
  have "length r \<le> length ?d"
    using a lstrip_le [of "drop 2 ?d"] lstrip_le [of "tl ?d"] by (auto simp: s bracket_rest_def Let_def split: if_splits)
  also have "\<dots> \<le> length t" by (rule length_dropWhile_le)
  finally show ?thesis by (simp add: s)
qed

lemma marker_shorter: "marker_rest s = Some r \<Longrightarrow> length r < length s"
  using bullet_shorter spaced_shorter number_shorter bracket_shorter
  by (fastforce simp: marker_rest_def bind_eq_Some_conv split: option.splits)

function strip_markers :: "string \<Rightarrow> string" where
  "strip_markers s = (case marker_rest s of None \<Rightarrow> s | Some r \<Rightarrow> strip_markers r)"
  by pat_completeness auto
termination by (relation "measure length") (auto dest: marker_shorter)

declare strip_markers.simps [simp del]

definition inner :: "string \<Rightarrow> string" where
  "inner c = strip (butlast (tl c))"

definition enclosed :: "string \<Rightarrow> string \<Rightarrow> string \<Rightarrow> bool" where
  "enclosed a b c \<longleftrightarrow> length a + length b \<le> length c \<and> prefix a c \<and> suffix b c"

definition unquote :: "string \<Rightarrow> string" where
  "unquote c = (if prefix ''>'' c then strip (dropWhile ((=) (CHR ''>'')) c) else c)"

definition unwrap :: "string \<Rightarrow> string" where
  "unwrap c =
     (if 2 \<le> length c \<and> hd c = last c \<and> hd c \<in> {CHR 0x60, CHR 0x22, CHR 0x27, CHR ''*'', CHR ''_''} then inner c else c)"

definition unwrap_curly :: "string \<Rightarrow> string" where
  "unwrap_curly c =
     (if enclosed [CHR 0xE2, CHR 0x80, CHR 0x9C] [CHR 0xE2, CHR 0x80, CHR 0x9D] c
         \<or> enclosed [CHR 0xE2, CHR 0x80, CHR 0x98] [CHR 0xE2, CHR 0x80, CHR 0x99] c
      then strip (take (length c - 6) (drop 3 c)) else c)"

text \<open>\<open>[x](url)\<close> becomes \<open>x\<close>.\<close>

fun before_link :: "string \<Rightarrow> string option" where
  "before_link [] = None"
| "before_link (c # cs) = (if prefix '']('' (c # cs) then Some [] else map_option ((#) c) (before_link cs))"

definition unlink :: "string \<Rightarrow> string" where
  "unlink c =
     (if prefix ''['' c \<and> suffix '')'' c then (case before_link c of None \<Rightarrow> c | Some x \<Rightarrow> drop 1 x) else c)"

definition unangle :: "string \<Rightarrow> string" where
  "unangle c = (if prefix ''<'' c \<and> suffix ''>'' c then inner c else c)"

definition unparen :: "string \<Rightarrow> string" where
  "unparen c = (if prefix ''('' c \<and> suffix '')'' c then inner c else c)"

definition peel_pass :: "string \<Rightarrow> string" where
  "peel_pass c = unparen (unangle (unlink (unwrap_curly (unwrap (unquote (strip_markers c))))))"

fun peel :: "nat \<Rightarrow> string \<Rightarrow> string" where
  "peel 0 c = c"
| "peel (Suc n) c = (if peel_pass c = c then c else peel n (peel_pass c))"

definition normalize_citation_line :: "string \<Rightarrow> string" where
  "normalize_citation_line line = peel (Suc (length (strip line))) (strip line)"

section \<open>Body and citations\<close>

text \<open>A header line: a word with an optional plural, a colon, and markup around them.\<close>

definition header_line :: "string list \<Rightarrow> string \<Rightarrow> bool" where
  "header_line words line \<longleftrightarrow>
     (let is_mark = (\<lambda>c. c \<in> {CHR ''*'', CHR ''_'', CHR 0x60});
          s = lstrip line;
          h = length (takeWhile ((=) (CHR ''#'')) s);
          t = dropWhile is_mark (if 1 \<le> h then lstrip (drop h s) else s) in
      h \<le> 6 \<and> list_ex (\<lambda>w. prefix w (casefold t)
        \<and> (let r = dropWhile is_mark (drop (length w) t) in
           r \<noteq> [] \<and> hd r = CHR '':'' \<and> lstrip (dropWhile is_mark (tl r)) = [])) words)"

definition citations_header :: "string \<Rightarrow> bool" where
  "citations_header line \<longleftrightarrow> header_line [''citations'', ''citation''] line"

definition alias_header :: "string \<Rightarrow> bool" where
  "alias_header line \<longleftrightarrow> header_line [''sources'', ''source'', ''references'', ''reference''] line"

record extraction =
  ex_body :: "string list"
  ex_raw :: "string list"
  ex_in :: bool
  ex_bullets :: bool
  ex_pending :: "string option"
  ex_seen :: bool

definition extract_line :: "string list \<Rightarrow> string set \<Rightarrow> extraction \<Rightarrow> string \<Rightarrow> extraction" where
  "extract_line doc_ids allowed x line =
     (if citations_header line \<or> alias_header line
      then x\<lparr>ex_in := True, ex_bullets := citations_header line,
             ex_pending := (if citations_header line then None else Some line), ex_seen := False\<rparr>
      else if ex_in x then
        (let raw = strip line; c = normalize_citation_line raw in
         if raw = [] then (if ex_seen x then x\<lparr>ex_in := False\<rparr> else x)
         else if c \<in> allowed \<or> is_citation_shaped doc_ids c \<or> ex_bullets x \<and> marker_rest raw \<noteq> None
         then x\<lparr>ex_raw := ex_raw x @ [c], ex_pending := None, ex_seen := True\<rparr>
         else x\<lparr>ex_in := False, ex_pending := None,
                ex_body := ex_body x @ (case ex_pending x of None \<Rightarrow> [] | Some h \<Rightarrow> [h]) @ [line]\<rparr>)
      else x\<lparr>ex_body := ex_body x @ [line]\<rparr>)"

definition extract_body_and_citations :: "string list \<Rightarrow> string set \<Rightarrow> string \<Rightarrow> string \<times> string list" where
  "extract_body_and_citations doc_ids allowed txt =
     (let x = foldl (extract_line doc_ids allowed)
            \<lparr>ex_body = [], ex_raw = [], ex_in = False, ex_bullets = False, ex_pending = None, ex_seen = False\<rparr>
            (splitlines txt) in
      (join_with [newline] (ex_body x), ex_raw x))"

text \<open>The lines from the end: what is left in front, reversed, and the attempts in their order.\<close>

fun trailing :: "string list \<Rightarrow> string set \<Rightarrow> string list \<Rightarrow> string list \<Rightarrow> string list \<times> string list" where
  "trailing doc_ids allowed attempts [] = ([], attempts)"
| "trailing doc_ids allowed attempts (line # before) =
     (if strip line = [] then trailing doc_ids allowed attempts before
      else
        let c = normalize_citation_line line in
        if c \<notin> allowed \<and> \<not> is_citation_shaped doc_ids c then (line # before, attempts)
        else trailing doc_ids allowed (c # attempts) before)"

definition extract_trailing_citations :: "string list \<Rightarrow> string set \<Rightarrow> string \<Rightarrow> string \<times> string list" where
  "extract_trailing_citations doc_ids allowed txt =
     (case trailing doc_ids allowed [] (rev (splitlines txt)) of (before, attempts) \<Rightarrow>
        (join_with [newline] (rev before), attempts))"

definition unauthorized :: "string list \<Rightarrow> string set \<Rightarrow> string \<Rightarrow> bool" where
  "unauthorized doc_ids allowed line \<longleftrightarrow>
     (let c = normalize_citation_line line in
      c \<notin> allowed \<and> (is_citation_shaped doc_ids c \<or> is_docno_led_fragment doc_ids c))"

definition authorized :: "string list \<Rightarrow> string set \<Rightarrow> string \<Rightarrow> bool" where
  "authorized doc_ids allowed line \<longleftrightarrow> \<not> unauthorized doc_ids allowed line"

definition unauthorized_lines :: "string list \<Rightarrow> string set \<Rightarrow> string list \<Rightarrow> string list" where
  "unauthorized_lines doc_ids allowed lines = filter (unauthorized doc_ids allowed) lines"

definition split_unauthorized_citations :: "string list \<Rightarrow> string set \<Rightarrow> string \<Rightarrow> string \<times> string list" where
  "split_unauthorized_citations doc_ids allowed txt =
     (join_with [newline] (filter (authorized doc_ids allowed) (splitlines txt)),
      map normalize_citation_line (unauthorized_lines doc_ids allowed (splitlines txt)))"

section \<open>Code fences\<close>

text \<open>\<open>FENCE_RE\<close> at a position: the language, the code and what follows the closing fence.\<close>

definition fence :: string where "fence = [CHR 0x60, CHR 0x60, CHR 0x60]"

fun split_at_fence :: "string \<Rightarrow> (string \<times> string) option" where
  "split_at_fence [] = None"
| "split_at_fence (c # cs) =
     (if prefix fence (c # cs) then Some ([], drop 3 (c # cs))
      else map_option (\<lambda>(a, b). (c # a, b)) (split_at_fence cs))"

definition is_lang :: "char \<Rightarrow> bool" where
  "is_lang c \<longleftrightarrow> is_alnum c \<or> c = CHR ''_'' \<or> c = CHR ''-''"

definition fence_at :: "string \<Rightarrow> (string \<times> string \<times> string) option" where
  "fence_at s =
     (if \<not> prefix fence s then None
      else case dropWhile is_lang (drop 3 s) of
        [] \<Rightarrow> None
      | c # r \<Rightarrow> if c \<noteq> newline then None
          else map_option (\<lambda>(code, rest). (takeWhile is_lang (drop 3 s), code, rest)) (split_at_fence r))"

lemma split_at_fence_shorter: "split_at_fence s = Some (a, b) \<Longrightarrow> length b < length s"
  by (induction s arbitrary: a) (auto split: if_splits)

lemma fence_at_shorter: "fence_at s = Some (l, c, r) \<Longrightarrow> length r < length s"
proof -
  assume "fence_at s = Some (l, c, r)"
  then obtain x t where "dropWhile is_lang (drop 3 s) = x # t" "split_at_fence t = Some (c, r)"
    by (auto simp: fence_at_def split: if_splits list.splits)
  then show ?thesis
    using split_at_fence_shorter length_dropWhile_le [of is_lang "drop 3 s"] by fastforce
qed

datatype piece = Gap char | Fence string string

function pieces :: "string \<Rightarrow> piece list" where
  "pieces s =
     (case fence_at s of
        Some (lang, code, rest) \<Rightarrow> Fence (strip (casefold lang)) (strip code) # pieces rest
      | None \<Rightarrow> (case s of [] \<Rightarrow> [] | c # cs \<Rightarrow> Gap c # pieces cs))"
  by pat_completeness auto
termination by (relation "measure length") (auto dest: fence_at_shorter)

declare pieces.simps [simp del]

definition script_langs :: "string list" where
  "script_langs = [''jcl'', ''rexx'', ''sh'', ''bash'', ''shell'', ''python'', ''py'', ''yaml'', ''yml'', ''json'',
     ''ops'', ''rule'', ''parmlib'']"

definition piece_script :: "piece \<Rightarrow> (string \<times> string) list" where
  "piece_script p = (case p of Fence lang code \<Rightarrow> if lang \<in> set script_langs then [(lang, code)] else [] | _ \<Rightarrow> [])"

definition piece_text :: "piece \<Rightarrow> string" where
  "piece_text p =
     (case p of Gap c \<Rightarrow> [c]
      | Fence lang code \<Rightarrow> if lang \<in> set script_langs \<or> lang \<in> {''thought'', ''thinking''} then [] else code)"

section \<open>Inline markers\<close>

text \<open>The digits of \<open>[1]\<close> or \<open>[1, 2]\<close> at a position, and what follows.\<close>

fun inline_numbers :: "nat \<Rightarrow> string \<Rightarrow> (string list \<times> string) option" where
  "inline_numbers 0 s = None"
| "inline_numbers (Suc n) s =
     (let d = takeWhile is_digit (lstrip s); r = lstrip (dropWhile is_digit (lstrip s)) in
      if d = [] \<or> r = [] then None
      else if hd r = CHR '']'' then Some ([d], tl r)
      else if hd r = CHR '','' then map_option (\<lambda>(ds, t). (d # ds, t)) (inline_numbers n (tl r))
      else None)"

definition inline_at :: "string \<Rightarrow> (string list \<times> string) option" where
  "inline_at s = (case s of c # r \<Rightarrow> if c = CHR ''['' then inline_numbers (length r) r else None | [] \<Rightarrow> None)"

lemma inline_numbers_shorter: "inline_numbers n s = Some (ds, t) \<Longrightarrow> length t < length s"
proof (induction n arbitrary: s ds)
  case (Suc n)
  let ?r = "lstrip (dropWhile is_digit (lstrip s))"
  have le: "length ?r \<le> length s"
    using lstrip_le [of s] lstrip_le [of "dropWhile is_digit (lstrip s)"] length_dropWhile_le [of is_digit "lstrip s"] by linarith
  from Suc.prems obtain ds' where r: "?r \<noteq> []" and or: "t = tl ?r \<or> inline_numbers n (tl ?r) = Some (ds', t)"
    by (auto simp: Let_def split: if_splits)
  have "length (tl ?r) < length ?r" using r by simp
  moreover have "length t \<le> length (tl ?r)" using or Suc.IH [of "tl ?r" ds'] by auto
  ultimately show ?case using le by linarith
qed simp

function inline_groups :: "string \<Rightarrow> string list list" where
  "inline_groups s =
     (case inline_at s of
        Some (ds, rest) \<Rightarrow> ds # inline_groups rest
      | None \<Rightarrow> (case s of [] \<Rightarrow> [] | c # cs \<Rightarrow> inline_groups cs))"
  by pat_completeness auto
termination
  by (relation "measure length")
     (auto simp: inline_at_def dest: inline_numbers_shorter split: list.splits if_splits)

declare inline_groups.simps [simp del]

definition nat_of_digits :: "string \<Rightarrow> nat" where
  "nat_of_digits ds = foldl (\<lambda>n c. 10 * n + (of_char c - 48)) 0 ds"

definition marker_indices :: "string \<Rightarrow> nat list" where
  "marker_indices txt = map nat_of_digits (filter (\<lambda>d. length d \<le> 9) (concat (inline_groups txt)))"

section \<open>Parsing an answer\<close>

record parsed_answer =
  pa_answer :: string
  pa_citations :: "string list"
  pa_script :: "string option"
  pa_lang :: "string option"
  pa_inferred :: bool
  pa_indices :: "nat list"
  pa_abstained :: bool
  pa_bracket :: bool
  pa_header :: bool
  pa_shape_bad :: nat
  pa_unmapped :: nat

definition supplied_doc_ids :: "prompt_evidence \<Rightarrow> string list" where
  "supplied_doc_ids ev = filter (\<lambda>d. d \<noteq> []) (remdups (map en_doc (pe_entries ev)))"

text \<open>The validated citations, and the rejected lines with their counts.\<close>

record validation =
  va_citations :: "string list"
  va_rejected :: "string set"
  va_bad :: nat
  va_unmapped :: nat

definition validate_line :: "string list \<Rightarrow> string set \<Rightarrow> validation \<Rightarrow> string \<Rightarrow> validation" where
  "validate_line doc_ids allowed v c =
     (if c \<in> allowed then (if c \<in> set (va_citations v) then v else v\<lparr>va_citations := va_citations v @ [c]\<rparr>)
      else if c \<in> va_rejected v then v
      else if is_citation_shaped doc_ids c
      then v\<lparr>va_rejected := insert c (va_rejected v), va_unmapped := va_unmapped v + 1\<rparr>
      else v\<lparr>va_rejected := insert c (va_rejected v), va_bad := va_bad v + 1\<rparr>)"

definition count_rejected :: "string list \<Rightarrow> string set \<times> nat \<Rightarrow> string \<Rightarrow> string set \<times> nat" where
  "count_rejected doc_ids acc c =
     (if c \<in> fst acc \<or> \<not> is_citation_shaped doc_ids c then acc else (insert c (fst acc), snd acc + 1))"

definition infer_index :: "prompt_evidence \<Rightarrow> string list \<times> nat list \<Rightarrow> nat \<Rightarrow> string list \<times> nat list" where
  "infer_index ev acc i =
     (case cite_for_index ev i of
        None \<Rightarrow> acc
      | Some cite \<Rightarrow> if cite \<in> set (fst acc) then acc else (fst acc @ [cite], snd acc @ [i]))"

definition newline_lines :: "string \<Rightarrow> string list" where
  "newline_lines s = (let r = foldr (\<lambda>c acc. if c = newline then [] # acc else (c # hd acc) # tl acc) s [[]] in r)"

definition has_header :: "string \<Rightarrow> bool" where
  "has_header txt \<longleftrightarrow> list_ex (\<lambda>l. CHR 0x0D \<notin> set l \<and> citations_header l) (newline_lines txt)"

text \<open>\<open>is_abstention\<close> is an argument: what follows holds for every such predicate.\<close>

definition parse_answer :: "(string \<Rightarrow> string list \<Rightarrow> bool) \<Rightarrow> string \<Rightarrow> prompt_evidence \<Rightarrow> parsed_answer" where
  "parse_answer is_abstention content ev =
     (let allowed = allowed_citations ev; doc_ids = supplied_doc_ids ev; ps = pieces content;
          txt = concat (map piece_text ps); scripts = concat (map piece_script ps);
          (before, trailing_cites) = extract_trailing_citations doc_ids allowed txt;
          (body0, raw) = extract_body_and_citations doc_ids allowed before;
          v = foldl (validate_line doc_ids allowed)
                \<lparr>va_citations = [], va_rejected = {}, va_bad = 0, va_unmapped = 0\<rparr> (raw @ trailing_cites);
          (inferred, indices) =
            (if va_citations v = [] \<and> pe_entries ev \<noteq> [] then foldl (infer_index ev) ([], []) (marker_indices txt)
             else (va_citations v, []));
          (body, body_rejected) = split_unauthorized_citations doc_ids allowed body0;
          unmapped = snd (foldl (count_rejected doc_ids) (va_rejected v, va_unmapped v) body_rejected);
          abstained = is_abstention body inferred
      in \<lparr>pa_answer = strip body, pa_citations = (if abstained then [] else inferred),
          pa_script = (if scripts = [] then None else Some (strip (join_with [newline, newline] (map snd scripts)))),
          pa_lang = (case scripts of [] \<Rightarrow> None | s # _ \<Rightarrow> Some (fst s)),
          pa_inferred = (\<not> abstained \<and> indices \<noteq> []), pa_indices = (if abstained then [] else indices),
          pa_abstained = abstained, pa_bracket = (inline_groups txt \<noteq> []), pa_header = has_header txt,
          pa_shape_bad = va_bad v, pa_unmapped = unmapped\<rparr>)"

text \<open>The state of a finished answer; \<open>has_body\<close> tells whether it holds prose beside its citations.\<close>

definition verification_state_for ::
    "(string \<Rightarrow> string list \<Rightarrow> bool) \<Rightarrow> string \<Rightarrow> string list \<Rightarrow> bool \<Rightarrow> string \<Rightarrow> bool \<Rightarrow> bool \<Rightarrow> bool \<Rightarrow> string" where
  "verification_state_for has_body answer citations inferred finish abstained empty_hits script_present =
     (if empty_hits then ''insufficient_evidence''
      else if finish \<noteq> ''stop'' then ''generation_incomplete''
      else if abstained then ''insufficient_evidence''
      else if \<not> has_body answer citations
      then (if script_present then ''unverified_draft'' else ''generation_incomplete'')
      else if citations = [] \<or> inferred then ''unverified_draft''
      else ''accepted'')"


section \<open>Peeling ends\<close>

definition shrinks :: "(string \<Rightarrow> string) \<Rightarrow> bool" where
  "shrinks f \<longleftrightarrow> (\<forall>c. f c = c \<or> length (f c) < length c)"

lemma shrinksI: "(\<And>c. f c = c \<or> length (f c) < length c) \<Longrightarrow> shrinks f"
  by (simp add: shrinks_def)

lemma shrinks_le: "shrinks f \<Longrightarrow> length (f c) \<le> length c"
  unfolding shrinks_def by (metis less_imp_le order_refl)

lemma shrinks_comp: "shrinks f \<Longrightarrow> shrinks g \<Longrightarrow> shrinks (\<lambda>c. f (g c))"
  unfolding shrinks_def by (metis order.strict_trans)

lemma strip_le: "length (strip s) \<le> length s"
  using length_rstrip [of "lstrip s"] lstrip_le [of s] by (simp add: strip_def)

lemma inner_shorter: "c \<noteq> [] \<Longrightarrow> length (inner c) < length c"
  using strip_le [of "butlast (tl c)"] by (cases c) (auto simp: inner_def)

lemma before_link_shorter: "before_link c = Some x \<Longrightarrow> length x < length c"
  by (induction c arbitrary: x) (auto split: if_splits)

lemma strip_markers_shrinks: "strip_markers c = c \<or> length (strip_markers c) < length c"
proof (induction c rule: strip_markers.induct)
  case (1 s)
  show ?case
  proof (cases "marker_rest s")
    case None
    then show ?thesis by (subst strip_markers.simps) simp
  next
    case (Some r)
    then have "strip_markers s = strip_markers r" by (subst strip_markers.simps) simp
    with 1 [OF Some] marker_shorter [OF Some] show ?thesis by auto
  qed
qed

lemma peel_steps_shrink:
  "shrinks strip_markers" "shrinks unquote" "shrinks unwrap" "shrinks unwrap_curly" "shrinks unlink" "shrinks unangle"
  "shrinks unparen"
proof -
  show "shrinks strip_markers" by (rule shrinksI, rule strip_markers_shrinks)
  show "shrinks unquote"
  proof (rule shrinksI)
    fix c show "unquote c = c \<or> length (unquote c) < length c"
    proof (cases "prefix ''>'' c")
      case True
      then obtain t where c: "c = CHR ''>'' # t" by (cases c) auto
      have "length (strip (dropWhile ((=) (CHR ''>'')) t)) \<le> length t"
        using strip_le [of "dropWhile ((=) (CHR ''>'')) t"] length_dropWhile_le [of "(=) (CHR ''>'')" t] by linarith
      then show ?thesis by (simp add: unquote_def c)
    qed (simp add: unquote_def)
  qed
  show "shrinks unwrap" by (rule shrinksI) (auto simp: unwrap_def intro: inner_shorter)
  show "shrinks unwrap_curly"
  proof (rule shrinksI)
    fix c show "unwrap_curly c = c \<or> length (unwrap_curly c) < length c"
    proof (cases "6 \<le> length c")
      case True
      have "length (strip (take (length c - 6) (drop 3 c))) < length c"
        using strip_le [of "take (length c - 6) (drop 3 c)"] True by simp
      then show ?thesis by (auto simp: unwrap_curly_def)
    qed (auto simp: unwrap_curly_def enclosed_def)
  qed
  show "shrinks unlink"
  proof (rule shrinksI)
    fix c show "unlink c = c \<or> length (unlink c) < length c"
      using before_link_shorter [of c] by (fastforce simp: unlink_def split: option.split)
  qed
  show "shrinks unangle" by (rule shrinksI) (auto simp: unangle_def intro: inner_shorter)
  show "shrinks unparen" by (rule shrinksI) (auto simp: unparen_def intro: inner_shorter)
qed

lemma peel_pass_shrinks: "shrinks peel_pass"
proof -
  note S = peel_steps_shrink
  from shrinks_comp [OF S(7) shrinks_comp [OF S(6) shrinks_comp [OF S(5) shrinks_comp [OF S(4) shrinks_comp [OF S(3)
        shrinks_comp [OF S(2) S(1)]]]]]]
  show ?thesis unfolding peel_pass_def [abs_def] .
qed

lemma peel_pass_step: "peel_pass c = c \<or> length (peel_pass c) < length c"
  using peel_pass_shrinks by (simp add: shrinks_def)

lemma peel_fixed: "length c \<le> n \<Longrightarrow> peel_pass (peel (Suc n) c) = peel (Suc n) c"
proof (induction n arbitrary: c)
  case 0
  then have "peel_pass c = c" using peel_pass_step [of c] by auto
  then show ?case by simp
next
  case (Suc n)
  show ?case
  proof (cases "peel_pass c = c")
    case False
    then have "length (peel_pass c) \<le> n" using peel_pass_step [of c] Suc.prems by linarith
    note Suc.IH [OF this]
    moreover have "peel (Suc (Suc n)) c = peel (Suc n) (peel_pass c)" using False by (subst peel.simps(2)) simp
    ultimately show ?thesis by (simp only:)
  qed simp
qed

section \<open>Grounding\<close>

lemma cite_for_index_allowed: "cite_for_index ev i = Some c \<Longrightarrow> c \<in> allowed_citations ev"
  by (auto simp: cite_for_index_def allowed_citations_def find_Some_iff)

lemma validated:
  assumes "set (va_citations v) \<subseteq> allowed" "distinct (va_citations v)"
  shows "set (va_citations (foldl (validate_line doc_ids allowed) v cs)) \<subseteq> allowed
    \<and> distinct (va_citations (foldl (validate_line doc_ids allowed) v cs))"
  using assms
proof (induction cs arbitrary: v)
  case (Cons c cs)
  have "set (va_citations (validate_line doc_ids allowed v c)) \<subseteq> allowed \<and> distinct (va_citations (validate_line doc_ids allowed v c))"
    using Cons.prems by (simp add: validate_line_def)
  with Cons.IH show ?case by simp
qed simp

abbreviation resolves :: "prompt_evidence \<Rightarrow> string \<Rightarrow> nat \<Rightarrow> bool" where
  "resolves ev c i \<equiv> cite_for_index ev i = Some c"

lemma inferred:
  assumes "list_all2 (resolves ev) (fst acc) (snd acc)" "distinct (fst acc)"
  shows "list_all2 (resolves ev) (fst (foldl (infer_index ev) acc ns)) (snd (foldl (infer_index ev) acc ns))
    \<and> distinct (fst (foldl (infer_index ev) acc ns))"
  using assms
proof (induction ns arbitrary: acc)
  case (Cons n ns)
  have "list_all2 (resolves ev) (fst (infer_index ev acc n)) (snd (infer_index ev acc n)) \<and> distinct (fst (infer_index ev acc n))"
    using Cons.prems by (auto simp: infer_index_def list_all2_appendI split: option.split)
  with Cons.IH show ?case by simp
qed simp

lemma resolved_allowed: "list_all2 (resolves ev) cs ns \<Longrightarrow> set cs \<subseteq> allowed_citations ev"
  by (induction cs ns rule: list_all2_induct) (auto dest: cite_for_index_allowed)

text \<open>What a parsed answer is: its citations come from the manifest, and so do the citation lines of its body.\<close>

definition grounded :: "prompt_evidence \<Rightarrow> parsed_answer \<Rightarrow> bool" where
  "grounded ev pa \<longleftrightarrow> set (pa_citations pa) \<subseteq> allowed_citations ev \<and> distinct (pa_citations pa)
     \<and> (pa_abstained pa \<longrightarrow> pa_citations pa = [] \<and> \<not> pa_inferred pa)
     \<and> (pa_inferred pa \<longrightarrow> list_all2 (resolves ev) (pa_citations pa) (pa_indices pa))
     \<and> (\<exists>kept. pa_answer pa = strip (join_with [newline] kept)
          \<and> (\<forall>l \<in> set kept. \<not> unauthorized (supplied_doc_ids ev) (allowed_citations ev) l))"

lemma parse_answer_grounded: "grounded ev (parse_answer is_abstention content ev)"
proof -
  let ?allowed = "allowed_citations ev" and ?ids = "supplied_doc_ids ev"
  let ?txt = "concat (map piece_text (pieces content))"
  obtain before trail where t: "extract_trailing_citations ?ids ?allowed ?txt = (before, trail)"
    by (cases "extract_trailing_citations ?ids ?allowed ?txt")
  obtain body0 raw where b: "extract_body_and_citations ?ids ?allowed before = (body0, raw)"
    by (cases "extract_body_and_citations ?ids ?allowed before")
  let ?v = "foldl (validate_line ?ids ?allowed) \<lparr>va_citations = [], va_rejected = {}, va_bad = 0, va_unmapped = 0\<rparr> (raw @ trail)"
  have v: "set (va_citations ?v) \<subseteq> ?allowed" "distinct (va_citations ?v)"
    using validated [of "\<lparr>va_citations = [], va_rejected = {}, va_bad = 0, va_unmapped = 0\<rparr>" ?allowed ?ids "raw @ trail"] by simp_all
  let ?inf = "if va_citations ?v = [] \<and> pe_entries ev \<noteq> [] then foldl (infer_index ev) ([], []) (marker_indices ?txt)
    else (va_citations ?v, [])"
  obtain cs is' where inf: "?inf = (cs, is')" by (cases ?inf)
  have cs: "set cs \<subseteq> ?allowed \<and> distinct cs \<and> (is' \<noteq> [] \<longrightarrow> list_all2 (resolves ev) cs is')"
    using inf v inferred [of ev "([], [])" "marker_indices ?txt"] resolved_allowed by (auto split: if_splits)
  obtain body rejected where s: "split_unauthorized_citations ?ids ?allowed body0 = (body, rejected)"
    by (cases "split_unauthorized_citations ?ids ?allowed body0")
  have kept: "\<exists>kept. strip body = strip (join_with [newline] kept) \<and> (\<forall>l \<in> set kept. \<not> unauthorized ?ids ?allowed l)"
    using s by (intro exI [of _ "filter (authorized ?ids ?allowed) (splitlines body0)"])
      (auto simp: split_unauthorized_citations_def authorized_def)
  show ?thesis
    unfolding parse_answer_def Let_def t b s prod.case inf grounded_def
    using cs kept by simp
qed

section \<open>Properties\<close>

text \<open>
  C38: The bound of the peeling loop is enough. The normalized line is a fixed point: no supported
  marker, quote or pair of brackets is left around it, however deep they were nested.
\<close>

theorem normalize_reaches_fixed_point:
  "peel_pass (normalize_citation_line line) = normalize_citation_line line"
  unfolding normalize_citation_line_def by (rule peel_fixed) simp


text \<open>
  C36: What an answer cites was in the prompt. For a prompt that was fitted to the window, every
  citation of the parsed answer is the citation of a hit whose excerpt the sent messages show,
  with the recorded range of its text; an excerpt that was trimmed away is never cited.
\<close>

theorem answer_cites_the_prompt:
  assumes "detects_inside detect"
    and "build_prompt detect system tail_part (Some T) (Some W) caps requested R hits = Inr pp"
  shows "\<exists>packed older. candidate (frame_for system tail_part R) packed older = Inr (pp_messages pp)
    \<and> (\<forall>c \<in> set (pa_citations (parse_answer is_abstention content (pp_evidence pp))).
         \<exists>p \<in> set packed. reproduces hits p \<and> sh_cite (px_hit p) = c)"
proof -
  obtain packed older where p: "packed_ok hits packed" "candidate (frame_for system tail_part R) packed older = Inr (pp_messages pp)"
    "pp_evidence pp = prompt_evidence detect packed (length hits)"
    using build_prompt_verified [OF assms] by blast
  have "allowed_citations (pp_evidence pp) = (\<lambda>p. sh_cite (px_hit p)) ` set packed"
    by (force simp: p(3) allowed_citations_def prompt_evidence_def evidence_entry_def Let_def)
  moreover have "set (pa_citations (parse_answer is_abstention content (pp_evidence pp))) \<subseteq> allowed_citations (pp_evidence pp)"
    using parse_answer_grounded by (simp add: grounded_def)
  ultimately have "\<forall>c \<in> set (pa_citations (parse_answer is_abstention content (pp_evidence pp))).
      \<exists>p \<in> set packed. reproduces hits p \<and> sh_cite (px_hit p) = c"
    using p(1) by (fastforce simp: packed_ok_def)
  with p(2) show ?thesis by blast
qed

section \<open>Witnesses\<close>

definition demo_manifest :: prompt_evidence where
  "demo_manifest = prompt_evidence (\<lambda>_. []) [packed_excerpt 1 demo_hit ''Text.'' (0, 5, 0)] 1"

lemma demo_answer_accepted:
  "let pa = parse_answer (\<lambda>_ _. False) (''Yes.'' @ [newline] @ ''Citations:'' @ [newline] @ ''- D T, H, p. 1'') demo_manifest in
     verification_state_for (\<lambda>_ _. True) (pa_answer pa) (pa_citations pa) (pa_inferred pa) ''stop'' (pa_abstained pa) False False
       = ''accepted''"
  by code_simp


lemma answer_cites_the_prompt_witness:
  "\<exists>(pp :: prepared_prompt) packed older. candidate (frame_for [] [] demo_request) packed older = Inr (pp_messages pp)
     \<and> map en_included (pe_entries (pp_evidence pp)) = [5]
     \<and> (\<forall>c \<in> set (pa_citations (parse_answer (\<lambda>_ _. False) ''Yes [1].'' (pp_evidence pp))). c = sh_cite demo_hit)"
proof -
  obtain pp where pp: "build_prompt (\<lambda>_. []) [] [] (Some (demo_tokenizer 700)) (Some demo_window) demo_caps None demo_request [demo_hit] = Inr pp"
    and shown: "map en_included (pe_entries (pp_evidence pp)) = [5]"
    using demo_prompt_fits by (cases "build_prompt (\<lambda>_. []) [] [] (Some (demo_tokenizer 700)) (Some demo_window) demo_caps None demo_request [demo_hit]") auto
  have "detects_inside (\<lambda>_. [])" by (simp add: detects_inside_def spans_inside_def)
  from answer_cites_the_prompt [OF this pp, of "\<lambda>_ _. False" "''Yes [1].''"] obtain packed older where
    c: "candidate (frame_for [] [] demo_request) packed older = Inr (pp_messages pp)"
    and p: "\<forall>c \<in> set (pa_citations (parse_answer (\<lambda>_ _. False) ''Yes [1].'' (pp_evidence pp))).
      \<exists>p \<in> set packed. reproduces [demo_hit] p \<and> sh_cite (px_hit p) = c" by blast
  have hit: "\<And>p. reproduces [demo_hit] p \<Longrightarrow> sh_cite (px_hit p) = sh_cite demo_hit"
    by (auto simp: reproduces_def less_Suc_eq)
  have "\<forall>c \<in> set (pa_citations (parse_answer (\<lambda>_ _. False) ''Yes [1].'' (pp_evidence pp))). c = sh_cite demo_hit"
  proof
    fix c assume "c \<in> set (pa_citations (parse_answer (\<lambda>_ _. False) ''Yes [1].'' (pp_evidence pp)))"
    with p obtain p' where "reproduces [demo_hit] p'" "sh_cite (px_hit p') = c" by meson
    with hit show "c = sh_cite demo_hit" by metis
  qed
  then show ?thesis using c shown by - (rule exI [of _ pp], rule exI [of _ packed], rule exI [of _ older], intro conjI)
qed

end
