(* ===== verification/Spec2Isabelle.thy ===== *)
theory Spec2Isabelle
  imports Placement Identity Admission Fusion Coverage Staging Listing Serving Stream Cites
begin

text \<open>
  A verification of the retrieval service over mainframe manuals (\<open>src/src/mainframe_rag\<close>).

  \<^bold>\<open>The program.\<close> An ingest run walks a corpus of PDF files, turns every file into chunks, embeds
  them and stores them as points of a Qdrant collection; a publication then checks what was
  stored, seals it and moves the serving alias to it. An agent answers requests from the
  published build: it admits a bounded number of requests, decides which build may serve,
  searches and ranks hits, packs them into a prompt for a language model, and hands out references
  by which the cited text can be read back exactly.

  \<^bold>\<open>Parts and theories.\<close> Each theory has the definitions of its Python module in the order of that
  module, under the same names where the logic allows them; \<open>PROJECT.json\<close> maps every definition
  to its lines.

  \<^item> \<open>Prelude\<close>: JSON values, exceptions as values, generic lemmas. \<open>Canonical\<close>: the canonical JSON
    text the digests are taken over, as locales over the escaping (\<open>quoted\<close>, \<open>value_text\<close>), so that
    the ASCII form and the wide form of the agent share their injectivity proofs.
  \<^item> \<open>Effects\<close>: computations over the outside world, with weakest preconditions; \<open>Frame\<close>: what a
    computation leaves alone. \<open>Store\<close> (\<open>ports.py\<close>): the Qdrant client as a record of calls. The
    server is not part of the repository, so what the code relies on is stated by the locales
    \<open>qdrant_reader\<close>, \<open>qdrant_store\<close>, \<open>qdrant_finishes\<close>, \<open>qdrant_missing\<close> and \<open>qdrant_publisher\<close>, and
    each is interpreted on \<open>mem_client\<close>, the in-memory client of the repository's test suite.
  \<^item> \<open>Config\<close> (\<open>config.py\<close>): the settings the modelled code reads, and their bounds.
  \<^item> \<open>Placement\<close> (\<open>ingest/placement.py\<close>): the placement policy and the verdicts over collections and
    the cluster, equivalent to declarative conditions on the observations.
  \<^item> \<open>Identity\<close> (\<open>ingest/identity.py\<close>): source labels, revision keys and duplicate planning.
    \<open>Payload\<close> (\<open>ingest/payload.py\<close>, \<open>ingest/build.py\<close>): what a chunk becomes as a point.
  \<^item> \<open>Qdrant_IO\<close> (\<open>ingest/qdrant_io.py\<close>): scans, upserts, clones and the alias swap.
    \<open>Representation\<close> (\<open>ingest/representation.py\<close>): the manifest of a collection and the two gates
    on it.
  \<^item> \<open>Completion\<close> (\<open>ingest/completion.py\<close>): markers, verification of stored points, the skip gate and
    retirement. \<open>Upsert\<close> (\<open>ingest/run_ingest.py\<close>): the upsert stage of one document.
    \<open>Inventory\<close> (\<open>ingest/inventory.py\<close>, \<open>ingest/bounds.py\<close>): the progress log over its bytes.
  \<^item> \<open>Catalog\<close>, \<open>Seal\<close>, \<open>Build\<close> (\<open>ingest/catalog.py\<close>, \<open>seal.py\<close>, \<open>build.py\<close>) and \<open>Receipt\<close>, \<open>Staging\<close>,
    \<open>Coverage\<close> (\<open>ingest/publish.py\<close>): the source catalog, the content seal, the build binding, the
    receipt, the staging collection and the gate in front of the alias swap.
  \<^item> \<open>Admission\<close> (\<open>agent/admission.py\<close>): the admission controller as a step relation. \<open>Serving\<close>
    (\<open>agent/serving.py\<close>): which generation a request is answered from, and its cache as a step
    relation. \<open>Fusion\<close> (\<open>retrieve/query.py\<close>): hits, rank fusion and diversification.
  \<^item> \<open>Reference\<close>, \<open>Evidence\<close>, \<open>Listing\<close> (\<open>agent/evidence.py\<close>): tokens over their bytes, evidence and
    its envelope, exact reads under an access authority (locale \<open>authority\<close>), the paged listing.

  \<^bold>\<open>How the parts interact.\<close> \<open>Completion\<close> certifies what \<open>Upsert\<close> wrote through \<open>Qdrant_IO\<close>;
  \<open>Coverage\<close> asks for such certificates for every document of the walk; \<open>Seal\<close> and \<open>Receipt\<close> bind
  the checked content to a build; \<open>Serving\<close> and \<open>Evidence\<close> accept a build by that binding alone.
  The theorems about one part rest on lemmas about the parts it calls, never on assumptions on
  them; only code outside the repository is assumed about.

  \<^bold>\<open>Correspondence.\<close> A Python \<open>str\<close> is the list of its UTF-8 bytes; functions that count or classify
  characters are exact on ASCII text and say so. Integers are \<open>int\<close> or \<open>nat\<close>, since Python's are
  unbounded; the base-64 tokens are words of 6 and 8 bits. An exception is a value of the result
  type with its class, a tag for the fixed words of its message and the interpolated values. A
  call that changes the store takes and returns the state of the world, also when it raises: a
  write that raises may have been applied in part. Hashing, the clock, UUIDs and the lax
  conversions of pydantic are parameters (\<open>libs\<close>); a theorem that needs two digests to differ says
  so for the texts at hand.

  \<^bold>\<open>Bounds and fuel.\<close> A scan reads pages until the server reports the last one. Its budget
  \<open>cl_budget\<close> exceeds the number of points of every collection (a law of \<open>qdrant_reader\<close>), and each
  page but the last holds at least one point, so the budget is never used up: the exception class
  \<open>Unfinished\<close> that would say so is excluded by the theorems on the scans. Every other loop is
  structural recursion.

  \<^bold>\<open>Not modelled.\<close> The FastAPI wiring of \<open>agent/app.py\<close> and the worker pools, retries and progress
  reporting of \<open>run_ingest.py\<close> (their decisions are the functions modelled here); PDF parsing and
  chunking (\<open>ingest/chunk.py\<close>, \<open>ibm_pdf.py\<close>), whose result is determined by third-party text
  extraction and regular expressions; embedding, which calls a server; file locks and other
  operating-system calls; the scripts under \<open>src/scripts\<close>.
\<close>

end
